(* ===== verification/Hs_Prelude.thy ===== *)
theory Hs_Prelude
  imports Main "HOL-Library.Word" "HOL-Library.Monad_Syntax" "HOL-Library.Multiset"
begin

unbundle bit_operations_syntax

text \<open>
  Shared vocabulary of the development: names for the machine types of
  \<^verbatim>\<open>utilities/globalDefinitions.hpp\<close>, the checked array accesses all components use, and the
  generic lemmas on lists, options and words that carry their proofs.

  The modelled platform is linux-amd64 (LP64, little endian), product build:
  \<^verbatim>\<open>assert\<close> is compiled out, \<^verbatim>\<open>guarantee\<close> and \<^verbatim>\<open>ShouldNotReachHere\<close> stop the VM.
  A C++ array is a HOL list.  Reading or writing outside of it is undefined behaviour in the
  source, so \<open>array_get\<close> and \<open>array_put\<close> return \<open>None\<close> there, and every operation that
  touches memory is a computation in the option monad: \<open>None\<close> means that the access falls
  outside of the array (or that the VM is stopped), never a silent default.
\<close>

section \<open>Machine types\<close>

type_synonym u1 = "8 word"
type_synonym u2 = "16 word"
type_synonym u4 = "32 word"
type_synonym u8 = "64 word"
type_synonym jbyte = "8 word"
type_synonym jchar = "16 word"
type_synonym jint = "32 word"
type_synonym juint = "32 word"
type_synonym jlong = "64 word"
type_synonym uintptr = "64 word"

section \<open>Checked array accesses\<close>

definition array_get :: "'a list \<Rightarrow> nat \<Rightarrow> 'a option" where
  "array_get xs i = (if i < length xs then Some (xs ! i) else None)"

definition array_put :: "'a list \<Rightarrow> nat \<Rightarrow> 'a \<Rightarrow> 'a list option" where
  "array_put xs i v = (if i < length xs then Some (xs[i := v]) else None)"

named_theorems mem_simps \<open>evaluation of checked array accesses\<close>

lemma array_get_Some [mem_simps]: "i < length xs \<Longrightarrow> array_get xs i = Some (xs ! i)"
  by (simp add: array_get_def)

lemma array_get_None [mem_simps]: "length xs \<le> i \<Longrightarrow> array_get xs i = None"
  by (simp add: array_get_def)

lemma array_get_eq_Some [mem_simps]:
  "array_get xs i = Some v \<longleftrightarrow> i < length xs \<and> v = xs ! i"
  by (auto simp: array_get_def)

lemma array_put_Some [mem_simps]: "i < length xs \<Longrightarrow> array_put xs i v = Some (xs[i := v])"
  by (simp add: array_put_def)

lemma array_put_None [mem_simps]: "length xs \<le> i \<Longrightarrow> array_put xs i v = None"
  by (simp add: array_put_def)

lemma array_put_eq_Some [mem_simps]:
  "array_put xs i v = Some ys \<longleftrightarrow> i < length xs \<and> ys = xs[i := v]"
  by (auto simp: array_put_def)

section \<open>Options\<close>

text \<open>A computation succeeds with a result that satisfies a postcondition.\<close>

definition succeeds :: "'a option \<Rightarrow> ('a \<Rightarrow> bool) \<Rightarrow> bool" where
  "succeeds m Q \<longleftrightarrow> (case m of None \<Rightarrow> False | Some x \<Rightarrow> Q x)"

named_theorems vcg \<open>rules that push a postcondition through a computation\<close>

lemma succeeds_Some [simp]: "succeeds (Some x) Q = Q x"
  by (simp add: succeeds_def)

lemma succeeds_None [simp]: "\<not> succeeds None Q"
  by (simp add: succeeds_def)

lemma succeeds_bind [vcg]: "succeeds (m \<bind> f) Q = succeeds m (\<lambda>x. succeeds (f x) Q)"
  by (cases m) simp_all

lemma succeeds_weaken: "succeeds m P \<Longrightarrow> (\<And>x. P x \<Longrightarrow> Q x) \<Longrightarrow> succeeds m Q"
  by (cases m) auto

lemma succeeds_iff: "succeeds m Q \<longleftrightarrow> (\<exists>x. m = Some x \<and> Q x)"
  by (cases m) auto

lemma succeedsE:
  assumes "succeeds m Q"
  obtains x where "m = Some x" "Q x"
  using assms by (auto simp: succeeds_iff)

lemma succeeds_get [vcg]:
  "succeeds (array_get xs i) Q \<longleftrightarrow> i < length xs \<and> Q (xs ! i)"
  by (simp add: array_get_def)

lemma succeeds_put [vcg]:
  "succeeds (array_put xs i v) Q \<longleftrightarrow> i < length xs \<and> Q (xs[i := v])"
  by (simp add: array_put_def)

lemma bind_eq_Some [simp]:
  "(m \<bind> f) = Some y \<longleftrightarrow> (\<exists>x. m = Some x \<and> f x = Some y)"
  by (cases m) auto

section \<open>Words\<close>

lemma word_bit_ext:
  fixes a b :: "'a::len word"
  assumes "\<And>n. n < LENGTH('a) \<Longrightarrow> bit a n = bit b n"
  shows "a = b"
  using assms by (rule bit_word_eqI)

lemma word_neq_0_bit: "(w :: 'a::len word) \<noteq> 0 \<longleftrightarrow> (\<exists>n < LENGTH('a). bit w n)"
  by (metis bit_0_eq bot_apply bot_bool_def word_bit_ext)

lemma bit_minus_1_word: "bit (- 1 :: 'a::len word) n \<longleftrightarrow> n < LENGTH('a)"
  by (simp add: bit_simps)

lemma word_odd_iff_bit0: "odd (w :: 'a::len word) \<longleftrightarrow> bit w 0"
  by (simp add: bit_0)

lemma word_and_1_eq_0: "(w :: 'a::len word) AND 1 = 0 \<longleftrightarrow> \<not> bit w 0"
  by (simp add: and_one_eq bit_0 even_iff_mod_2_eq_zero)

lemma ucast_of_unat: "(ucast (w::'a::len word) :: 'b::len word) = of_nat (unat w)"
  by simp

lemma unat_of_nat_small: "n < 2 ^ LENGTH('a) \<Longrightarrow> unat (of_nat n :: 'a::len word) = n"
  by (simp add: unsigned_of_nat take_bit_nat_eq_self)

lemma ucast_of_nat_small: "n < 2 ^ LENGTH('a) \<Longrightarrow> (ucast (of_nat n :: 'a::len word) :: 'b::len word) = of_nat n"
  by (simp add: ucast_of_unat unat_of_nat_small del: of_nat_unat)

lemma unat_bound: "unat (w :: 'a::len word) < 2 ^ LENGTH('a)"
  by (rule unsigned_less)

lemma unat_shift: "w \<noteq> 0 \<Longrightarrow> unat (drop_bit 1 w) < unat w" for w :: "'a::len word"
  by (subst unat_drop_bit_eq) (simp add: drop_bit_eq_div unat_gt_0)

section \<open>Integer division\<close>

lemma int_div_eq_iff:
  assumes "0 < (s::int)"
  shows "a div s = q \<longleftrightarrow> q * s \<le> a \<and> a < q * s + s"
proof
  assume "a div s = q"
  moreover have "a = a div s * s + a mod s" by (rule div_mult_mod_eq [symmetric])
  moreover have "0 \<le> a mod s" "a mod s < s" using assms by simp_all
  ultimately show "q * s \<le> a \<and> a < q * s + s" by simp
next
  assume "q * s \<le> a \<and> a < q * s + s"
  then show "a div s = q" by (intro int_div_pos_eq [of a s q "a - q * s"]) (auto simp: mult.commute)
qed

section \<open>Loops\<close>

text \<open>
  The C++ loop \<^verbatim>\<open>for (i = beg; i < end; i++)\<close> over a state: \<open>for_loop\<close> runs the body to the end,
  \<open>for_return\<close> leaves the loop with \<open>Inl r\<close> when the body executes \<^verbatim>\<open>return r\<close>.
\<close>

function for_loop :: "nat \<Rightarrow> nat \<Rightarrow> (nat \<Rightarrow> 's \<Rightarrow> 's option) \<Rightarrow> 's \<Rightarrow> 's option" where
  "for_loop i n body s =
     (if i < n then do { s' \<leftarrow> body i s; for_loop (Suc i) n body s' } else Some s)"
  by pat_completeness auto
termination
  by (relation "measure (\<lambda>(i, n, body, s). n - i)") auto

function for_return ::
    "nat \<Rightarrow> nat \<Rightarrow> (nat \<Rightarrow> 's \<Rightarrow> ('r + 's) option) \<Rightarrow> 's \<Rightarrow> ('r + 's) option" where
  "for_return i n body s =
     (if i < n
      then do {
        x \<leftarrow> body i s;
        (case x of Inl r \<Rightarrow> Some (Inl r) | Inr s' \<Rightarrow> for_return (Suc i) n body s')
      }
      else Some (Inr s))"
  by pat_completeness auto
termination
  by (relation "measure (\<lambda>(i, n, body, s). n - i)") auto

declare for_loop.simps [simp del] for_return.simps [simp del]

lemma for_loop_stop [simp]: "n \<le> i \<Longrightarrow> for_loop i n body s = Some s"
  by (simp add: for_loop.simps)

lemma for_return_stop [simp]: "n \<le> i \<Longrightarrow> for_return i n body s = Some (Inr s)"
  by (simp add: for_return.simps)

lemma for_loop_step: "i < n \<Longrightarrow> for_loop i n body s = body i s \<bind> for_loop (Suc i) n body"
  by (simp add: for_loop.simps [of i])

lemma for_return_step:
  "i < n \<Longrightarrow> for_return i n body s =
     body i s \<bind> (\<lambda>x. case x of Inl r \<Rightarrow> Some (Inl r) | Inr s' \<Rightarrow> for_return (Suc i) n body s')"
  by (simp add: for_return.simps [of i])

lemmas loop_eval = for_loop_step for_return_step

lemma for_loop_cong:
  assumes "n = n'" "s = s'" "\<And>k s. i \<le> k \<Longrightarrow> k < n' \<Longrightarrow> body k s = body' k s"
  shows "for_loop i n body s = for_loop i n' body' s'"
  unfolding assms(1,2) using assms(3)
proof (induction "n' - i" arbitrary: i s')
  case (Suc d)
  then have lt: "i < n'" and "d = n' - Suc i" by auto
  with Suc show ?case by (cases "body' i s'") (auto simp: for_loop_step)
qed simp

text \<open>Invariant rules: the state at index \<open>k\<close> satisfies \<open>I k\<close>.\<close>

lemma for_loop_rule:
  assumes "i \<le> n" "I i s"
    and "\<And>k s. i \<le> k \<Longrightarrow> k < n \<Longrightarrow> I k s \<Longrightarrow> succeeds (body k s) (I (Suc k))"
  shows "succeeds (for_loop i n body s) (I n)"
  using assms
proof (induction "n - i" arbitrary: i s)
  case 0
  then show ?case by simp
next
  case (Suc d)
  then have lt: "i < n" by simp
  with Suc.prems have "succeeds (body i s) (I (Suc i))" by simp
  then obtain s' where "body i s = Some s'" "I (Suc i) s'" by (rule succeedsE)
  moreover have "succeeds (for_loop (Suc i) n body s') (I n)"
    by (rule Suc.hyps(1)) (use Suc.hyps(2) Suc.prems calculation lt in auto)
  ultimately show ?case using lt by (simp add: for_loop.simps [of i])
qed

lemma for_return_rule:
  assumes "i \<le> n" "I i s"
    and "\<And>k s. i \<le> k \<Longrightarrow> k < n \<Longrightarrow> I k s \<Longrightarrow>
        succeeds (body k s) (\<lambda>x. case x of Inl r \<Rightarrow> Q r | Inr s' \<Rightarrow> I (Suc k) s')"
  shows "succeeds (for_return i n body s) (\<lambda>x. case x of Inl r \<Rightarrow> Q r | Inr s' \<Rightarrow> I n s')"
  using assms
proof (induction "n - i" arbitrary: i s)
  case 0
  then show ?case by simp
next
  case (Suc d)
  then have lt: "i < n" by simp
  with Suc.prems have "succeeds (body i s) (\<lambda>x. case x of Inl r \<Rightarrow> Q r | Inr s' \<Rightarrow> I (Suc i) s')"
    by simp
  then obtain x where x: "body i s = Some x" "case x of Inl r \<Rightarrow> Q r | Inr s' \<Rightarrow> I (Suc i) s'"
    by (rule succeedsE)
  show ?case
  proof (cases x)
    case (Inl r)
    then show ?thesis using x lt by (simp add: for_return.simps [of i])
  next
    case (Inr s')
    have "succeeds (for_return (Suc i) n body s') (\<lambda>x. case x of Inl r \<Rightarrow> Q r | Inr s' \<Rightarrow> I n s')"
      by (rule Suc.hyps(1)) (use Suc.hyps(2) Suc.prems x Inr lt in auto)
    then show ?thesis using x Inr lt by (simp add: for_return.simps [of i])
  qed
qed

end
