(* ===== verification/Global_Definitions.thy ===== *)
theory Global_Definitions
  imports Hs_Prelude
begin

text \<open>
  \<^verbatim>\<open>utilities/globalDefinitions.hpp\<close>: bit masks, powers of two, alignment, and the splitting of
  \<^verbatim>\<open>jlong\<close>s.  The alignment helpers are used on several integer types, so they are defined for
  every ring with bit operations: on \<open>int\<close> they describe the arithmetic without overflow, on
  \<open>64 word\<close> the wrap-around arithmetic of the machine.
\<close>

section \<open>Bit masks\<close>

definition BitsPerWord :: nat where
  "BitsPerWord = 64"

definition LogBitsPerWord :: nat where
  "LogBitsPerWord = 6"

definition mask_bits :: "'a::ring_bit_operations \<Rightarrow> 'a \<Rightarrow> 'a" where
  "mask_bits x m = x AND m"

definition nth_bit :: "nat \<Rightarrow> uintptr" where
  "nth_bit n = (if n \<ge> BitsPerWord then 0 else push_bit n 1)"

definition right_n_bits :: "nat \<Rightarrow> uintptr" where
  "right_n_bits n = nth_bit n - 1"

definition left_n_bits :: "nat \<Rightarrow> uintptr" where
  "left_n_bits n = push_bit (if n \<ge> BitsPerWord then 0 else BitsPerWord - n) (right_n_bits n)"

definition is_power_of_2 :: "'a::ring_bit_operations \<Rightarrow> bool" where
  "is_power_of_2 x \<longleftrightarrow> x \<noteq> 0 \<and> mask_bits x (x - 1) = 0"

section \<open>Alignment\<close>

definition round_to :: "'a::ring_bit_operations \<Rightarrow> 'a \<Rightarrow> 'a" where
  "round_to x s = (let m = s - 1 in mask_bits (x + m) (NOT m))"

definition round_down :: "'a::ring_bit_operations \<Rightarrow> 'a \<Rightarrow> 'a" where
  "round_down x s = (let m = s - 1 in mask_bits x (NOT m))"

definition align_size_up :: "'a::ring_bit_operations \<Rightarrow> 'a \<Rightarrow> 'a" where
  "align_size_up sz alignment = (sz + (alignment - 1)) AND NOT (alignment - 1)"

definition align_size_down :: "'a::ring_bit_operations \<Rightarrow> 'a \<Rightarrow> 'a" where
  "align_size_down sz alignment = sz AND NOT (alignment - 1)"

definition is_size_aligned :: "'a::ring_bit_operations \<Rightarrow> 'a \<Rightarrow> bool" where
  "is_size_aligned sz alignment \<longleftrightarrow> align_size_up sz alignment = sz"

definition align_size_down_bounded :: "uintptr \<Rightarrow> uintptr \<Rightarrow> uintptr" where
  "align_size_down_bounded sz alignment =
     (let aligned_size = align_size_down sz alignment
      in if aligned_size > 0 then aligned_size else alignment)"

definition clamp_address_in_page :: "uintptr \<Rightarrow> uintptr \<Rightarrow> uintptr \<Rightarrow> uintptr" where
  "clamp_address_in_page addr page_address page_size =
     (if align_size_down addr page_size = align_size_down page_address page_size then addr
      else if addr > page_address then align_size_down page_address page_size + page_size
      else align_size_down page_address page_size)"

section \<open>Integer logarithm\<close>

text \<open>The loop of \<^verbatim>\<open>log2_intptr\<close>: \<open>p\<close> doubles until it exceeds \<open>x\<close> or wraps to 0.\<close>

definition lowest_bit :: "'a::len word \<Rightarrow> nat" where
  "lowest_bit p = (LEAST n. bit p n)"

lemma lowest_bit_less:
  fixes p :: "'a::len word"
  assumes "p \<noteq> 0"
  shows "lowest_bit p < LENGTH('a)"
proof -
  obtain k where "bit p k" "k < LENGTH('a)" using assms word_neq_0_bit by blast
  then show ?thesis
    unfolding lowest_bit_def by (meson Least_le le_less_trans)
qed

lemma lowest_bit_double:
  fixes p :: "'a::len word"
  assumes "p * 2 \<noteq> 0"
  shows "lowest_bit p < lowest_bit (p * 2)" and "lowest_bit (p * 2) < LENGTH('a)"
proof -
  have eq: "bit (p * 2) n \<longleftrightarrow> n < LENGTH('a) \<and> 0 < n \<and> bit p (n - 1)" for n
    by (cases n) (auto simp: bit_double_iff mult.commute [of p] bit_imp_le_length)
  obtain k where k: "bit (p * 2) k" using assms word_neq_0_bit by blast
  have L: "bit (p * 2) (lowest_bit (p * 2))"
    unfolding lowest_bit_def using k by (rule LeastI)
  then have pos: "0 < lowest_bit (p * 2)" and b: "bit p (lowest_bit (p * 2) - 1)"
    by (simp_all add: eq)
  from b have "lowest_bit p \<le> lowest_bit (p * 2) - 1"
    unfolding lowest_bit_def [of p] by (rule Least_le)
  with pos show "lowest_bit p < lowest_bit (p * 2)" by linarith
  from L show "lowest_bit (p * 2) < LENGTH('a)" by (simp add: eq)
qed

function log2_loop :: "uintptr \<Rightarrow> uintptr \<Rightarrow> int \<Rightarrow> int" where
  "log2_loop x p i = (if p \<noteq> 0 \<and> p \<le> x then log2_loop x (p * 2) (i + 1) else i)"
  by pat_completeness auto
termination
proof (relation "measure (\<lambda>(x, p, i). if p = 0 then 0 else 65 - lowest_bit p)")
  fix x p :: uintptr and i :: int
  assume "p \<noteq> 0 \<and> p \<le> x"
  then show "((x, p * 2, i + 1), (x, p, i))
      \<in> measure (\<lambda>(x, p, i). if p = 0 then 0 else 65 - lowest_bit p)"
    using lowest_bit_double [of p] lowest_bit_less [of p] by (cases "p * 2 = 0") auto
qed simp

declare log2_loop.simps [simp del]

definition log2_intptr :: "uintptr \<Rightarrow> int" where
  "log2_intptr x = log2_loop x 1 (- 1)"

section \<open>Halves of a long\<close>

definition low :: "jlong \<Rightarrow> jint" where
  "low value = ucast value"

definition high :: "jlong \<Rightarrow> jint" where
  "high value = ucast (signed_drop_bit 32 value)"

definition set_low :: "jlong \<Rightarrow> jint \<Rightarrow> jlong" where
  "set_low value l = (value AND push_bit 32 0xffffffff) OR ucast l"

definition set_high :: "jlong \<Rightarrow> jint \<Rightarrow> jlong" where
  "set_high value h = (value AND 0xffffffff) OR push_bit 32 (scast h)"

definition jlong_from :: "jint \<Rightarrow> jint \<Rightarrow> jlong" where
  "jlong_from h l = set_low (set_high 0 h) l"

section \<open>Lemmas\<close>

lemma right_n_bits_mask: "right_n_bits n = mask n"
  by (cases "n < 64") (auto simp: right_n_bits_def nth_bit_def BitsPerWord_def mask_eq_exp_minus_1
      push_bit_eq_mult)

lemma bit_right_n_bits: "bit (right_n_bits n) k \<longleftrightarrow> k < 64 \<and> k < n"
  by (auto simp: right_n_bits_mask bit_simps)

lemma bit_left_n_bits: "bit (left_n_bits n) k \<longleftrightarrow> k < 64 \<and> 64 \<le> k + n"
  by (auto simp: left_n_bits_def BitsPerWord_def bit_simps bit_right_n_bits)

lemma and_not_mask_int: "(x::int) AND NOT (mask k) = x div 2 ^ k * 2 ^ k"
proof -
  have "x AND NOT (mask k) = push_bit k (drop_bit k x)"
    by (rule bit_eqI) (auto simp: bit_simps)
  then show ?thesis by (simp add: push_bit_eq_mult drop_bit_eq_div)
qed

lemma round_down_int: "round_down (x::int) (2 ^ k) = x div 2 ^ k * 2 ^ k"
  by (simp add: round_down_def mask_bits_def and_not_mask_int flip: mask_eq_exp_minus_1)

lemma round_to_int: "round_to (x::int) (2 ^ k) = (x + (2 ^ k - 1)) div 2 ^ k * 2 ^ k"
  by (simp add: round_to_def mask_bits_def and_not_mask_int flip: mask_eq_exp_minus_1)

lemma align_size_up_round_to: "align_size_up x s = round_to x s"
  by (simp add: align_size_up_def round_to_def mask_bits_def Let_def)

lemma align_size_down_round_down: "align_size_down x s = round_down x s"
  by (simp add: align_size_down_def round_down_def mask_bits_def Let_def)

lemma round_to_int_bounds:
  "x \<le> round_to (x::int) (2 ^ k)" "round_to x (2 ^ k) < x + 2 ^ k" "2 ^ k dvd round_to x (2 ^ k)"
proof -
  let ?s = "2 ^ k :: int"
  have s: "0 < ?s" by simp
  have e: "(x + (?s - 1)) = (x + (?s - 1)) div ?s * ?s + (x + (?s - 1)) mod ?s"
    by (rule div_mult_mod_eq [symmetric])
  have m: "0 \<le> (x + (?s - 1)) mod ?s" "(x + (?s - 1)) mod ?s < ?s" using s by simp_all
  show "x \<le> round_to x ?s" "round_to x ?s < x + ?s" "?s dvd round_to x ?s"
    using e m unfolding round_to_int by (linarith, linarith, simp)
qed

lemma round_to_int_least:
  assumes "x \<le> y" "2 ^ k dvd (y::int)"
  shows "round_to x (2 ^ k) \<le> y"
proof -
  obtain c where y: "y = 2 ^ k * c" using assms(2) by blast
  let ?s = "2 ^ k :: int"
  obtain d where d: "round_to x ?s = ?s * d" using round_to_int_bounds(3) [of k x] by blast
  have "?s * d < ?s * (c + 1)"
    using round_to_int_bounds(2) [of x k] assms(1) y d by (simp add: distrib_left)
  then have "d \<le> c" by simp
  then show ?thesis using d y by simp
qed

lemma round_to_aligned: "2 ^ k dvd (x::int) \<Longrightarrow> round_to x (2 ^ k) = x"
  using round_to_int_least [of x x k] round_to_int_bounds(1) [of x k] by simp

lemma uint_and_not_mask: "uint (x AND NOT (mask k) :: uintptr) = uint x div 2 ^ k * 2 ^ k"
proof -
  have "x AND NOT (mask k) = push_bit k (drop_bit k x)"
    by (rule bit_word_eqI) (auto simp: bit_simps)
  moreover have "uint (push_bit k (drop_bit k x)) = uint x div 2 ^ k * 2 ^ k"
  proof -
    have "uint (push_bit k (drop_bit k x)) = uint x AND NOT (mask k)"
      by (rule bit_eqI) (auto simp: bit_simps dest: bit_imp_le_length)
    then show ?thesis by (simp add: and_not_mask_int)
  qed
  ultimately show ?thesis by simp
qed

lemma jlong_half_masks:
  "push_bit 32 0xffffffff = (NOT (mask 32) :: jlong)" "0xffffffff = (mask 32 :: jlong)"
  by (simp_all add: mask_eq_exp_minus_1)

lemmas jlong_halves_def = jlong_from_def set_high_def set_low_def high_def low_def

lemma jlong_from_high_low [simp]: "jlong_from (high v) (low v) = v"
  unfolding jlong_halves_def jlong_half_masks
  by (rule bit_word_eqI) (auto simp: bit_simps simp del: mask_numeral dest: bit_imp_le_length)

lemma high_jlong_from [simp]: "high (jlong_from h l) = h"
  unfolding jlong_halves_def jlong_half_masks
  by (rule bit_word_eqI) (auto simp: bit_simps simp del: mask_numeral dest: bit_imp_le_length)

lemma low_jlong_from [simp]: "low (jlong_from h l) = l"
  unfolding jlong_halves_def jlong_half_masks
  by (rule bit_word_eqI) (auto simp: bit_simps simp del: mask_numeral dest: bit_imp_le_length)

lemma unat_power_of_2:
  assumes "j < 64"
  shows "unat (2 ^ j :: uintptr) = 2 ^ j"
proof -
  have "unat (word_of_nat (2 ^ j) :: uintptr) = take_bit 64 (2 ^ j)"
    by (simp only: unsigned_of_nat) simp
  also have "\<dots> = 2 ^ j" using assms by (simp add: take_bit_nat_eq_self)
  finally show ?thesis by simp
qed

lemma uint_power_of_2: "j < 64 \<Longrightarrow> uint (2 ^ j :: uintptr) = 2 ^ j"
  by (metis of_nat_numeral of_nat_power uint_nat unat_power_of_2)

lemma log2_loop_spec:
  assumes "j \<le> 64" "j = 0 \<or> 2 ^ (j - 1) \<le> unat x"
  shows "\<exists>r. log2_loop x (2 ^ j) (int j - 1) = int r - 1 \<and> unat x < 2 ^ r \<and> (r = 0 \<or> 2 ^ (r - 1) \<le> unat x)"
  using assms
proof (induction "64 - j" arbitrary: j)
  case 0
  then have j: "j = 64" by simp
  have "(2 :: uintptr) ^ 64 = 0" by simp
  then have "log2_loop x (2 ^ j) (int j - 1) = int j - 1"
    by (subst log2_loop.simps) (simp add: j)
  moreover have "unat x < 2 ^ 64" using unsigned_less [of x, where ?'a = nat] by simp
  ultimately show ?case using 0 j by (intro exI [of _ 64]) simp
next
  case (Suc d)
  then have j: "j < 64" by simp
  have p: "unat (2 ^ j :: uintptr) = 2 ^ j" using j by (rule unat_power_of_2)
  have p0: "(2 ^ j :: uintptr) \<noteq> 0" using p by (metis power_not_zero unat_0 zero_neq_numeral)
  show ?case
  proof (cases "2 ^ j \<le> unat x")
    case True
    then have "log2_loop x (2 ^ j) (int j - 1) = log2_loop x (2 ^ Suc j) (int (Suc j) - 1)"
      using j by (subst log2_loop.simps) (simp add: p0 word_le_nat_alt p mult.commute)
    moreover have "\<exists>r. log2_loop x (2 ^ Suc j) (int (Suc j) - 1) = int r - 1
        \<and> unat x < 2 ^ r \<and> (r = 0 \<or> 2 ^ (r - 1) \<le> unat x)"
      by (rule Suc.hyps(1)) (use Suc.hyps(2) j True in auto)
    ultimately show ?thesis by metis
  next
    case False
    then have "log2_loop x (2 ^ j) (int j - 1) = int j - 1"
      by (subst log2_loop.simps) (simp add: word_le_nat_alt p)
    then show ?thesis using False Suc.prems by auto
  qed
qed

lemma log2_intptr_bounds:
  obtains r where "log2_intptr x = int r - 1" "unat x < 2 ^ r" "r = 0 \<or> 2 ^ (r - 1) \<le> unat x"
  using log2_loop_spec [of 0 x] by (auto simp: log2_intptr_def)

lemma log2_intptr_negative:
  assumes "sint x < 0"
  shows "log2_intptr x = 63"
proof -
  obtain r where r: "log2_intptr x = int r - 1" "unat x < 2 ^ r" "r = 0 \<or> 2 ^ (r - 1) \<le> unat x"
    by (rule log2_intptr_bounds)
  have "bit x 63" using assms bit_last_iff [of x] by simp
  then have "bit (unat x) 63" by (simp add: bit_unsigned_iff)
  then have "odd (unat x div 2 ^ 63)" by (simp add: bit_iff_odd del: odd_iff_mod_2_eq_one)
  then have "2 ^ 63 \<le> unat x" by (metis div_less even_zero not_le)
  then have big: "2 ^ 63 < (2 :: nat) ^ r" using r(2) by linarith
  have "unat x < 2 ^ 64" using unsigned_less [of x, where ?'a = nat] by simp
  then have "(2 :: nat) ^ (r - 1) < 2 ^ 64" using r(3) big by (auto intro: le_less_trans)
  then have "r - 1 < 64" by (rule power_less_imp_less_exp [rotated]) simp
  moreover have "63 < r" using big by (rule power_less_imp_less_exp [rotated]) simp
  ultimately show ?thesis using r(1) by simp
qed

text \<open>
  \<^verbatim>\<open>log2_intptr\<close> of a non-zero argument is the exponent of the largest power of two that is
  not above it, read as unsigned; of a negative argument it is 63.
\<close>

lemma log2_intptr_spec:
  assumes "x \<noteq> 0"
  shows "(\<exists>r. log2_intptr x = int r \<and> 2 ^ r \<le> unat x \<and> unat x < 2 ^ Suc r)
    \<and> (sint x < 0 \<longrightarrow> log2_intptr x = 63)"
proof -
  obtain r where r: "log2_intptr x = int r - 1" "unat x < 2 ^ r" "r = 0 \<or> 2 ^ (r - 1) \<le> unat x"
    by (rule log2_intptr_bounds)
  have "r \<noteq> 0" using r(2) assms by (cases r) (auto simp: unat_eq_zero)
  then have "log2_intptr x = int (r - 1)" "2 ^ (r - 1) \<le> unat x" "unat x < 2 ^ Suc (r - 1)"
    using r by auto
  then show ?thesis using log2_intptr_negative by blast
qed

lemma log2_intptr_spec_example:
  "(\<exists>r. log2_intptr (- 6) = int r \<and> 2 ^ r \<le> unat (- 6 :: uintptr) \<and> unat (- 6 :: uintptr) < 2 ^ Suc r)
    \<and> log2_intptr (- 6) = 63"
  using log2_intptr_spec [of "- 6"] by simp

lemma uint_align_size_up:
  fixes sz :: uintptr
  assumes "k < 64" "uint sz + (2 ^ k - 1) < 2 ^ 64"
  shows "uint (align_size_up sz (2 ^ k)) = round_to (uint sz) (2 ^ k)"
proof -
  have m: "(2 ^ k - 1 :: uintptr) = mask k" by (simp add: mask_eq_exp_minus_1)
  have "uint (mask k :: uintptr) = 2 ^ k - 1"
    using assms(1) by (subst uint_mask_eq) (simp add: mask_eq_exp_minus_1 min_def)
  then have "uint (sz + mask k) = uint sz + (2 ^ k - 1)"
    using assms(2) by (simp add: uint_word_ariths)
  then show ?thesis
    by (simp add: align_size_up_def m uint_and_not_mask round_to_int)
qed

lemma uint_align_size_down:
  fixes sz :: uintptr
  shows "uint (align_size_down sz (2 ^ k)) = uint sz div 2 ^ k * 2 ^ k"
  by (simp add: align_size_down_def uint_and_not_mask flip: mask_eq_exp_minus_1)

text \<open>
  The function \<^verbatim>\<open>clamp_address_in_page\<close> returns an address of the page as it is, the start
  of the next page for an address above, and the start of the page for an address below, so the
  result is always within the page or its end.  The page must not be the last of the address space.
\<close>

lemma clamp_address_in_page_spec:
  fixes addr page_address :: uintptr
  assumes "k < 64" "uint (align_size_down page_address (2 ^ k)) + 2 ^ k < 2 ^ 64"
  defines "page \<equiv> uint (align_size_down page_address (2 ^ k))"
    and "r \<equiv> uint (clamp_address_in_page addr page_address (2 ^ k))"
  shows "page \<le> r \<and> r \<le> page + 2 ^ k
    \<and> (page \<le> uint addr \<and> uint addr < page + 2 ^ k \<longrightarrow> r = uint addr)
    \<and> (page + 2 ^ k \<le> uint addr \<longrightarrow> r = page + 2 ^ k)
    \<and> (uint addr < page \<longrightarrow> r = page)"
proof -
  let ?s = "2 ^ k :: int"
  have s: "0 < ?s" by simp
  have same: "align_size_down addr (2 ^ k) = align_size_down page_address (2 ^ k)
      \<longleftrightarrow> page \<le> uint addr \<and> uint addr < page + ?s"
  proof -
    define q where "q = uint page_address div ?s"
    have "align_size_down addr (2 ^ k) = align_size_down page_address (2 ^ k)
        \<longleftrightarrow> uint addr div ?s = q"
      by (simp add: q_def word_uint_eq_iff uint_align_size_down)
    also have "\<dots> \<longleftrightarrow> q * ?s \<le> uint addr \<and> uint addr < q * ?s + ?s"
      using s by (rule int_div_eq_iff)
    finally show ?thesis by (simp add: page_def uint_align_size_down q_def)
  qed
  have next_page: "uint (align_size_down page_address (2 ^ k) + 2 ^ k) = page + ?s"
    using assms(1,2) by (simp add: uint_word_ariths uint_power_of_2 page_def)
  have "page \<le> uint page_address" "uint page_address < page + ?s"
    using int_div_eq_iff [OF s, of "uint page_address" "uint page_address div ?s"]
    by (simp_all add: page_def uint_align_size_down)
  moreover have "r = (if page \<le> uint addr \<and> uint addr < page + ?s then uint addr
      else if uint page_address < uint addr then page + ?s else page)"
    unfolding r_def clamp_address_in_page_def same next_page [symmetric]
    by (simp add: word_less_def page_def)
  ultimately show ?thesis using s by auto
qed

lemma clamp_address_in_page_example:
  "uint (clamp_address_in_page 0x9123 0x5fff 0x1000) = 0x6000
    \<and> uint (clamp_address_in_page 0x5123 0x5fff 0x1000) = 0x5123"
  using clamp_address_in_page_spec [where k = 12 and page_address = "0x5fff" and addr = "0x9123"]
    clamp_address_in_page_spec [where k = 12 and page_address = "0x5fff" and addr = "0x5123"]
  by (simp add: align_size_down_def)

end
