(* ===== verification/Bit_Map.thy ===== *)
theory Bit_Map
  imports Global_Definitions
begin

text \<open>
  \<^verbatim>\<open>utilities/bitMap.hpp\<close>, \<^verbatim>\<open>bitMap.inline.hpp\<close>, \<^verbatim>\<open>bitMap.cpp\<close>: the bitmap itself, its accessors, the
  range updates and resizing.  A bitmap is its array of 64-bit words and its size in bits.
  \<^verbatim>\<open>idx_t\<close> is \<open>nat\<close>; the two places whose code provides for overflow of \<^verbatim>\<open>size_t\<close>
  (\<^verbatim>\<open>word_index_round_up\<close>, \<^verbatim>\<open>size_in_words\<close>) and the doubling in \<^verbatim>\<open>at_put_grow\<close> have the reduction
  modulo \<open>2 ^ 64\<close> written out.
\<close>

section \<open>Data and index arithmetic\<close>

record bitmap =
  bm_map :: "uintptr list"
  bm_size :: nat

definition idx :: "nat \<Rightarrow> nat" where
  "idx n = n mod 2 ^ 64"

definition bit_in_word :: "nat \<Rightarrow> nat" where
  "bit_in_word b = b AND (BitsPerWord - 1)"

definition bit_mask :: "nat \<Rightarrow> uintptr" where
  "bit_mask b = push_bit (bit_in_word b) 1"

definition word_index :: "nat \<Rightarrow> nat" where
  "word_index b = drop_bit LogBitsPerWord b"

definition bit_index :: "nat \<Rightarrow> nat" where
  "bit_index w = push_bit LogBitsPerWord w"

definition size_in_words :: "bitmap \<Rightarrow> nat" where
  "size_in_words bm = word_index (idx (bm_size bm + (BitsPerWord - 1)))"

definition word_index_round_up :: "bitmap \<Rightarrow> nat \<Rightarrow> nat" where
  "word_index_round_up bm b =
     (let bit_rounded_up = idx (b + (BitsPerWord - 1))
      in if bit_rounded_up > b then word_index bit_rounded_up else size_in_words bm)"

definition word_align_up :: "nat \<Rightarrow> nat" where
  "word_align_up b = nat (align_size_up (int b) (int BitsPerWord))"

definition word_align_down :: "nat \<Rightarrow> nat" where
  "word_align_down b = nat (align_size_down (int b) (int BitsPerWord))"

definition is_word_aligned :: "nat \<Rightarrow> bool" where
  "is_word_aligned b \<longleftrightarrow> word_align_up b = b"

section \<open>Single bits\<close>

definition bm_word :: "bitmap \<Rightarrow> nat \<Rightarrow> uintptr option" where
  "bm_word bm w = array_get (bm_map bm) w"

definition set_word :: "bitmap \<Rightarrow> nat \<Rightarrow> uintptr \<Rightarrow> bitmap option" where
  "set_word bm w val = do { m \<leftarrow> array_put (bm_map bm) w val; Some (bm\<lparr>bm_map := m\<rparr>) }"

definition bm_at :: "bitmap \<Rightarrow> nat \<Rightarrow> bool option" where
  "bm_at bm index = do { w \<leftarrow> bm_word bm (word_index index); Some (w AND bit_mask index \<noteq> 0) }"

definition bm_set_bit :: "bitmap \<Rightarrow> nat \<Rightarrow> bitmap option" where
  "bm_set_bit bm b = do {
     w \<leftarrow> bm_word bm (word_index b);
     set_word bm (word_index b) (w OR bit_mask b)
   }"

definition bm_clear_bit :: "bitmap \<Rightarrow> nat \<Rightarrow> bitmap option" where
  "bm_clear_bit bm b = do {
     w \<leftarrow> bm_word bm (word_index b);
     set_word bm (word_index b) (w AND NOT (bit_mask b))
   }"

definition bm_at_put :: "bitmap \<Rightarrow> nat \<Rightarrow> bool \<Rightarrow> bitmap option" where
  "bm_at_put bm offset value = (if value then bm_set_bit bm offset else bm_clear_bit bm offset)"

section \<open>Ranges\<close>

definition inverted_bit_mask_for_range :: "nat \<Rightarrow> nat \<Rightarrow> uintptr" where
  "inverted_bit_mask_for_range beg end' =
     (let mask = bit_mask beg - 1
      in if bit_in_word end' \<noteq> 0 then mask OR NOT (bit_mask end' - 1) else mask)"

definition set_range_within_word :: "bitmap \<Rightarrow> nat \<Rightarrow> nat \<Rightarrow> bitmap option" where
  "set_range_within_word bm beg end' =
     (if beg \<noteq> end'
      then do {
        w \<leftarrow> bm_word bm (word_index beg);
        set_word bm (word_index beg) (w OR NOT (inverted_bit_mask_for_range beg end'))
      }
      else Some bm)"

definition clear_range_within_word :: "bitmap \<Rightarrow> nat \<Rightarrow> nat \<Rightarrow> bitmap option" where
  "clear_range_within_word bm beg end' =
     (if beg \<noteq> end'
      then do {
        w \<leftarrow> bm_word bm (word_index beg);
        set_word bm (word_index beg) (w AND inverted_bit_mask_for_range beg end')
      }
      else Some bm)"

definition set_range_of_words :: "bitmap \<Rightarrow> nat \<Rightarrow> nat \<Rightarrow> bitmap option" where
  "set_range_of_words bm beg end' = for_loop beg end' (\<lambda>i bm. set_word bm i (NOT 0)) bm"

definition clear_range_of_words :: "bitmap \<Rightarrow> nat \<Rightarrow> nat \<Rightarrow> bitmap option" where
  "clear_range_of_words bm beg end' = for_loop beg end' (\<lambda>i bm. set_word bm i 0) bm"

text \<open>
  \<^verbatim>\<open>memset(_map + beg, c, (end - beg) * sizeof(uintptr_t))\<close>: every byte of the words of the range
  becomes \<open>c\<close>; with \<open>end < beg\<close> the byte count wraps around and the store leaves the array.
\<close>

definition memset_words :: "bitmap \<Rightarrow> nat \<Rightarrow> u1 \<Rightarrow> nat \<Rightarrow> bitmap option" where
  "memset_words bm beg c end' =
     (if beg \<le> end' then for_loop beg end' (\<lambda>i bm. set_word bm i (ucast c * 0x0101010101010101)) bm
      else None)"

definition set_large_range_of_words :: "bitmap \<Rightarrow> nat \<Rightarrow> nat \<Rightarrow> bitmap option" where
  "set_large_range_of_words bm beg end' = memset_words bm beg (NOT 0) end'"

definition clear_large_range_of_words :: "bitmap \<Rightarrow> nat \<Rightarrow> nat \<Rightarrow> bitmap option" where
  "clear_large_range_of_words bm beg end' = memset_words bm beg 0 end'"

definition bm_set_range :: "bitmap \<Rightarrow> nat \<Rightarrow> nat \<Rightarrow> bitmap option" where
  "bm_set_range bm beg end' =
     (let beg_full_word = word_index_round_up bm beg; end_full_word = word_index end'
      in if beg_full_word < end_full_word
         then do {
           bm \<leftarrow> set_range_within_word bm beg (bit_index beg_full_word);
           bm \<leftarrow> set_range_of_words bm beg_full_word end_full_word;
           set_range_within_word bm (bit_index end_full_word) end'
         }
         else (let boundary = min (bit_index beg_full_word) end'
               in do {
                 bm \<leftarrow> set_range_within_word bm beg boundary;
                 set_range_within_word bm boundary end'
               }))"

definition bm_clear_range :: "bitmap \<Rightarrow> nat \<Rightarrow> nat \<Rightarrow> bitmap option" where
  "bm_clear_range bm beg end' =
     (let beg_full_word = word_index_round_up bm beg; end_full_word = word_index end'
      in if beg_full_word < end_full_word
         then do {
           bm \<leftarrow> clear_range_within_word bm beg (bit_index beg_full_word);
           bm \<leftarrow> clear_range_of_words bm beg_full_word end_full_word;
           clear_range_within_word bm (bit_index end_full_word) end'
         }
         else (let boundary = min (bit_index beg_full_word) end'
               in do {
                 bm \<leftarrow> clear_range_within_word bm beg boundary;
                 clear_range_within_word bm boundary end'
               }))"

definition bm_set_large_range :: "bitmap \<Rightarrow> nat \<Rightarrow> nat \<Rightarrow> bitmap option" where
  "bm_set_large_range bm beg end' =
     (let beg_full_word = word_index_round_up bm beg; end_full_word = word_index end'
      in do {
        bm \<leftarrow> set_range_within_word bm beg (bit_index beg_full_word);
        bm \<leftarrow> set_large_range_of_words bm beg_full_word end_full_word;
        set_range_within_word bm (bit_index end_full_word) end'
      })"

definition bm_clear_large_range :: "bitmap \<Rightarrow> nat \<Rightarrow> nat \<Rightarrow> bitmap option" where
  "bm_clear_large_range bm beg end' =
     (let beg_full_word = word_index_round_up bm beg; end_full_word = word_index end'
      in do {
        bm \<leftarrow> clear_range_within_word bm beg (bit_index beg_full_word);
        bm \<leftarrow> clear_large_range_of_words bm beg_full_word end_full_word;
        clear_range_within_word bm (bit_index end_full_word) end'
      })"

definition bm_at_put_range :: "bitmap \<Rightarrow> nat \<Rightarrow> nat \<Rightarrow> bool \<Rightarrow> bitmap option" where
  "bm_at_put_range bm start_offset end_offset value =
     (if value then bm_set_range bm start_offset end_offset
      else bm_clear_range bm start_offset end_offset)"

definition bm_at_put_large_range :: "bitmap \<Rightarrow> nat \<Rightarrow> nat \<Rightarrow> bool \<Rightarrow> bitmap option" where
  "bm_at_put_large_range bm beg end' value =
     (if value then bm_set_large_range bm beg end' else bm_clear_large_range bm beg end')"

datatype range_size_hint = Unknown_Range | Small_Range | Large_Range

definition bm_set_range_hint :: "bitmap \<Rightarrow> nat \<Rightarrow> nat \<Rightarrow> range_size_hint \<Rightarrow> bitmap option" where
  "bm_set_range_hint bm beg end' hint =
     (if hint = Small_Range \<and> idx (2 ^ 64 + end' - beg) = 1 then bm_set_bit bm beg
      else if hint = Large_Range then bm_set_large_range bm beg end'
      else bm_set_range bm beg end')"

definition bm_clear_range_hint :: "bitmap \<Rightarrow> nat \<Rightarrow> nat \<Rightarrow> range_size_hint \<Rightarrow> bitmap option" where
  "bm_clear_range_hint bm beg end' hint =
     (if hint = Small_Range \<and> idx (2 ^ 64 + end' - beg) = 1 then bm_clear_bit bm beg
      else if hint = Large_Range then bm_clear_large_range bm beg end'
      else bm_clear_range bm beg end')"

definition bm_clear :: "bitmap \<Rightarrow> bitmap option" where
  "bm_clear bm = clear_range_of_words bm 0 (size_in_words bm)"

definition bm_clear_large :: "bitmap \<Rightarrow> bitmap option" where
  "bm_clear_large bm = clear_large_range_of_words bm 0 (size_in_words bm)"

section \<open>Allocation and resizing\<close>

text \<open>
  \<open>fresh n\<close> is the uninitialised memory the allocator returns for \<open>n\<close> words.  \<open>bm_resize\<close> is the effect of
  \<^verbatim>\<open>resize\<close> on the words of a bitmap whose old array can still be read when it is copied, as in the resource
  area, the default.  The pointers and the allocator of a bitmap, and the other case, are in \<open>Bit_Map_Heap\<close>.
\<close>

definition disjoint_words :: "uintptr list \<Rightarrow> uintptr list \<Rightarrow> nat \<Rightarrow> uintptr list option" where
  "disjoint_words from to n =
     for_loop 0 n (\<lambda>i to. do { w \<leftarrow> array_get from i; array_put to i w }) to"

definition bm_resize :: "(nat \<Rightarrow> uintptr list) \<Rightarrow> bitmap \<Rightarrow> nat \<Rightarrow> bitmap option" where
  "bm_resize fresh bm size_in_bits =
     (let old_size_in_words = size_in_words bm;
          old_map = bm_map bm;
          bm = bm\<lparr>bm_size := size_in_bits\<rparr>;
          new_size_in_words = size_in_words bm
      in do {
        m \<leftarrow> disjoint_words old_map (fresh new_size_in_words) (min old_size_in_words new_size_in_words);
        let bm = bm\<lparr>bm_map := m\<rparr>;
        if new_size_in_words > old_size_in_words
        then clear_range_of_words bm old_size_in_words (size_in_words bm)
        else Some bm
      })"

definition new_bitmap :: "(nat \<Rightarrow> uintptr list) \<Rightarrow> nat \<Rightarrow> bitmap option" where
  "new_bitmap fresh size_in_bits = bm_resize fresh \<lparr>bm_map = [], bm_size = 0\<rparr> size_in_bits"

definition bm_at_put_grow :: "(nat \<Rightarrow> uintptr list) \<Rightarrow> bitmap \<Rightarrow> nat \<Rightarrow> bool \<Rightarrow> bitmap option" where
  "bm_at_put_grow fresh bm offset value = do {
     bm \<leftarrow> (if offset \<ge> bm_size bm then bm_resize fresh bm (idx (2 * max (bm_size bm) offset))
           else Some bm);
     bm_at_put bm offset value
   }"

section \<open>Abstraction and well-formedness\<close>

definition raw_bits :: "uintptr list \<Rightarrow> nat set" where
  "raw_bits m = {i. i div 64 < length m \<and> bit (m ! (i div 64)) (i mod 64)}"

definition bits :: "bitmap \<Rightarrow> nat set" where
  "bits bm = raw_bits (bm_map bm) \<inter> {..<bm_size bm}"

definition bm_wf :: "bitmap \<Rightarrow> bool" where
  "bm_wf bm \<longleftrightarrow> bm_size bm + 63 < 2 ^ 64 \<and> length (bm_map bm) = (bm_size bm + 63) div 64"

text \<open>\<open>bm'\<close> is \<open>bm\<close> with the bits of \<open>S\<close> set (cleared), and nothing else changed.\<close>

definition sets :: "bitmap \<Rightarrow> nat set \<Rightarrow> bitmap \<Rightarrow> bool" where
  "sets bm S bm' \<longleftrightarrow> bm_size bm' = bm_size bm \<and> length (bm_map bm') = length (bm_map bm)
     \<and> raw_bits (bm_map bm') = raw_bits (bm_map bm) \<union> S"

definition clears :: "bitmap \<Rightarrow> nat set \<Rightarrow> bitmap \<Rightarrow> bool" where
  "clears bm S bm' \<longleftrightarrow> bm_size bm' = bm_size bm \<and> length (bm_map bm') = length (bm_map bm)
     \<and> raw_bits (bm_map bm') = raw_bits (bm_map bm) - S"

section \<open>Index arithmetic\<close>

lemma bit_in_word_mod [simp]: "bit_in_word b = b mod 64"
proof -
  have "(63 :: nat) = mask 6" by (simp add: mask_eq_exp_minus_1)
  then have "b AND 63 = take_bit 6 b" by (metis take_bit_eq_mask)
  then show ?thesis by (simp add: bit_in_word_def BitsPerWord_def take_bit_eq_mod)
qed

lemma word_index_div [simp]: "word_index b = b div 64"
  by (simp add: word_index_def LogBitsPerWord_def drop_bit_eq_div)

lemma bit_index_mult [simp]: "bit_index w = w * 64"
  by (simp add: bit_index_def LogBitsPerWord_def push_bit_eq_mult)

lemma bit_bit_mask [simp]: "bit (bit_mask b) n \<longleftrightarrow> n = b mod 64"
  by (auto simp: bit_mask_def bit_simps)

lemma bit_mask_minus_1 [simp]: "bit_mask b - 1 = mask (b mod 64)"
  by (simp add: bit_mask_def push_bit_eq_mult mask_eq_exp_minus_1)

lemma word_and_bit_mask: "(w AND bit_mask b \<noteq> 0) = bit w (b mod 64)"
  by (auto simp: word_neq_0_bit bit_and_iff)

lemma idx_small [simp]: "n < 2 ^ 64 \<Longrightarrow> idx n = n"
  by (simp add: idx_def)

lemma size_in_words_eq: "bm_size bm + 63 < 2 ^ 64 \<Longrightarrow> size_in_words bm = (bm_size bm + 63) div 64"
  by (simp add: size_in_words_def BitsPerWord_def)

lemma size_in_words_wf [simp]: "bm_wf bm \<Longrightarrow> size_in_words bm = length (bm_map bm)"
  by (simp add: bm_wf_def size_in_words_eq)

lemma word_index_round_up_eq: "b + 63 < 2 ^ 64 \<Longrightarrow> word_index_round_up bm b = (b + 63) div 64"
  by (simp add: word_index_round_up_def BitsPerWord_def Let_def)

lemma word_of_bit: "bm_wf bm \<Longrightarrow> b < bm_size bm \<Longrightarrow> b div 64 < length (bm_map bm)"
  unfolding bm_wf_def by linarith

lemma div_64_iff: "(i::nat) div 64 = k \<longleftrightarrow> k * 64 \<le> i \<and> i < k * 64 + 64"
  using div_mult_mod_eq [of i 64] mod_less_divisor [of 64 i] by (auto intro: div_nat_eqI)

section \<open>Single words\<close>

lemma raw_bits_update:
  assumes "k < length m"
  shows "i \<in> raw_bits (m[k := w]) \<longleftrightarrow> (if i div 64 = k then bit w (i mod 64) else i \<in> raw_bits m)"
  using assms by (auto simp: raw_bits_def nth_list_update)

lemma in_raw_bits: "i div 64 < length m \<Longrightarrow> i \<in> raw_bits m \<longleftrightarrow> bit (m ! (i div 64)) (i mod 64)"
  by (simp add: raw_bits_def)

lemma succeeds_bm_word [vcg]:
  "succeeds (bm_word bm w) Q \<longleftrightarrow> w < length (bm_map bm) \<and> Q (bm_map bm ! w)"
  by (simp add: bm_word_def vcg)

lemma succeeds_set_word [vcg]:
  "succeeds (set_word bm w v) Q \<longleftrightarrow>
     w < length (bm_map bm) \<and> Q (bm\<lparr>bm_map := (bm_map bm)[w := v]\<rparr>)"
  by (simp add: set_word_def vcg)

lemma bm_at_bits: "bm_wf bm \<Longrightarrow> i < bm_size bm \<Longrightarrow> bm_at bm i = Some (i \<in> bits bm)"
  by (auto simp: bm_at_def bm_word_def mem_simps word_of_bit word_and_bit_mask bits_def in_raw_bits)

lemma div_mod_64_cong: "i div 64 = b div 64 \<Longrightarrow> i mod 64 = b mod 64 \<Longrightarrow> i = (b::nat)"
  by (metis div_mult_mod_eq)

lemma bm_set_bit_sets:
  assumes "b div 64 < length (bm_map bm)"
  shows "succeeds (bm_set_bit bm b) (sets bm {b})"
  using assms
  by (auto simp: bm_set_bit_def vcg sets_def raw_bits_update bit_or_iff in_raw_bits
      split: if_splits dest: div_mod_64_cong)

lemma bm_clear_bit_clears:
  assumes "b div 64 < length (bm_map bm)"
  shows "succeeds (bm_clear_bit bm b) (clears bm {b})"
  using assms
  by (auto simp: bm_clear_bit_def vcg clears_def raw_bits_update bit_and_iff bit_not_iff in_raw_bits
      split: if_splits dest: div_mod_64_cong)

section \<open>Ranges within a word\<close>

lemma bit_inverted_mask:
  assumes "beg < end'" "beg div 64 = (end' - 1) div 64" "i div 64 = beg div 64"
  shows "bit (inverted_bit_mask_for_range beg end') (i mod 64) \<longleftrightarrow> i \<notin> {beg..<end'}"
proof -
  have e: "bit (inverted_bit_mask_for_range beg end') n \<longleftrightarrow>
      n < 64 \<and> (n < beg mod 64 \<or> end' mod 64 \<noteq> 0 \<and> end' mod 64 \<le> n)" for n
    by (auto simp: inverted_bit_mask_for_range_def Let_def bit_simps)
  define q r where "q = beg div 64" and "r = (end' - 1) mod 64"
  have "end' - 1 = (end' - 1) div 64 * 64 + (end' - 1) mod 64" by (rule div_mult_mod_eq [symmetric])
  then have end_q: "end' = q * 64 + r + 1" using assms(1,2) by (simp add: q_def r_def)
  have r: "r < 64" by (simp add: r_def)
  have em: "end' mod 64 = (if r = 63 then 0 else r + 1)"
  proof -
    have "end' mod 64 = (r + 1) mod 64" by (simp add: end_q)
    then show ?thesis using r by (cases "r = 63") simp_all
  qed
  define b j where "b = beg mod 64" and "j = i mod 64"
  have "beg = q * 64 + b" "i = q * 64 + j" "b < 64" "j < 64"
    using div_mult_mod_eq [of beg 64] div_mult_mod_eq [of i 64] assms(3)
    by (simp_all add: q_def b_def j_def)
  then have "(j < b \<or> (if r = 63 then 0 else r + 1) \<noteq> 0 \<and> (if r = 63 then 0 else r + 1) \<le> j) \<longleftrightarrow>
      \<not> (beg \<le> i \<and> i < end')"
    using r by (auto simp: end_q)
  then show ?thesis by (simp add: e em b_def j_def)
qed

lemma div_64_between:
  assumes "(a::nat) div 64 = (b - 1) div 64" "i \<in> {a..<b}"
  shows "i div 64 = a div 64"
proof -
  have "a div 64 \<le> i div 64" "i div 64 \<le> (b - 1) div 64"
    using assms(2) by (auto intro!: div_le_mono)
  then show ?thesis using assms(1) by simp
qed

lemma set_range_within_word_sets:
  assumes "beg \<le> end'" "beg < end' \<Longrightarrow> beg div 64 = (end' - 1) div 64"
    and "beg < end' \<Longrightarrow> beg div 64 < length (bm_map bm)"
  shows "succeeds (set_range_within_word bm beg end') (sets bm {beg..<end'})"
proof (cases "beg = end'")
  case False
  then have lt: "beg < end'" and w: "beg div 64 = (end' - 1) div 64" "beg div 64 < length (bm_map bm)"
    using assms by auto
  have "raw_bits ((bm_map bm)[beg div 64 := bm_map bm ! (beg div 64) OR NOT (inverted_bit_mask_for_range beg end')])
      = raw_bits (bm_map bm) \<union> {beg..<end'}" (is "raw_bits ?m = _")
  proof (rule set_eqI)
    fix i
    have "i \<notin> {beg..<end'}" if "i div 64 \<noteq> beg div 64"
      using that div_64_between [OF w(1), of i] by blast
    then show "i \<in> raw_bits ?m \<longleftrightarrow> i \<in> raw_bits (bm_map bm) \<union> {beg..<end'}"
      using w(2) by (cases "i div 64 = beg div 64")
        (auto simp: raw_bits_update in_raw_bits bit_or_iff bit_not_iff bit_inverted_mask [OF lt w(1)])
  qed
  then show ?thesis using w(2) lt by (simp add: set_range_within_word_def vcg sets_def)
qed (simp add: set_range_within_word_def sets_def)

lemma clear_range_within_word_clears:
  assumes "beg \<le> end'" "beg < end' \<Longrightarrow> beg div 64 = (end' - 1) div 64"
    and "beg < end' \<Longrightarrow> beg div 64 < length (bm_map bm)"
  shows "succeeds (clear_range_within_word bm beg end') (clears bm {beg..<end'})"
proof (cases "beg = end'")
  case False
  then have lt: "beg < end'" and w: "beg div 64 = (end' - 1) div 64" "beg div 64 < length (bm_map bm)"
    using assms by auto
  have "raw_bits ((bm_map bm)[beg div 64 := bm_map bm ! (beg div 64) AND inverted_bit_mask_for_range beg end'])
      = raw_bits (bm_map bm) - {beg..<end'}" (is "raw_bits ?m = _")
  proof (rule set_eqI)
    fix i
    have "i \<notin> {beg..<end'}" if "i div 64 \<noteq> beg div 64"
      using that div_64_between [OF w(1), of i] by blast
    then show "i \<in> raw_bits ?m \<longleftrightarrow> i \<in> raw_bits (bm_map bm) - {beg..<end'}"
      using w(2) by (cases "i div 64 = beg div 64")
        (auto simp: raw_bits_update in_raw_bits bit_and_iff bit_inverted_mask [OF lt w(1)])
  qed
  then show ?thesis using w(2) lt by (simp add: clear_range_within_word_def vcg clears_def)
qed (simp add: clear_range_within_word_def clears_def)

section \<open>Ranges of whole words\<close>

lemma word_span: "{i. i div 64 = (k::nat)} = {k * 64..<Suc k * 64}"
  by (simp add: set_eq_iff div_64_iff add.commute)

lemma raw_bits_ones:
  assumes "k < length m" "\<And>n. n < 64 \<Longrightarrow> bit v n"
  shows "raw_bits (m[k := v]) = raw_bits m \<union> {k * 64..<Suc k * 64}"
proof -
  have "raw_bits (m[k := v]) = raw_bits m \<union> {i. i div 64 = k}"
    using assms by (intro set_eqI) (simp add: raw_bits_update)
  then show ?thesis by (simp only: word_span)
qed

lemma raw_bits_zeros:
  assumes "k < length m"
  shows "raw_bits (m[k := 0]) = raw_bits m - {k * 64..<Suc k * 64}"
proof -
  have "raw_bits (m[k := 0]) = raw_bits m - {i. i div 64 = k}"
    using assms by (intro set_eqI) (simp add: raw_bits_update)
  then show ?thesis by (simp only: word_span)
qed

lemma next_word_span: "beg \<le> k \<Longrightarrow> {beg * 64..<Suc k * 64} = {beg * 64..<k * 64} \<union> {k * 64..<Suc k * (64::nat)}"
  by (subst ivl_disj_un_two(3)) simp_all

lemma fill_ones_sets:
  assumes "beg \<le> end'" "end' \<le> length (bm_map bm)" "\<And>n. n < 64 \<Longrightarrow> bit v n"
  shows "succeeds (for_loop beg end' (\<lambda>i bm. set_word bm i v) bm) (sets bm {beg * 64..<end' * 64})"
proof (rule for_loop_rule [where I = "\<lambda>k bm'. sets bm {beg * 64..<k * 64} bm'"])
  fix k bm' assume k: "beg \<le> k" "k < end'" "sets bm {beg * 64..<k * 64} bm'"
  then have "k < length (bm_map bm')" using assms(2) by (simp add: sets_def)
  then show "succeeds (set_word bm' k v) (sets bm {beg * 64..<Suc k * 64})"
    using k(3) assms(3)
    by (simp add: vcg sets_def raw_bits_ones next_word_span [OF k(1)] Un_assoc del: mult_Suc)
qed (use assms(1) in \<open>simp_all add: sets_def\<close>)

lemma fill_zeros_clears:
  assumes "beg \<le> end'" "end' \<le> length (bm_map bm)"
  shows "succeeds (for_loop beg end' (\<lambda>i bm. set_word bm i 0) bm) (clears bm {beg * 64..<end' * 64})"
proof (rule for_loop_rule [where I = "\<lambda>k bm'. clears bm {beg * 64..<k * 64} bm'"])
  fix k bm' assume k: "beg \<le> k" "k < end'" "clears bm {beg * 64..<k * 64} bm'"
  then have "k < length (bm_map bm')" using assms(2) by (simp add: clears_def)
  then show "succeeds (set_word bm' k 0) (clears bm {beg * 64..<Suc k * 64})"
    using k(3)
    by (simp add: vcg clears_def raw_bits_zeros next_word_span [OF k(1)] Diff_eq Int_assoc
        del: mult_Suc)
qed (use assms(1) in \<open>simp_all add: clears_def\<close>)

lemma round_up_word:
  fixes beg :: nat
  assumes "beg < end'" "end' \<le> (beg + 63) div 64 * 64"
  shows "beg div 64 = (end' - 1) div 64"
proof -
  have "(beg + 63) div 64 \<le> beg div 64 + 1" by linarith
  then have "(beg + 63) div 64 * 64 \<le> (beg div 64 + 1) * 64" by (rule mult_right_mono) simp
  then have "end' - 1 < (beg div 64 + 1) * 64" using assms by simp
  then have "(end' - 1) div 64 < beg div 64 + 1" by (rule less_mult_imp_div_less)
  moreover have "beg div 64 \<le> (end' - 1) div 64" using assms(1) by (intro div_le_mono) simp
  ultimately show ?thesis by simp
qed

section \<open>The range update, proved once for every writer\<close>

text \<open>
  \<^verbatim>\<open>set_range\<close>, \<^verbatim>\<open>clear_range\<close>, \<^verbatim>\<open>par_at_put_range\<close> and the \<^verbatim>\<open>large\<close> variants split a range in the same
  way: a partial word, whole words, a partial word.  The interface is what a writer of partial
  words and a writer of whole words do to the bits (\<open>upd bm S bm'\<close>).
\<close>

locale range_writer =
  fixes within_word :: "bitmap \<Rightarrow> nat \<Rightarrow> nat \<Rightarrow> bitmap option"
    and of_words :: "bitmap \<Rightarrow> nat \<Rightarrow> nat \<Rightarrow> bitmap option"
    and upd :: "bitmap \<Rightarrow> nat set \<Rightarrow> bitmap \<Rightarrow> bool"
  assumes within_word: "beg \<le> end' \<Longrightarrow> (beg < end' \<Longrightarrow> beg div 64 = (end' - 1) div 64) \<Longrightarrow>
      (beg < end' \<Longrightarrow> beg div 64 < length (bm_map bm)) \<Longrightarrow>
      succeeds (within_word bm beg end') (upd bm {beg..<end'})"
    and of_words: "w \<le> w' \<Longrightarrow> w' \<le> length (bm_map bm) \<Longrightarrow>
      succeeds (of_words bm w w') (upd bm {w * 64..<w' * 64})"
    and upd_trans: "upd bm S bm' \<Longrightarrow> upd bm' T bm'' \<Longrightarrow> upd bm (S \<union> T) bm''"
    and upd_length: "upd bm S bm' \<Longrightarrow> length (bm_map bm') = length (bm_map bm)"
begin

lemma three_parts:
  assumes "bm_wf bm" "beg \<le> end'" "end' \<le> bm_size bm" "(beg + 63) div 64 \<le> end' div 64"
  shows "succeeds (do {
      bm \<leftarrow> within_word bm beg ((beg + 63) div 64 * 64);
      bm \<leftarrow> of_words bm ((beg + 63) div 64) (end' div 64);
      within_word bm (end' div 64 * 64) end'
    }) (upd bm {beg..<end'})"
proof -
  let ?b = "(beg + 63) div 64" and ?e = "end' div 64"
  have len: "length (bm_map bm) = (bm_size bm + 63) div 64" using assms(1) by (simp add: bm_wf_def)
  have b: "beg \<le> ?b * 64" by linarith
  have b': "beg < ?b * 64 \<Longrightarrow> beg div 64 = (?b * 64 - 1) div 64" by (rule round_up_word) simp_all
  have e: "?e * 64 \<le> end'" by linarith
  have e': "?e * 64 < end' \<Longrightarrow> ?e * 64 div 64 = (end' - 1) div 64"
    unfolding nonzero_mult_div_cancel_right [OF zero_neq_numeral [symmetric]] by linarith
  have el: "?e \<le> length (bm_map bm)" "?e * 64 < end' \<Longrightarrow> ?e < length (bm_map bm)"
    using assms(3) unfolding len by linarith+
  have bl: "beg < ?b * 64 \<Longrightarrow> beg div 64 < length (bm_map bm)"
    using assms(4) el(1) by linarith
  from within_word [OF b b' bl] obtain bm1
    where 1: "within_word bm beg (?b * 64) = Some bm1" "upd bm {beg..<?b * 64} bm1"
    by (auto elim: succeedsE)
  have l1: "length (bm_map bm1) = length (bm_map bm)" using upd_length [OF 1(2)] .
  from of_words [of ?b ?e bm1] obtain bm2
    where 2: "of_words bm1 ?b ?e = Some bm2" "upd bm1 {?b * 64..<?e * 64} bm2"
    using assms(4) el(1) l1 by (auto elim: succeedsE)
  have l2: "length (bm_map bm2) = length (bm_map bm)" using upd_length [OF 2(2)] l1 by simp
  have "succeeds (within_word bm2 (?e * 64) end') (upd bm2 {?e * 64..<end'})"
    by (rule within_word [OF e e']) (use el(2) l2 in auto)
  then obtain bm3 where 3: "within_word bm2 (?e * 64) end' = Some bm3" "upd bm2 {?e * 64..<end'} bm3"
    by (rule succeedsE)
  have "{beg..<?b * 64} \<union> {?b * 64..<?e * 64} \<union> {?e * 64..<end'} = {beg..<end'}"
    using b e assms(4) by auto
  with upd_trans [OF upd_trans [OF 1(2) 2(2)] 3(2)] have "upd bm {beg..<end'} bm3" by simp
  then show ?thesis using 1 2 3 by simp
qed

lemma two_parts:
  assumes "bm_wf bm" "beg \<le> end'" "end' \<le> bm_size bm" "end' div 64 \<le> (beg + 63) div 64"
  shows "succeeds (do {
      bm \<leftarrow> within_word bm beg (min ((beg + 63) div 64 * 64) end');
      within_word bm (min ((beg + 63) div 64 * 64) end') end'
    }) (upd bm {beg..<end'})"
proof -
  let ?b = "(beg + 63) div 64 * 64" and ?m = "min ((beg + 63) div 64 * 64) end'"
  have len: "length (bm_map bm) = (bm_size bm + 63) div 64" using assms(1) by (simp add: bm_wf_def)
  have b: "beg \<le> ?m" using assms(2) by (intro min.boundedI) linarith+
  have b': "beg < ?m \<Longrightarrow> beg div 64 = (?m - 1) div 64" by (rule round_up_word) simp_all
  have e: "?m \<le> end'" by simp
  have em: "?m < end' \<Longrightarrow> ?m div 64 = (beg + 63) div 64" by simp
  have e': "?m < end' \<Longrightarrow> ?m div 64 = (end' - 1) div 64"
    using assms(4) em by linarith
  have l: "beg < ?m \<Longrightarrow> beg div 64 < length (bm_map bm)" "?m < end' \<Longrightarrow> ?m div 64 < length (bm_map bm)"
    using assms(3) e e' unfolding len by linarith+
  from within_word [OF b b' l(1)] obtain bm1
    where 1: "within_word bm beg ?m = Some bm1" "upd bm {beg..<?m} bm1"
    by (auto elim: succeedsE)
  have l1: "length (bm_map bm1) = length (bm_map bm)" using upd_length [OF 1(2)] .
  have "succeeds (within_word bm1 ?m end') (upd bm1 {?m..<end'})"
    by (rule within_word [OF e e']) (use l(2) l1 in auto)
  then obtain bm2 where 2: "within_word bm1 ?m end' = Some bm2" "upd bm1 {?m..<end'} bm2"
    by (rule succeedsE)
  have "{beg..<?m} \<union> {?m..<end'} = {beg..<end'}" using b e by auto
  with upd_trans [OF 1(2) 2(2)] have "upd bm {beg..<end'} bm2" by simp
  then show ?thesis using 1 2 by simp
qed

end

context range_writer begin

lemma split_range:
  assumes "bm_wf bm" "beg \<le> end'" "end' \<le> bm_size bm"
  shows "succeeds
    (let beg_full_word = word_index_round_up bm beg; end_full_word = word_index end'
     in if beg_full_word < end_full_word
        then do {
          bm \<leftarrow> within_word bm beg (bit_index beg_full_word);
          bm \<leftarrow> of_words bm beg_full_word end_full_word;
          within_word bm (bit_index end_full_word) end'
        }
        else (let boundary = min (bit_index beg_full_word) end'
              in do {
                bm \<leftarrow> within_word bm beg boundary;
                within_word bm boundary end'
              })) (upd bm {beg..<end'})"
proof -
  have "beg + 63 < 2 ^ 64" using assms by (simp add: bm_wf_def)
  then show ?thesis
    using three_parts [OF assms] two_parts [OF assms] by (simp add: word_index_round_up_eq Let_def)
qed

end

lemma sets_length: "sets bm S bm' \<Longrightarrow> length (bm_map bm') = length (bm_map bm)"
  by (simp add: sets_def)

lemma clears_length: "clears bm S bm' \<Longrightarrow> length (bm_map bm') = length (bm_map bm)"
  by (simp add: clears_def)

lemma sets_trans: "sets bm S bm' \<Longrightarrow> sets bm' T bm'' \<Longrightarrow> sets bm (S \<union> T) bm''"
  by (auto simp: sets_def)

lemma clears_trans: "clears bm S bm' \<Longrightarrow> clears bm' T bm'' \<Longrightarrow> clears bm (S \<union> T) bm''"
  by (auto simp: clears_def)

lemma memset_byte_ones: "ucast (NOT 0 :: u1) * (0x0101010101010101 :: uintptr) = - 1"
  by (simp add: unsigned_minus_1_eq_mask mask_eq_exp_minus_1)

interpretation set_words: range_writer set_range_within_word set_range_of_words sets
  by unfold_locales
    (auto simp: set_range_of_words_def intro: set_range_within_word_sets fill_ones_sets
      sets_trans sets_length)

interpretation clear_words: range_writer clear_range_within_word clear_range_of_words clears
  by unfold_locales
    (auto simp: clear_range_of_words_def intro: clear_range_within_word_clears fill_zeros_clears
      clears_trans clears_length)

interpretation set_large_words: range_writer set_range_within_word set_large_range_of_words sets
  by unfold_locales
    (auto simp: set_large_range_of_words_def memset_words_def memset_byte_ones [simplified]
      intro: set_range_within_word_sets fill_ones_sets sets_trans sets_length)

interpretation clear_large_words: range_writer clear_range_within_word clear_large_range_of_words clears
  by unfold_locales
    (auto simp: clear_large_range_of_words_def memset_words_def
      intro: clear_range_within_word_clears fill_zeros_clears clears_trans clears_length)

lemma bm_set_range_sets:
  assumes "bm_wf bm" "beg \<le> end'" "end' \<le> bm_size bm"
  shows "succeeds (bm_set_range bm beg end') (sets bm {beg..<end'})"
  unfolding bm_set_range_def by (rule set_words.split_range [OF assms])

lemma bm_clear_range_clears:
  assumes "bm_wf bm" "beg \<le> end'" "end' \<le> bm_size bm"
  shows "succeeds (bm_clear_range bm beg end') (clears bm {beg..<end'})"
  unfolding bm_clear_range_def by (rule clear_words.split_range [OF assms])

lemma large_range_words:
  assumes "bm_wf bm" "beg \<le> end'" "end' \<le> bm_size bm"
    "word_index_round_up bm beg \<le> word_index end'"
  shows "word_index_round_up bm beg = (beg + 63) div 64" "(beg + 63) div 64 \<le> end' div 64"
proof -
  have "beg + 63 < 2 ^ 64" using assms(1-3) by (simp add: bm_wf_def)
  then show "word_index_round_up bm beg = (beg + 63) div 64" by (rule word_index_round_up_eq)
  with assms(4) show "(beg + 63) div 64 \<le> end' div 64" by simp
qed

lemma bm_set_large_range_sets:
  assumes "bm_wf bm" "beg \<le> end'" "end' \<le> bm_size bm" "word_index_round_up bm beg \<le> word_index end'"
  shows "succeeds (bm_set_large_range bm beg end') (sets bm {beg..<end'})"
  using set_large_words.three_parts [OF assms(1-3) large_range_words(2) [OF assms]]
  by (simp add: bm_set_large_range_def Let_def large_range_words(1) [OF assms])

lemma bm_clear_large_range_clears:
  assumes "bm_wf bm" "beg \<le> end'" "end' \<le> bm_size bm" "word_index_round_up bm beg \<le> word_index end'"
  shows "succeeds (bm_clear_large_range bm beg end') (clears bm {beg..<end'})"
  using clear_large_words.three_parts [OF assms(1-3) large_range_words(2) [OF assms]]
  by (simp add: bm_clear_large_range_def Let_def large_range_words(1) [OF assms])

lemma sets_wf: "sets bm S bm' \<Longrightarrow> bm_wf bm \<Longrightarrow> bm_wf bm'"
  by (simp add: sets_def bm_wf_def)

lemma clears_wf: "clears bm S bm' \<Longrightarrow> bm_wf bm \<Longrightarrow> bm_wf bm'"
  by (simp add: clears_def bm_wf_def)

lemma sets_bits: "sets bm S bm' \<Longrightarrow> bits bm' = bits bm \<union> (S \<inter> {..<bm_size bm})"
  by (auto simp: sets_def bits_def)

lemma clears_bits: "clears bm S bm' \<Longrightarrow> bits bm' = bits bm - S"
  by (auto simp: clears_def bits_def)

text \<open>The contract of every range update, for both values.\<close>

definition range_put :: "bitmap \<Rightarrow> nat set \<Rightarrow> bool \<Rightarrow> bitmap \<Rightarrow> bool" where
  "range_put bm S value bm' \<longleftrightarrow> bm_wf bm' \<and> bm_size bm' = bm_size bm
     \<and> raw_bits (bm_map bm') = (if value then raw_bits (bm_map bm) \<union> S else raw_bits (bm_map bm) - S)"

lemma sets_range_put: "bm_wf bm \<Longrightarrow> sets bm S bm' \<Longrightarrow> range_put bm S True bm'"
  by (simp add: range_put_def sets_wf) (simp add: sets_def)

lemma clears_range_put: "bm_wf bm \<Longrightarrow> clears bm S bm' \<Longrightarrow> range_put bm S False bm'"
  by (simp add: range_put_def clears_wf) (simp add: clears_def)

lemma bm_at_put_range_put:
  assumes "bm_wf bm" "beg \<le> end'" "end' \<le> bm_size bm"
  shows "succeeds (bm_at_put_range bm beg end' v) (range_put bm {beg..<end'} v)"
  using succeeds_weaken [OF bm_set_range_sets [OF assms] sets_range_put [OF assms(1)]]
    succeeds_weaken [OF bm_clear_range_clears [OF assms] clears_range_put [OF assms(1)]]
  by (cases v) (simp_all add: bm_at_put_range_def)

lemma bm_at_put_large_range_put:
  assumes "bm_wf bm" "beg \<le> end'" "end' \<le> bm_size bm" "word_index_round_up bm beg \<le> word_index end'"
  shows "succeeds (bm_at_put_large_range bm beg end' v) (range_put bm {beg..<end'} v)"
  using succeeds_weaken [OF bm_set_large_range_sets [OF assms] sets_range_put [OF assms(1)]]
    succeeds_weaken [OF bm_clear_large_range_clears [OF assms] clears_range_put [OF assms(1)]]
  by (cases v) (simp_all add: bm_at_put_large_range_def)

text \<open>No bit beyond the size is set in the last word.\<close>

definition bm_clean :: "bitmap \<Rightarrow> bool" where
  "bm_clean bm \<longleftrightarrow> raw_bits (bm_map bm) \<subseteq> {..<bm_size bm}"

lemma raw_bits_bound: "i \<in> raw_bits m \<Longrightarrow> i < length m * 64"
  by (simp add: raw_bits_def div_less_iff_less_mult)

lemma disjoint_words_copy:
  assumes "n \<le> length from" "n \<le> length to"
  shows "disjoint_words from to n = Some (take n from @ drop n to)"
proof -
  have "succeeds (disjoint_words from to n) (\<lambda>m. m = take n from @ drop n to)"
    unfolding disjoint_words_def
  proof (rule for_loop_rule [where I = "\<lambda>k m. m = take k from @ drop k to"])
    fix k m assume "0 \<le> k" "k < n" "m = take k from @ drop k to"
    moreover from this have "drop k to = to ! k # drop (Suc k) to"
      using assms by (simp add: Cons_nth_drop_Suc)
    ultimately show "succeeds (do { w \<leftarrow> array_get from k; array_put m k w })
        (\<lambda>m. m = take (Suc k) from @ drop (Suc k) to)"
      using assms
      by (simp add: vcg list_update_append take_Suc_conv_app_nth)
  qed simp_all
  then show ?thesis by (auto simp: succeeds_iff)
qed

lemma raw_bits_take: "n \<le> length m \<Longrightarrow> raw_bits (take n m @ xs) \<inter> {..<n * 64} = raw_bits m \<inter> {..<n * 64}"
  by (auto simp: raw_bits_def nth_append div_less_iff_less_mult)

lemma resize_resource_area:
  assumes "bm_wf bm" "n + 63 < 2 ^ 64" "\<And>k. length (fresh k) = k"
  shows "succeeds (bm_resize fresh bm n) (\<lambda>bm'. bm_wf bm' \<and> bm_size bm' = n
    \<and> raw_bits (bm_map bm') = raw_bits (bm_map bm) \<inter> {..<(n + 63) div 64 * 64})"
proof -
  define ow nw where "ow = length (bm_map bm)" and "nw = (n + 63) div 64"
  define m where "m = take (min ow nw) (bm_map bm) @ drop (min ow nw) (fresh nw)"
  let ?bm = "bm\<lparr>bm_size := n, bm_map := m\<rparr>"
  have w: "size_in_words bm = ow" "size_in_words (bm\<lparr>bm_size := n\<rparr>) = nw" "size_in_words ?bm = nw"
    using assms(1,2) by (simp_all add: size_in_words_eq ow_def nw_def)
  have copy: "disjoint_words (bm_map bm) (fresh nw) (min ow nw) = Some m"
    unfolding m_def by (rule disjoint_words_copy) (simp_all add: assms(3) ow_def)
  have lm: "length m = nw" by (simp add: m_def assms(3) ow_def)
  have raw: "raw_bits m \<inter> {..<min ow nw * 64} = raw_bits (bm_map bm) \<inter> {..<min ow nw * 64}"
    unfolding m_def by (rule raw_bits_take) (simp add: ow_def)
  have b: "i \<in> raw_bits m \<Longrightarrow> i < nw * 64" "i \<in> raw_bits (bm_map bm) \<Longrightarrow> i < ow * 64" for i
    using raw_bits_bound [of i m] raw_bits_bound [of i "bm_map bm"] by (simp_all add: lm ow_def)
  have "succeeds (if nw > ow then clear_range_of_words ?bm ow nw else Some ?bm)
    (\<lambda>bm'. bm_wf bm' \<and> bm_size bm' = n \<and> raw_bits (bm_map bm') = raw_bits (bm_map bm) \<inter> {..<nw * 64})"
  proof (cases "ow < nw")
    case True
    have eq: "raw_bits m - {ow * 64..<nw * 64} = raw_bits (bm_map bm) \<inter> {..<nw * 64}"
      using raw True by (fastforce simp: min_def set_eq_iff dest: b)
    have "succeeds (clear_range_of_words ?bm ow nw) (clears ?bm {ow * 64..<nw * 64})"
      by (rule clear_words.of_words) (use True lm in auto)
    then show ?thesis unfolding if_P [OF True]
      by (rule succeeds_weaken) (use lm eq assms(2) in \<open>auto simp: bm_wf_def clears_def nw_def\<close>)
  next
    case False
    then have "raw_bits m = raw_bits (bm_map bm) \<inter> {..<nw * 64}"
      using raw by (auto simp: min_def set_eq_iff split: if_splits dest: b)
    then show ?thesis using False lm assms(2) by (simp add: bm_wf_def nw_def)
  qed
  with copy show ?thesis
    by (cases "ow < nw") (simp_all add: bm_resize_def Let_def w flip: nw_def)
qed

lemma bm_at_put_spec:
  assumes "bm_wf bm" "b < bm_size bm"
  shows "succeeds (bm_at_put bm b v) (range_put bm {b} v)"
  using succeeds_weaken [OF bm_set_bit_sets sets_range_put [OF assms(1)]]
    succeeds_weaken [OF bm_clear_bit_clears clears_range_put [OF assms(1)]] word_of_bit [OF assms]
  by (cases v) (simp_all add: bm_at_put_def)

lemma bm_clear_spec:
  assumes "bm_wf bm"
  shows "succeeds (bm_clear bm) (\<lambda>bm'. bm_wf bm' \<and> bm_size bm' = bm_size bm \<and> raw_bits (bm_map bm') = {})"
proof -
  have "succeeds (bm_clear bm) (clears bm {0 * 64..<length (bm_map bm) * 64})"
    unfolding bm_clear_def size_in_words_wf [OF assms] by (rule clear_words.of_words) simp_all
  then show ?thesis
    by (rule succeeds_weaken)
      (use assms in \<open>auto simp: clears_wf, auto simp: clears_def dest: raw_bits_bound\<close>)
qed

lemma resize_bits:
  assumes "bm_wf bm" "n + 63 < 2 ^ 64" "\<And>k. length (fresh k) = k"
  shows "succeeds (bm_resize fresh bm n)
    (\<lambda>bm'. bm_wf bm' \<and> bm_size bm' = n \<and> bits bm' = raw_bits (bm_map bm) \<inter> {..<n}
      \<and> (bm_clean bm \<longrightarrow> bits bm' = bits bm \<inter> {..<n} \<and> (bm_size bm \<le> n \<longrightarrow> bm_clean bm')))"
proof -
  define w where "w = (n + 63) div 64 * 64"
  have "n \<le> w" unfolding w_def by linarith
  then have "bits bm' = raw_bits (bm_map bm) \<inter> {..<n} \<and> (bm_clean bm \<longrightarrow> bits bm' = bits bm \<inter> {..<n} \<and> (bm_size bm \<le> n \<longrightarrow> bm_clean bm'))"
    if "bm_size bm' = n" "raw_bits (bm_map bm') = raw_bits (bm_map bm) \<inter> {..<w}" for bm'
    unfolding bits_def bm_clean_def that by auto
  then show ?thesis by (intro succeeds_weaken [OF resize_resource_area [OF assms]]) (auto simp flip: w_def)
qed

lemmas bm_eval = new_bitmap_def bm_resize_def disjoint_words_def clear_range_of_words_def loop_eval
  mem_simps Let_def size_in_words_def idx_def BitsPerWord_def bm_word_def set_word_def bm_set_bit_def
  bm_clear_bit_def bm_at_def bit_mask_def

lemma bits_below_size: "bits bm \<subseteq> {..<bm_size bm}"
  by (simp add: bits_def)

lemma range_put_bits:
  assumes "range_put bm S v bm'" "S \<subseteq> {..<bm_size bm}"
  shows "bm_wf bm'" "bm_size bm' = bm_size bm" "bits bm' = (if v then bits bm \<union> S else bits bm - S)"
    and "bm_clean bm \<Longrightarrow> bm_clean bm'"
  using assms by (auto simp: range_put_def bits_def bm_clean_def)

lemma at_put_grow_empty_faults:
  assumes "\<And>k. length (fresh k) = k"
  shows "bm_at_put_grow fresh \<lparr>bm_map = [], bm_size = 0\<rparr> 0 v = None"
  using assms [of 0]
  by (simp add: bm_at_put_grow_def bm_resize_def disjoint_words_def size_in_words_eq Let_def
      bm_at_put_def bm_set_bit_def bm_clear_bit_def bm_word_def mem_simps)

lemma witness_clean: "bm_clean \<lparr>bm_map = [9, 1], bm_size = 65\<rparr>"
proof -
  have "i < 65" if "i div 64 = Suc 0" "64 dvd i" for i :: nat
    using that div_mult_mod_eq [of i 64] by simp
  then show ?thesis
    by (auto simp: bm_clean_def raw_bits_def less_Suc_eq bit_1_iff numeral_2_eq_2)
qed

section \<open>Properties\<close>

text \<open>
  C11: on a well-formed bitmap and a range within its size, \<^verbatim>\<open>at_put_range\<close> stays inside
  the word array and sets (or clears) exactly the bits of the range, those beyond the size in the
  last word included; so does \<^verbatim>\<open>at_put_large_range\<close> whenever its range contains a word boundary, the
  condition its callers have to meet.
\<close>

theorem at_put_range_spec:
  assumes "bm_wf bm" "beg \<le> end'" "end' \<le> bm_size bm"
  shows "succeeds (bm_at_put_range bm beg end' v) (range_put bm {beg..<end'} v)
    \<and> (word_index_round_up bm beg \<le> word_index end' \<longrightarrow>
        succeeds (bm_at_put_large_range bm beg end' v) (range_put bm {beg..<end'} v))"
  using bm_at_put_range_put [OF assms] bm_at_put_large_range_put [OF assms] by blast

theorem at_put_range_spec_witness:
  "succeeds (bm_at_put_range \<lparr>bm_map = [255, 5, 0], bm_size = 150\<rparr> 3 140 False)
     (range_put \<lparr>bm_map = [255, 5, 0], bm_size = 150\<rparr> {3..<140} False)
   \<and> succeeds (bm_at_put_large_range \<lparr>bm_map = [255, 5, 0], bm_size = 150\<rparr> 3 140 False)
     (range_put \<lparr>bm_map = [255, 5, 0], bm_size = 150\<rparr> {3..<140} False)"
  using at_put_range_spec [of "\<lparr>bm_map = [255, 5, 0], bm_size = 150\<rparr>" 3 140 False]
  by (simp add: bm_wf_def word_index_round_up_eq)

text \<open>
  C37: \<^verbatim>\<open>resize\<close> keeps the bits below both sizes.  A newly addressable bit is clear, except that a bit of the
  old last word which lies beyond the old size keeps its value; so the new bits are all clear when no such stale
  bit is set, and then the result has none either unless the bitmap shrinks.  \<open>fresh\<close> stands for the
  uninitialized memory of the allocator.
\<close>

theorem resize_spec:
  assumes "bm_wf bm" "n + 63 < 2 ^ 64" "\<And>k. length (fresh k) = k"
  shows "succeeds (bm_resize fresh bm n)
    (\<lambda>bm'. bm_wf bm' \<and> bm_size bm' = n \<and> bits bm' = raw_bits (bm_map bm) \<inter> {..<n}
      \<and> (bm_clean bm \<longrightarrow> bits bm' = bits bm \<inter> {..<n} \<and> (bm_size bm \<le> n \<longrightarrow> bm_clean bm')))"
  by (rule resize_bits [OF assms])

theorem resize_spec_witness:
  "succeeds (bm_resize (\<lambda>k. replicate k 77) \<lparr>bm_map = [9, 1], bm_size = 65\<rparr> 300)
    (\<lambda>bm'. bm_wf bm' \<and> bm_size bm' = 300 \<and> bits bm' = bits \<lparr>bm_map = [9, 1], bm_size = 65\<rparr> \<inter> {..<300}
      \<and> bm_clean bm')"
proof -
  let ?bm = "\<lparr>bm_map = [9, 1], bm_size = 65\<rparr>"
  have "bm_wf ?bm" "bm_size ?bm \<le> 300" by (simp_all add: bm_wf_def)
  then show ?thesis using witness_clean
    by (intro succeeds_weaken [OF resize_spec [of ?bm 300 "\<lambda>k. replicate k 77"]]) (blast | simp)+
qed

text \<open>A bitmap that shrinks inside its last word and grows again shows a bit that was set before.\<close>

lemma resize_keeps_stale_bits:
  "do {
     bm \<leftarrow> new_bitmap (\<lambda>n. replicate n 0) 64;
     bm \<leftarrow> bm_set_bit bm 10;
     bm \<leftarrow> bm_resize (\<lambda>n. replicate n 0) bm 3;
     bm \<leftarrow> bm_resize (\<lambda>n. replicate n 0) bm 20;
     bm_at bm 10
   } = Some True"
  by (simp add: bm_eval)

text \<open>
  \<^verbatim>\<open>at_put_grow\<close> at an offset outside of the bitmap first grows it to twice the larger of size and
  offset, then stores the bit and changes no other; on an empty bitmap at offset 0 it does not grow and
  faults.  The growth brings back stale bits of the old last word as \<^verbatim>\<open>resize\<close> does.  The doubled size must fit
  in \<^verbatim>\<open>size_t\<close>.
\<close>

lemma at_put_grow_spec:
  assumes "bm_wf bm" "\<And>k. length (fresh k) = k" "2 * max (bm_size bm) offset + 63 < 2 ^ 64"
  shows "if bm_size bm = 0 \<and> offset = 0 then bm_at_put_grow fresh bm offset v = None
    else succeeds (bm_at_put_grow fresh bm offset v) (\<lambda>bm'. bm_wf bm' \<and> (bm_clean bm \<longrightarrow> bm_clean bm')
      \<and> bm_size bm' = (if offset < bm_size bm then bm_size bm else 2 * max (bm_size bm) offset)
      \<and> (let kept = (if bm_clean bm then bits bm else raw_bits (bm_map bm) \<inter> {..<bm_size bm'})
          in bits bm' = (if v then insert offset kept else kept - {offset})))"
proof (cases "bm_size bm = 0 \<and> offset = 0")
  case True
  then have "bm = \<lparr>bm_map = [], bm_size = 0\<rparr>" using assms(1) by (simp add: bm_wf_def)
  then show ?thesis using True at_put_grow_empty_faults [OF assms(2), of v] by simp
next
  case False
  let ?n = "2 * max (bm_size bm) offset"
  let ?s = "if offset < bm_size bm then bm_size bm else ?n"
  define grown where "grown = (if offset \<ge> bm_size bm then bm_resize fresh bm (idx ?n) else Some bm)"
  have "bits bm \<inter> {..<?n} = bits bm" using bits_below_size [of bm] by auto
  then have "succeeds grown (\<lambda>bm'. bm_wf bm' \<and> bm_size bm' = ?s \<and> (bm_clean bm \<longrightarrow> bm_clean bm')
      \<and> bits bm' = (if bm_clean bm then bits bm else raw_bits (bm_map bm) \<inter> {..<?s}))"
    using resize_bits [OF assms(1) assms(3), of fresh] assms
    by (cases "offset < bm_size bm") (auto simp: grown_def bits_def [of bm] elim: succeeds_weaken)
  then obtain bm' where bm': "grown = Some bm'" "bm_wf bm'" "bm_size bm' = ?s" "bm_clean bm \<longrightarrow> bm_clean bm'"
    "bits bm' = (if bm_clean bm then bits bm else raw_bits (bm_map bm) \<inter> {..<?s})" by (auto elim: succeedsE)
  have lt: "offset < bm_size bm'" using False bm'(3) by (auto simp: max_def)
  have "bm_at_put_grow fresh bm offset v = bm_at_put bm' offset v"
    using bm'(1) by (simp add: bm_at_put_grow_def grown_def)
  moreover have "succeeds (bm_at_put bm' offset v) (\<lambda>bm''. bm_wf bm'' \<and> (bm_clean bm \<longrightarrow> bm_clean bm'') \<and> bm_size bm'' = ?s
      \<and> bits bm'' = (if v then insert offset (bits bm') else bits bm' - {offset}))"
    by (rule succeeds_weaken [OF bm_at_put_spec [OF bm'(2) lt]])
      (use range_put_bits [of bm' "{offset}" v] bm'(3,4) lt in auto)
  ultimately show ?thesis unfolding if_not_P [OF False] Let_def by (auto simp: bm'(5) elim: succeeds_weaken)
qed

lemma at_put_grow_spec_example:
  "succeeds (bm_at_put_grow (\<lambda>k. replicate k 77) \<lparr>bm_map = [9, 1], bm_size = 65\<rparr> 200 True)
    (\<lambda>bm'. bm_wf bm' \<and> bm_clean bm' \<and> bm_size bm' = 400
      \<and> bits bm' = insert 200 (bits \<lparr>bm_map = [9, 1], bm_size = 65\<rparr>))
   \<and> bm_at_put_grow (\<lambda>k. replicate k 77) \<lparr>bm_map = [], bm_size = 0\<rparr> 0 True = None"
  using at_put_grow_spec [of "\<lparr>bm_map = [9, 1], bm_size = 65\<rparr>" "\<lambda>k. replicate k 77" 200 True] witness_clean
    at_put_grow_spec [of "\<lparr>bm_map = [], bm_size = 0\<rparr>" "\<lambda>k. replicate k 77" 0 True]
  by (simp add: bm_wf_def)

end
