(* ===== verification/Bit_Map_Heap.thy ===== *)
theory Bit_Map_Heap
  imports Bit_Map
begin

text \<open>
  \<^verbatim>\<open>BitMap::resize\<close> of \<^verbatim>\<open>utilities/bitMap.cpp\<close> with its pointers: the array of a bitmap is a block of a heap, and the
  \<^verbatim>\<open>ArrayAllocator\<close> of the bitmap (\<^verbatim>\<open>memory/allocation.inline.hpp\<close>) remembers the block it has allocated, which need
  not be the array in use.  A block that was freed cannot be read, and its address may be handed out again.
\<close>

section \<open>Blocks, the allocator and the bitmap object\<close>











section \<open>The heap operations on one block\<close>





section \<open>Resizing\<close>











end
