(* ===== verification/Quick_Sort.thy ===== *)
theory Quick_Sort
  imports Hs_Prelude
begin

text \<open>
  \<^verbatim>\<open>utilities/quickSort.hpp\<close>: quicksort in place, with the median of three as pivot and the partition of
  Hoare.  A part of the array is given by its first index and its length; indices are positions in
  the whole array, and a scan that leaves the array stops the model.  The comparator is an argument.
\<close>

section \<open>The algorithm\<close>

definition qs_swap :: "'a list \<Rightarrow> nat \<Rightarrow> nat \<Rightarrow> 'a list option" where
  "qs_swap arr x y = do {
     tmp \<leftarrow> array_get arr x;
     v \<leftarrow> array_get arr y;
     arr \<leftarrow> array_put arr x v;
     array_put arr y tmp
   }"

definition order_pair :: "('a \<Rightarrow> 'a \<Rightarrow> int) \<Rightarrow> 'a list \<Rightarrow> nat \<Rightarrow> nat \<Rightarrow> 'a list option" where
  "order_pair comparator arr x y = do {
     a \<leftarrow> array_get arr x;
     b \<leftarrow> array_get arr y;
     if comparator a b = 1 then qs_swap arr x y else Some arr
   }"

definition find_pivot :: "('a \<Rightarrow> 'a \<Rightarrow> int) \<Rightarrow> 'a list \<Rightarrow> nat \<Rightarrow> nat \<Rightarrow> (nat \<times> 'a list) option" where
  "find_pivot comparator arr base len = do {
     let middle_index = len div 2;
     let last_index = len - 1;
     arr \<leftarrow> order_pair comparator arr base (base + middle_index);
     arr \<leftarrow> order_pair comparator arr base (base + last_index);
     arr \<leftarrow> order_pair comparator arr (base + middle_index) (base + last_index);
     Some (base + middle_index, arr)
   }"

text \<open>The two inner loops, from the next index to look at and from the one above the next index.\<close>

function advance_left :: "('a \<Rightarrow> 'a \<Rightarrow> int) \<Rightarrow> 'a list \<Rightarrow> 'a \<Rightarrow> nat \<Rightarrow> nat option" where
  "advance_left comparator arr pivot_val left_index =
     (if left_index < length arr
      then if comparator (arr ! left_index) pivot_val = - 1
           then advance_left comparator arr pivot_val (left_index + 1) else Some left_index
      else None)"
  by pat_completeness auto
termination
  by (relation "measure (\<lambda>(c, arr, p, i). length arr - i)") auto

fun retreat_right :: "('a \<Rightarrow> 'a \<Rightarrow> int) \<Rightarrow> 'a list \<Rightarrow> 'a \<Rightarrow> nat \<Rightarrow> nat option" where
  "retreat_right comparator arr pivot_val 0 = None"
| "retreat_right comparator arr pivot_val (Suc right_index) = do {
     x \<leftarrow> array_get arr right_index;
     if comparator x pivot_val = 1 then retreat_right comparator arr pivot_val right_index else Some right_index
   }"

partial_function (option) partition_loop ::
    "('a \<Rightarrow> 'a \<Rightarrow> int) \<Rightarrow> bool \<Rightarrow> 'a list \<Rightarrow> 'a \<Rightarrow> nat \<Rightarrow> nat \<Rightarrow> (nat \<times> 'a list) option" where
  "partition_loop comparator idempotent arr pivot_val l r = do {
     left_index \<leftarrow> advance_left comparator arr pivot_val l;
     right_index \<leftarrow> retreat_right comparator arr pivot_val r;
     if left_index < right_index
     then do {
       a \<leftarrow> array_get arr left_index;
       b \<leftarrow> array_get arr right_index;
       arr \<leftarrow> (if \<not> idempotent \<or> comparator a b \<noteq> 0 then qs_swap arr left_index right_index else Some arr);
       partition_loop comparator idempotent arr pivot_val (left_index + 1) right_index
     }
     else Some (right_index, arr)
   }"

definition qs_partition :: "('a \<Rightarrow> 'a \<Rightarrow> int) \<Rightarrow> bool \<Rightarrow> 'a list \<Rightarrow> nat \<Rightarrow> nat \<Rightarrow> nat \<Rightarrow> (nat \<times> 'a list) option" where
  "qs_partition comparator idempotent arr pivot base len = do {
     pivot_val \<leftarrow> array_get arr pivot;
     partition_loop comparator idempotent arr pivot_val base (base + len)
   }"

partial_function (option) inner_sort :: "('a \<Rightarrow> 'a \<Rightarrow> int) \<Rightarrow> bool \<Rightarrow> 'a list \<Rightarrow> nat \<Rightarrow> nat \<Rightarrow> 'a list option" where
  "inner_sort comparator idempotent arr base len =
     (if len < 2 then Some arr
      else do {
        (pivot, arr) \<leftarrow> find_pivot comparator arr base len;
        if len < 4 then Some arr
        else do {
          (split, arr) \<leftarrow> qs_partition comparator idempotent arr pivot base len;
          let first_part_length = split - base + 1;
          arr \<leftarrow> inner_sort comparator idempotent arr base first_part_length;
          inner_sort comparator idempotent arr (base + first_part_length) (len - first_part_length)
        }
      })"

definition quick_sort :: "'a list \<Rightarrow> ('a \<Rightarrow> 'a \<Rightarrow> int) \<Rightarrow> bool \<Rightarrow> 'a list option" where
  "quick_sort arr comparator idempotent = inner_sort comparator idempotent arr 0 (length arr)"

declare advance_left.simps [simp del]

section \<open>Comparators\<close>

text \<open>The code compares the results with 1 and -1, so a comparator has to return -1, 0 or 1.\<close>

definition comparator_ok :: "('a \<Rightarrow> 'a \<Rightarrow> int) \<Rightarrow> bool" where
  "comparator_ok cmp \<longleftrightarrow> (\<forall>a b. cmp a b \<in> {- 1, 0, 1}) \<and> (\<forall>a b. cmp b a = - cmp a b)
     \<and> (\<forall>a b c. cmp a b \<le> 0 \<longrightarrow> cmp b c \<le> 0 \<longrightarrow> cmp a c \<le> 0)"

abbreviation (input) ordered :: "('a \<Rightarrow> 'a \<Rightarrow> int) \<Rightarrow> 'a list \<Rightarrow> bool" where
  "ordered cmp xs \<equiv> sorted_wrt (\<lambda>a b. cmp a b \<le> 0) xs"

lemma cmp_cases:
  assumes "comparator_ok cmp"
  shows "cmp a b = 1 \<longleftrightarrow> \<not> cmp a b \<le> 0" "cmp a b = - 1 \<longleftrightarrow> \<not> cmp b a \<le> 0" "cmp a a = 0" "\<not> cmp a b \<le> 0 \<Longrightarrow> cmp b a \<le> 0"
    "cmp a b = 0 \<longleftrightarrow> cmp a b \<le> 0 \<and> cmp b a \<le> 0"
proof -
  have v: "cmp a b \<in> {- 1, 0, 1}" "cmp a a \<in> {- 1, 0, 1}" and s: "cmp b a = - cmp a b" "cmp a a = - cmp a a"
    using assms unfolding comparator_ok_def by blast+
  show "cmp a b = 1 \<longleftrightarrow> \<not> cmp a b \<le> 0" "cmp a b = - 1 \<longleftrightarrow> \<not> cmp b a \<le> 0" "cmp a a = 0" "\<not> cmp a b \<le> 0 \<Longrightarrow> cmp b a \<le> 0"
    "cmp a b = 0 \<longleftrightarrow> cmp a b \<le> 0 \<and> cmp b a \<le> 0" using v s by auto
qed

lemma cmp_trans: "comparator_ok cmp \<Longrightarrow> cmp a b \<le> 0 \<Longrightarrow> cmp b c \<le> 0 \<Longrightarrow> cmp a c \<le> 0"
  unfolding comparator_ok_def by blast

section \<open>The partition\<close>

lemma qs_swap_eq: "x < length arr \<Longrightarrow> y < length arr \<Longrightarrow> qs_swap arr x y = Some (arr[x := arr ! y, y := arr ! x])"
  by (simp add: qs_swap_def array_get_def array_put_def)

lemma advance_left_spec:
  assumes "m < length arr" "l \<le> m" "comparator (arr ! m) pv \<noteq> - 1"
  shows "\<exists>l'. advance_left comparator arr pv l = Some l' \<and> l \<le> l' \<and> l' \<le> m \<and> comparator (arr ! l') pv \<noteq> - 1
    \<and> (\<forall>i. l \<le> i \<and> i < l' \<longrightarrow> comparator (arr ! i) pv = - 1)"
  using assms(2)
proof (induction "m - l" arbitrary: l)
  case 0
  then show ?case using assms by (intro exI [of _ m]) (simp add: advance_left.simps [of _ _ _ l])
next
  case (Suc d)
  show ?case
  proof (cases "comparator (arr ! l) pv = - 1")
    case True
    have "d = m - (l + 1)" "l + 1 \<le> m" using Suc(2) by simp_all
    from Suc(1) [OF this] obtain l' where l': "advance_left comparator arr pv (l + 1) = Some l'" "l + 1 \<le> l'" "l' \<le> m"
      "comparator (arr ! l') pv \<noteq> - 1" "\<forall>i. l + 1 \<le> i \<and> i < l' \<longrightarrow> comparator (arr ! i) pv = - 1" by blast
    then have "\<forall>i. l \<le> i \<and> i < l' \<longrightarrow> comparator (arr ! i) pv = - 1" using True by (metis Suc_eq_plus1 Suc_leI le_neq_implies_less)
    then show ?thesis using l' True assms(1) Suc(3) by (intro exI [of _ l']) (simp add: advance_left.simps [of _ _ _ l])
  next
    case False
    then show ?thesis using assms(1) Suc(3) by (intro exI [of _ l]) (simp add: advance_left.simps [of _ _ _ l])
  qed
qed

lemma retreat_right_spec:
  assumes "r \<le> length arr" "m < r" "comparator (arr ! m) pv \<noteq> 1"
  shows "\<exists>r'. retreat_right comparator arr pv r = Some r' \<and> m \<le> r' \<and> r' < r \<and> comparator (arr ! r') pv \<noteq> 1
    \<and> (\<forall>i. r' < i \<and> i < r \<longrightarrow> comparator (arr ! i) pv = 1)"
  using assms(1,2)
proof (induction r)
  case (Suc r)
  show ?case
  proof (cases "comparator (arr ! r) pv = 1")
    case True
    then have "m \<noteq> r" using assms(3) by auto
    then obtain r' where "retreat_right comparator arr pv r = Some r'" "m \<le> r'" "r' < r" "comparator (arr ! r') pv \<noteq> 1"
      "\<forall>i. r' < i \<and> i < r \<longrightarrow> comparator (arr ! i) pv = 1" using Suc by auto
    then show ?thesis using True Suc(2) by (intro exI [of _ r']) (auto simp: array_get_def less_Suc_eq)
  next
    case False
    then show ?thesis using Suc by (intro exI [of _ r]) (auto simp: array_get_def)
  qed
qed simp

definition partition_inv :: "('a \<Rightarrow> 'a \<Rightarrow> int) \<Rightarrow> 'a list \<Rightarrow> 'a \<Rightarrow> nat \<Rightarrow> nat \<Rightarrow> nat \<Rightarrow> nat \<Rightarrow> bool" where
  "partition_inv cmp arr pv b e l r \<longleftrightarrow> b \<le> l \<and> r \<le> e \<and> e \<le> length arr
     \<and> (\<forall>i. b \<le> i \<and> i < l \<longrightarrow> cmp (arr ! i) pv \<le> 0) \<and> (\<forall>i. r \<le> i \<and> i < e \<longrightarrow> cmp pv (arr ! i) \<le> 0)
     \<and> (\<exists>i. l \<le> i \<and> i < e \<and> cmp pv (arr ! i) \<le> 0) \<and> (\<exists>i. b \<le> i \<and> i < r \<and> cmp (arr ! i) pv \<le> 0)
     \<and> (r < e \<or> (\<exists>m. l \<le> m \<and> m < r \<and> m + 1 < e \<and> cmp (arr ! m) pv = 0))"

text \<open>
  An array is rearranged between two indices: nothing else changes, and where the operation has to be
  idempotent an ordered part stays as it is.
\<close>

definition rearranges :: "('a \<Rightarrow> 'a \<Rightarrow> int) \<Rightarrow> bool \<Rightarrow> nat \<Rightarrow> nat \<Rightarrow> 'a list \<Rightarrow> 'a list \<Rightarrow> bool" where
  "rearranges cmp idempotent b e arr arr' \<longleftrightarrow> length arr' = length arr \<and> mset arr' = mset arr
     \<and> (\<forall>i. i < b \<or> e \<le> i \<longrightarrow> arr' ! i = arr ! i)
     \<and> (idempotent \<and> (\<forall>i j. b \<le> i \<and> i < j \<and> j < e \<longrightarrow> cmp (arr ! i) (arr ! j) \<le> 0) \<longrightarrow> arr' = arr)"

lemma rearranges_refl [simp]: "rearranges cmp idempotent b e arr arr"
  by (simp add: rearranges_def)

lemma rearranges_trans [trans]:
  "rearranges cmp idempotent b e arr arr' \<Longrightarrow> rearranges cmp idempotent b e arr' arr'' \<Longrightarrow> rearranges cmp idempotent b e arr arr''"
  unfolding rearranges_def by auto

lemma rearranges_swap:
  assumes "b \<le> x" "x \<le> y" "y < e" "e \<le> length arr"
    and "idempotent \<Longrightarrow> x < y \<Longrightarrow> \<not> cmp (arr ! x) (arr ! y) \<le> 0 \<or> arr ! x = arr ! y"
  shows "rearranges cmp idempotent b e arr (arr[x := arr ! y, y := arr ! x])"
proof (cases "x < y \<and> arr ! x \<noteq> arr ! y")
  case True
  then show ?thesis using assms by (auto simp: rearranges_def mset_swap)
next
  case False
  then have "arr[x := arr ! y, y := arr ! x] = arr" using assms by (metis le_neq_implies_less list_update_id)
  then show ?thesis by simp
qed

definition partition_post :: "('a \<Rightarrow> 'a \<Rightarrow> int) \<Rightarrow> bool \<Rightarrow> 'a list \<Rightarrow> 'a \<Rightarrow> nat \<Rightarrow> nat \<Rightarrow> nat \<times> 'a list \<Rightarrow> bool" where
  "partition_post cmp idempotent arr pv b e = (\<lambda>(s, arr').
     b \<le> s \<and> s + 1 < e \<and> rearranges cmp idempotent b e arr arr'
     \<and> (\<forall>i. b \<le> i \<and> i \<le> s \<longrightarrow> cmp (arr' ! i) pv \<le> 0) \<and> (\<forall>i. s < i \<and> i < e \<longrightarrow> cmp pv (arr' ! i) \<le> 0))"

text \<open>The two scans stop inside the part, and what they passed is on the right side.\<close>

lemma scans_spec:
  assumes ok: "comparator_ok cmp" and inv: "partition_inv cmp arr pv b e l r"
  obtains l' r' where "advance_left cmp arr pv l = Some l'" "retreat_right cmp arr pv r = Some r'"
    "l \<le> l'" "l' < e" "b \<le> r'" "r' < r" "cmp pv (arr ! l') \<le> 0" "cmp (arr ! r') pv \<le> 0"
    "\<forall>i. b \<le> i \<and> i < l' \<longrightarrow> cmp (arr ! i) pv \<le> 0" "\<forall>i. r' < i \<and> i < e \<longrightarrow> cmp pv (arr ! i) \<le> 0"
    "r < e \<or> (\<exists>m. l' \<le> m \<and> m \<le> r' \<and> m + 1 < e)"
proof -
  note C = cmp_cases [OF ok]
  obtain i j where i: "l \<le> i" "i < e" "cmp pv (arr ! i) \<le> 0" and j: "b \<le> j" "j < r" "cmp (arr ! j) pv \<le> 0"
    and len: "e \<le> length arr" "r \<le> e" and lo: "\<forall>i. b \<le> i \<and> i < l \<longrightarrow> cmp (arr ! i) pv \<le> 0"
    and hi: "\<forall>i. r \<le> i \<and> i < e \<longrightarrow> cmp pv (arr ! i) \<le> 0"
    and first: "r < e \<or> (\<exists>m. l \<le> m \<and> m < r \<and> m + 1 < e \<and> cmp (arr ! m) pv = 0)"
    using inv unfolding partition_inv_def by blast
  have il: "i < length arr" "r \<le> length arr" using i len by simp_all
  have ni: "cmp (arr ! i) pv \<noteq> - 1" "cmp (arr ! j) pv \<noteq> 1" using i(3) j(3) C(2) by auto
  from advance_left_spec [of i arr l cmp pv, OF il(1) i(1) ni(1)] obtain l' where l': "advance_left cmp arr pv l = Some l'" "l \<le> l'" "l' \<le> i" "cmp (arr ! l') pv \<noteq> - 1"
    "\<forall>i. l \<le> i \<and> i < l' \<longrightarrow> cmp (arr ! i) pv = - 1" by blast
  from retreat_right_spec [of r arr j cmp pv, OF il(2) j(2) ni(2)] obtain r' where r': "retreat_right cmp arr pv r = Some r'" "j \<le> r'" "r' < r" "cmp (arr ! r') pv \<noteq> 1"
    "\<forall>i. r' < i \<and> i < r \<longrightarrow> cmp (arr ! i) pv = 1" by blast
  have a: "\<forall>i. b \<le> i \<and> i < l' \<longrightarrow> cmp (arr ! i) pv \<le> 0" using lo l'(5) by (metis leI le_minus_one_simps(1))
  have c: "\<forall>i. r' < i \<and> i < e \<longrightarrow> cmp pv (arr ! i) \<le> 0" using hi r'(5) C(1,4) by (metis leI)
  have d: "r < e \<or> (\<exists>m. l' \<le> m \<and> m \<le> r' \<and> m + 1 < e)"
    using first l'(5) r'(5) by (metis leI zero_neq_neg_one zero_neq_one)
  show ?thesis using that [OF l'(1) r'(1) l'(2) _ _ r'(3) _ _ a c d] l'(3,4) i(2) j(1) r'(2,4) C(1,2) by simp
qed

lemma partition_loop_spec:
  assumes "comparator_ok cmp" "partition_inv cmp arr pv b e l r"
  shows "succeeds (partition_loop cmp idempotent arr pv l r) (partition_post cmp idempotent arr pv b e)"
  using assms(2)
proof (induction "r - l" arbitrary: arr l r rule: less_induct)
  case less
  note C = cmp_cases [OF assms(1)]
  from scans_spec [OF assms(1) less(2)] obtain l' r' where s: "advance_left cmp arr pv l = Some l'" "retreat_right cmp arr pv r = Some r'"
    "l \<le> l'" "l' < e" "b \<le> r'" "r' < r" "cmp pv (arr ! l') \<le> 0" "cmp (arr ! r') pv \<le> 0"
    and lo: "\<forall>i. b \<le> i \<and> i < l' \<longrightarrow> cmp (arr ! i) pv \<le> 0" and hi: "\<forall>i. r' < i \<and> i < e \<longrightarrow> cmp pv (arr ! i) \<le> 0"
    and first: "r < e \<or> (\<exists>m. l' \<le> m \<and> m \<le> r' \<and> m + 1 < e)" .
  have bnd: "b \<le> l" "r \<le> e" "e \<le> length arr" using less(2) unfolding partition_inv_def by blast+
  show ?case
  proof (cases "l' < r'")
    case False
    have "r' + 1 < e" using first s(6) bnd False by auto
    moreover have "\<forall>i. b \<le> i \<and> i \<le> r' \<longrightarrow> cmp (arr ! i) pv \<le> 0" using lo s(8) False by (metis leI le_less_trans le_neq_implies_less)
    ultimately show ?thesis using s hi False
      by (simp add: partition_loop.simps [of _ _ _ _ l] succeeds_def partition_post_def)
  next
    case True
    define arr' where "arr' = (if \<not> idempotent \<or> cmp (arr ! l') (arr ! r') \<noteq> 0 then arr[l' := arr ! r', r' := arr ! l'] else arr)"
    have lens: "l' < length arr" "r' < length arr" "l' \<noteq> r'" using True s bnd by simp_all
    have eqv: "cmp (arr ! l') pv \<le> 0 \<and> cmp pv (arr ! r') \<le> 0" if "cmp (arr ! l') (arr ! r') = 0"
      using that s(7,8) C(5) cmp_trans [OF assms(1)] by metis
    have nth: "arr' ! i = (if i = l' \<or> i = r' then arr' ! i else arr ! i)" for i by (simp add: arr'_def)
    have at: "cmp (arr' ! l') pv \<le> 0" "cmp pv (arr' ! r') \<le> 0" using eqv s(7,8) lens by (auto simp: arr'_def)
    have len': "length arr' = length arr" using lens by (simp add: arr'_def)
    have bk: "cmp (arr ! r') (arr ! l') \<le> 0" using s(7,8) cmp_trans [OF assms(1)] by metis
    have re: "rearranges cmp idempotent b e arr arr'"
      using rearranges_swap [of b l' r' e arr idempotent cmp] True s bnd bk C(5) unfolding arr'_def by auto
    have inv: "partition_inv cmp arr' pv b e (l' + 1) r'"
      unfolding partition_inv_def
    proof (intro conjI allI impI)
      show "b \<le> l' + 1" "r' \<le> e" "e \<le> length arr'" using s bnd len' by simp_all
      show "cmp (arr' ! i) pv \<le> 0" if "b \<le> i \<and> i < l' + 1" for i using that lo at(1) True nth [of i] by (cases "i = l'") auto
      show "cmp pv (arr' ! i) \<le> 0" if "r' \<le> i \<and> i < e" for i using that hi at(2) True nth [of i] by (cases "i = r'") auto
      show "\<exists>i\<ge>l' + 1. i < e \<and> cmp pv (arr' ! i) \<le> 0" using at(2) True s(6) bnd by (intro exI [of _ r']) simp
      show "\<exists>i\<ge>b. i < r' \<and> cmp (arr' ! i) pv \<le> 0" using at(1) True s(3) bnd by (intro exI [of _ l']) simp
      show "r' < e \<or> (\<exists>m\<ge>l' + 1. m < r' \<and> m + 1 < e \<and> cmp (arr' ! m) pv = 0)" using s(6) bnd by simp
    qed
    have "r' - (l' + 1) < r - l" using True s by simp
    from less(1) [OF this inv] obtain t arr'' where t: "partition_loop cmp idempotent arr' pv (l' + 1) r' = Some (t, arr'')"
      "partition_post cmp idempotent arr' pv b e (t, arr'')" by (auto simp: succeeds_def split: option.splits)
    have "partition_post cmp idempotent arr pv b e (t, arr'')"
      using t(2) rearranges_trans [OF re] unfolding partition_post_def by auto
    moreover have "partition_loop cmp idempotent arr pv l r = Some (t, arr'')"
      using s(1,2) True lens t(1) by (auto simp: partition_loop.simps [of _ _ _ _ l] array_get_def qs_swap_eq arr'_def split: if_splits)
    ultimately show ?thesis by (simp add: succeeds_def)
  qed
qed

lemma qs_partition_spec:
  assumes ok: "comparator_ok cmp" and "b \<le> pivot" "pivot + 1 < b + len" "b + len \<le> length arr"
  shows "succeeds (qs_partition cmp idempotent arr pivot b len) (partition_post cmp idempotent arr (arr ! pivot) b (b + len))"
proof -
  have "cmp (arr ! pivot) (arr ! pivot) = 0" by (rule cmp_cases(3) [OF ok])
  then have "partition_inv cmp arr (arr ! pivot) b (b + len) b (b + len)"
    using assms(2-) unfolding partition_inv_def by (auto intro!: exI [of _ pivot])
  from partition_loop_spec [OF ok this] show ?thesis using assms(2-) by (simp add: qs_partition_def array_get_def)
qed

section \<open>The pivot\<close>

lemma order_pair_eq:
  "x < length arr \<Longrightarrow> y < length arr \<Longrightarrow> order_pair cmp arr x y =
     Some (if cmp (arr ! x) (arr ! y) = 1 then arr[x := arr ! y, y := arr ! x] else arr)"
  by (simp add: order_pair_def array_get_def qs_swap_eq)

lemma order_pair_spec:
  assumes ok: "comparator_ok cmp" and "b \<le> x" "x \<le> y" "y < e" "e \<le> length arr"
  shows "succeeds (order_pair cmp arr x y) (rearranges cmp idempotent b e arr)"
  using assms rearranges_swap [of b x y e arr idempotent cmp] cmp_cases(1) [OF ok] by (simp add: order_pair_eq)

lemma find_pivot_spec:
  assumes ok: "comparator_ok cmp" and "2 \<le> len" "b + len \<le> length arr"
  shows "succeeds (find_pivot cmp arr b len) (\<lambda>(p, arr'). p = b + len div 2 \<and> rearranges cmp idempotent b (b + len) arr arr')"
proof -
  have step: "succeeds (order_pair cmp arr' (b + i) (b + j)) (\<lambda>arr''. rearranges cmp idempotent b (b + len) arr arr'')"
    if "rearranges cmp idempotent b (b + len) arr arr'" "i \<le> j" "j < len" for arr' i j
  proof -
    have "b + len \<le> length arr'" using that(1) assms(3) by (simp add: rearranges_def)
    then have "succeeds (order_pair cmp arr' (b + i) (b + j)) (rearranges cmp idempotent b (b + len) arr')"
      using that(2,3) by (intro order_pair_spec [OF ok]) simp_all
    then show ?thesis by (rule succeeds_weaken) (rule rearranges_trans [OF that(1)])
  qed
  have m: "len div 2 < len" "len div 2 \<le> len - 1" "len - 1 < len" using assms(2) by simp_all
  show ?thesis unfolding find_pivot_def Let_def succeeds_bind
    by (rule succeeds_weaken [OF step [where i = 0, simplified]], simp, rule m(1),
        rule succeeds_weaken [OF step [where i = 0, simplified]], assumption, use m(3) in simp,
        rule succeeds_weaken [OF step], assumption, rule m(2), rule m(3), simp)
qed

text \<open>For two or three elements the search for the pivot is already the sort.\<close>

lemma find_pivot_small:
  assumes ok: "comparator_ok cmp" and "2 \<le> length seg" "length seg < 4"
  shows "succeeds (find_pivot cmp (pre @ seg @ post) (length pre) (length seg))
    (\<lambda>(p, arr'). \<exists>seg'. arr' = pre @ seg' @ post \<and> length seg' = length seg \<and> ordered cmp seg')"
proof -
  note C = cmp_cases [OF ok] and T = cmp_trans [OF ok]
  consider x y where "seg = [x, y]" | x y z where "seg = [x, y, z]"
    using assms(2,3) by (auto simp: numeral_eq_Suc length_Suc_conv less_Suc_eq le_Suc_eq)
  then show ?thesis
  proof cases
    case 1
    show ?thesis unfolding find_pivot_def 1
      by (auto simp: order_pair_eq nth_append list_update_append C(1) intro: C(4))
  next
    case 2
    show ?thesis unfolding find_pivot_def 2
      by (auto simp: order_pair_eq nth_append list_update_append C(1)) (meson C(4) T)+
  qed
qed

section \<open>The sort\<close>

text \<open>A part as a list of its own.\<close>

lemma rearranges_part:
  assumes re: "rearranges cmp idempotent (length pre) (length pre + length seg) (pre @ seg @ post) arr'"
  obtains seg' where "arr' = pre @ seg' @ post" "length seg' = length seg" "mset seg' = mset seg"
    "idempotent \<and> ordered cmp seg \<longrightarrow> seg' = seg"
proof -
  let ?a = "pre @ seg @ post" and ?b = "length pre" and ?e = "length pre + length seg"
  define seg' where "seg' = take (length seg) (drop ?b arr')"
  have len: "length arr' = length ?a" and out: "\<And>i. i < ?b \<or> ?e \<le> i \<Longrightarrow> arr' ! i = ?a ! i"
    using re unfolding rearranges_def by blast+
  have pre: "take ?b arr' = pre"
    by (rule nth_equalityI) (use len out in \<open>auto simp: nth_append\<close>)
  have post: "drop ?e arr' = post"
    by (rule nth_equalityI) (use len out in \<open>auto simp: nth_append\<close>)
  have eq: "arr' = pre @ seg' @ post"
    unfolding seg'_def using pre post by (metis add.commute append_take_drop_id drop_drop)
  have l: "length seg' = length seg" using len by (simp add: seg'_def)
  have ms: "mset seg' = mset seg" using re eq by (simp add: rearranges_def)
  have "seg' = seg" if "idempotent" "ordered cmp seg"
  proof -
    have "\<forall>i j. ?b \<le> i \<and> i < j \<and> j < ?e \<longrightarrow> cmp (?a ! i) (?a ! j) \<le> 0"
      using that(2) by (auto simp: nth_append sorted_wrt_iff_nth_less)
    then have "arr' = ?a" using re that(1) unfolding rearranges_def by blast
    then show ?thesis using eq by simp
  qed
  then show ?thesis using that [OF eq l ms] by blast
qed

definition sorts :: "('a \<Rightarrow> 'a \<Rightarrow> int) \<Rightarrow> bool \<Rightarrow> 'a list \<Rightarrow> 'a list \<Rightarrow> bool" where
  "sorts cmp idempotent seg seg' \<longleftrightarrow> mset seg' = mset seg \<and> ordered cmp seg' \<and> (idempotent \<and> ordered cmp seg \<longrightarrow> seg' = seg)"

text \<open>A partition splits the part in two shorter ones that can be sorted apart.\<close>

lemma partition_parts:
  assumes ok: "comparator_ok cmp" and "pivot + 1 < length seg"
  obtains xs ys where "qs_partition cmp idempotent (pre @ seg @ post) (length pre + pivot) (length pre) (length seg)
      = Some (length pre + length xs - 1, pre @ xs @ ys @ post)"
    "xs \<noteq> []" "ys \<noteq> []" "mset (xs @ ys) = mset seg" "\<forall>x \<in> set xs. \<forall>y \<in> set ys. cmp x y \<le> 0"
    "idempotent \<and> ordered cmp seg \<longrightarrow> xs @ ys = seg"
proof -
  let ?a = "pre @ seg @ post" and ?b = "length pre"
  have "succeeds (qs_partition cmp idempotent ?a (?b + pivot) ?b (length seg))
      (partition_post cmp idempotent ?a (?a ! (?b + pivot)) ?b (?b + length seg))"
    using assms(2) by (intro qs_partition_spec [OF ok]) simp_all
  then obtain s arr' where s: "qs_partition cmp idempotent ?a (?b + pivot) ?b (length seg) = Some (s, arr')"
    "?b \<le> s" "s + 1 < ?b + length seg" and re: "rearranges cmp idempotent ?b (?b + length seg) ?a arr'"
    and lo: "\<And>i. ?b \<le> i \<Longrightarrow> i \<le> s \<Longrightarrow> cmp (arr' ! i) (?a ! (?b + pivot)) \<le> 0"
    and hi: "\<And>i. s < i \<Longrightarrow> i < ?b + length seg \<Longrightarrow> cmp (?a ! (?b + pivot)) (arr' ! i) \<le> 0"
    by (auto simp: succeeds_iff partition_post_def)
  from rearranges_part [OF re] obtain seg' where g: "arr' = pre @ seg' @ post" "length seg' = length seg" "mset seg' = mset seg"
    "idempotent \<and> ordered cmp seg \<longrightarrow> seg' = seg" by blast
  define n where "n = s - ?b + 1"
  have n: "0 < n" "n < length seg" "s = ?b + n - 1" using s by (simp_all add: n_def)
  have cross: "cmp x y \<le> 0" if x: "x \<in> set (take n seg')" and y: "y \<in> set (drop n seg')" for x y
  proof -
    obtain i where i: "i < n" "x = seg' ! i" using x n g(2) by (auto simp: in_set_conv_nth)
    obtain j where j: "n + j < length seg" "y = seg' ! (n + j)" using y g(2) n(2) by (force simp: in_set_conv_nth)
    have "arr' ! (?b + i) = x" "arr' ! (?b + (n + j)) = y" using i j n g(1,2) by (simp_all add: nth_append)
    then have "cmp x (?a ! (?b + pivot)) \<le> 0" "cmp (?a ! (?b + pivot)) y \<le> 0"
      using lo [of "?b + i"] hi [of "?b + (n + j)"] i j n by auto
    then show ?thesis by (rule cmp_trans [OF ok])
  qed
  show ?thesis
  proof (rule that [of "take n seg'" "drop n seg'"])
    show "qs_partition cmp idempotent ?a (?b + pivot) ?b (length seg)
      = Some (?b + length (take n seg') - 1, pre @ take n seg' @ drop n seg' @ post)"
      using s(1) g(1,2) n by (simp flip: append_assoc)
    show "take n seg' \<noteq> []" "drop n seg' \<noteq> []" using n g(2) by auto
    show "mset (take n seg' @ drop n seg') = mset seg" using g(3) by simp
    show "\<forall>x \<in> set (take n seg'). \<forall>y \<in> set (drop n seg'). cmp x y \<le> 0" using cross by blast
    show "idempotent \<and> ordered cmp seg \<longrightarrow> take n seg' @ drop n seg' = seg" using g(4) by simp
  qed
qed

lemma sorts_parts:
  assumes "sorts cmp idempotent xs xs'" "sorts cmp idempotent ys ys'" "\<forall>x \<in> set xs. \<forall>y \<in> set ys. cmp x y \<le> 0"
    and "mset (xs @ ys) = mset seg" "idempotent \<and> ordered cmp seg \<longrightarrow> xs @ ys = seg"
  shows "sorts cmp idempotent seg (xs' @ ys')"
proof -
  have "set xs' = set xs" "set ys' = set ys" using assms(1,2) unfolding sorts_def by (metis mset_eq_setD)+
  moreover have "xs' @ ys' = seg" if "idempotent" "ordered cmp seg"
  proof -
    have "xs @ ys = seg" using assms(5) that by blast
    moreover from this have "ordered cmp xs" "ordered cmp ys" using that(2) by (auto simp: sorted_wrt_append)
    ultimately show ?thesis using assms(1,2) that(1) unfolding sorts_def by blast
  qed
  ultimately show ?thesis using assms(1-4) by (auto simp: sorts_def sorted_wrt_append)
qed

lemma inner_sort_spec:
  assumes ok: "comparator_ok cmp"
  shows "\<exists>seg'. inner_sort cmp idempotent (pre @ seg @ post) (length pre) (length seg) = Some (pre @ seg' @ post)
    \<and> sorts cmp idempotent seg seg'"
proof (induction "length seg" arbitrary: pre seg post rule: less_induct)
  case less
  let ?a = "pre @ seg @ post"
  consider "length seg < 2" | "2 \<le> length seg" "length seg < 4" | "4 \<le> length seg" by linarith
  then show ?case
  proof cases
    case 1
    then have "ordered cmp seg" by (cases seg rule: remdups_adj.cases) auto
    then show ?thesis using 1 by (auto simp: inner_sort.simps [of _ _ ?a] sorts_def)
  next
    case 2
    have "succeeds (find_pivot cmp ?a (length pre) (length seg))
      (\<lambda>(p, arr'). rearranges cmp True (length pre) (length pre + length seg) ?a arr')"
      using find_pivot_spec [OF ok 2(1), of "length pre" ?a True] by (auto simp: succeeds_iff)
    with find_pivot_small [OF ok 2, of pre post] obtain p seg' where p: "find_pivot cmp ?a (length pre) (length seg) = Some (p, pre @ seg' @ post)"
      "ordered cmp seg'" and re: "rearranges cmp True (length pre) (length pre + length seg) ?a (pre @ seg' @ post)"
      by (auto simp: succeeds_iff)
    from rearranges_part [OF re] have "sorts cmp idempotent seg seg'" using p(2) unfolding sorts_def by (metis append_same_eq same_append_eq)
    then show ?thesis using 2 p(1) by (auto simp: inner_sort.simps [of _ _ ?a])
  next
    case 3
    obtain arr' where p: "find_pivot cmp ?a (length pre) (length seg) = Some (length pre + length seg div 2, arr')"
      and re: "rearranges cmp idempotent (length pre) (length pre + length seg) ?a arr'"
      using find_pivot_spec [OF ok, of "length seg" "length pre" ?a idempotent] 3 by (auto simp: succeeds_iff)
    from rearranges_part [OF re] obtain seg1 where g: "arr' = pre @ seg1 @ post" "length seg1 = length seg" "mset seg1 = mset seg"
      "idempotent \<and> ordered cmp seg \<longrightarrow> seg1 = seg" .
    have mid: "length seg div 2 + 1 < length seg1" using 3 g(2) by linarith
    from partition_parts [OF ok mid, of idempotent pre post] obtain xs ys where
      part: "qs_partition cmp idempotent (pre @ seg1 @ post) (length pre + length seg div 2) (length pre) (length seg1)
        = Some (length pre + length xs - 1, pre @ xs @ ys @ post)"
      and ne: "xs \<noteq> []" "ys \<noteq> []" and ms: "mset (xs @ ys) = mset seg1" and cross: "\<forall>x \<in> set xs. \<forall>y \<in> set ys. cmp x y \<le> 0"
      and keep: "idempotent \<and> ordered cmp seg1 \<longrightarrow> xs @ ys = seg1" .
    have len: "length xs + length ys = length seg" using ms g(2) by (metis length_append mset_eq_length)
    then have sm: "length xs < length seg" "length ys < length seg" using ne by (cases xs; cases ys; simp)+
    obtain xs' where xs': "inner_sort cmp idempotent (pre @ xs @ ys @ post) (length pre) (length xs) = Some (pre @ xs' @ ys @ post)"
      "sorts cmp idempotent xs xs'" using less [OF sm(1), of pre "ys @ post"] by auto
    have lx: "length xs' = length xs" using xs'(2) unfolding sorts_def by (metis mset_eq_length)
    obtain ys' where ys': "inner_sort cmp idempotent (pre @ xs' @ ys @ post) (length pre + length xs) (length ys) = Some (pre @ xs' @ ys' @ post)"
      "sorts cmp idempotent ys ys'" using less [OF sm(2), of "pre @ xs'" post] lx by auto
    have "sorts cmp idempotent seg (xs' @ ys')"
      using sorts_parts [OF xs'(2) ys'(2) cross, of seg] ms g(3,4) keep by metis
    moreover have "length pre + length xs - 1 - length pre + 1 = length xs" "length seg - length xs = length ys"
      "Suc (length pre + length xs - Suc 0) = length pre + length xs" using ne len by (cases xs; simp)+
    then have "inner_sort cmp idempotent ?a (length pre) (length seg) = Some (pre @ (xs' @ ys') @ post)"
      using 3 p g(1,2) part xs'(1) ys'(1) by (simp add: inner_sort.simps [of _ _ ?a])
    ultimately show ?thesis by blast
  qed
qed

text \<open>
  C12: for a comparator that returns -1, 0 or 1 and whose results are those of a total preorder, \<^verbatim>\<open>QuickSort::sort\<close>
  ends, touches nothing outside of the array, and leaves a sorted permutation of it; the idempotent version
  leaves an array that is already sorted as it is.
\<close>

theorem quick_sort_spec:
  assumes "comparator_ok comparator"
  shows "\<exists>arr'. quick_sort arr comparator idempotent = Some arr' \<and> mset arr' = mset arr
    \<and> sorted_wrt (\<lambda>a b. comparator a b \<le> 0) arr'
    \<and> (idempotent \<and> sorted_wrt (\<lambda>a b. comparator a b \<le> 0) arr \<longrightarrow> arr' = arr)"
  using inner_sort_spec [OF assms, of idempotent "[]" arr "[]"] by (auto simp: quick_sort_def sorts_def)

text \<open>A comparator as the callers write it.\<close>

definition compare_ints :: "int \<Rightarrow> int \<Rightarrow> int" where
  "compare_ints a b = (if a < b then - 1 else if a = b then 0 else 1)"

theorem quick_sort_spec_witness:
  "comparator_ok compare_ints \<and> (\<exists>arr'. quick_sort [5, 3, 9, 3, 1, 7] compare_ints False = Some arr' \<and> mset arr' = {#1, 3, 3, 5, 7, 9#}
    \<and> sorted_wrt (\<lambda>a b. compare_ints a b \<le> 0) arr')"
proof -
  have ok: "comparator_ok compare_ints" by (auto simp: comparator_ok_def compare_ints_def)
  from quick_sort_spec [OF ok, of "[5, 3, 9, 3, 1, 7]" False] ok show ?thesis by (auto simp: add_mset_commute)
qed

end
