(* ===== verification/Utf8.thy ===== *)
theory Utf8
  imports Hs_Prelude
begin

text \<open>
  \<^verbatim>\<open>utilities/utf8.cpp\<close>: the modified UTF-8 of class files (a zero character takes two bytes, a
  supplementary character is a pair of three byte surrogates) and the quoted ASCII form.  A pointer is
  an index in an array of bytes; a string may be read up to the end of its array only.
\<close>

unbundle bit_operations_syntax

section \<open>Decoding\<close>

text \<open>\<open>None\<close> inside is the bad length of the source, \<open>None\<close> outside a read past the array.\<close>

definition utf8_next :: "u1 list \<Rightarrow> nat \<Rightarrow> (jchar \<times> nat) option" where
  "utf8_next str p = do {
     ch \<leftarrow> array_get str p;
     let k = uint (drop_bit 4 ch);
     r \<leftarrow> (if k \<in> {0x8, 0x9, 0xA, 0xB, 0xF} then Some None
         else if k \<in> {0xC, 0xD} then do {
           ch2 \<leftarrow> array_get str (p + 1);
           if ch2 AND 0xC0 = 0x80
           then let high_five = ch AND 0x1F; low_six = ch2 AND 0x3F in
             Some (Some (word_of_int (push_bit 6 (uint high_five) + uint low_six), 2))
           else Some None
         }
         else if k = 0xE then do {
           ch2 \<leftarrow> array_get str (p + 1);
           if ch2 AND 0xC0 = 0x80
           then do {
             ch3 \<leftarrow> array_get str (p + 2);
             if ch3 AND 0xC0 = 0x80
             then let high_four = ch AND 0x0F; mid_six = ch2 AND 0x3F; low_six = ch3 AND 0x3F in
               Some (Some (word_of_int (push_bit 6 (push_bit 6 (uint high_four) + uint mid_six) + uint low_six), 3))
             else Some None
           }
           else Some None
         }
         else Some (Some (ucast ch, 1)));
     (case r of None \<Rightarrow> Some (ucast ch, p + 1) | Some (result, len) \<Rightarrow> Some (result, p + len))
   }"

definition is_supplementary_character :: "u1 list \<Rightarrow> nat \<Rightarrow> bool option" where
  "is_supplementary_character str p = do {
     c0 \<leftarrow> array_get str p;
     if c0 AND 0xFF \<noteq> 0xED then Some False else do {
     c1 \<leftarrow> array_get str (p + 1);
     if c1 AND 0xF0 \<noteq> 0xA0 then Some False else do {
     c2 \<leftarrow> array_get str (p + 2);
     if c2 AND 0xC0 \<noteq> 0x80 then Some False else do {
     c3 \<leftarrow> array_get str (p + 3);
     if c3 AND 0xFF \<noteq> 0xED then Some False else do {
     c4 \<leftarrow> array_get str (p + 4);
     if c4 AND 0xF0 \<noteq> 0xB0 then Some False else do {
     c5 \<leftarrow> array_get str (p + 5);
     Some (c5 AND 0xC0 = 0x80)
   }}}}}}"

definition get_supplementary_character :: "u1 list \<Rightarrow> nat \<Rightarrow> jint option" where
  "get_supplementary_character str p = do {
     c1 \<leftarrow> array_get str (p + 1);
     c2 \<leftarrow> array_get str (p + 2);
     c4 \<leftarrow> array_get str (p + 4);
     c5 \<leftarrow> array_get str (p + 5);
     Some (word_of_int (0x10000 + push_bit 16 (uint (c1 AND 0x0F)) + push_bit 10 (uint (c2 AND 0x3F))
       + push_bit 6 (uint (c4 AND 0x0F)) + uint (c5 AND 0x3F)))
   }"

definition next_character :: "u1 list \<Rightarrow> nat \<Rightarrow> (jint \<times> nat) option" where
  "next_character str p = do {
     b \<leftarrow> is_supplementary_character str p;
     if b then do { value \<leftarrow> get_supplementary_character str p; Some (value, p + 6) }
     else do { (result, next_ch) \<leftarrow> utf8_next str p; Some (ucast result, next_ch) }
   }"

definition unicode_length :: "u1 list \<Rightarrow> nat \<Rightarrow> int option" where
  "unicode_length str len = for_loop 0 len (\<lambda>i num_chars. do {
     c \<leftarrow> array_get str i;
     Some (if c AND 0xC0 = 0x80 then num_chars - 1 else num_chars)
   }) (int len)"

function unicode_length_z :: "u1 list \<Rightarrow> nat \<Rightarrow> int \<Rightarrow> int option" where
  "unicode_length_z str p num_chars =
     (if p < length str
      then if str ! p = 0 then Some num_chars
           else unicode_length_z str (p + 1) (if (str ! p) AND 0xC0 \<noteq> 0x80 then num_chars + 1 else num_chars)
      else None)"
  by pat_completeness auto
termination
  by (relation "measure (\<lambda>(str, p, n). length str - p)") auto

declare unicode_length_z.simps [simp del]

text \<open>The loop for the ASCII characters stops with the index it has reached.\<close>

definition convert_to_unicode :: "u1 list \<Rightarrow> jchar list \<Rightarrow> nat \<Rightarrow> jchar list option" where
  "convert_to_unicode utf8_str unicode_str ulen = do {
     x \<leftarrow> for_return 0 ulen (\<lambda>index (ptr, buf). do {
       ch \<leftarrow> array_get utf8_str ptr;
       if 0x7F < ch then Some (Inl (index, ptr, buf))
       else do { buf \<leftarrow> array_put buf index (ucast ch); Some (Inr (ptr + 1, buf)) }
     }) (0, unicode_str);
     let (index, ptr, buf) = (case x of Inl s \<Rightarrow> s | Inr (ptr, buf) \<Rightarrow> (ulen, ptr, buf));
     (ptr, buf) \<leftarrow> for_loop index ulen (\<lambda>index (ptr, buf). do {
       (c, ptr) \<leftarrow> utf8_next utf8_str ptr;
       buf \<leftarrow> array_put buf index c;
       Some (ptr, buf)
     }) (ptr, buf);
     Some buf
   }"

section \<open>Encoding\<close>

definition utf8_write :: "u1 list \<Rightarrow> nat \<Rightarrow> jchar \<Rightarrow> (nat \<times> u1 list) option" where
  "utf8_write buf base ch =
     (if ch \<noteq> 0 \<and> ch \<le> 0x7F then do { buf \<leftarrow> array_put buf base (ucast ch); Some (base + 1, buf) }
      else if ch \<le> 0x7FF then
        let high_five = ucast (drop_bit 6 ch) :: u1; low_six = ucast (ch AND 0x3F) :: u1 in do {
          buf \<leftarrow> array_put buf base (high_five OR 0xC0);
          buf \<leftarrow> array_put buf (base + 1) (low_six OR 0x80);
          Some (base + 2, buf)
        }
      else
        let high_four = ucast (drop_bit 12 ch) :: u1; mid_six = ucast (drop_bit 6 ch AND 0x3F) :: u1;
            low_six = ucast (ch AND 0x3F) :: u1 in do {
          buf \<leftarrow> array_put buf base (high_four OR 0xE0);
          buf \<leftarrow> array_put buf (base + 1) (mid_six OR 0x80);
          buf \<leftarrow> array_put buf (base + 2) (low_six OR 0x80);
          Some (base + 3, buf)
        })"

definition utf8_size :: "jchar \<Rightarrow> nat" where
  "utf8_size c = (if 0x0001 \<le> c \<and> c \<le> 0x007F then 1 else if c \<le> 0x07FF then 2 else 3)"

definition utf8_length :: "jchar list \<Rightarrow> nat \<Rightarrow> nat option" where
  "utf8_length base len = for_loop 0 len (\<lambda>index result. do {
     c \<leftarrow> array_get base index;
     Some (if 0x0001 \<le> c \<and> c \<le> 0x007F then result + 1 else if c \<le> 0x07FF then result + 2 else result + 3)
   }) 0"

definition convert_to_utf8 :: "jchar list \<Rightarrow> nat \<Rightarrow> u1 list \<Rightarrow> u1 list option" where
  "convert_to_utf8 base len utf8_buffer = do {
     (p, buf) \<leftarrow> for_loop 0 len (\<lambda>index (p, buf). do { c \<leftarrow> array_get base index; utf8_write buf p c }) (0, utf8_buffer);
     array_put buf p 0
   }"

text \<open>\<open>fresh\<close> is the content of the memory that the resource area returns.\<close>

definition as_utf8 :: "(nat \<Rightarrow> u1) \<Rightarrow> jchar list \<Rightarrow> nat \<Rightarrow> u1 list option" where
  "as_utf8 fresh base len = do {
     utf8_len \<leftarrow> utf8_length base len;
     let result = map fresh [0..<utf8_len + 1];
     (p, result) \<leftarrow> for_loop 0 len (\<lambda>index (p, buf). do { c \<leftarrow> array_get base index; utf8_write buf p c }) (0, result);
     array_put result p 0
   }"

definition as_utf8_buf :: "jchar list \<Rightarrow> nat \<Rightarrow> u1 list \<Rightarrow> nat \<Rightarrow> u1 list option" where
  "as_utf8_buf base len buf buflen = do {
     x \<leftarrow> for_return 0 len (\<lambda>index (p, buf). do {
       c \<leftarrow> array_get base index;
       if p + utf8_size c \<ge> buflen then Some (Inl (p, buf))
       else do { (p, buf) \<leftarrow> utf8_write buf p c; Some (Inr (p, buf)) }
     }) (0, buf);
     let (p, buf) = (case x of Inl s \<Rightarrow> s | Inr s \<Rightarrow> s);
     array_put buf p 0
   }"

section \<open>Quoted ASCII\<close>

text \<open>\<^verbatim>\<open>sprintf(p, "\u%04x", c)\<close>: a backslash, the letter u, four hexadecimal digits and a zero byte.\<close>

definition hex_digit :: "int \<Rightarrow> u1" where
  "hex_digit d = (if d < 10 then word_of_int (48 + d) else word_of_int (87 + d))"

definition quoted :: "jchar \<Rightarrow> u1 list" where
  "quoted c = [92, 117, hex_digit (uint c div 4096), hex_digit (uint c div 256 mod 16),
     hex_digit (uint c div 16 mod 16), hex_digit (uint c mod 16)]"

definition sprintf_quoted :: "u1 list \<Rightarrow> nat \<Rightarrow> jchar \<Rightarrow> u1 list option" where
  "sprintf_quoted buf p c = for_loop 0 7 (\<lambda>i buf. array_put buf (p + i) ((quoted c @ [0]) ! i)) buf"

partial_function (option) quoted_ascii_length_loop :: "u1 list \<Rightarrow> nat \<Rightarrow> nat \<Rightarrow> nat \<Rightarrow> nat option" where
  "quoted_ascii_length_loop str ptr e result =
     (if ptr < e
      then do {
        (c, ptr) \<leftarrow> utf8_next str ptr;
        quoted_ascii_length_loop str ptr e (if 32 \<le> c \<and> c < 127 then result + 1 else result + 6)
      }
      else Some result)"

definition quoted_ascii_length :: "u1 list \<Rightarrow> nat \<Rightarrow> nat option" where
  "quoted_ascii_length utf8_str len = quoted_ascii_length_loop utf8_str 0 len 0"

definition put_quoted :: "jchar \<Rightarrow> nat \<Rightarrow> u1 list \<Rightarrow> nat \<Rightarrow> (nat \<times> u1 list) option option" where
  "put_quoted c p buf e =
     (if 32 \<le> c \<and> c < 127
      then if p + 1 \<ge> e then Some None
           else do { buf \<leftarrow> array_put buf p (ucast c); Some (Some (p + 1, buf)) }
      else if p + 6 \<ge> e then Some None
           else do { buf \<leftarrow> sprintf_quoted buf p c; Some (Some (p + 6, buf)) })"

partial_function (option) as_quoted_ascii_loop :: "u1 list \<Rightarrow> nat \<Rightarrow> nat \<Rightarrow> nat \<Rightarrow> u1 list \<Rightarrow> nat \<Rightarrow> (nat \<times> u1 list) option" where
  "as_quoted_ascii_loop str ptr utf8_end p buf e =
     (if ptr < utf8_end
      then do {
        (c, ptr) \<leftarrow> utf8_next str ptr;
        r \<leftarrow> put_quoted c p buf e;
        (case r of None \<Rightarrow> Some (p, buf) | Some (p, buf) \<Rightarrow> as_quoted_ascii_loop str ptr utf8_end p buf e)
      }
      else Some (p, buf))"

definition as_quoted_ascii :: "u1 list \<Rightarrow> nat \<Rightarrow> u1 list \<Rightarrow> nat \<Rightarrow> u1 list option" where
  "as_quoted_ascii utf8_str len buf buflen = do {
     (p, buf) \<leftarrow> as_quoted_ascii_loop utf8_str 0 len 0 buf buflen;
     array_put buf p 0
   }"

definition unicode_quoted_ascii_length :: "jchar list \<Rightarrow> nat \<Rightarrow> nat option" where
  "unicode_quoted_ascii_length base len = for_loop 0 len (\<lambda>i result. do {
     c \<leftarrow> array_get base i;
     Some (if 32 \<le> c \<and> c < 127 then result + 1 else result + 6)
   }) 0"

definition unicode_as_quoted_ascii :: "jchar list \<Rightarrow> nat \<Rightarrow> u1 list \<Rightarrow> nat \<Rightarrow> u1 list option" where
  "unicode_as_quoted_ascii base len buf buflen = do {
     x \<leftarrow> for_return 0 len (\<lambda>index (p, buf). do {
       c \<leftarrow> array_get base index;
       r \<leftarrow> put_quoted c p buf buflen;
       Some (case r of None \<Rightarrow> Inl (p, buf) | Some s \<Rightarrow> Inr s)
     }) (0, buf);
     let (p, buf) = (case x of Inl s \<Rightarrow> s | Inr s \<Rightarrow> s);
     array_put buf p 0
   }"

text \<open>
  The way back.  The loops run on fuel, and \<open>None\<close> is a loop that has not ended yet; a read or write outside
  of an array and \<^verbatim>\<open>ShouldNotReachHere\<close> stop the run with a value of their own.
\<close>

datatype qa_stop = Outside | Should_Not_Reach_Here

definition checked :: "'a option \<Rightarrow> qa_stop + 'a" where
  "checked x = (case x of None \<Rightarrow> Inl Outside | Some y \<Rightarrow> Inr y)"

fun skip_loop :: "nat \<Rightarrow> u1 list \<Rightarrow> nat \<Rightarrow> (qa_stop + nat) option" where
  "skip_loop 0 str ptr = None"
| "skip_loop (Suc fuel) str ptr =
     (case checked (array_get str ptr) of
        Inl e \<Rightarrow> Some (Inl e)
      | Inr c \<Rightarrow> if c = 0 then Some (Inr ptr)
          else if sint c < 32 \<or> 127 \<le> sint c then Some (Inr ptr)
          else skip_loop fuel str ptr)"

fun hex_loop :: "nat \<Rightarrow> u1 list \<Rightarrow> nat \<Rightarrow> jchar \<Rightarrow> qa_stop + (nat \<times> jchar)" where
  "hex_loop 0 str ptr value = Inr (ptr, value)"
| "hex_loop (Suc i) str ptr value =
     (case checked (array_get str ptr) of
        Inl e \<Rightarrow> Inl e
      | Inr c \<Rightarrow>
          if 48 \<le> c \<and> c \<le> 57 then hex_loop i str (ptr + 1) (push_bit 4 value + ucast c - 48)
          else if 97 \<le> c \<and> c \<le> 102 then hex_loop i str (ptr + 1) (push_bit 4 value + 10 + ucast c - 97)
          else if 65 \<le> c \<and> c \<le> 70 then hex_loop i str (ptr + 1) (push_bit 4 value + 10 + ucast c - 65)
          else Inl Should_Not_Reach_Here)"

definition put_char :: "u1 list option \<Rightarrow> nat \<Rightarrow> u1 \<Rightarrow> qa_stop + u1 list option" where
  "put_char buffer len c =
     (case buffer of None \<Rightarrow> Inr None | Some b \<Rightarrow> checked (map_option Some (array_put b len c)))"

definition put_utf8 :: "u1 list option \<Rightarrow> nat \<Rightarrow> jchar \<Rightarrow> qa_stop + (nat \<times> u1 list option)" where
  "put_utf8 buffer len value =
     (case buffer of
        None \<Rightarrow> checked (do { (n, b) \<leftarrow> utf8_write (replicate 4 0) 0 value; Some (len + n, None) })
      | Some b \<Rightarrow> checked (do { (n, b) \<leftarrow> utf8_write b len value; Some (n, Some b) }))"

definition escape_char :: "u1 \<Rightarrow> u1 option" where
  "escape_char c = (if c = 116 then Some 9 else if c = 110 then Some 10 else if c = 114 then Some 13
     else if c = 102 then Some 12 else None)"

fun quoted_loop :: "nat \<Rightarrow> u1 list \<Rightarrow> nat \<Rightarrow> nat \<Rightarrow> u1 list option \<Rightarrow> (qa_stop + (nat \<times> u1 list option)) option" where
  "quoted_loop 0 str ptr len buffer = None"
| "quoted_loop (Suc fuel) str ptr len buffer =
     (case checked (array_get str ptr) of
        Inl e \<Rightarrow> Some (Inl e)
      | Inr c \<Rightarrow>
          if c = 0 then Some (Inr (len, buffer))
          else if c \<noteq> 92 then
            (case put_char buffer len c of
               Inl e \<Rightarrow> Some (Inl e)
             | Inr buffer \<Rightarrow> quoted_loop fuel str ptr (len + 1) buffer)
          else
            (case checked (array_get str (ptr + 1)) of
               Inl e \<Rightarrow> Some (Inl e)
             | Inr d \<Rightarrow>
                 if d = 117 then
                   (case hex_loop 4 str (ptr + 2) 0 of
                      Inl e \<Rightarrow> Some (Inl e)
                    | Inr (ptr, value) \<Rightarrow>
                        (case put_utf8 buffer len value of
                           Inl e \<Rightarrow> Some (Inl e)
                         | Inr (len, buffer) \<Rightarrow> quoted_loop fuel str ptr len buffer))
                 else
                   (case escape_char d of
                      None \<Rightarrow> Some (Inl Should_Not_Reach_Here)
                    | Some x \<Rightarrow>
                        (case put_char buffer len x of
                           Inl e \<Rightarrow> Some (Inl e)
                         | Inr buffer \<Rightarrow> quoted_loop fuel str (ptr + 2) (len + 1) buffer))))"

text \<open>
  The length is not reset between the two rounds, as in the source.
\<close>

definition from_quoted_ascii :: "nat \<Rightarrow> (nat \<Rightarrow> u1) \<Rightarrow> u1 list \<Rightarrow> (qa_stop + u1 list) option" where
  "from_quoted_ascii fuel fresh str =
     (case skip_loop fuel str 0 of
        None \<Rightarrow> None
      | Some (Inl e) \<Rightarrow> Some (Inl e)
      | Some (Inr ptr) \<Rightarrow>
          if str ! ptr = 0 then Some (Inr str)
          else (case quoted_loop fuel str ptr ptr None of
             None \<Rightarrow> None
           | Some (Inl e) \<Rightarrow> Some (Inl e)
           | Some (Inr (len, _)) \<Rightarrow>
               (case quoted_loop fuel str 0 len (Some (map fresh [0..<len + 1])) of
                  None \<Rightarrow> None
                | Some (Inl e) \<Rightarrow> Some (Inl e)
                | Some (Inr (len, buffer)) \<Rightarrow> Some (checked (do { b \<leftarrow> buffer; array_put b len 0 })))))"

section \<open>Other helpers\<close>

fun utf8_strrchr :: "jbyte list \<Rightarrow> nat \<Rightarrow> jbyte \<Rightarrow> nat option option" where
  "utf8_strrchr base 0 c = Some None"
| "utf8_strrchr base (Suc n) c = do {
     b \<leftarrow> array_get base n;
     if b \<noteq> c then utf8_strrchr base n c else Some (Some n)
   }"

definition utf8_equal :: "jbyte list \<Rightarrow> nat \<Rightarrow> jbyte list \<Rightarrow> nat \<Rightarrow> bool option" where
  "utf8_equal base1 length1 base2 length2 =
     (if length1 \<noteq> length2 then Some False
      else do {
        x \<leftarrow> for_return 0 length1 (\<lambda>i u. do {
          a \<leftarrow> array_get base1 i;
          b \<leftarrow> array_get base2 i;
          Some (if a \<noteq> b then Inl False else Inr u)
        }) ();
        Some (case x of Inl r \<Rightarrow> r | Inr u \<Rightarrow> True)
      })"


lemma skip_loop_printable:
  "0 < length str \<Longrightarrow> str ! 0 \<noteq> 0 \<Longrightarrow> 32 \<le> sint (str ! 0) \<Longrightarrow> sint (str ! 0) < 127 \<Longrightarrow> skip_loop fuel str 0 = None"
  by (induction fuel) (auto simp: checked_def array_get_def)

lemma quoted_loop_stays: "0 < length str \<Longrightarrow> str ! 0 \<noteq> 0 \<Longrightarrow> str ! 0 \<noteq> 92 \<Longrightarrow> quoted_loop fuel str 0 len None = None"
  by (induction fuel arbitrary: len) (auto simp: checked_def array_get_def put_char_def)

section \<open>Characters\<close>

lemma all_bytes:
  assumes "list_all (\<lambda>n. P (word_of_int n)) [0..255]"
  shows "P (b :: u1)"
proof -
  have "uint b \<in> set [0..255]" using uint_lt2p [of b] by simp
  then have "P (word_of_int (uint b))" using assms unfolding list_all_iff by blast
  then show ?thesis by simp
qed

lemma byte_bits:
  fixes b :: u1
  shows "b AND 0xC0 = 0x80 \<longleftrightarrow> uint b div 64 = 2" "uint (b AND 0x3F) = uint b mod 64" "uint (b AND 0x1F) = uint b mod 32"
    "uint (b AND 0x0F) = uint b mod 16" "b AND 0xFF = b" "b AND 0xF0 = 0xA0 \<longleftrightarrow> uint b div 16 = 10"
    "b AND 0xF0 = 0xB0 \<longleftrightarrow> uint b div 16 = 11" "uint (drop_bit 4 b) = uint b div 16"
    "uint b < 32 \<longrightarrow> uint (b OR 0xC0) = uint b + 192" "uint b < 16 \<longrightarrow> uint (b OR 0xE0) = uint b + 224"
    "uint b < 64 \<longrightarrow> uint (b OR 0x80) = uint b + 128"
  by ((rule all_bytes, code_simp)+)

text \<open>The bytes of a character, as numbers.\<close>

definition byte :: "int \<Rightarrow> u1" where
  "byte n = word_of_int n"

lemma uint_byte: "0 \<le> n \<Longrightarrow> n < 256 \<Longrightarrow> uint (byte n) = n"
  by (simp add: byte_def uint_word_of_int_eq take_bit_eq_mod)

definition utf8_bytes :: "jchar \<Rightarrow> u1 list" where
  "utf8_bytes c = (let n = uint c in
     map byte
      (if n \<noteq> 0 \<and> n \<le> 0x7F then [n]
       else if n \<le> 0x7FF then [192 + n div 64, 128 + n mod 64]
       else [224 + n div 4096, 128 + n div 64 mod 64, 128 + n mod 64]))"

text \<open>A character as a number.\<close>

lemma jchar_number:
  fixes c :: jchar
  obtains n where "uint c = n" "c = word_of_int n" "0 \<le> n" "n < 65536" "c = 0 \<longleftrightarrow> n = 0"
    "c \<le> 0x7F \<longleftrightarrow> n \<le> 0x7F" "c \<le> 0x7FF \<longleftrightarrow> n \<le> 0x7FF" "1 \<le> c \<longleftrightarrow> n \<noteq> 0"
proof -
  have z: "c = 0 \<longleftrightarrow> uint c = 0" by (simp add: uint_0_iff)
  have "1 \<le> c \<longleftrightarrow> 1 \<le> uint c" by (simp add: word_le_def)
  also have "\<dots> \<longleftrightarrow> uint c \<noteq> 0" using uint_ge_0 [of c] by linarith
  finally have o: "1 \<le> c \<longleftrightarrow> uint c \<noteq> 0" .
  show ?thesis
    by (rule that [of "uint c"]) (use z o uint_lt2p [of c] in \<open>simp_all add: word_le_def\<close>)
qed

lemma jchar_bits:
  fixes c :: jchar
  shows "uint (c AND 0x3F) = uint c mod 64" "uint (drop_bit 6 c) = uint c div 64" "uint (drop_bit 12 c) = uint c div 4096"
    "uint (drop_bit 6 c AND 0x3F) = uint c div 64 mod 64"
proof -
  have m: "uint (w AND 0x3F) = uint w mod 64" for w :: jchar
  proof -
    have "(0x3F :: jchar) = mask 6" by (simp add: mask_eq_exp_minus_1)
    then have "uint (w AND 0x3F) = uint (take_bit 6 w)" by (simp only: take_bit_eq_mask)
    also have "\<dots> = uint w mod 64" unfolding unsigned_take_bit_eq by (simp add: take_bit_eq_mod)
    finally show ?thesis .
  qed
  show "uint (c AND 0x3F) = uint c mod 64" by (rule m)
  show d: "uint (drop_bit 6 c) = uint c div 64" "uint (drop_bit 12 c) = uint c div 4096"
    using uint_lt2p [of c] unfolding unsigned_drop_bit_eq by (simp_all add: drop_bit_eq_div take_bit_int_eq_self)
  show "uint (drop_bit 6 c AND 0x3F) = uint c div 64 mod 64" unfolding m d ..
qed

lemma length_utf8_bytes [simp]: "length (utf8_bytes c) = utf8_size c"
  by (rule jchar_number [of c]) (auto simp: utf8_bytes_def utf8_size_def)

lemma byte_or:
  "0 \<le> n \<Longrightarrow> n < 32 \<Longrightarrow> byte n OR 0xC0 = byte (192 + n)"
  "0 \<le> n \<Longrightarrow> n < 16 \<Longrightarrow> byte n OR 0xE0 = byte (224 + n)"
  "0 \<le> n \<Longrightarrow> n < 64 \<Longrightarrow> byte n OR 0x80 = byte (128 + n)"
  using byte_bits(9-11) [of "byte n"] by (simp_all add: uint_byte word_uint_eq_iff)

text \<open>One, two or three bytes.\<close>

lemma utf8_cases [case_names one two three]:
  fixes c :: jchar
  assumes "0 < uint c \<Longrightarrow> uint c \<le> 0x7F \<Longrightarrow> (c \<noteq> 0 \<and> c \<le> 0x7F) = True \<Longrightarrow> utf8_size c = 1 \<Longrightarrow> utf8_bytes c = [byte (uint c)] \<Longrightarrow> P"
    and "\<And>h l. uint c div 64 = h \<Longrightarrow> uint c mod 64 = l \<Longrightarrow> 0 \<le> h \<Longrightarrow> h < 32 \<Longrightarrow> 0 \<le> l \<Longrightarrow> l < 64 \<Longrightarrow> h * 64 + l = uint c \<Longrightarrow>
      (c \<noteq> 0 \<and> c \<le> 0x7F) = False \<Longrightarrow> (c \<le> 0x7FF) = True \<Longrightarrow> utf8_size c = 2 \<Longrightarrow> utf8_bytes c = [byte (192 + h), byte (128 + l)] \<Longrightarrow> P"
    and "\<And>h m l. uint c div 4096 = h \<Longrightarrow> uint c div 64 mod 64 = m \<Longrightarrow> uint c mod 64 = l \<Longrightarrow> 0 \<le> h \<Longrightarrow> h < 16 \<Longrightarrow> 0 \<le> m \<Longrightarrow> m < 64 \<Longrightarrow>
      0 \<le> l \<Longrightarrow> l < 64 \<Longrightarrow> (h * 64 + m) * 64 + l = uint c \<Longrightarrow> (c \<noteq> 0 \<and> c \<le> 0x7F) = False \<Longrightarrow> (c \<le> 0x7FF) = False \<Longrightarrow> utf8_size c = 3 \<Longrightarrow>
      utf8_bytes c = [byte (224 + h), byte (128 + m), byte (128 + l)] \<Longrightarrow> P"
  shows P
proof -
  obtain n where n: "uint c = n" "0 \<le> n" "n < 65536" and z: "c = 0 \<longleftrightarrow> n = 0"
    and le: "c \<le> 0x7F \<longleftrightarrow> n \<le> 0x7F" "c \<le> 0x7FF \<longleftrightarrow> n \<le> 0x7FF" "1 \<le> c \<longleftrightarrow> n \<noteq> 0" by (rule jchar_number)
  have size: "utf8_size c = (if n \<noteq> 0 \<and> n \<le> 0x7F then 1 else if n \<le> 0x7FF then 2 else 3)"
    unfolding utf8_size_def le by simp
  have bytes: "utf8_bytes c = map byte (if n \<noteq> 0 \<and> n \<le> 0x7F then [n] else if n \<le> 0x7FF then [192 + n div 64, 128 + n mod 64]
      else [224 + n div 4096, 128 + n div 64 mod 64, 128 + n mod 64])"
    unfolding utf8_bytes_def n(1) Let_def ..
  note u = n(1) z le size bytes
  consider (a) "n \<noteq> 0" "n \<le> 0x7F" | (b) "n = 0 \<or> 0x7F < n" "n \<le> 0x7FF" | (d) "0x7FF < n" by linarith
  then show P
  proof cases
    case a
    then have "0 < n" using n(2) by linarith
    then show P using a(2) by (rule assms(1) [unfolded u]) (use a in simp_all)
  next
    case b
    then have "0 \<le> n div 64" "n div 64 < 32" "0 \<le> n mod 64" "n mod 64 < 64" "n div 64 * 64 + n mod 64 = n"
      using n(2) by simp_all
    then show P by (rule assms(2) [unfolded u, OF refl refl]) (use b in auto)
  next
    case d
    then have "0 \<le> n div 4096" "n div 4096 < 16" "0 \<le> n div 64 mod 64" "n div 64 mod 64 < 64" "0 \<le> n mod 64" "n mod 64 < 64"
      using n(2,3) by simp_all
    moreover have "n div 4096 = n div 64 div 64" using zdiv_zmult2_eq [of 64 n 64] by simp
    then have "(n div 4096 * 64 + n div 64 mod 64) * 64 + n mod 64 = n" by simp
    ultimately show P by (rule assms(3) [unfolded u, OF refl refl refl]) (use d in auto)
  qed
qed

lemma utf8_write_spec:
  assumes "length old = utf8_size c"
  shows "utf8_write (pre @ old @ post) (length pre) c = Some (length pre + utf8_size c, pre @ utf8_bytes c @ post)"
proof -
  have u: "(ucast w :: u1) = byte (uint w)" for w :: jchar by (simp add: byte_def unsigned_of_int)
  note defs = utf8_write_def Let_def array_put_def u jchar_bits
  show ?thesis
  proof (cases c rule: utf8_cases)
    case one
    then obtain x where "old = [x]" using assms by (auto simp: length_Suc_conv)
    then show ?thesis by (simp only: defs one) simp
  next
    case (two h l)
    then obtain x y where "old = [x, y]" using assms by (auto simp: length_Suc_conv numeral_2_eq_2)
    then show ?thesis by (simp only: defs two byte_or if_False if_True) (simp add: list_update_append)
  next
    case (three h m l)
    then obtain x y z where "old = [x, y, z]" using assms by (auto simp: length_Suc_conv numeral_3_eq_3)
    then show ?thesis by (simp only: defs three byte_or if_False if_True) (simp add: list_update_append)
  qed
qed

text \<open>The three forms that the decoder accepts.\<close>

lemma utf8_next_one:
  assumes "array_get str p = Some b" "uint b < 128" "uint b = uint c"
  shows "utf8_next str p = Some (c, p + 1)"
proof -
  have "uint b div 16 < 8" using assms(2) by presburger
  then have k: "(uint b div 16 \<in> {0x8, 0x9, 0xA, 0xB, 0xF}) = False" "(uint b div 16 \<in> {0xC, 0xD}) = False" "(uint b div 16 = 0xE) = False"
    by auto
  have "(ucast b :: jchar) = word_of_int (uint b)" by (simp add: unsigned_of_int)
  then have "ucast b = c" unfolding assms(3) by simp
  then show ?thesis
    by (simp only: utf8_next_def Let_def byte_bits Option.bind.simps assms(1) k if_False option.case prod.case)
qed

lemma utf8_next_two:
  assumes "array_get str p = Some b" "array_get str (p + 1) = Some b'" "uint b div 32 = 6" "uint b' div 64 = 2"
    and "uint b mod 32 * 64 + uint b' mod 64 = uint c"
  shows "utf8_next str p = Some (c, p + 2)"
proof -
  have "uint b div 16 = 12 \<or> uint b div 16 = 13" using assms(3) by presburger
  moreover have "push_bit 6 (uint b mod 32) + uint b' mod 64 = uint c" using assms(5) by (simp add: push_bit_eq_mult)
  ultimately show ?thesis using assms(1,2,4)
    by (auto simp only: utf8_next_def Let_def byte_bits Option.bind.simps) auto
qed

lemma utf8_next_three:
  assumes "array_get str p = Some b" "array_get str (p + 1) = Some b'" "array_get str (p + 2) = Some b''"
    and "uint b div 16 = 14" "uint b' div 64 = 2" "uint b'' div 64 = 2"
    and "(uint b mod 16 * 64 + uint b' mod 64) * 64 + uint b'' mod 64 = uint c"
  shows "utf8_next str p = Some (c, p + 3)"
proof -
  have "push_bit 6 (push_bit 6 (uint b mod 16) + uint b' mod 64) + uint b'' mod 64 = uint c"
    using assms(7) by (simp add: push_bit_eq_mult)
  then show ?thesis using assms(1-6)
    by (simp only: utf8_next_def Let_def byte_bits Option.bind.simps) auto
qed

lemma div_mod_add: "0 \<le> l \<Longrightarrow> l < k \<Longrightarrow> (q * k + l) div k = q" "0 \<le> l \<Longrightarrow> l < k \<Longrightarrow> (q * k + l) mod k = l" for l :: int
  by simp_all

lemma utf8_next_utf8_bytes: "utf8_next (pre @ utf8_bytes c @ post) (length pre) = Some (c, length pre + utf8_size c)"
proof (cases c rule: utf8_cases)
  case one
  have "utf8_next (pre @ utf8_bytes c @ post) (length pre) = Some (c, length pre + 1)"
  proof (rule utf8_next_one)
    show "array_get (pre @ utf8_bytes c @ post) (length pre) = Some (byte (uint c))"
      by (simp only: one(5)) (simp add: array_get_def)
    show "uint (byte (uint c)) = uint c" by (rule uint_byte) (use one(1,2) in linarith)+
    then show "uint (byte (uint c)) < 128" using one(2) by linarith
  qed
  then show ?thesis using one(4) by simp
next
  case (two h l)
  have "(192 + h) div 32 = 6" "(192 + h) mod 32 = h" "(128 + l) div 64 = 2" "(128 + l) mod 64 = l"
    using two(3-6) div_mod_add [of h 32 6] div_mod_add [of l 64 2] by simp_all
  then have "utf8_next (pre @ utf8_bytes c @ post) (length pre) = Some (c, length pre + 2)"
    by (intro utf8_next_two [of _ _ "byte (192 + h)" "byte (128 + l)"])
      (use two(3-7,10,11) in \<open>simp_all add: array_get_def nth_append uint_byte\<close>)
  then show ?thesis using two(10) by simp
next
  case (three h m l)
  note u = uint_byte [of "224 + h"] uint_byte [of "128 + m"] uint_byte [of "128 + l"]
  have b: "uint (byte (224 + h)) = 14 * 16 + h" "uint (byte (128 + m)) = 2 * 64 + m" "uint (byte (128 + l)) = 2 * 64 + l"
    using u three(4-9) by linarith+
  note q = div_mod_add [OF three(4,5), of 14] div_mod_add [OF three(6,7), of 2] div_mod_add [OF three(8,9), of 2]
  have "utf8_next (pre @ utf8_bytes c @ post) (length pre) = Some (c, length pre + 3)"
    by (rule utf8_next_three [of _ _ "byte (224 + h)" "byte (128 + m)" "byte (128 + l)"]; (simp only: b q three(10))?)
      (simp_all add: three(14) array_get_def nth_append)
  then show ?thesis using three(13) by simp
qed

section \<open>Strings\<close>

definition utf8_encode :: "jchar list \<Rightarrow> u1 list" where
  "utf8_encode cs = concat (map utf8_bytes cs)"

lemma utf8_encode_simps [simp]:
  "utf8_encode [] = []" "utf8_encode (c # cs) = utf8_bytes c @ utf8_encode cs" "utf8_encode (cs @ ds) = utf8_encode cs @ utf8_encode ds"
  by (simp_all add: utf8_encode_def)

lemma array_get_at: "array_get (xs @ y # ys) (length xs) = Some y"
  by (simp add: array_get_def)

lemma write_loop:
  "length old = length (utf8_encode ys) \<Longrightarrow>
   for_loop (length xs) (length xs + length ys) (\<lambda>index (p, buf). do { c \<leftarrow> array_get (xs @ ys) index; utf8_write buf p c }) (length pre, pre @ old @ post)
     = Some (length (pre @ utf8_encode ys), pre @ utf8_encode ys @ post)"
proof (induction ys arbitrary: xs pre old)
  case (Cons c ys)
  then obtain a b where old: "old = a @ b" "length a = utf8_size c" "length b = length (utf8_encode ys)"
    by (metis append_take_drop_id length_append length_utf8_bytes add_diff_cancel_left' length_drop length_take min.absorb2 le_add1 utf8_encode_simps(2))
  have "for_loop (length (xs @ [c])) (length (xs @ [c]) + length ys) (\<lambda>index (p, buf). do { c \<leftarrow> array_get ((xs @ [c]) @ ys) index; utf8_write buf p c })
      (length (pre @ utf8_bytes c), (pre @ utf8_bytes c) @ b @ post) = Some (length ((pre @ utf8_bytes c) @ utf8_encode ys), (pre @ utf8_bytes c) @ utf8_encode ys @ post)"
    by (rule Cons.IH [OF old(3)])
  then show ?case using utf8_write_spec [OF old(2), of pre "b @ post"] old(1) by (simp add: for_loop_step array_get_at)
qed simp

lemma sum_utf8_size: "length (utf8_encode cs) = sum_list (map utf8_size cs)"
  by (induction cs) simp_all

lemma utf8_length_eq: "utf8_length cs (length cs) = Some (length (utf8_encode cs))"
proof -
  have size: "(if 0x0001 \<le> c \<and> c \<le> 0x007F then result + 1 else if c \<le> 0x07FF then result + 2 else result + 3) = result + utf8_size c" for c result
    by (simp add: utf8_size_def)
  have "for_loop (length xs) (length xs + length ys) (\<lambda>index result. do { c \<leftarrow> array_get (xs @ ys) index; Some (result + utf8_size c) }) n
      = Some (n + length (utf8_encode ys))" for xs ys n
  proof (induction ys arbitrary: xs n)
    case (Cons c ys)
    from Cons [of "xs @ [c]" "n + utf8_size c"] show ?case
      by (simp add: for_loop_step array_get_at)
  qed simp
  from this [of "[]" cs 0] show ?thesis unfolding utf8_length_def size by simp
qed

lemma as_utf8_eq: "as_utf8 fresh cs (length cs) = Some (utf8_encode cs @ [0])"
proof -
  let ?n = "length (utf8_encode cs)"
  have "map fresh [0..<?n + 1] = map fresh [0..<?n] @ [fresh ?n]" by simp
  then show ?thesis using write_loop [of "map fresh [0..<?n]" cs "[]" "[]" "[fresh ?n]"]
    by (simp add: as_utf8_def utf8_length_eq array_put_def)
qed

lemma convert_to_utf8_eq:
  "length buf = length (utf8_encode cs) + 1 + k \<Longrightarrow>
   convert_to_utf8 cs (length cs) buf = Some (utf8_encode cs @ [0] @ drop (length (utf8_encode cs) + 1) buf)"
proof -
  let ?n = "length (utf8_encode cs)"
  assume len: "length buf = ?n + 1 + k"
  then obtain x where buf: "buf = take ?n buf @ x # drop (?n + 1) buf"
    by (metis Suc_eq_plus1 add.assoc id_take_nth_drop le_add1 le_imp_less_Suc plus_1_eq_Suc add.commute)
  have "length (take ?n buf) = ?n" using len by simp
  from write_loop [OF this, of "[]" "[]" "x # drop (?n + 1) buf"] show ?thesis
    by (subst buf) (simp add: convert_to_utf8_def array_put_def)
qed

text \<open>Counting the bytes that do not continue a character.\<close>

lemma utf8_bytes_head:
  obtains b bs where "utf8_bytes c = b # bs" "b AND 0xC0 \<noteq> 0x80" "list_all (\<lambda>b. b AND 0xC0 = 0x80) bs" "0 \<notin> set (b # bs)"
    "uint b < 128 \<Longrightarrow> bs = [] \<and> uint b = uint c"
proof (cases c rule: utf8_cases)
  case one
  then have b: "uint (byte (uint c)) = uint c" by (intro uint_byte) linarith+
  have "uint c div 64 < 2" using one(2) by linarith
  then show ?thesis using one(1) b by (intro that [of "byte (uint c)" "[]"]) (auto simp: one(5) byte_bits word_uint_eq_iff [of 0])
next
  case (two h l)
  have b: "uint (byte (192 + h)) = 192 + h" "uint (byte (128 + l)) = 2 * 64 + l" using uint_byte [of "192 + h"] uint_byte [of "128 + l"] two(3-6) by linarith+
  have "(192 + h) div 64 = 3" using two(3,4) by linarith
  moreover have "(2 * 64 + l) div 64 = 2" using div_mod_add [OF two(5,6)] by blast
  ultimately show ?thesis using two(3,5) b by (intro that [of "byte (192 + h)" "[byte (128 + l)]"]) (auto simp: two(11) byte_bits word_uint_eq_iff [of 0])
next
  case (three h m l)
  have b: "uint (byte (224 + h)) = 224 + h" "uint (byte (128 + m)) = 2 * 64 + m" "uint (byte (128 + l)) = 2 * 64 + l"
    using uint_byte [of "224 + h"] uint_byte [of "128 + m"] uint_byte [of "128 + l"] three(4-9) by linarith+
  have "(224 + h) div 64 = 3" using three(4,5) by linarith
  moreover have "(2 * 64 + l) div 64 = 2" "(2 * 64 + m) div 64 = 2" using div_mod_add [OF three(8,9)] div_mod_add [OF three(6,7)] by blast+
  ultimately show ?thesis using three(4,6,8) b
    by (intro that [of "byte (224 + h)" "[byte (128 + m), byte (128 + l)]"]) (auto simp: three(14) byte_bits word_uint_eq_iff [of 0])
qed

lemma filter_continuation: "length (filter (\<lambda>b. b AND 0xC0 \<noteq> 0x80) (utf8_encode cs)) = length cs"
proof (induction cs)
  case (Cons c cs)
  obtain b bs where "utf8_bytes c = b # bs" "b AND 0xC0 \<noteq> 0x80" "list_all (\<lambda>b. b AND 0xC0 = 0x80) bs" by (rule utf8_bytes_head)
  then show ?case using Cons by (simp add: list_all_iff)
qed simp

lemma no_zero_byte: "0 \<notin> set (utf8_encode cs)"
proof (induction cs)
  case (Cons c cs)
  obtain b bs where "utf8_bytes c = b # bs" "0 \<notin> set (b # bs)" by (rule utf8_bytes_head)
  then show ?case using Cons by simp
qed simp

lemma unicode_length_eq: "unicode_length (s @ post) (length s) = Some (int (length (filter (\<lambda>b. b AND 0xC0 \<noteq> 0x80) s)))"
proof -
  have "for_loop (length xs) (length xs + length ys) (\<lambda>i num_chars. do { c \<leftarrow> array_get (xs @ ys @ post) i;
      Some (if c AND 0xC0 = 0x80 then num_chars - 1 else num_chars) }) n
      = Some (n - int (length ys) + int (length (filter (\<lambda>b. b AND 0xC0 \<noteq> 0x80) ys)))" for xs ys n
  proof (induction ys arbitrary: xs n)
    case (Cons c ys)
    show ?case using Cons [of "xs @ [c]" n] Cons [of "xs @ [c]" "n - 1"] by (simp add: for_loop_step array_get_at)
  qed simp
  from this [of "[]" s "int (length s)"] show ?thesis by (simp add: unicode_length_def)
qed

lemma unicode_length_z_eq:
  "0 \<notin> set s \<Longrightarrow> unicode_length_z (xs @ s @ 0 # post) (length xs) n = Some (n + int (length (filter (\<lambda>b. b AND 0xC0 \<noteq> 0x80) s)))"
proof (induction s arbitrary: xs n)
  case Nil
  then show ?case by (simp add: unicode_length_z.simps)
next
  case (Cons c s)
  show ?case using Cons.prems Cons.IH [of "xs @ [c]" n] Cons.IH [of "xs @ [c]" "n + 1"] by (simp add: unicode_length_z.simps [of _ "length xs"])
qed

text \<open>Both loops of the decoder keep to the same state: the characters read so far.\<close>

lemma convert_to_unicode_eq:
  assumes "length buf = length cs"
  shows "convert_to_unicode (utf8_encode cs @ post) buf (length cs) = Some cs"
proof -
  let ?str = "utf8_encode cs @ post"
  define I where "I k s \<longleftrightarrow> s = (length (utf8_encode (take k cs)), take k cs @ drop k buf)" for k and s :: "nat \<times> jchar list"
  have split: "?str = utf8_encode (take k cs) @ utf8_bytes (cs ! k) @ utf8_encode (drop (Suc k) cs) @ post" if "k < length cs" for k
    using id_take_nth_drop [OF that] by (metis append.assoc utf8_encode_simps(2,3))
  have put: "array_put (take k cs @ drop k buf) k (cs ! k) = Some (take (Suc k) cs @ drop (Suc k) buf)" if "k < length cs" for k
  proof -
    have "drop k buf = buf ! k # drop (Suc k) buf" using that assms by (simp add: Cons_nth_drop_Suc)
    then show ?thesis using that assms by (simp add: array_put_def list_update_append take_Suc_conv_app_nth)
  qed
  have nx: "utf8_next ?str (length (utf8_encode (take k cs))) = Some (cs ! k, length (utf8_encode (take (Suc k) cs)))" if "k < length cs" for k
    unfolding split [OF that] utf8_next_utf8_bytes using that by (simp add: take_Suc_conv_app_nth)
  let ?b1 = "\<lambda>index (ptr, buf). do {
       ch \<leftarrow> array_get ?str ptr;
       if 0x7F < ch then Some (Inl (index, ptr, buf))
       else do { buf \<leftarrow> array_put buf index (ucast ch); Some (Inr (ptr + 1, buf)) } }"
  have "succeeds (for_return 0 (length cs) ?b1 (0, buf)) (\<lambda>x. case x of Inl (k, s) \<Rightarrow> k \<le> length cs \<and> I k s | Inr s \<Rightarrow> I (length cs) s)"
  proof (rule for_return_rule [where Q = "\<lambda>(k, s). k \<le> length cs \<and> I k s"])
    show "I 0 (0, buf)" by (simp add: I_def)
    fix k s
    assume k: "k < length cs" and s: "I k s"
    obtain b bs where b: "utf8_bytes (cs ! k) = b # bs" and sm: "uint b < 128 \<Longrightarrow> bs = [] \<and> uint b = uint (cs ! k)"
      by (rule utf8_bytes_head [of "cs ! k"]) blast
    have get: "array_get ?str (length (utf8_encode (take k cs))) = Some b" unfolding split [OF k] b by (simp add: array_get_at)
    show "succeeds (?b1 k s) (\<lambda>x. case x of Inl (k, s) \<Rightarrow> k \<le> length cs \<and> I k s | Inr s \<Rightarrow> I (Suc k) s)"
    proof (cases "0x7F < b")
      case True
      then show ?thesis using s k get by (simp add: I_def)
    next
      case False
      then have u: "uint b < 128" by (simp add: word_less_def)
      have "utf8_size (cs ! k) = 1" using sm [OF u] b by (metis length_utf8_bytes length_Cons list.size(3) One_nat_def)
      moreover have "(ucast b :: jchar) = cs ! k"
      proof -
        have "(ucast b :: jchar) = word_of_int (uint b)" by (simp add: unsigned_of_int)
        then show ?thesis using sm [OF u] by simp
      qed
      ultimately show ?thesis using False s k get put [OF k] by (simp add: I_def take_Suc_conv_app_nth)
    qed
  qed simp
  then obtain x where x: "for_return 0 (length cs) ?b1 (0, buf) = Some x"
    and I: "case x of Inl (k, s) \<Rightarrow> k \<le> length cs \<and> I k s | Inr s \<Rightarrow> I (length cs) s" by (rule succeedsE)
  obtain k s where ks: "(case x of Inl s \<Rightarrow> s | Inr (ptr, buf) \<Rightarrow> (length cs, ptr, buf)) = (k, s)" "k \<le> length cs" "I k s"
    using I by (cases x) auto
  have "succeeds (for_loop k (length cs) (\<lambda>index (ptr, buf). do {
       (c, ptr) \<leftarrow> utf8_next ?str ptr;
       buf \<leftarrow> array_put buf index c;
       Some (ptr, buf) }) s) (I (length cs))"
    by (rule for_loop_rule [where I = I, OF ks(2,3)]) (simp add: I_def nx put)
  then show ?thesis using x ks(1) assms by (cases s) (auto simp: convert_to_unicode_def succeeds_iff I_def)
qed

text \<open>
  C13: a string of characters that \<^verbatim>\<open>UNICODE::as_utf8\<close> writes is terminated by its only zero byte and as
  long as predicted, both \<^verbatim>\<open>UTF8::unicode_length\<close> find the number of its characters, and
  \<^verbatim>\<open>UTF8::convert_to_unicode\<close> reads the characters back.
\<close>

theorem utf8_roundtrip:
  assumes "length buf = length cs"
  shows "\<exists>s. as_utf8 fresh cs (length cs) = Some (s @ [0]) \<and> 0 \<notin> set s \<and> utf8_length cs (length cs) = Some (length s)
    \<and> unicode_length (s @ [0]) (length s) = Some (int (length cs)) \<and> unicode_length_z (s @ [0]) 0 0 = Some (int (length cs))
    \<and> convert_to_unicode (s @ [0]) buf (length cs) = Some cs"
  using unicode_length_z_eq [OF no_zero_byte, of "[]"] convert_to_unicode_eq [OF assms]
  by (intro exI [of _ "utf8_encode cs"]) (simp add: as_utf8_eq no_zero_byte utf8_length_eq unicode_length_eq filter_continuation)

theorem utf8_roundtrip_witness:
  "\<exists>s. as_utf8 (\<lambda>_. 1) [0x48, 0, 0xE9, 0x20AC] 4 = Some (s @ [0]) \<and> convert_to_unicode (s @ [0]) [0, 0, 0, 0] 4 = Some [0x48, 0, 0xE9, 0x20AC]"
  using utf8_roundtrip [of "[0, 0, 0, 0]" "[0x48, 0, 0xE9, 0x20AC]" "\<lambda>_. 1"] by (auto simp: numeral_eq_Suc)

text \<open>A supplementary character is a pair of surrogates.\<close>

lemma surrogate_bytes:
  assumes "0 \<le> a" "a < 16" "0 \<le> b" "b < 64"
  shows "utf8_bytes (word_of_int (0xD800 + (64 * a + b))) = [byte 0xED, byte (0xA0 + a), byte (0x80 + b)]"
    "utf8_bytes (word_of_int (0xDC00 + (64 * a + b))) = [byte 0xED, byte (0xB0 + a), byte (0x80 + b)]"
proof -
  have u: "uint (word_of_int n :: jchar) = n" if "0 \<le> n" "n < 65536" for n
    using that by (simp only: uint_word_of_int_eq) (simp add: take_bit_eq_mod)
  have three: "utf8_bytes (word_of_int n) = [byte (224 + n div 4096), byte (128 + n div 64 mod 64), byte (128 + n mod 64)]"
    if "0x7FF < n" "n < 65536" for n
    using that u [of n] by (simp only: utf8_bytes_def Let_def) simp
  define m where "m = 64 * a + b"
  have m: "0 \<le> m" "m < 1024" using assms by (simp_all add: m_def)
  have d: "(0xD800 + m) div 4096 = 13" "(0xDC00 + m) div 4096 = 13" by (subst int_div_eq_iff; use m in linarith)+
  have e: "(0xD800 + m) div 64 = 864 + a" "(0xDC00 + m) div 64 = 880 + a" using assms by (simp_all add: int_div_eq_iff m_def)
  have f: "(864 + a) mod 64 = 32 + a" "(880 + a) mod 64 = 48 + a"
    using div_mod_add(2) [of "32 + a" 64 13] div_mod_add(2) [of "48 + a" 64 13] assms(1,2) by simp_all
  have g: "(0xD800 + m) mod 64 = b" "(0xDC00 + m) mod 64 = b"
    using div_mod_add(2) [of b 64 "864 + a"] div_mod_add(2) [of b 64 "880 + a"] assms(3,4) by (simp_all add: m_def algebra_simps)
  have r: "0x7FF < 0xD800 + m" "0xD800 + m < 65536" "0x7FF < 0xDC00 + m" "0xDC00 + m < 65536" using m by linarith+
  show "utf8_bytes (word_of_int (0xD800 + (64 * a + b))) = [byte 0xED, byte (0xA0 + a), byte (0x80 + b)]"
    unfolding m_def [symmetric] three [OF r(1,2)] d e f g by simp
  show "utf8_bytes (word_of_int (0xDC00 + (64 * a + b))) = [byte 0xED, byte (0xB0 + a), byte (0x80 + b)]"
    unfolding m_def [symmetric] three [OF r(3,4)] d e f g by simp
qed

lemma next_character_supplementary:
  assumes "0 \<le> a" "a < 16" "0 \<le> b" "b < 64" "0 \<le> a'" "a' < 16" "0 \<le> b'" "b' < 64"
  shows "next_character (pre @ utf8_encode [word_of_int (0xD800 + (64 * a + b)), word_of_int (0xDC00 + (64 * a' + b'))] @ post) (length pre)
    = Some (word_of_int (0x10000 + 1024 * (64 * a + b) + (64 * a' + b')), length pre + 6)"
proof -
  have u: "uint (byte (0xA0 + a)) = 10 * 16 + a" "uint (byte (0xB0 + a')) = 11 * 16 + a'" "uint (byte (0x80 + b)) = 2 * 64 + b"
      "uint (byte (0x80 + b')) = 2 * 64 + b'"
    using uint_byte [of "0xA0 + a"] uint_byte [of "0xB0 + a'"] uint_byte [of "0x80 + b"] uint_byte [of "0x80 + b'"] assms by linarith+
  have e: "byte 0xED = 0xED" by (simp add: byte_def)
  note q = div_mod_add [OF assms(1,2), of 10] div_mod_add [OF assms(3,4), of 2] div_mod_add [OF assms(5,6), of 11] div_mod_add [OF assms(7,8), of 2]
  let ?s = "pre @ utf8_encode [word_of_int (0xD800 + (64 * a + b)), word_of_int (0xDC00 + (64 * a' + b'))] @ post"
  have s: "?s = pre @ [0xED, byte (0xA0 + a), byte (0x80 + b), 0xED, byte (0xB0 + a'), byte (0x80 + b')] @ post"
    by (simp only: utf8_encode_simps surrogate_bytes [OF assms(1-4)] surrogate_bytes [OF assms(5-8)] e append.simps append_Nil2)
  have get: "array_get ?s (length pre) = Some 0xED" "array_get ?s (length pre + 1) = Some (byte (0xA0 + a))" "array_get ?s (length pre + 2) = Some (byte (0x80 + b))"
    "array_get ?s (length pre + 3) = Some 0xED" "array_get ?s (length pre + 4) = Some (byte (0xB0 + a'))" "array_get ?s (length pre + 5) = Some (byte (0x80 + b'))"
    unfolding s by (simp_all add: array_get_def nth_append)
  have "0x10000 + push_bit 16 a + push_bit 10 b + push_bit 6 a' + b' = 0x10000 + 1024 * (64 * a + b) + (64 * a' + b')"
    by (simp add: push_bit_eq_mult)
  moreover have "is_supplementary_character ?s (length pre) = Some True"
    unfolding is_supplementary_character_def get Option.bind.simps byte_bits u q by simp
  ultimately show ?thesis
    unfolding next_character_def get_supplementary_character_def get Option.bind.simps byte_bits u q by (simp only: Option.bind.simps if_True)
qed

text \<open>Zero-terminated strings, legal or not.\<close>

lemma utf8_next_progress: "utf8_next str p = Some (c, p') \<Longrightarrow> p < p'"
  by (auto simp: utf8_next_def Let_def split: if_splits option.splits)

lemma utf8_next_terminated:
  assumes "p < length s"
  shows "\<exists>c p'. utf8_next (s @ 0 # post) p = Some (c, p') \<and> p < p' \<and> p' \<le> length s"
proof -
  have "(0 :: u1) AND 0xC0 \<noteq> 0x80" by simp
  then show ?thesis using assms by (auto simp: utf8_next_def Let_def array_get_def nth_append split: if_splits)
qed

function utf8_chars :: "u1 list \<Rightarrow> nat \<Rightarrow> nat \<Rightarrow> jchar list option" where
  "utf8_chars str p e =
     (if p < e then (case utf8_next str p of None \<Rightarrow> None | Some (c, p') \<Rightarrow> map_option ((#) c) (utf8_chars str p' e))
      else Some [])"
  by pat_completeness auto
termination
  by (relation "measure (\<lambda>(str, p, e). e - p)") (auto dest: utf8_next_progress)

declare utf8_chars.simps [simp del]

lemma utf8_chars_terminated: "p \<le> length s \<Longrightarrow> \<exists>cs. utf8_chars (s @ 0 # post) p (length s) = Some cs"
proof (induction "length s - p" arbitrary: p rule: less_induct)
  case less
  show ?case
  proof (cases "p < length s")
    case True
    from utf8_next_terminated [OF this, of post] obtain c p' where n: "utf8_next (s @ 0 # post) p = Some (c, p')" "p < p'" "p' \<le> length s" by blast
    have "length s - p' < length s - p" using n True by linarith
    from less(1) [OF this n(3)] obtain cs where "utf8_chars (s @ 0 # post) p' (length s) = Some cs" by blast
    then show ?thesis using n True by (simp add: utf8_chars.simps [of _ p])
  qed (simp add: utf8_chars.simps)
qed

lemma utf8_chars_encode: "utf8_chars (pre @ utf8_encode cs @ post) (length pre) (length pre + length (utf8_encode cs)) = Some cs"
proof (induction cs arbitrary: pre)
  case (Cons c cs)
  have "0 < utf8_size c" by (simp add: utf8_size_def)
  then show ?case using Cons [of "pre @ utf8_bytes c"] utf8_next_utf8_bytes [of pre c "utf8_encode cs @ post"]
    by (simp add: utf8_chars.simps [of _ "length pre"] add.assoc)
qed (simp add: utf8_chars.simps)

section \<open>Quoted text\<close>

definition quote_char :: "jchar \<Rightarrow> u1 list" where
  "quote_char c = (if 32 \<le> c \<and> c < 127 then [ucast c] else quoted c)"

text \<open>The characters that fit whole in a buffer, with room for the final zero byte.\<close>

fun fit :: "nat \<Rightarrow> jchar list \<Rightarrow> u1 list" where
  "fit e [] = []"
| "fit e (c # cs) = (if length (quote_char c) \<ge> e then [] else quote_char c @ fit (e - length (quote_char c)) cs)"

lemma fit_length: "0 < e \<Longrightarrow> length (fit e cs) < e"
  by (induction e cs rule: fit.induct) auto

lemma fit_all: "length (concat (map quote_char cs)) < e \<Longrightarrow> fit e cs = concat (map quote_char cs)"
  by (induction e cs rule: fit.induct) auto

lemma fit_prefix: "\<exists>k \<le> length cs. fit e cs = concat (map quote_char (take k cs)) \<and>
   (k < length cs \<longrightarrow> e \<le> length (fit e cs) + length (quote_char (cs ! k)))"
proof (induction e cs rule: fit.induct)
  case (2 e c cs)
  show ?case
  proof (cases "length (quote_char c) \<ge> e")
    case True
    then show ?thesis by (intro exI [of _ 0]) simp
  next
    case False
    from 2 [OF False] obtain k where "k \<le> length cs" "fit (e - length (quote_char c)) cs = concat (map quote_char (take k cs))"
      "k < length cs \<longrightarrow> e - length (quote_char c) \<le> length (fit (e - length (quote_char c)) cs) + length (quote_char (cs ! k))" by blast
    then show ?thesis using False by (intro exI [of _ "Suc k"]) auto
  qed
qed simp

lemma sprintf_quoted_eq: "length old = 7 \<Longrightarrow> sprintf_quoted (pre @ old @ post) (length pre) c = Some (pre @ quoted c @ 0 # post)"
proof -
  assume "length old = 7"
  then obtain a1 a2 a3 a4 a5 a6 a7 where "old = [a1, a2, a3, a4, a5, a6, a7]"
    by (auto simp: length_Suc_conv numeral_eq_Suc)
  then show ?thesis
    by (simp add: sprintf_quoted_def numeral_eq_Suc loop_eval array_put_def list_update_append quoted_def)
qed

lemma put_quoted_eq:
  assumes "length pre + length old = e" "old \<noteq> []"
  shows "if length (quote_char c) \<ge> length old then put_quoted c (length pre) (pre @ old) e = Some None
    else \<exists>old'. put_quoted c (length pre) (pre @ old) e = Some (Some (length (pre @ quote_char c), (pre @ quote_char c) @ old'))
      \<and> length old' = length old - length (quote_char c)"
proof (cases "32 \<le> c \<and> c < 127")
  case True
  obtain x xs where "old = x # xs" using assms(2) by (cases old) auto
  then show ?thesis using True assms(1) by (auto simp: put_quoted_def quote_char_def array_put_def list_update_append)
next
  case False
  have qc: "quote_char c = quoted c" using False by (auto simp: quote_char_def)
  have q: "length (quoted c) = 6" by (simp add: quoted_def)
  show ?thesis
  proof (cases "length old \<le> 6")
    case True
    then show ?thesis using False assms(1) q qc by (simp add: put_quoted_def)
  next
    case long: False
    have "sprintf_quoted (pre @ take 7 old @ drop 7 old) (length pre) c = Some (pre @ quoted c @ 0 # drop 7 old)"
      by (rule sprintf_quoted_eq) (use long in simp)
    moreover have "\<not> e \<le> length pre + 6" "Suc (length old - 7) = length old - 6" using long assms(1) by linarith+
    ultimately show ?thesis using False long unfolding qc q by (auto simp: put_quoted_def q)
  qed
qed

text \<open>The loops of both versions put the characters that fit.\<close>

definition puts_text :: "u1 list \<Rightarrow> u1 list \<Rightarrow> jchar list \<Rightarrow> nat \<times> u1 list \<Rightarrow> bool" where
  "puts_text pre old cs = (\<lambda>(p, buf). \<exists>rest. p = length (pre @ fit (length old) cs) \<and> buf = (pre @ fit (length old) cs) @ rest
     \<and> length rest = length old - length (fit (length old) cs))"

lemma puts_text_stop: "length (quote_char c) \<ge> length old \<Longrightarrow> puts_text pre old (c # cs) (length pre, pre @ old)"
  by (simp add: puts_text_def)

lemma puts_text_step:
  "\<not> length (quote_char c) \<ge> length old \<Longrightarrow> length old' = length old - length (quote_char c) \<Longrightarrow>
   puts_text (pre @ quote_char c) old' cs s \<Longrightarrow> puts_text pre old (c # cs) s"
  by (cases s) (auto simp: puts_text_def)

lemma as_quoted_ascii_loop_spec:
  assumes "utf8_chars str ptr ue = Some cs" "length pre + length old = e" "old \<noteq> []"
  shows "succeeds (as_quoted_ascii_loop str ptr ue (length pre) (pre @ old) e) (puts_text pre old cs)"
  using assms
proof (induction cs arbitrary: ptr pre old)
  case Nil
  then have "\<not> ptr < ue" by (auto simp: utf8_chars.simps [of str ptr] split: option.splits)
  then show ?case by (simp add: as_quoted_ascii_loop.simps [of _ ptr] puts_text_def)
next
  case (Cons c cs)
  then obtain ptr' where n: "ptr < ue" "utf8_next str ptr = Some (c, ptr')" "utf8_chars str ptr' ue = Some cs"
    by (auto simp: utf8_chars.simps [of str ptr] split: if_splits option.splits)
  show ?case
  proof (cases "length (quote_char c) \<ge> length old")
    case True
    then show ?thesis using n put_quoted_eq [OF Cons.prems(2,3), of c] puts_text_stop [OF True]
      by (simp add: as_quoted_ascii_loop.simps [of _ ptr])
  next
    case False
    then obtain old' where o: "put_quoted c (length pre) (pre @ old) e = Some (Some (length (pre @ quote_char c), (pre @ quote_char c) @ old'))"
      "length old' = length old - length (quote_char c)" using put_quoted_eq [OF Cons.prems(2,3), of c] by auto
    have "length (pre @ quote_char c) + length old' = e" "old' \<noteq> []" using o(2) False Cons.prems(2) by auto
    from Cons.IH [OF n(3) this] have "succeeds (as_quoted_ascii_loop str ptr' ue (length (pre @ quote_char c)) ((pre @ quote_char c) @ old') e) (puts_text pre old (c # cs))"
      by (rule succeeds_weaken) (rule puts_text_step [OF False o(2)])
    then show ?thesis using n(1,2) o(1) by (simp add: as_quoted_ascii_loop.simps [of _ ptr])
  qed
qed

lemma unicode_loop_spec:
  assumes "length pre + length old = e" "old \<noteq> []"
  shows "succeeds (for_return (length xs) (length xs + length cs) (\<lambda>index (p, buf). do {
       c \<leftarrow> array_get (xs @ cs) index;
       r \<leftarrow> put_quoted c p buf e;
       Some (case r of None \<Rightarrow> Inl (p, buf) | Some s \<Rightarrow> Inr s) }) (length pre, pre @ old))
     (\<lambda>x. puts_text pre old cs (case x of Inl s \<Rightarrow> s | Inr s \<Rightarrow> s))"
  using assms
proof (induction cs arbitrary: xs pre old)
  case Nil
  then show ?case by (simp add: puts_text_def)
next
  case (Cons c cs)
  show ?case
  proof (cases "length (quote_char c) \<ge> length old")
    case True
    then show ?thesis using put_quoted_eq [OF Cons.prems, of c] puts_text_stop [OF True]
      by (simp add: for_return_step array_get_at)
  next
    case False
    then obtain old' where o: "put_quoted c (length pre) (pre @ old) e = Some (Some (length (pre @ quote_char c), (pre @ quote_char c) @ old'))"
      "length old' = length old - length (quote_char c)" using put_quoted_eq [OF Cons.prems, of c] by auto
    have "length (pre @ quote_char c) + length old' = e" "old' \<noteq> []" using o(2) False Cons.prems(1) by auto
    from Cons.IH [OF this, of "xs @ [c]"] show ?thesis using o(1)
      by (simp add: for_return_step array_get_at) (erule succeeds_weaken, rule puts_text_step [OF False o(2)], simp)
  qed
qed

lemma terminate_text:
  assumes "puts_text [] buf cs (p, buf')" "buf \<noteq> []"
  shows "\<exists>rest. array_put buf' p 0 = Some (fit (length buf) cs @ 0 # rest) \<and> length (fit (length buf) cs @ 0 # rest) = length buf"
proof -
  obtain rest where r: "p = length (fit (length buf) cs)" "buf' = fit (length buf) cs @ rest" "length rest = length buf - length (fit (length buf) cs)"
    using assms(1) by (auto simp: puts_text_def)
  have "length (fit (length buf) cs) < length buf" using assms(2) by (intro fit_length) simp
  moreover from this obtain x xs where "rest = x # xs" using r(3) by (cases rest) auto
  ultimately show ?thesis using r by (simp add: array_put_def list_update_append)
qed

lemma quoted_ascii_length_eq: "utf8_chars str ptr e = Some cs \<Longrightarrow>
   quoted_ascii_length_loop str ptr e n = Some (n + length (concat (map quote_char cs)))"
proof (induction cs arbitrary: ptr n)
  case Nil
  then have "\<not> ptr < e" by (auto simp: utf8_chars.simps [of str ptr] split: option.splits)
  then show ?case by (simp add: quoted_ascii_length_loop.simps [of _ ptr])
next
  case (Cons c cs)
  then obtain ptr' where n: "ptr < e" "utf8_next str ptr = Some (c, ptr')" "utf8_chars str ptr' e = Some cs"
    by (auto simp: utf8_chars.simps [of str ptr] split: if_splits option.splits)
  then show ?case using Cons.IH [OF n(3)] by (simp add: quoted_ascii_length_loop.simps [of _ ptr] quote_char_def quoted_def)
qed

lemma unicode_quoted_ascii_length_eq: "unicode_quoted_ascii_length cs (length cs) = Some (length (concat (map quote_char cs)))"
proof -
  have "for_loop (length xs) (length xs + length ys) (\<lambda>i result. do { c \<leftarrow> array_get (xs @ ys) i;
     Some (if 32 \<le> c \<and> c < 127 then result + 1 else result + 6) }) n = Some (n + length (concat (map quote_char ys)))" for xs ys n
  proof (induction ys arbitrary: xs n)
    case (Cons c ys)
    show ?case using Cons [of "xs @ [c]"] by (simp add: for_loop_step array_get_at quote_char_def quoted_def)
  qed simp
  from this [of "[]" cs 0] show ?thesis by (simp add: unicode_quoted_ascii_length_def)
qed

text \<open>
  \<^verbatim>\<open>UTF8::as_quoted_ascii\<close> and \<^verbatim>\<open>quoted_ascii_length\<close> end on every zero-terminated string of bytes,
  well-formed or not, and touch no byte outside of the string and the buffer.  The buffer gets the longest
  sequence of whole quoted characters that leaves room for the zero byte, which is all of them when it is longer
  than \<^verbatim>\<open>quoted_ascii_length\<close>; the version for arrays of characters writes the same text.
\<close>

lemma quoted_ascii_spec:
  assumes "buf \<noteq> []"
  shows "\<exists>cs n k text rest. utf8_chars (s @ [0]) 0 (length s) = Some cs
    \<and> quoted_ascii_length (s @ [0]) (length s) = Some n \<and> unicode_quoted_ascii_length cs (length cs) = Some n
    \<and> as_quoted_ascii (s @ [0]) (length s) buf (length buf) = Some (text @ 0 # rest)
    \<and> (\<exists>rest'. unicode_as_quoted_ascii cs (length cs) buf (length buf) = Some (text @ 0 # rest'))
    \<and> length (text @ 0 # rest) = length buf
    \<and> k \<le> length cs \<and> text = concat (map quote_char (take k cs))
    \<and> (k < length cs \<longrightarrow> length buf \<le> length text + length (quote_char (cs ! k)))
    \<and> (n < length buf \<longrightarrow> text = concat (map quote_char cs))"
proof -
  let ?e = "length buf" and ?n = "\<lambda>cs. length (concat (map quote_char cs))"
  obtain cs where cs: "utf8_chars (s @ [0]) 0 (length s) = Some cs" using utf8_chars_terminated [of 0 s "[]"] by auto
  obtain k where k: "k \<le> length cs" "fit ?e cs = concat (map quote_char (take k cs))"
    "k < length cs \<longrightarrow> ?e \<le> length (fit ?e cs) + length (quote_char (cs ! k))" using fit_prefix [of cs ?e] by blast
  obtain p b where L: "as_quoted_ascii_loop (s @ [0]) 0 (length s) 0 buf ?e = Some (p, b)" "puts_text [] buf cs (p, b)"
    using as_quoted_ascii_loop_spec [OF cs, of "[]" buf ?e] assms by (auto simp: succeeds_iff)
  from terminate_text [OF L(2) assms] obtain rest where u: "as_quoted_ascii (s @ [0]) (length s) buf ?e = Some (fit ?e cs @ 0 # rest)" "length (fit ?e cs @ 0 # rest) = ?e"
    by (auto simp: as_quoted_ascii_def L(1))
  from unicode_loop_spec [of "[]" buf ?e "[]" cs] assms obtain x where x: "puts_text [] buf cs (case x of Inl s \<Rightarrow> s | Inr s \<Rightarrow> s)"
    "unicode_as_quoted_ascii cs (length cs) buf ?e = (let (p, buf) = (case x of Inl s \<Rightarrow> s | Inr s \<Rightarrow> s) in array_put buf p 0)"
    by (auto simp: unicode_as_quoted_ascii_def succeeds_iff)
  obtain p' b' where "(case x of Inl s \<Rightarrow> s | Inr s \<Rightarrow> s) = (p', b')" by (cases "case x of Inl s \<Rightarrow> s | Inr s \<Rightarrow> s")
  with x terminate_text [of buf cs p' b'] assms obtain rest' where w: "unicode_as_quoted_ascii cs (length cs) buf ?e = Some (fit ?e cs @ 0 # rest')" by auto
  have n: "quoted_ascii_length (s @ [0]) (length s) = Some (?n cs)" using quoted_ascii_length_eq [OF cs, of 0] by (simp add: quoted_ascii_length_def)
  show ?thesis
    by (intro exI [of _ cs] exI [of _ "?n cs"] exI [of _ k] exI [of _ "fit ?e cs"] exI [of _ rest] conjI cs n unicode_quoted_ascii_length_eq u k exI [of _ rest'] w impI)
      (erule fit_all)
qed

lemma quoted_ascii_spec_example:
  "\<exists>text rest. as_quoted_ascii [0x41, 0xC3, 0xA9, 0] 3 (replicate 10 1) 10 = Some (text @ 0 # rest) \<and> length (text @ 0 # rest) = 10"
  using quoted_ascii_spec [of "replicate 10 1" "[0x41, 0xC3, 0xA9]"] by (auto simp: numeral_3_eq_3)

text \<open>\<^verbatim>\<open>UNICODE::as_utf8\<close> with a buffer writes whole characters only, as many as fit before the zero byte.\<close>

lemma as_utf8_buf_spec:
  assumes "buf \<noteq> []"
  shows "\<exists>k rest. k \<le> length cs \<and> as_utf8_buf cs (length cs) buf (length buf) = Some (utf8_encode (take k cs) @ 0 # rest)
    \<and> length (utf8_encode (take k cs) @ 0 # rest) = length buf
    \<and> (k < length cs \<longrightarrow> length buf \<le> length (utf8_encode (take (Suc k) cs)))"
proof -
  let ?e = "length buf" and ?E = "\<lambda>k. utf8_encode (take k cs)"
  define I where "I k s \<longleftrightarrow> (\<exists>rest. s = (length (?E k), ?E k @ rest) \<and> length (?E k) + length rest = ?e \<and> rest \<noteq> [])" for k and s :: "nat \<times> u1 list"
  let ?b = "\<lambda>index (p, buf). do {
       c \<leftarrow> array_get cs index;
       if p + utf8_size c \<ge> ?e then Some (Inl (p, buf))
       else do { (p, buf) \<leftarrow> utf8_write buf p c; Some (Inr (p, buf)) } }"
  have "succeeds (for_return 0 (length cs) ?b (0, buf))
      (\<lambda>x. case x of Inl s \<Rightarrow> \<exists>k < length cs. I k s \<and> ?e \<le> length (?E (Suc k)) | Inr s \<Rightarrow> I (length cs) s)"
  proof (rule for_return_rule)
    show "I 0 (0, buf)" using assms by (simp add: I_def)
    fix k s
    assume k: "k < length cs" and "I k s"
    then obtain rest where s: "s = (length (?E k), ?E k @ rest)" "length (?E k) + length rest = ?e" "rest \<noteq> []" by (auto simp: I_def)
    have E: "?E (Suc k) = ?E k @ utf8_bytes (cs ! k)" using k by (simp add: take_Suc_conv_app_nth)
    show "succeeds (?b k s) (\<lambda>x. case x of Inl s \<Rightarrow> \<exists>k < length cs. I k s \<and> ?e \<le> length (?E (Suc k)) | Inr s \<Rightarrow> I (Suc k) s)"
    proof (cases "length (?E k) + utf8_size (cs ! k) \<ge> ?e")
      case True
      then have "I k s \<and> ?e \<le> length (?E (Suc k))" using s E by (auto simp: I_def)
      then show ?thesis using True s(1) k by (auto simp: array_get_def)
    next
      case False
      let ?n = "utf8_size (cs ! k)"
      have "utf8_write (?E k @ take ?n rest @ drop ?n rest) (length (?E k)) (cs ! k) = Some (length (?E k) + ?n, ?E k @ utf8_bytes (cs ! k) @ drop ?n rest)"
        by (rule utf8_write_spec) (use False s(2) in simp)
      then show ?thesis using False s k E by (simp add: array_get_def I_def)
    qed
  qed simp
  then obtain x where x: "for_return 0 (length cs) ?b (0, buf) = Some x"
    "case x of Inl s \<Rightarrow> \<exists>k < length cs. I k s \<and> ?e \<le> length (?E (Suc k)) | Inr s \<Rightarrow> I (length cs) s" by (rule succeedsE)
  then obtain k s where k: "k \<le> length cs" "(case x of Inl s \<Rightarrow> s | Inr s \<Rightarrow> s) = s" "I k s" "k < length cs \<longrightarrow> ?e \<le> length (?E (Suc k))"
    by (cases x) (auto dest: less_imp_le)
  from k(3) obtain y ys where s: "s = (length (?E k), ?E k @ y # ys)" "length (?E k) + Suc (length ys) = ?e"
    unfolding I_def by (metis length_Cons neq_Nil_conv)
  show ?thesis using k(1,4) s x(1) k(2)
    by (intro exI [of _ k] exI [of _ ys]) (simp add: as_utf8_buf_def array_put_def list_update_append)
qed

text \<open>The comparison and the backward search.\<close>

lemma utf8_equal_loop:
  "length ps = length qs \<Longrightarrow> length xs = length ys \<Longrightarrow>
   for_return (length ps) (length ps + length xs) (\<lambda>i u. do {
       a \<leftarrow> array_get (ps @ xs) i;
       b \<leftarrow> array_get (qs @ ys) i;
       Some (if a \<noteq> b then Inl False else Inr u) }) ()
     = Some (if xs = ys then Inr () else Inl False)"
proof (induction xs arbitrary: ps qs ys)
  case (Cons x xs)
  then obtain y ys' where ys: "ys = y # ys'" "length xs = length ys'" by (cases ys) auto
  have g: "array_get (ps @ x # xs) (length qs) = Some x" "array_get (qs @ y # ys') (length qs) = Some y"
    using array_get_at [of ps x xs] Cons.prems(1) by (simp_all add: array_get_at)
  show ?case using g Cons.IH [of "ps @ [x]" "qs @ [y]" ys'] Cons.prems(1) ys
    by (cases "x = y") (simp_all add: for_return_step)
qed simp

lemma utf8_equal_iff: "utf8_equal xs (length xs) ys (length ys) = Some (xs = ys)"
  using utf8_equal_loop [of "[]" "[]" xs ys] by (cases "length xs = length ys") (auto simp: utf8_equal_def)

lemma utf8_strrchr_spec:
  "n \<le> length base \<Longrightarrow> \<exists>r. utf8_strrchr base n c = Some r \<and>
     (case r of None \<Rightarrow> \<forall>i < n. base ! i \<noteq> c | Some i \<Rightarrow> i < n \<and> base ! i = c \<and> (\<forall>j. i < j \<and> j < n \<longrightarrow> base ! j \<noteq> c))"
proof (induction n)
  case (Suc n)
  then obtain r where "utf8_strrchr base n c = Some r" "case r of None \<Rightarrow> \<forall>i < n. base ! i \<noteq> c | Some i \<Rightarrow> i < n \<and> base ! i = c \<and> (\<forall>j. i < j \<and> j < n \<longrightarrow> base ! j \<noteq> c)" by auto
  then show ?case using Suc.prems by (auto simp: array_get_def less_Suc_eq split: option.splits)
qed simp

text \<open>
  C40: no loop of \<^verbatim>\<open>UTF8::from_quoted_ascii\<close> moves its pointer past an ordinary character,
  so that the function returns for the empty string only, which it returns unchanged.
\<close>

theorem from_quoted_ascii_returns:
  assumes "str \<noteq> []"
  shows "((\<exists>fuel r. from_quoted_ascii fuel fresh str = Some r) \<longleftrightarrow> str ! 0 = 0)
    \<and> (str ! 0 = 0 \<longrightarrow> from_quoted_ascii (Suc n) fresh str = Some (Inr str))"
proof -
  have len: "0 < length str" using assms by simp
  have ret: "from_quoted_ascii (Suc fuel) fresh str = Some (Inr str)" if "str ! 0 = 0" for fuel
    using that len by (simp add: from_quoted_ascii_def checked_def array_get_def)
  have "from_quoted_ascii fuel fresh str = None" if nz: "str ! 0 \<noteq> 0" for fuel
  proof (cases "32 \<le> sint (str ! 0) \<and> sint (str ! 0) < 127")
    case True
    then show ?thesis using skip_loop_printable len nz by (simp add: from_quoted_ascii_def)
  next
    case False
    then have "str ! 0 \<noteq> 92" by auto
    moreover have "skip_loop fuel str 0 = (if fuel = 0 then None else Some (Inr 0))"
      using False nz len by (cases fuel) (auto simp: checked_def array_get_def)
    ultimately show ?thesis using quoted_loop_stays len nz by (simp add: from_quoted_ascii_def)
  qed
  then show ?thesis using ret by (metis option.distinct(1))
qed

theorem from_quoted_ascii_returns_witness:
  "from_quoted_ascii 1 (\<lambda>_. 0) [0] = Some (Inr [0]) \<and> (\<forall>fuel. from_quoted_ascii fuel (\<lambda>_. 0) [97, 98, 99, 0] = None)"
  using from_quoted_ascii_returns [of "[0]" "\<lambda>_. 0" 0] from_quoted_ascii_returns [of "[97, 98, 99, 0]" "\<lambda>_. 0" 0] by simp

end
