(* ===== verification/Bit_Map_Par.thy ===== *)
theory Bit_Map_Par
  imports Bit_Map
begin

text \<open>
  The parallel updates of \<^verbatim>\<open>utilities/bitMap.cpp\<close> and \<^verbatim>\<open>bitMap.inline.hpp\<close>: first the functions as
  written, run by one thread; then \<^verbatim>\<open>par_set_bit\<close> as a step relation in which any number of threads
  interleave their accesses to the shared words.
\<close>

section \<open>The parallel variants, run without interference\<close>

text \<open>
  \<^verbatim>\<open>Atomic::cmpxchg_ptr(exchange_value, dest, compare_value)\<close> stores the new value only if the word
  holds the expected one, and returns what the word held.  The retry loops are partial functions:
  a loop that never wins its compare-and-swap has the result \<open>None\<close>.
\<close>

definition cmpxchg_ptr :: "bitmap \<Rightarrow> uintptr \<Rightarrow> nat \<Rightarrow> uintptr \<Rightarrow> (uintptr \<times> bitmap) option" where
  "cmpxchg_ptr bm exchange_value dest compare_value = do {
     cur \<leftarrow> bm_word bm dest;
     if cur = compare_value then do { bm \<leftarrow> set_word bm dest exchange_value; Some (cur, bm) }
     else Some (cur, bm)
   }"

partial_function (option) par_put_loop :: "bitmap \<Rightarrow> nat \<Rightarrow> uintptr \<Rightarrow> uintptr \<Rightarrow> bool \<Rightarrow> bitmap option" where
  "par_put_loop bm pw w mr v =
     (let nw = (if v then w OR NOT mr else w AND mr)
      in do {
        (res, bm) \<leftarrow> cmpxchg_ptr bm nw pw w;
        if res = w then Some bm else par_put_loop bm pw res mr v
      })"

definition par_put_range_within_word :: "bitmap \<Rightarrow> nat \<Rightarrow> nat \<Rightarrow> bool \<Rightarrow> bitmap option" where
  "par_put_range_within_word bm beg end' v =
     (if beg \<noteq> end'
      then do {
        w \<leftarrow> bm_word bm (word_index beg);
        par_put_loop bm (word_index beg) w (inverted_bit_mask_for_range beg end') v
      }
      else Some bm)"

partial_function (option) par_set_loop :: "bitmap \<Rightarrow> nat \<Rightarrow> uintptr \<Rightarrow> uintptr \<Rightarrow> (bool \<times> bitmap) option" where
  "par_set_loop bm addr mask' old_val =
     (let new_val = old_val OR mask'
      in if new_val = old_val then Some (False, bm)
         else do {
           (cur_val, bm) \<leftarrow> cmpxchg_ptr bm new_val addr old_val;
           if cur_val = old_val then Some (True, bm) else par_set_loop bm addr mask' cur_val
         })"

definition bm_par_set_bit :: "bitmap \<Rightarrow> nat \<Rightarrow> (bool \<times> bitmap) option" where
  "bm_par_set_bit bm b = do {
     old_val \<leftarrow> bm_word bm (word_index b);
     par_set_loop bm (word_index b) (bit_mask b) old_val
   }"

partial_function (option) par_clear_loop :: "bitmap \<Rightarrow> nat \<Rightarrow> uintptr \<Rightarrow> uintptr \<Rightarrow> (bool \<times> bitmap) option" where
  "par_clear_loop bm addr mask' old_val =
     (let new_val = old_val AND mask'
      in if new_val = old_val then Some (False, bm)
         else do {
           (cur_val, bm) \<leftarrow> cmpxchg_ptr bm new_val addr old_val;
           if cur_val = old_val then Some (True, bm) else par_clear_loop bm addr mask' cur_val
         })"

definition bm_par_clear_bit :: "bitmap \<Rightarrow> nat \<Rightarrow> (bool \<times> bitmap) option" where
  "bm_par_clear_bit bm b = do {
     old_val \<leftarrow> bm_word bm (word_index b);
     par_clear_loop bm (word_index b) (NOT (bit_mask b)) old_val
   }"

definition bm_par_at_put :: "bitmap \<Rightarrow> nat \<Rightarrow> bool \<Rightarrow> (bool \<times> bitmap) option" where
  "bm_par_at_put bm b v = (if v then bm_par_set_bit bm b else bm_par_clear_bit bm b)"

definition bm_par_at_put_range :: "bitmap \<Rightarrow> nat \<Rightarrow> nat \<Rightarrow> bool \<Rightarrow> bitmap option" where
  "bm_par_at_put_range bm beg end' v =
     (let beg_full_word = word_index_round_up bm beg; end_full_word = word_index end'
      in if beg_full_word < end_full_word
         then do {
           bm \<leftarrow> par_put_range_within_word bm beg (bit_index beg_full_word) v;
           bm \<leftarrow> (if v then set_range_of_words bm beg_full_word end_full_word
                 else clear_range_of_words bm beg_full_word end_full_word);
           par_put_range_within_word bm (bit_index end_full_word) end' v
         }
         else (let boundary = min (bit_index beg_full_word) end'
               in do {
                 bm \<leftarrow> par_put_range_within_word bm beg boundary v;
                 par_put_range_within_word bm boundary end' v
               }))"

definition bm_par_at_put_large_range :: "bitmap \<Rightarrow> nat \<Rightarrow> nat \<Rightarrow> bool \<Rightarrow> bitmap option" where
  "bm_par_at_put_large_range bm beg end' v =
     (let beg_full_word = word_index_round_up bm beg; end_full_word = word_index end'
      in do {
        bm \<leftarrow> par_put_range_within_word bm beg (bit_index beg_full_word) v;
        bm \<leftarrow> (if v then set_large_range_of_words bm beg_full_word end_full_word
              else clear_large_range_of_words bm beg_full_word end_full_word);
        par_put_range_within_word bm (bit_index end_full_word) end' v
      })"

definition bm_par_put_range_hint ::
    "bitmap \<Rightarrow> nat \<Rightarrow> nat \<Rightarrow> range_size_hint \<Rightarrow> bool \<Rightarrow> bitmap option" where
  "bm_par_put_range_hint bm beg end' hint v =
     (if hint = Small_Range \<and> idx (2 ^ 64 + end' - beg) = 1 then map_option snd (bm_par_at_put bm beg v)
      else if hint = Large_Range then bm_par_at_put_large_range bm beg end' v
      else bm_par_at_put_range bm beg end' v)"

lemma cmpxchg_wins:
  "i < length (bm_map bm) \<Longrightarrow> w = bm_map bm ! i \<Longrightarrow>
    cmpxchg_ptr bm x i w = Some (w, bm\<lparr>bm_map := (bm_map bm)[i := x]\<rparr>)"
  by (simp add: cmpxchg_ptr_def bm_word_def set_word_def mem_simps)

lemma par_put_range_within_word_eq:
  assumes "beg \<noteq> end' \<Longrightarrow> beg div 64 < length (bm_map bm)"
  shows "par_put_range_within_word bm beg end' v =
    (if v then set_range_within_word bm beg end' else clear_range_within_word bm beg end')"
  using assms
  by (auto simp: par_put_range_within_word_def set_range_within_word_def clear_range_within_word_def
      bm_word_def set_word_def mem_simps par_put_loop.simps cmpxchg_wins Let_def)

interpretation par_set_words:
  range_writer "\<lambda>bm b e. par_put_range_within_word bm b e True" set_range_of_words sets
proof unfold_locales
  fix beg end' and bm :: bitmap
  assume "beg \<le> end'" "beg < end' \<Longrightarrow> beg div 64 = (end' - 1) div 64"
    "beg < end' \<Longrightarrow> beg div 64 < length (bm_map bm)"
  then show "succeeds (par_put_range_within_word bm beg end' True) (sets bm {beg..<end'})"
    using set_range_within_word_sets [of beg end' bm]
    by (subst par_put_range_within_word_eq) auto
qed (auto intro: set_words.of_words sets_trans sets_length)

interpretation par_clear_words:
  range_writer "\<lambda>bm b e. par_put_range_within_word bm b e False" clear_range_of_words clears
proof unfold_locales
  fix beg end' and bm :: bitmap
  assume "beg \<le> end'" "beg < end' \<Longrightarrow> beg div 64 = (end' - 1) div 64"
    "beg < end' \<Longrightarrow> beg div 64 < length (bm_map bm)"
  then show "succeeds (par_put_range_within_word bm beg end' False) (clears bm {beg..<end'})"
    using clear_range_within_word_clears [of beg end' bm]
    by (subst par_put_range_within_word_eq) auto
qed (auto intro: clear_words.of_words clears_trans clears_length)

lemma par_set_range_sets:
  assumes "bm_wf bm" "beg \<le> end'" "end' \<le> bm_size bm"
  shows "succeeds (bm_par_at_put_range bm beg end' True) (sets bm {beg..<end'})"
  unfolding bm_par_at_put_range_def if_True by (rule par_set_words.split_range [OF assms])

lemma par_clear_range_clears:
  assumes "bm_wf bm" "beg \<le> end'" "end' \<le> bm_size bm"
  shows "succeeds (bm_par_at_put_range bm beg end' False) (clears bm {beg..<end'})"
  unfolding bm_par_at_put_range_def if_False by (rule par_clear_words.split_range [OF assms])

lemma par_at_put_range_put:
  assumes "bm_wf bm" "beg \<le> end'" "end' \<le> bm_size bm"
  shows "succeeds (bm_par_at_put_range bm beg end' v) (range_put bm {beg..<end'} v)"
  using succeeds_weaken [OF par_set_range_sets [OF assms] sets_range_put [OF assms(1)]]
    succeeds_weaken [OF par_clear_range_clears [OF assms] clears_range_put [OF assms(1)]]
  by (cases v) simp_all

lemma or_bit_mask_same: "w OR bit_mask b = w \<longleftrightarrow> bit w (b mod 64)"
proof
  assume "w OR bit_mask b = w"
  then show "bit w (b mod 64)" by (metis bit_bit_mask bit_or_iff)
qed (auto intro!: bit_word_eqI simp: bit_or_iff)

lemma and_bit_mask_same: "w AND NOT (bit_mask b) = w \<longleftrightarrow> \<not> bit w (b mod 64)"
proof
  assume "w AND NOT (bit_mask b) = w"
  then show "\<not> bit w (b mod 64)" by (metis bit_and_iff bit_bit_mask bit_not_iff)
qed (auto intro!: bit_word_eqI simp: bit_and_iff bit_not_iff)

lemma in_bits_word: "bm_wf bm \<Longrightarrow> b < bm_size bm \<Longrightarrow> b \<in> bits bm \<longleftrightarrow> bit (bm_map bm ! (b div 64)) (b mod 64)"
  by (simp add: bits_def in_raw_bits word_of_bit)

lemmas par_bit_eval = bm_par_set_bit_def bm_par_clear_bit_def bm_word_def mem_simps par_set_loop.simps
  par_clear_loop.simps Let_def cmpxchg_wins or_bit_mask_same and_bit_mask_same

lemma par_set_bit_seq:
  assumes "bm_wf bm" "b < bm_size bm"
  shows "succeeds (bm_par_set_bit bm b) (\<lambda>(won, bm'). won = (b \<notin> bits bm) \<and> sets bm {b} bm')"
proof (cases "b \<in> bits bm")
  case True
  then show ?thesis
    using word_of_bit [OF assms] in_bits_word [OF assms] by (simp add: par_bit_eval sets_def bits_def insert_absorb)
next
  case False
  have "succeeds (bm_set_bit bm b) (sets bm {b})" by (rule bm_set_bit_sets [OF word_of_bit [OF assms]])
  then show ?thesis
    using False word_of_bit [OF assms] in_bits_word [OF assms] by (simp add: par_bit_eval bm_set_bit_def vcg)
qed

lemma par_clear_bit_seq:
  assumes "bm_wf bm" "b < bm_size bm"
  shows "succeeds (bm_par_clear_bit bm b) (\<lambda>(won, bm'). won = (b \<in> bits bm) \<and> clears bm {b} bm')"
proof (cases "b \<in> bits bm")
  case False
  then show ?thesis
    using word_of_bit [OF assms] in_bits_word [OF assms] assms(2)
    by (simp add: par_bit_eval clears_def bits_def)
next
  case True
  have "succeeds (bm_clear_bit bm b) (clears bm {b})" by (rule bm_clear_bit_clears [OF word_of_bit [OF assms]])
  then show ?thesis
    using True word_of_bit [OF assms] in_bits_word [OF assms] by (simp add: par_bit_eval bm_clear_bit_def vcg)
qed


section \<open>Racing threads\<close>

text \<open>
  Any number of threads run \<^verbatim>\<open>par_set_bit\<close> on the same bitmap, thread \<open>t\<close> on the bit \<open>target t\<close>.
  A step is one access to the shared word: the initial load, or one iteration of the loop with its
  compare-and-swap.  The scheduler is arbitrary.
\<close>

datatype par_pc = Entry | Looping (old_val: uintptr) | Returned (changed: bool)

record par_state =
  shared :: bitmap
  pc :: "nat \<Rightarrow> par_pc"

inductive par_set_step :: "(nat \<Rightarrow> nat) \<Rightarrow> par_state \<Rightarrow> par_state \<Rightarrow> bool" for target where
  load: "pc s t = Entry \<Longrightarrow> bm_word (shared s) (word_index (target t)) = Some old \<Longrightarrow>
    par_set_step target s (s\<lparr>pc := (pc s)(t := Looping old)\<rparr>)"
| already_set: "pc s t = Looping old \<Longrightarrow> old OR bit_mask (target t) = old \<Longrightarrow>
    par_set_step target s (s\<lparr>pc := (pc s)(t := Returned False)\<rparr>)"
| cas_wins: "pc s t = Looping old \<Longrightarrow> old OR bit_mask (target t) \<noteq> old \<Longrightarrow>
    cmpxchg_ptr (shared s) (old OR bit_mask (target t)) (word_index (target t)) old = Some (cur, bm) \<Longrightarrow>
    cur = old \<Longrightarrow>
    par_set_step target s (s\<lparr>shared := bm, pc := (pc s)(t := Returned True)\<rparr>)"
| cas_fails: "pc s t = Looping old \<Longrightarrow> old OR bit_mask (target t) \<noteq> old \<Longrightarrow>
    cmpxchg_ptr (shared s) (old OR bit_mask (target t)) (word_index (target t)) old = Some (cur, bm) \<Longrightarrow>
    cur \<noteq> old \<Longrightarrow>
    par_set_step target s (s\<lparr>shared := bm, pc := (pc s)(t := Looping cur)\<rparr>)"

inductive par_set_run :: "(nat \<Rightarrow> nat) \<Rightarrow> par_state \<Rightarrow> par_state \<Rightarrow> bool" for target where
  start: "par_set_run target s s"
| step: "par_set_run target s s' \<Longrightarrow> par_set_step target s' s'' \<Longrightarrow> par_set_run target s s''"

definition winners :: "par_state \<Rightarrow> nat set" where
  "winners s = {t. pc s t = Returned True}"

text \<open>What holds at every moment of a race that started from \<open>bm0\<close>.\<close>

definition par_set_inv :: "(nat \<Rightarrow> nat) \<Rightarrow> bitmap \<Rightarrow> par_state \<Rightarrow> bool" where
  "par_set_inv target bm0 s \<longleftrightarrow>
     sets bm0 (target ` winners s) (shared s)
   \<and> inj_on target (winners s) \<and> target ` winners s \<inter> raw_bits (bm_map bm0) = {}
   \<and> (\<forall>t. target t div 64 < length (bm_map bm0))
   \<and> (\<forall>t. pc s t = Returned False \<longrightarrow> target t \<in> raw_bits (bm_map (shared s)))
   \<and> (\<forall>t old n. pc s t = Looping old \<longrightarrow> bit old n \<longrightarrow>
        bit (bm_map (shared s) ! (target t div 64)) n)"

lemma par_set_inv_start:
  assumes "\<And>t. pc s t = Entry" "\<And>t. target t div 64 < length (bm_map (shared s))"
  shows "par_set_inv target (shared s) s"
  using assms by (simp add: par_set_inv_def winners_def sets_def)

lemma cmpxchg_cases:
  assumes "cmpxchg_ptr bm x i w = Some (cur, bm')"
  shows "i < length (bm_map bm)" "cur = bm_map bm ! i"
    "bm' = (if cur = w then bm\<lparr>bm_map := (bm_map bm)[i := x]\<rparr> else bm)"
  using assms
  by (auto simp: cmpxchg_ptr_def bm_word_def set_word_def mem_simps split: if_splits)

lemma par_set_inv_step:
  assumes "par_set_step target s s'" "par_set_inv target bm0 s"
  shows "par_set_inv target bm0 s'"
  using assms
proof (induction rule: par_set_step.induct)
  case (load s t old)
  then have "winners (s\<lparr>pc := (pc s)(t := Looping old)\<rparr>) = winners s" by (auto simp: winners_def)
  with load show ?case by (auto simp: par_set_inv_def bm_word_def mem_simps)
next
  case (already_set s t old)
  then have w: "winners (s\<lparr>pc := (pc s)(t := Returned False)\<rparr>) = winners s" by (auto simp: winners_def)
  have "bit old (target t mod 64)" using already_set(2) by (simp add: or_bit_mask_same)
  then have "bit (bm_map (shared s) ! (target t div 64)) (target t mod 64)"
    using already_set by (auto simp: par_set_inv_def)
  moreover have "target t div 64 < length (bm_map (shared s))"
    using already_set by (auto simp: par_set_inv_def sets_def)
  ultimately have "target t \<in> raw_bits (bm_map (shared s))" by (simp add: in_raw_bits)
  with already_set w show ?case by (auto simp: par_set_inv_def)
next
  case (cas_fails s t old cur bm)
  then have w: "winners (s\<lparr>shared := bm, pc := (pc s)(t := Looping cur)\<rparr>) = winners s"
    by (auto simp: winners_def)
  with cas_fails cmpxchg_cases [OF cas_fails(3)] show ?case by (auto simp: par_set_inv_def)
next
  case (cas_wins s t old cur bm)
  note cx = cmpxchg_cases [OF cas_wins(3)]
  let ?i = "target t div 64" and ?s = "s\<lparr>shared := bm, pc := (pc s)(t := Returned True)\<rparr>"
  have old: "old = bm_map (shared s) ! ?i" and bm: "bm = shared s\<lparr>bm_map := (bm_map (shared s))[?i := old OR bit_mask (target t)]\<rparr>"
    and i: "?i < length (bm_map (shared s))"
    using cx cas_wins(4) by auto
  have nb: "target t \<notin> raw_bits (bm_map (shared s))"
    using cas_wins(2) i by (simp add: or_bit_mask_same in_raw_bits old)
  have w: "winners ?s = insert t (winners s)" and tw: "t \<notin> winners s"
    using cas_wins(1) by (auto simp: winners_def)
  have set1: "sets (shared s) {target t} bm"
    using bm_set_bit_sets [OF i] i by (simp add: bm_set_bit_def vcg bm old)
  have grow: "bit w n \<Longrightarrow> w = bm_map (shared s) ! j \<Longrightarrow> bit (bm_map bm ! j) n" for w n j
    by (cases "j = ?i") (auto simp: bm old i bit_or_iff)
  have inv: "sets bm0 (target ` winners s) (shared s)" "inj_on target (winners s)"
    "target ` winners s \<inter> raw_bits (bm_map bm0) = {}"
    "\<forall>t. target t div 64 < length (bm_map bm0)"
    "\<forall>t. pc s t = Returned False \<longrightarrow> target t \<in> raw_bits (bm_map (shared s))"
    "\<forall>t old n. pc s t = Looping old \<longrightarrow> bit old n \<longrightarrow> bit (bm_map (shared s) ! (target t div 64)) n"
    using cas_wins(5) by (simp_all add: par_set_inv_def)
  have new: "target t \<notin> target ` winners s" "target t \<notin> raw_bits (bm_map bm0)"
    using nb inv(1) by (auto simp: sets_def)
  show ?case unfolding par_set_inv_def w
  proof (intro conjI)
    show "sets bm0 (target ` insert t (winners s)) (shared ?s)"
      using sets_trans [OF inv(1) set1] by simp
    show "inj_on target (insert t (winners s))" using inv(2) new(1) tw by (simp add: inj_on_insert)
    show "target ` insert t (winners s) \<inter> raw_bits (bm_map bm0) = {}" using inv(3) new(2) by simp
    show "\<forall>t'. pc ?s t' = Returned False \<longrightarrow> target t' \<in> raw_bits (bm_map (shared ?s))"
      using inv(5) set1 by (simp add: sets_def)
    show "\<forall>t' old n. pc ?s t' = Looping old \<longrightarrow> bit old n \<longrightarrow> bit (bm_map (shared ?s) ! (target t' div 64)) n"
      using inv(6) grow by simp
  qed (rule inv(4))
qed

lemma par_set_run_inv:
  assumes "par_set_run target s s'" "par_set_inv target bm0 s"
  shows "par_set_inv target bm0 s'"
  using assms by (induction rule: par_set_run.induct) (auto intro: par_set_inv_step)

lemma race_example:
  defines "target \<equiv> \<lambda>t::nat. if t < 2 then 3 else (5::nat)"
  shows "par_set_run target \<lparr>shared = \<lparr>bm_map = [0], bm_size = 64\<rparr>, pc = \<lambda>_. Entry\<rparr>
    \<lparr>shared = \<lparr>bm_map = [8], bm_size = 64\<rparr>, pc = (\<lambda>_. Entry)(0 := Returned True, 1 := Returned False)\<rparr>"
  (is "par_set_run target ?init ?final")
proof -
  let ?s = "\<lambda>w p q. \<lparr>shared = \<lparr>bm_map = [w], bm_size = 64\<rparr>, pc = (\<lambda>_. Entry)(0 := p, 1 := q)\<rparr>"
  note ev = target_def bm_word_def mem_simps bit_mask_def cmpxchg_ptr_def set_word_def fun_upd_twist
    fun_eq_iff
  have 0: "?init = ?s 0 Entry Entry" by (simp add: fun_eq_iff)
  have "par_set_step target (?s 0 Entry Entry) (?s 0 (Looping 0) Entry)"
    using load [of "?s 0 Entry Entry" 0 target 0] by (simp add: ev)
  note r1 = step [OF start this]
  have "par_set_step target (?s 0 (Looping 0) Entry) (?s 0 (Looping 0) (Looping 0))"
    using load [of "?s 0 (Looping 0) Entry" 1 target 0] by (simp add: ev)
  note r2 = step [OF r1 this]
  have "par_set_step target (?s 0 (Looping 0) (Looping 0)) (?s 8 (Returned True) (Looping 0))"
    using cas_wins [of "?s 0 (Looping 0) (Looping 0)" 0 0 target] by (simp add: ev)
  note r3 = step [OF r2 this]
  have "par_set_step target (?s 8 (Returned True) (Looping 0)) (?s 8 (Returned True) (Looping 8))"
    using cas_fails [of "?s 8 (Returned True) (Looping 0)" 1 0 target] by (simp add: ev)
  note r4 = step [OF r3 this]
  have "par_set_step target (?s 8 (Returned True) (Looping 8)) (?s 8 (Returned True) (Returned False))"
    using already_set [of "?s 8 (Returned True) (Looping 8)" 1 8 target] by (simp add: ev)
  note r5 = step [OF r4 this]
  show ?thesis using r5 0 by simp
qed

section \<open>Properties\<close>

text \<open>
  Without interference \<^verbatim>\<open>par_at_put\<close> terminates, stores the bit, changes no other
  bit and returns whether it changed the bit.
\<close>

lemma par_at_put_spec:
  assumes "bm_wf bm" "b < bm_size bm"
  shows "succeeds (bm_par_at_put bm b v)
    (\<lambda>(changed, bm'). changed = ((b \<in> bits bm) \<noteq> v) \<and> range_put bm {b} v bm')"
proof (cases v)
  case True
  have "succeeds (bm_par_set_bit bm b) (\<lambda>(changed, bm'). changed = (b \<notin> bits bm) \<and> range_put bm {b} True bm')"
    by (rule succeeds_weaken [OF par_set_bit_seq [OF assms]]) (auto intro: sets_range_put assms(1))
  with True show ?thesis by (simp add: bm_par_at_put_def)
next
  case False
  have "succeeds (bm_par_clear_bit bm b) (\<lambda>(changed, bm'). changed = (b \<in> bits bm) \<and> range_put bm {b} False bm')"
    by (rule succeeds_weaken [OF par_clear_bit_seq [OF assms]]) (auto intro: clears_range_put assms(1))
  with False show ?thesis by (simp add: bm_par_at_put_def)
qed

lemma par_at_put_spec_example:
  "succeeds (bm_par_at_put \<lparr>bm_map = [9, 1], bm_size = 65\<rparr> 3 False)
    (\<lambda>(changed, bm'). changed = ((3 \<in> bits \<lparr>bm_map = [9, 1], bm_size = 65\<rparr>) \<noteq> False)
      \<and> range_put \<lparr>bm_map = [9, 1], bm_size = 65\<rparr> {3} False bm')"
  using par_at_put_spec [of "\<lparr>bm_map = [9, 1], bm_size = 65\<rparr>" 3 False] by (simp add: bm_wf_def)

text \<open>
  C18: when all threads that race for a bit with \<^verbatim>\<open>par_set_bit\<close> have returned, under any
  schedule and with any traffic on the other bits, the bit is set; if it was set before the race
  every one of them has got \<^verbatim>\<open>false\<close>, and otherwise exactly one of them has got \<^verbatim>\<open>true\<close>.
\<close>

theorem par_set_bit_one_winner:
  assumes "par_set_run target s s'"
    and "\<And>t. pc s t = Entry" "\<And>t. target t div 64 < length (bm_map (shared s))"
    and "b = target t0" "\<And>t. target t = b \<Longrightarrow> \<exists>c. pc s' t = Returned c"
  shows "b \<in> raw_bits (bm_map (shared s'))
    \<and> (b \<in> raw_bits (bm_map (shared s)) \<longrightarrow> (\<forall>t. target t = b \<longrightarrow> pc s' t = Returned False))
    \<and> (b \<notin> raw_bits (bm_map (shared s)) \<longrightarrow> (\<exists>!t. target t = b \<and> pc s' t = Returned True))"
proof -
  have "par_set_inv target (shared s) s'"
    by (rule par_set_run_inv [OF assms(1) par_set_inv_start]) (rule assms)+
  then have inv: "sets (shared s) (target ` winners s') (shared s')" "inj_on target (winners s')"
    "target ` winners s' \<inter> raw_bits (bm_map (shared s)) = {}"
    "\<forall>t. pc s' t = Returned False \<longrightarrow> target t \<in> raw_bits (bm_map (shared s'))"
    by (auto simp: par_set_inv_def)
  have mem: "b \<in> raw_bits (bm_map (shared s'))"
  proof (cases "t0 \<in> winners s'")
    case True
    then show ?thesis using inv(1) assms(4) by (auto simp: sets_def)
  next
    case False
    then have "pc s' t0 = Returned False" using assms(4) assms(5) [of t0] by (auto simp: winners_def)
    then show ?thesis using inv(4) assms(4) by blast
  qed
  moreover have "pc s' t = Returned False" if "b \<in> raw_bits (bm_map (shared s))" "target t = b" for t
  proof -
    have "t \<notin> winners s'" using that inv(3) by auto
    then show ?thesis using assms(5) [OF that(2)] by (auto simp: winners_def)
  qed
  moreover have "\<exists>!t. target t = b \<and> pc s' t = Returned True" if "b \<notin> raw_bits (bm_map (shared s))"
  proof -
    have "b \<in> target ` winners s'" using that mem inv(1) by (auto simp: sets_def)
    then obtain t where t: "t \<in> winners s'" "target t = b" by blast
    show ?thesis
    proof (rule ex1I [of _ t])
      show "target t = b \<and> pc s' t = Returned True" using t by (simp add: winners_def)
      fix u assume "target u = b \<and> pc s' u = Returned True"
      then have "u \<in> winners s'" "target u = target t" using t by (simp_all add: winners_def)
      with inv(2) t(1) show "u = t" by (blast dest: inj_onD)
    qed
  qed
  ultimately show ?thesis by blast
qed

theorem par_set_bit_one_winner_witness:
  "\<exists>!t :: nat. (if t < 2 then 3 else 5) = (3 :: nat)
     \<and> ((\<lambda>_. Entry)(0 := Returned True, 1 := Returned False)) t = Returned True"
proof -
  have "(3::nat) \<notin> raw_bits [0]" by (simp add: raw_bits_def)
  moreover have "\<exists>c. ((\<lambda>_. Entry)(0 := Returned True, 1 := Returned False)) t = Returned c"
    if "(if t < 2 then 3 else 5) = (3 :: nat)" for t :: nat
    using that by (auto simp: less_2_cases_iff split: if_splits)
  ultimately show ?thesis
    using par_set_bit_one_winner [OF race_example, of 3 0] by simp
qed

end
