(* ===== verification/Bit_Map_Sets.thy ===== *)
theory Bit_Map_Sets
  imports Bit_Map
begin

text \<open>
  The set operations of \<^verbatim>\<open>utilities/bitMap.cpp\<close>: the word-wise loops over two bitmaps, the tests, and
  the population count.  All of them work on whole words, so what they say about bits beyond the
  size depends on those bits being clear (\<open>bm_clean\<close>); \<^verbatim>\<open>is_full\<close> and \<^verbatim>\<open>is_empty\<close> mask the last word.
\<close>

section \<open>Operations\<close>

definition word_loop :: "(uintptr \<Rightarrow> uintptr \<Rightarrow> uintptr) \<Rightarrow> uintptr list \<Rightarrow> nat \<Rightarrow> uintptr list \<Rightarrow> uintptr list option" where
  "word_loop f other_map size' dest_map =
     for_loop 0 size' (\<lambda>index dest_map. do {
       d \<leftarrow> array_get dest_map index;
       e \<leftarrow> array_get other_map index;
       array_put dest_map index (f d e)
     }) dest_map"

definition bm_contains :: "bitmap \<Rightarrow> bitmap \<Rightarrow> bool option" where
  "bm_contains bm other = do {
     r \<leftarrow> for_return 0 (size_in_words bm) (\<lambda>index _. do {
       d \<leftarrow> array_get (bm_map bm) index;
       e \<leftarrow> array_get (bm_map other) index;
       let word_union = d OR e;
       Some (if word_union \<noteq> d then Inl False else Inr ())
     }) ();
     Some (case r of Inl b \<Rightarrow> b | Inr _ \<Rightarrow> True)
   }"

definition bm_intersects :: "bitmap \<Rightarrow> bitmap \<Rightarrow> bool option" where
  "bm_intersects bm other = do {
     r \<leftarrow> for_return 0 (size_in_words bm) (\<lambda>index _. do {
       d \<leftarrow> array_get (bm_map bm) index;
       e \<leftarrow> array_get (bm_map other) index;
       Some (if d AND e \<noteq> 0 then Inl True else Inr ())
     }) ();
     Some (case r of Inl b \<Rightarrow> b | Inr _ \<Rightarrow> False)
   }"

definition bm_set_union :: "bitmap \<Rightarrow> bitmap \<Rightarrow> bitmap option" where
  "bm_set_union bm other = do {
     m \<leftarrow> word_loop (\<lambda>d e. d OR e) (bm_map other) (size_in_words bm) (bm_map bm);
     Some (bm\<lparr>bm_map := m\<rparr>)
   }"

definition bm_set_difference :: "bitmap \<Rightarrow> bitmap \<Rightarrow> bitmap option" where
  "bm_set_difference bm other = do {
     m \<leftarrow> word_loop (\<lambda>d e. d AND NOT e) (bm_map other) (size_in_words bm) (bm_map bm);
     Some (bm\<lparr>bm_map := m\<rparr>)
   }"

definition bm_set_intersection :: "bitmap \<Rightarrow> bitmap \<Rightarrow> bitmap option" where
  "bm_set_intersection bm other = do {
     m \<leftarrow> word_loop (\<lambda>d e. d AND e) (bm_map other) (size_in_words bm) (bm_map bm);
     Some (bm\<lparr>bm_map := m\<rparr>)
   }"

definition bm_set_intersection_at_offset :: "bitmap \<Rightarrow> bitmap \<Rightarrow> nat \<Rightarrow> bitmap option" where
  "bm_set_intersection_at_offset bm other offset =
     (if offset mod (8 * 8) \<noteq> 0 then None
      else let offset_word_ind = word_index offset
           in do {
             m \<leftarrow> for_loop 0 (size_in_words bm) (\<lambda>index dest_map. do {
               d \<leftarrow> array_get dest_map index;
               e \<leftarrow> array_get (bm_map other) (offset_word_ind + index);
               array_put dest_map index (d AND e)
             }) (bm_map bm);
             Some (bm\<lparr>bm_map := m\<rparr>)
           })"

definition word_loop_with_result ::
    "(uintptr \<Rightarrow> uintptr \<Rightarrow> uintptr) \<Rightarrow> uintptr list \<Rightarrow> nat \<Rightarrow> uintptr list \<Rightarrow> (bool \<times> uintptr list) option" where
  "word_loop_with_result f other_map size' dest_map =
     for_loop 0 size' (\<lambda>index (changed, dest_map). do {
       orig \<leftarrow> array_get dest_map index;
       e \<leftarrow> array_get other_map index;
       let temp = f orig e;
       dest_map \<leftarrow> array_put dest_map index temp;
       Some (changed \<or> temp \<noteq> orig, dest_map)
     }) (False, dest_map)"

definition bm_set_union_with_result :: "bitmap \<Rightarrow> bitmap \<Rightarrow> (bool \<times> bitmap) option" where
  "bm_set_union_with_result bm other = do {
     (changed, m) \<leftarrow> word_loop_with_result (\<lambda>d e. d OR e) (bm_map other) (size_in_words bm) (bm_map bm);
     Some (changed, bm\<lparr>bm_map := m\<rparr>)
   }"

definition bm_set_difference_with_result :: "bitmap \<Rightarrow> bitmap \<Rightarrow> (bool \<times> bitmap) option" where
  "bm_set_difference_with_result bm other = do {
     (changed, m) \<leftarrow> word_loop_with_result (\<lambda>d e. d AND NOT e) (bm_map other) (size_in_words bm) (bm_map bm);
     Some (changed, bm\<lparr>bm_map := m\<rparr>)
   }"

definition bm_set_intersection_with_result :: "bitmap \<Rightarrow> bitmap \<Rightarrow> (bool \<times> bitmap) option" where
  "bm_set_intersection_with_result bm other = do {
     (changed, m) \<leftarrow> word_loop_with_result (\<lambda>d e. d AND e) (bm_map other) (size_in_words bm) (bm_map bm);
     Some (changed, bm\<lparr>bm_map := m\<rparr>)
   }"

definition bm_set_from :: "bitmap \<Rightarrow> bitmap \<Rightarrow> bitmap option" where
  "bm_set_from bm other = do {
     m \<leftarrow> for_loop 0 (size_in_words bm) (\<lambda>index dest_map. do {
       e \<leftarrow> array_get (bm_map other) index;
       array_put dest_map index e
     }) (bm_map bm);
     Some (bm\<lparr>bm_map := m\<rparr>)
   }"

definition bm_is_same :: "bitmap \<Rightarrow> bitmap \<Rightarrow> bool option" where
  "bm_is_same bm other = do {
     r \<leftarrow> for_return 0 (size_in_words bm) (\<lambda>index _. do {
       d \<leftarrow> array_get (bm_map bm) index;
       e \<leftarrow> array_get (bm_map other) index;
       Some (if d \<noteq> e then Inl False else Inr ())
     }) ();
     Some (case r of Inl b \<Rightarrow> b | Inr _ \<Rightarrow> True)
   }"

text \<open>The loop of \<^verbatim>\<open>is_full\<close> and \<^verbatim>\<open>is_empty\<close>: \<open>word\<close> walks over the full words, \<open>rest\<close> counts down.\<close>

function full_words_loop :: "uintptr list \<Rightarrow> uintptr \<Rightarrow> nat \<Rightarrow> nat \<Rightarrow> (bool + nat \<times> nat) option" where
  "full_words_loop m expected word rest =
     (if rest \<ge> BitsPerWord
      then do {
        w \<leftarrow> array_get m word;
        if w \<noteq> expected then Some (Inl False)
        else full_words_loop m expected (word + 1) (rest - BitsPerWord)
      }
      else Some (Inr (word, rest)))"
  by pat_completeness auto
termination
  by (relation "measure (\<lambda>(m, expected, word, rest). rest)") (auto simp: BitsPerWord_def)

definition bm_is_full :: "bitmap \<Rightarrow> bool option" where
  "bm_is_full bm = do {
     r \<leftarrow> full_words_loop (bm_map bm) (- 1) 0 (bm_size bm);
     (case r of
        Inl b \<Rightarrow> Some b
      | Inr (word, rest) \<Rightarrow>
          if rest = 0 then Some True
          else do { w \<leftarrow> array_get (bm_map bm) word; Some (w OR NOT (right_n_bits rest) = - 1) })
   }"

definition bm_is_empty :: "bitmap \<Rightarrow> bool option" where
  "bm_is_empty bm = do {
     r \<leftarrow> full_words_loop (bm_map bm) 0 0 (bm_size bm);
     (case r of
        Inl b \<Rightarrow> Some b
      | Inr (word, rest) \<Rightarrow>
          if rest = 0 then Some True
          else do { w \<leftarrow> array_get (bm_map bm) word; Some (w AND right_n_bits rest = 0) })
   }"

partial_function (option) skip_zeros :: "uintptr \<Rightarrow> uintptr option" where
  "skip_zeros w = (if w AND 1 = 0 then skip_zeros (drop_bit 1 w) else Some w)"

partial_function (option) num_set_bits_loop :: "uintptr \<Rightarrow> nat \<Rightarrow> nat option" where
  "num_set_bits_loop w n =
     (if w \<noteq> 0 then do { w \<leftarrow> skip_zeros w; num_set_bits_loop (drop_bit 1 w) (n + 1) } else Some n)"

definition num_set_bits :: "uintptr \<Rightarrow> nat option" where
  "num_set_bits w = num_set_bits_loop w 0"

text \<open>\<^verbatim>\<open>init_pop_count_table\<close>: \<open>None\<close> is the table pointer before the first call.\<close>

definition init_pop_count_table :: "nat list option \<Rightarrow> nat list option" where
  "init_pop_count_table pop_count_table =
     (case pop_count_table of
        None \<Rightarrow> for_loop 0 256 (\<lambda>i table. do { n \<leftarrow> num_set_bits (of_nat i); array_put table i n }) (replicate 256 0)
      | Some table \<Rightarrow> Some table)"

definition count_one_bits_word :: "nat list \<Rightarrow> uintptr \<Rightarrow> nat \<Rightarrow> nat option" where
  "count_one_bits_word table w acc = map_option snd (for_loop 0 8 (\<lambda>j (w, acc).
     do { n \<leftarrow> array_get table (unat (ucast (w AND 255) :: u1)); Some (drop_bit 8 w, acc + n) }) (w, acc))"

definition count_one_bits :: "nat list option \<Rightarrow> bitmap \<Rightarrow> nat option" where
  "count_one_bits pop_count_table bm = do {
     table \<leftarrow> init_pop_count_table pop_count_table;
     for_loop 0 (size_in_words bm) (\<lambda>i acc. do {
       w \<leftarrow> array_get (bm_map bm) i;
       count_one_bits_word table w acc
     }) 0
   }"

section \<open>Word-wise loops\<close>

text \<open>A word operation that acts on each bit separately lifts to the bits of the two arrays.\<close>

locale word_wise =
  fixes f :: "uintptr \<Rightarrow> uintptr \<Rightarrow> uintptr" and g :: "bool \<Rightarrow> bool \<Rightarrow> bool"
  assumes bit_f: "n < 64 \<Longrightarrow> bit (f a b) n = g (bit a n) (bit b n)"
begin

lemma loop_map2:
  assumes "length other = length m"
  shows "word_loop f other (length m) m = Some (map2 f m other)"
proof -
  have "succeeds (word_loop f other (length m) m) (\<lambda>m'. m' = map2 f (take (length m) m) other @ drop (length m) m)"
    unfolding word_loop_def
  proof (rule for_loop_rule [where I = "\<lambda>k m'. m' = map2 f (take k m) other @ drop k m"])
    fix k m' assume "k < length m" "m' = map2 f (take k m) other @ drop k m"
    then show "succeeds (do { d \<leftarrow> array_get m' k; e \<leftarrow> array_get other k; array_put m' k (f d e) })
        (\<lambda>m'. m' = map2 f (take (Suc k) m) other @ drop (Suc k) m)"
      using assms
      by (simp add: vcg nth_append list_update_append)
        (rule nth_equalityI; auto simp: nth_append nth_list_update less_Suc_eq)
  qed simp_all
  then show ?thesis by (auto simp: succeeds_iff)
qed

lemma loop_result_map2:
  assumes "length other = length m"
  shows "word_loop_with_result f other (length m) m = Some (map2 f m other \<noteq> m, map2 f m other)"
proof -
  have "succeeds (word_loop_with_result f other (length m) m)
      (\<lambda>(ch, m'). m' = map2 f (take (length m) m) other @ drop (length m) m \<and> ch = (m' \<noteq> m))"
    unfolding word_loop_with_result_def
  proof (rule for_loop_rule [where I = "\<lambda>k (ch, m'). m' = map2 f (take k m) other @ drop k m \<and> ch = (m' \<noteq> m)"])
    fix k s assume k: "k < length m" and "case s of (ch, m') \<Rightarrow> m' = map2 f (take k m) other @ drop k m \<and> ch = (m' \<noteq> m)"
    then obtain m' where s: "s = (m' \<noteq> m, m')" and m': "m' = map2 f (take k m) other @ drop k m" by auto
    have upd: "m'[k := f (m ! k) (other ! k)] = map2 f (take (Suc k) m) other @ drop (Suc k) m"
      unfolding m' using k assms
      by (intro nth_equalityI) (auto simp: nth_append nth_list_update less_Suc_eq)
    have lk: "k < length m'" "m' ! k = m ! k" using k assms by (auto simp: m' nth_append)
    have "m'[k := x] = m \<longleftrightarrow> m' = m \<and> x = m ! k" for x
      using k lk by (metis list_update_id nth_list_update_eq list_update_overwrite)
    then show "succeeds (case s of (changed, dest_map) \<Rightarrow> do {
          orig \<leftarrow> array_get dest_map k; e \<leftarrow> array_get other k; let temp = f orig e;
          dest_map \<leftarrow> array_put dest_map k temp; Some (changed \<or> temp \<noteq> orig, dest_map) })
        (\<lambda>(ch, m'). m' = map2 f (take (Suc k) m) other @ drop (Suc k) m \<and> ch = (m' \<noteq> m))"
      using k lk assms by (simp add: s vcg Let_def upd)
  qed simp_all
  then show ?thesis by (auto simp: succeeds_iff)
qed

lemma raw_bits_map2:
  assumes "length other = length m"
  shows "raw_bits (map2 f m other) = {i. i < length m * 64 \<and> g (i \<in> raw_bits m) (i \<in> raw_bits other)}"
  using assms by (auto simp: raw_bits_def bit_f div_less_iff_less_mult)

end

interpretation or_words: word_wise "\<lambda>d e. d OR e" "(\<or>)"
  by unfold_locales (simp add: bit_or_iff)

interpretation diff_words: word_wise "\<lambda>d e. d AND NOT e" "\<lambda>x y. x \<and> \<not> y"
  by unfold_locales (simp add: bit_and_iff bit_not_iff)

interpretation and_words: word_wise "\<lambda>d e. d AND e" "(\<and>)"
  by unfold_locales (simp add: bit_and_iff)

interpretation copy_words: word_wise "\<lambda>d e. e" "\<lambda>x y. y"
  by unfold_locales simp

section \<open>The operations on the sets of bits\<close>

lemma same_size_words: "bm_wf bm \<Longrightarrow> bm_wf other \<Longrightarrow> bm_size other = bm_size bm \<Longrightarrow>
    length (bm_map other) = length (bm_map bm)"
  by (simp add: bm_wf_def)

lemma map2_wf: "bm_wf bm \<Longrightarrow> length m = length (bm_map bm) \<Longrightarrow> bm_wf (bm\<lparr>bm_map := m\<rparr>)"
  by (simp add: bm_wf_def)

text \<open>\<open>bm'\<close> is the bitmap over the same size whose bits are given by \<open>R\<close>.\<close>

definition has_bits :: "bitmap \<Rightarrow> nat set \<Rightarrow> bitmap \<Rightarrow> bool" where
  "has_bits bm R bm' \<longleftrightarrow> bm_wf bm' \<and> bm_size bm' = bm_size bm \<and> bits bm' = R"

lemmas set_op_defs = bm_set_union_def bm_set_difference_def bm_set_intersection_def
  bm_set_union_with_result_def bm_set_difference_with_result_def bm_set_intersection_with_result_def

lemmas word_wise_loops = or_words.loop_map2 diff_words.loop_map2 and_words.loop_map2
  or_words.loop_result_map2 diff_words.loop_result_map2 and_words.loop_result_map2

lemma word_wise_bits:
  assumes "bm_wf bm" "bm_wf other" "bm_size other = bm_size bm"
  shows "bits (bm\<lparr>bm_map := map2 (\<lambda>d e. d OR e) (bm_map bm) (bm_map other)\<rparr>) = bits bm \<union> bits other"
    and "bits (bm\<lparr>bm_map := map2 (\<lambda>d e. d AND NOT e) (bm_map bm) (bm_map other)\<rparr>) = bits bm - bits other"
    and "bits (bm\<lparr>bm_map := map2 (\<lambda>d e. d AND e) (bm_map bm) (bm_map other)\<rparr>) = bits bm \<inter> bits other"
  using same_size_words [OF assms] assms(3)
  by (auto simp: bits_def or_words.raw_bits_map2 diff_words.raw_bits_map2 and_words.raw_bits_map2
      dest: raw_bits_bound)

lemma set_op_has_bits:
  assumes "bm_wf bm" "bm_wf other" "bm_size other = bm_size bm"
  shows "succeeds (bm_set_union bm other) (has_bits bm (bits bm \<union> bits other))"
    and "succeeds (bm_set_difference bm other) (has_bits bm (bits bm - bits other))"
    and "succeeds (bm_set_intersection bm other) (has_bits bm (bits bm \<inter> bits other))"
  using assms same_size_words [OF assms]
  by (simp_all add: set_op_defs word_wise_loops has_bits_def map2_wf word_wise_bits)

lemma raw_bits_inj: "length m = length m' \<Longrightarrow> raw_bits m = raw_bits m' \<Longrightarrow> m = m'"
proof (rule nth_equalityI, assumption)
  fix i assume eq: "length m = length m'" "raw_bits m = raw_bits m'" and i: "i < length m"
  show "m ! i = m' ! i"
  proof (rule word_bit_ext)
    fix n assume "n < LENGTH(64)"
    then have "(i * 64 + n) div 64 = i" "(i * 64 + n) mod 64 = n" by simp_all
    then have "i * 64 + n \<in> raw_bits m \<longleftrightarrow> bit (m ! i) n" "i * 64 + n \<in> raw_bits m' \<longleftrightarrow> bit (m' ! i) n"
      using i eq(1) by (simp_all add: raw_bits_def)
    with eq(2) show "bit (m ! i) n = bit (m' ! i) n" by simp
  qed
qed

lemma clean_raw_bits: "bm_clean bm \<Longrightarrow> raw_bits (bm_map bm) = bits bm"
  by (auto simp: bm_clean_def bits_def)

lemma clean_map_eq:
  assumes "bm_clean bm" "length m = length (bm_map bm)" "raw_bits m \<subseteq> {..<bm_size bm}"
  shows "m = bm_map bm \<longleftrightarrow> bits (bm\<lparr>bm_map := m\<rparr>) = bits bm"
proof -
  have "bits (bm\<lparr>bm_map := m\<rparr>) = raw_bits m" using assms(3) by (auto simp: bits_def)
  then show ?thesis using raw_bits_inj [OF assms(2)] clean_raw_bits [OF assms(1)] by auto
qed

lemma clean_map2:
  assumes "bm_wf bm" "bm_wf other" "bm_size other = bm_size bm" "bm_clean bm" "bm_clean other"
  shows "map2 (\<lambda>d e. d OR e) (bm_map bm) (bm_map other) = bm_map bm \<longleftrightarrow> bits bm \<union> bits other = bits bm"
    and "map2 (\<lambda>d e. d AND NOT e) (bm_map bm) (bm_map other) = bm_map bm \<longleftrightarrow> bits bm - bits other = bits bm"
    and "map2 (\<lambda>d e. d AND e) (bm_map bm) (bm_map other) = bm_map bm \<longleftrightarrow> bits bm \<inter> bits other = bits bm"
  using same_size_words [OF assms(1-3)] assms(3-5)
  by (subst clean_map_eq; force simp: word_wise_bits [OF assms(1-3)] bm_clean_def
      or_words.raw_bits_map2 diff_words.raw_bits_map2 and_words.raw_bits_map2)+

lemma set_op_with_result:
  assumes "bm_wf bm" "bm_wf other" "bm_size other = bm_size bm" "bm_clean bm" "bm_clean other"
  shows "succeeds (bm_set_union_with_result bm other)
      (\<lambda>(ch, bm'). has_bits bm (bits bm \<union> bits other) bm' \<and> ch = (bits bm' \<noteq> bits bm))"
    and "succeeds (bm_set_difference_with_result bm other)
      (\<lambda>(ch, bm'). has_bits bm (bits bm - bits other) bm' \<and> ch = (bits bm' \<noteq> bits bm))"
    and "succeeds (bm_set_intersection_with_result bm other)
      (\<lambda>(ch, bm'). has_bits bm (bits bm \<inter> bits other) bm' \<and> ch = (bits bm' \<noteq> bits bm))"
  using assms same_size_words [OF assms(1-3)]
  by (simp_all add: set_op_defs word_wise_loops has_bits_def map2_wf word_wise_bits clean_map2)

lemma map2_snd: "length xs = length ys \<Longrightarrow> map2 (\<lambda>d e. e) xs ys = ys"
  by (rule nth_equalityI) simp_all

lemma set_from_has_bits:
  assumes "bm_wf bm" "bm_wf other" "bm_size other = bm_size bm"
  shows "succeeds (bm_set_from bm other) (has_bits bm (bits other))"
proof -
  let ?n = "length (bm_map bm)"
  have len: "length (bm_map other) = ?n" by (rule same_size_words [OF assms])
  have "succeeds (for_loop 0 ?n (\<lambda>i m. do { e \<leftarrow> array_get (bm_map other) i; array_put m i e }) (bm_map bm))
      (\<lambda>m. m = take ?n (bm_map other) @ drop ?n (bm_map bm))"
  proof (rule for_loop_rule [where I = "\<lambda>k m. m = take k (bm_map other) @ drop k (bm_map bm)"])
    fix k m assume "k < ?n" "m = take k (bm_map other) @ drop k (bm_map bm)"
    then show "succeeds (do { e \<leftarrow> array_get (bm_map other) k; array_put m k e })
        (\<lambda>m. m = take (Suc k) (bm_map other) @ drop (Suc k) (bm_map bm))"
      using len
      by (simp add: vcg list_update_append)
        (rule nth_equalityI; auto simp: nth_append nth_list_update less_Suc_eq)
  qed simp_all
  then show ?thesis
    using assms len by (auto simp: bm_set_from_def succeeds_iff has_bits_def map2_wf bits_def)
qed

lemma set_intersection_at_offset_has_bits:
  assumes "bm_wf bm" "bm_wf other" "offset mod 64 = 0" "offset + bm_size bm \<le> bm_size other"
  shows "succeeds (bm_set_intersection_at_offset bm other offset)
    (has_bits bm {i \<in> bits bm. offset + i \<in> bits other})"
proof -
  let ?n = "length (bm_map bm)" and ?k = "offset div 64"
  let ?o = "take ?n (drop ?k (bm_map other))"
  have len: "?k + ?n \<le> length (bm_map other)"
    using assms div_mult_mod_eq [of offset 64] unfolding bm_wf_def by linarith
  have get: "i < ?n \<Longrightarrow> array_get (bm_map other) (?k + i) = array_get ?o i" for i
    using len by (simp add: mem_simps)
  have "for_loop 0 ?n (\<lambda>i m. do { d \<leftarrow> array_get m i; e \<leftarrow> array_get (bm_map other) (?k + i); array_put m i (d AND e) }) (bm_map bm)
      = word_loop (\<lambda>d e. d AND e) ?o ?n (bm_map bm)"
    unfolding word_loop_def by (rule for_loop_cong) (simp_all add: get)
  also have "\<dots> = Some (map2 (\<lambda>d e. d AND e) (bm_map bm) ?o)"
    by (rule and_words.loop_map2) (use len in simp)
  finally have loop: "bm_set_intersection_at_offset bm other offset =
      Some (bm\<lparr>bm_map := map2 (\<lambda>d e. d AND e) (bm_map bm) ?o\<rparr>)"
    using assms(1,3) by (simp add: bm_set_intersection_at_offset_def Let_def)
  have o: "i \<in> raw_bits ?o \<longleftrightarrow> offset + i \<in> raw_bits (bm_map other)" if "i < ?n * 64" for i
  proof -
    have "offset = ?k * 64" using assms(3) by auto
    then have "(offset + i) div 64 = ?k + i div 64" "(offset + i) mod 64 = i mod 64" by (metis div_mult_self3 zero_neq_numeral, metis mod_mult_self3)
    moreover have "i div 64 < ?n" using that by (simp add: div_less_iff_less_mult)
    ultimately show ?thesis using len by (simp add: raw_bits_def)
  qed
  have "length ?o = ?n" using len by simp
  from and_words.raw_bits_map2 [OF this]
  have "raw_bits (map2 (\<lambda>d e. d AND e) (bm_map bm) ?o) = {i \<in> raw_bits (bm_map bm). offset + i \<in> raw_bits (bm_map other)}"
    using o by (auto dest: raw_bits_bound)
  then show ?thesis
    using assms len by (auto simp: loop has_bits_def map2_wf bits_def)
qed

section \<open>Tests\<close>

lemma for_return_search:
  assumes "\<And>k. k < n \<Longrightarrow> body k () = Some (if P k then Inl b else Inr ())"
  shows "for_return 0 n body () = Some (if \<exists>k<n. P k then Inl b else Inr ())"
proof -
  have "i \<le> n \<Longrightarrow> for_return i n body () = Some (if \<exists>k. i \<le> k \<and> k < n \<and> P k then Inl b else Inr ())" for i
  proof (induction "n - i" arbitrary: i)
    case (Suc d)
    then have i: "i < n" "d = n - Suc i" "Suc i \<le> n" by auto
    have "(\<exists>k. i \<le> k \<and> k < n \<and> P k) = (P i \<or> (\<exists>k. Suc i \<le> k \<and> k < n \<and> P k))"
      using i by (metis Suc_leD Suc_le_eq le_neq_implies_less order_refl)
    with Suc.hyps(1) [OF i(2,3)] assms [OF i(1)] i show ?case by (auto simp: for_return_step)
  qed auto
  from this [of 0] show ?thesis by simp
qed

lemma words_all_bits:
  assumes "length m = length m'"
  shows "(\<forall>k < length m. \<forall>n < 64. Q (bit (m ! k) n) (bit (m' ! k) n)) \<longleftrightarrow>
    (\<forall>i < length m * 64. Q (i \<in> raw_bits m) (i \<in> raw_bits m'))"
proof safe
  fix i assume "\<forall>k < length m. \<forall>n < 64. Q (bit (m ! k) n) (bit (m' ! k) n)" "i < length m * 64"
  then show "Q (i \<in> raw_bits m) (i \<in> raw_bits m')"
    using assms by (simp add: raw_bits_def div_less_iff_less_mult)
next
  fix k n assume all: "\<forall>i < length m * 64. Q (i \<in> raw_bits m) (i \<in> raw_bits m')" and "k < length m" "n < (64::nat)"
  moreover from this have "(k * 64 + n) div 64 = k" "(k * 64 + n) mod 64 = n" "k * 64 + n < length m * 64" by simp_all
  ultimately show "Q (bit (m ! k) n) (bit (m' ! k) n)"
    using all [rule_format, of "k * 64 + n"] assms by (simp add: raw_bits_def)
qed

lemma word_or_absorb: "(d OR e = d) \<longleftrightarrow> (\<forall>n<64. bit e n \<longrightarrow> bit d n)" for d e :: uintptr
  by (auto simp: bit_eq_iff bit_or_iff)

lemma word_and_zero: "(d AND e = 0) \<longleftrightarrow> (\<forall>n<64. bit d n \<longrightarrow> \<not> bit e n)" for d e :: uintptr
  by (auto simp: bit_eq_iff bit_and_iff)

lemma word_eq_bits: "(d = e) \<longleftrightarrow> (\<forall>n<64. bit d n = bit e n)" for d e :: uintptr
  by (auto simp: bit_eq_iff)

lemma contains_raw:
  assumes "bm_wf bm" "length (bm_map other) = length (bm_map bm)"
  shows "bm_contains bm other = Some (raw_bits (bm_map other) \<subseteq> raw_bits (bm_map bm))"
proof -
  have "bm_contains bm other = Some (\<forall>k < length (bm_map bm). bm_map bm ! k OR bm_map other ! k = bm_map bm ! k)"
    unfolding bm_contains_def
    by (subst for_return_search [where P = "\<lambda>k. bm_map bm ! k OR bm_map other ! k \<noteq> bm_map bm ! k" and b = False])
      (use assms in \<open>auto simp: mem_simps\<close>)
  then show ?thesis
    using words_all_bits [OF assms(2) [symmetric], of "\<lambda>x y. y \<longrightarrow> x"] raw_bits_bound [of _ "bm_map other"]
    by (auto simp: word_or_absorb assms(2))
qed

lemma intersects_raw:
  assumes "bm_wf bm" "length (bm_map other) = length (bm_map bm)"
  shows "bm_intersects bm other = Some (raw_bits (bm_map bm) \<inter> raw_bits (bm_map other) \<noteq> {})"
proof -
  have "bm_intersects bm other = Some (\<not> (\<forall>k < length (bm_map bm). bm_map bm ! k AND bm_map other ! k = 0))"
    unfolding bm_intersects_def
    by (subst for_return_search [where P = "\<lambda>k. bm_map bm ! k AND bm_map other ! k \<noteq> 0" and b = True])
      (use assms in \<open>auto simp: mem_simps\<close>)
  then show ?thesis
    using words_all_bits [OF assms(2) [symmetric], of "\<lambda>x y. x \<longrightarrow> \<not> y"]
    by (auto simp: word_and_zero dest: raw_bits_bound)
qed

lemma is_same_raw:
  assumes "bm_wf bm" "length (bm_map other) = length (bm_map bm)"
  shows "bm_is_same bm other = Some (bm_map bm = bm_map other)"
proof -
  have "bm_is_same bm other = Some (\<forall>k < length (bm_map bm). bm_map bm ! k = bm_map other ! k)"
    unfolding bm_is_same_def
    by (subst for_return_search [where P = "\<lambda>k. bm_map bm ! k \<noteq> bm_map other ! k" and b = False])
      (use assms in \<open>auto simp: mem_simps\<close>)
  then show ?thesis using assms(2) by (auto simp: list_eq_iff_nth_eq)
qed

lemma full_words_loop_eq:
  "word + (rest + 63) div 64 \<le> length m \<Longrightarrow> full_words_loop m e word rest =
     Some (if \<forall>k < rest div 64. m ! (word + k) = e then Inr (word + rest div 64, rest mod 64) else Inl False)"
proof (induction m e word rest rule: full_words_loop.induct)
  case (1 m e word rest)
  show ?case
  proof (cases "64 \<le> rest")
    case True
    let ?r = "rest - 64"
    have d: "rest div 64 = Suc (?r div 64)" "rest mod 64 = ?r mod 64"
      using True by (simp_all add: le_div_geq le_mod_geq)
    have b: "word + 1 + (?r + 63) div 64 \<le> length m" "word < length m"
      using 1(2) True by linarith+
    have split: "(\<forall>k < Suc j. m ! (word + k) = e) \<longleftrightarrow> m ! word = e \<and> (\<forall>k < j. m ! (Suc word + k) = e)" for j
      by (simp add: All_less_Suc2)
    show ?thesis
    proof (cases "m ! word = e")
      case eq: True
      have "full_words_loop m e (word + 1) ?r = Some (if \<forall>k < ?r div 64. m ! (Suc word + k) = e
          then Inr (Suc word + ?r div 64, ?r mod 64) else Inl False)"
        using 1(1) [of "m ! word"] b True eq by (simp add: BitsPerWord_def mem_simps)
      then show ?thesis using True eq b(2) by (simp add: split d BitsPerWord_def mem_simps)
    next
      case False
      then show ?thesis using True b(2) by (auto simp: split d BitsPerWord_def mem_simps)
    qed
  qed (simp add: BitsPerWord_def)
qed

lemma all_bits_split:
  "(\<forall>i < s. Q (i div 64) (i mod 64)) \<longleftrightarrow>
     (\<forall>k < s div 64. \<forall>n < 64. Q k n) \<and> (\<forall>n < s mod 64. Q (s div 64) n)" for s :: nat
proof safe
  fix k n assume all: "\<forall>i < s. Q (i div 64) (i mod 64)" and "k < s div 64" "n < (64 :: nat)"
  moreover have "k * 64 + n < s"
    using div_mult_mod_eq [of s 64] \<open>k < s div 64\<close> \<open>n < 64\<close> by linarith
  ultimately show "Q k n" using all [rule_format, of "k * 64 + n"] by simp
next
  fix n assume all: "\<forall>i < s. Q (i div 64) (i mod 64)" and "n < s mod 64"
  moreover have "s div 64 * 64 + n < s" using div_mult_mod_eq [of s 64] \<open>n < s mod 64\<close> by linarith
  moreover have "n < 64" using \<open>n < s mod 64\<close> by (rule less_trans) simp
  ultimately show "Q (s div 64) n" using all [rule_format, of "s div 64 * 64 + n"] by simp
next
  fix i assume *: "\<forall>k < s div 64. \<forall>n < 64. Q k n" "\<forall>n < s mod 64. Q (s div 64) n" "i < s"
  show "Q (i div 64) (i mod 64)"
  proof (cases "i div 64 < s div 64")
    case False
    moreover have "i div 64 \<le> s div 64" using *(3) by (simp add: div_le_mono)
    ultimately have "i div 64 = s div 64" by simp
    moreover from this have "i mod 64 < s mod 64"
      using div_mult_mod_eq [of s 64] div_mult_mod_eq [of i 64] *(3) by linarith
    ultimately show ?thesis using *(2) by simp
  qed (use * in simp)
qed

lemma tail_word:
  assumes "bm_wf bm"
  shows "0 + (bm_size bm + 63) div 64 \<le> length (bm_map bm)"
    and "bm_size bm mod 64 \<noteq> 0 \<Longrightarrow> bm_size bm div 64 < length (bm_map bm)"
  using assms div_mult_mod_eq [of "bm_size bm" 64] unfolding bm_wf_def by linarith+

lemma full_word: "w = - 1 \<longleftrightarrow> (\<forall>n<64. bit w n)" for w :: uintptr
  by (auto simp: bit_eq_iff)

lemma zero_word: "w = 0 \<longleftrightarrow> (\<forall>n<64. \<not> bit w n)" for w :: uintptr
  by (auto simp: bit_eq_iff)

lemma bit_of_size: "bm_wf bm \<Longrightarrow> i < bm_size bm \<Longrightarrow> i \<in> bits bm \<longleftrightarrow> bit (bm_map bm ! (i div 64)) (i mod 64)"
  by (simp add: bits_def in_raw_bits word_of_bit)

lemma bits_full_iff: "bits bm = {..<bm_size bm} \<longleftrightarrow> (\<forall>i < bm_size bm. i \<in> bits bm)"
  by (auto simp: bits_def)

lemma bits_empty_iff: "bits bm = {} \<longleftrightarrow> (\<forall>i < bm_size bm. i \<notin> bits bm)"
  by (auto simp: bits_def)

lemma is_full_bits:
  assumes "bm_wf bm"
  shows "bm_is_full bm = Some (bits bm = {..<bm_size bm})"
proof -
  let ?s = "bm_size bm" and ?m = "bm_map bm"
  have "bits bm = {..<?s} \<longleftrightarrow> (\<forall>i < ?s. bit (?m ! (i div 64)) (i mod 64))"
    using bit_of_size [OF assms] by (simp add: bits_full_iff)
  also have "\<dots> \<longleftrightarrow> (\<forall>k < ?s div 64. ?m ! k = - 1) \<and> (\<forall>n < ?s mod 64. bit (?m ! (?s div 64)) n)"
    unfolding all_bits_split [of ?s "\<lambda>k n. bit (?m ! k) n"] full_word ..
  also have "(\<forall>n < ?s mod 64. bit (?m ! (?s div 64)) n) \<longleftrightarrow>
      ?s mod 64 = 0 \<or> ?m ! (?s div 64) OR NOT (right_n_bits (?s mod 64)) = - 1"
  proof -
    have "n < ?s mod 64 \<Longrightarrow> n < 64" for n by (rule less_trans [of _ "?s mod 64"]) simp_all
    then show ?thesis by (auto simp: full_word bit_or_iff bit_not_iff bit_right_n_bits)
  qed
  finally show ?thesis
    using full_words_loop_eq [OF tail_word(1) [OF assms], of "- 1"] tail_word(2) [OF assms]
    by (auto simp: bm_is_full_def mem_simps)
qed

lemma is_empty_bits:
  assumes "bm_wf bm"
  shows "bm_is_empty bm = Some (bits bm = {})"
proof -
  let ?s = "bm_size bm" and ?m = "bm_map bm"
  have "bits bm = {} \<longleftrightarrow> (\<forall>i < ?s. \<not> bit (?m ! (i div 64)) (i mod 64))"
    using bit_of_size [OF assms] by (simp add: bits_empty_iff)
  also have "\<dots> \<longleftrightarrow> (\<forall>k < ?s div 64. ?m ! k = 0) \<and> (\<forall>n < ?s mod 64. \<not> bit (?m ! (?s div 64)) n)"
    unfolding all_bits_split [of ?s "\<lambda>k n. \<not> bit (?m ! k) n"] zero_word ..
  also have "(\<forall>n < ?s mod 64. \<not> bit (?m ! (?s div 64)) n) \<longleftrightarrow>
      ?s mod 64 = 0 \<or> ?m ! (?s div 64) AND right_n_bits (?s mod 64) = 0"
  proof -
    have "n < ?s mod 64 \<Longrightarrow> n < 64" for n by (rule less_trans [of _ "?s mod 64"]) simp_all
    then show ?thesis by (auto simp: zero_word bit_and_iff bit_right_n_bits)
  qed
  finally show ?thesis
    using full_words_loop_eq [OF tail_word(1) [OF assms], of 0] tail_word(2) [OF assms]
    by (auto simp: bm_is_empty_def mem_simps)
qed

section \<open>Population count\<close>

definition ones :: "uintptr \<Rightarrow> nat" where
  "ones w = card {n. bit w n}"

lemma finite_word_bits [simp]: "finite {n. bit (w :: uintptr) n}"
  by (rule finite_subset [of _ "{..<64}"]) (auto dest: bit_imp_le_length)

lemma ones_shift: "ones w = (if bit w 0 then 1 else 0) + ones (drop_bit 1 w)"
proof -
  have "{n. bit w n} = (if bit w 0 then {0} else {}) \<union> Suc ` {n. bit (drop_bit 1 w) n}"
  proof (rule set_eqI)
    fix n show "n \<in> {n. bit w n} \<longleftrightarrow> n \<in> (if bit w 0 then {0} else {}) \<union> Suc ` {n. bit (drop_bit 1 w) n}"
      by (cases n) (auto simp: bit_drop_bit_eq image_iff)
  qed
  then show ?thesis by (auto simp: ones_def card_image card_insert_if)
qed

lemma skip_zeros_ones: "w \<noteq> 0 \<Longrightarrow> \<exists>w'. skip_zeros w = Some w' \<and> bit w' 0 \<and> ones w' = ones w \<and> unat w' \<le> unat w"
proof (induction "unat w" arbitrary: w rule: less_induct)
  case less
  show ?case
  proof (cases "bit w 0")
    case True
    then have "skip_zeros w = Some w" by (subst skip_zeros.simps) (simp add: word_and_1_eq_0)
    then show ?thesis using True by simp
  next
    case False
    then have s: "skip_zeros w = skip_zeros (drop_bit 1 w)" by (subst skip_zeros.simps) (simp add: word_and_1_eq_0)
    obtain n where "bit w n" using less.prems by (auto simp: word_neq_0_bit)
    with False obtain k where "n = Suc k" by (cases n) auto
    with \<open>bit w n\<close> have "bit (drop_bit 1 w) k" by (simp add: bit_drop_bit_eq)
    then have "drop_bit 1 w \<noteq> 0" by auto
    from less.hyps [OF unat_shift [OF less.prems] this] obtain w' where
      "skip_zeros (drop_bit 1 w) = Some w'" "bit w' 0" "ones w' = ones (drop_bit 1 w)" "unat w' \<le> unat (drop_bit 1 w)"
      by blast
    then show ?thesis using s False unat_shift [OF less.prems] ones_shift [of w] by auto
  qed
qed

lemma num_set_bits_loop_ones: "num_set_bits_loop w n = Some (n + ones w)"
proof (induction "unat w" arbitrary: w n rule: less_induct)
  case less
  show ?case
  proof (cases "w = 0")
    case True
    then show ?thesis by (subst num_set_bits_loop.simps) (simp add: ones_def)
  next
    case False
    from skip_zeros_ones [OF False] obtain w' where w': "skip_zeros w = Some w'" "bit w' 0" "ones w' = ones w" "unat w' \<le> unat w"
      by blast
    from w'(2) have "w' \<noteq> 0" by auto
    from less.hyps [OF less_le_trans [OF unat_shift [OF this] w'(4)], of "n + 1"] w'(2,3) ones_shift [of w']
    have "num_set_bits_loop (drop_bit 1 w') (n + 1) = Some (n + ones w)" by simp
    then show ?thesis using False w'(1) by (subst num_set_bits_loop.simps) simp
  qed
qed

lemma num_set_bits_ones: "num_set_bits w = Some (ones w)"
  by (simp add: num_set_bits_def num_set_bits_loop_ones)

definition pop_table_ok :: "nat list \<Rightarrow> bool" where
  "pop_table_ok table \<longleftrightarrow> length table = 256 \<and> (\<forall>i < 256. table ! i = ones (of_nat i))"

lemma init_pop_count_table_ok:
  assumes "\<And>t. table = Some t \<Longrightarrow> pop_table_ok t"
  shows "succeeds (init_pop_count_table table) pop_table_ok"
proof (cases table)
  case None
  have "succeeds (for_loop 0 256 (\<lambda>i table. do { n \<leftarrow> num_set_bits (of_nat i); array_put table i n }) (replicate 256 0))
      (\<lambda>t. length t = 256 \<and> (\<forall>i < 256. t ! i = ones (of_nat i)))"
    by (rule for_loop_rule [where I = "\<lambda>k t. length t = 256 \<and> (\<forall>i < k. t ! i = ones (of_nat i))"])
      (auto simp: num_set_bits_ones vcg nth_list_update less_Suc_eq)
  then show ?thesis unfolding None init_pop_count_table_def option.case
    by (rule succeeds_weaken) (simp add: pop_table_ok_def)
qed (use assms in \<open>simp add: init_pop_count_table_def\<close>)

lemma byte_index: "unat (ucast (v AND 255) :: u1) = unat (take_bit 8 v)" for v :: uintptr
proof -
  have "v AND 255 = take_bit 8 v" by (simp add: take_bit_eq_mask mask_eq_exp_minus_1)
  then have "(ucast (v AND 255) :: u1) = ucast (take_bit 8 v)" by simp
  then show ?thesis by (simp add: unsigned_ucast_eq unsigned_take_bit_eq)
qed

lemma ones_take_bit: "ones (take_bit n w) = card {j. j < n \<and> bit w j}"
  by (simp add: ones_def bit_take_bit_iff)

lemma table_byte:
  fixes v :: uintptr
  assumes "pop_table_ok table"
  shows "array_get table (unat (ucast (v AND 255) :: u1)) = Some (card {j. j < 8 \<and> bit v j})"
proof -
  have lt: "unat (take_bit 8 v) < 256"
    unfolding unsigned_take_bit_eq by (simp add: take_bit_eq_mod)
  then have "table ! unat (take_bit 8 v) = ones (take_bit 8 v)"
    using assms by (simp add: pop_table_ok_def)
  then show ?thesis
    using assms lt unfolding byte_index by (simp add: pop_table_ok_def mem_simps ones_take_bit)
qed

lemma card_next_byte:
  "card {j. j < k * 8 \<and> bit w j} + card {j. j < 8 \<and> bit (drop_bit (k * 8) w) j} = card {j. j < Suc k * 8 \<and> bit (w :: uintptr) j}"
proof -
  have "{j. j < Suc k * 8 \<and> bit w j} =
      {j. j < k * 8 \<and> bit w j} \<union> (\<lambda>j. k * 8 + j) ` {j. j < 8 \<and> bit (drop_bit (k * 8) w) j}" (is "?A = ?B \<union> ?C")
  proof (rule set_eqI)
    fix j
    show "j \<in> ?A \<longleftrightarrow> j \<in> ?B \<union> ?C"
    proof (cases "j < k * 8")
      case False
      then obtain d where "j = k * 8 + d" by (metis le_add_diff_inverse not_less)
      then show ?thesis by (auto simp: bit_drop_bit_eq)
    qed auto
  qed
  moreover have "?B \<inter> ?C = {}" by auto
  ultimately show ?thesis by (simp add: card_Un_disjoint card_image)
qed

lemma count_one_bits_word_ones:
  assumes "pop_table_ok table"
  shows "count_one_bits_word table w acc = Some (acc + ones w)"
proof -
  have "succeeds (for_loop 0 8 (\<lambda>j (w, acc). do { n \<leftarrow> array_get table (unat (ucast (w AND 255) :: u1)); Some (drop_bit 8 w, acc + n) }) (w, acc))
      (\<lambda>s. s = (drop_bit (8 * 8) w, acc + card {j. j < 8 * 8 \<and> bit w j}))"
  proof (rule for_loop_rule [where I = "\<lambda>k s. s = (drop_bit (k * 8) w, acc + card {j. j < k * 8 \<and> bit w j})"])
    fix k s assume "s = (drop_bit (k * 8) w, acc + card {j. j < k * 8 \<and> bit w j})"
    then show "succeeds (case s of (w, acc) \<Rightarrow> do { n \<leftarrow> array_get table (unat (ucast (w AND 255) :: u1)); Some (drop_bit 8 w, acc + n) })
        (\<lambda>s. s = (drop_bit (Suc k * 8) w, acc + card {j. j < Suc k * 8 \<and> bit w j}))"
      using card_next_byte [of k w] by (simp add: table_byte [OF assms] add.commute)
  qed simp_all
  moreover have "card {j. j < 8 * 8 \<and> bit w j} = ones w"
    unfolding ones_def by (rule arg_cong [where f = card]) (auto dest: bit_imp_le_length)
  ultimately show ?thesis by (auto simp: count_one_bits_word_def succeeds_iff)
qed

lemma card_next_word:
  assumes "k < length m"
  shows "card (raw_bits (take (Suc k) m)) = card (raw_bits (take k m)) + ones (m ! k)"
proof -
  have "raw_bits (take (Suc k) m) = raw_bits (take k m) \<union> (\<lambda>n. k * 64 + n) ` {n. bit (m ! k) n}"
  proof (rule set_eqI)
    fix i
    have "n < 64" if "bit (m ! k) n" for n using bit_imp_le_length [OF that] by simp
    then have "i \<in> (\<lambda>n. k * 64 + n) ` {n. bit (m ! k) n} \<longleftrightarrow> i div 64 = k \<and> bit (m ! k) (i mod 64)"
      by (auto simp: image_iff intro!: exI [of _ "i mod 64"])
    then show "i \<in> raw_bits (take (Suc k) m) \<longleftrightarrow> i \<in> raw_bits (take k m) \<union> (\<lambda>n. k * 64 + n) ` {n. bit (m ! k) n}"
      using assms by (auto simp: raw_bits_def less_Suc_eq)
  qed
  moreover have "raw_bits (take k m) \<inter> (\<lambda>n. k * 64 + n) ` {n. bit (m ! k) n} = {}"
    using raw_bits_bound [of _ "take k m"] assms by fastforce
  moreover have "finite (raw_bits (take k m))"
    by (rule finite_subset [of _ "{..<length (take k m) * 64}"]) (use raw_bits_bound [of _ "take k m"] in auto)
  ultimately show ?thesis by (simp add: card_Un_disjoint card_image ones_def)
qed

lemma raw_bits_empty: "raw_bits [] = {}"
  by (simp add: raw_bits_def)

lemma count_one_bits_card:
  assumes "bm_wf bm" "\<And>t. table = Some t \<Longrightarrow> pop_table_ok t"
  shows "count_one_bits table bm = Some (card (raw_bits (bm_map bm)))"
proof -
  obtain t where t: "init_pop_count_table table = Some t" "pop_table_ok t"
    using init_pop_count_table_ok [OF assms(2)] by (rule succeedsE)
  have "succeeds (for_loop 0 (length (bm_map bm)) (\<lambda>i acc. do { w \<leftarrow> array_get (bm_map bm) i; count_one_bits_word t w acc }) 0)
      (\<lambda>acc. acc = card (raw_bits (take (length (bm_map bm)) (bm_map bm))))"
    by (rule for_loop_rule [where I = "\<lambda>k acc. acc = card (raw_bits (take k (bm_map bm)))"])
      (auto simp: vcg count_one_bits_word_ones [OF t(2)] card_next_word raw_bits_empty)
  then show ?thesis using assms(1) t by (auto simp: count_one_bits_def succeeds_iff)
qed

section \<open>Properties\<close>

text \<open>
  C21: on well-formed bitmaps of the same size, \<^verbatim>\<open>set_union\<close>, \<^verbatim>\<open>set_difference\<close>,
  \<^verbatim>\<open>set_intersection\<close> and \<^verbatim>\<open>set_from\<close> compute union, difference, intersection and copy of the bit sets
  and keep the size; the \<^verbatim>\<open>_with_result\<close> variants compute the same and, when no bit is set beyond
  the size, return whether the set has changed.
\<close>

theorem set_operations_spec:
  assumes "bm_wf bm" "bm_wf other" "bm_size other = bm_size bm"
  shows "succeeds (bm_set_union bm other) (has_bits bm (bits bm \<union> bits other))
    \<and> succeeds (bm_set_difference bm other) (has_bits bm (bits bm - bits other))
    \<and> succeeds (bm_set_intersection bm other) (has_bits bm (bits bm \<inter> bits other))
    \<and> succeeds (bm_set_from bm other) (has_bits bm (bits other))
    \<and> (bm_clean bm \<longrightarrow> bm_clean other \<longrightarrow>
        succeeds (bm_set_union_with_result bm other)
          (\<lambda>(ch, bm'). has_bits bm (bits bm \<union> bits other) bm' \<and> ch = (bits bm' \<noteq> bits bm))
      \<and> succeeds (bm_set_difference_with_result bm other)
          (\<lambda>(ch, bm'). has_bits bm (bits bm - bits other) bm' \<and> ch = (bits bm' \<noteq> bits bm))
      \<and> succeeds (bm_set_intersection_with_result bm other)
          (\<lambda>(ch, bm'). has_bits bm (bits bm \<inter> bits other) bm' \<and> ch = (bits bm' \<noteq> bits bm)))"
  using set_op_has_bits [OF assms] set_from_has_bits [OF assms] set_op_with_result [OF assms] by blast

theorem set_operations_spec_witness:
  "succeeds (bm_set_union_with_result \<lparr>bm_map = [9, 1], bm_size = 65\<rparr> \<lparr>bm_map = [9, 1], bm_size = 65\<rparr>)
    (\<lambda>(ch, bm'). has_bits \<lparr>bm_map = [9, 1], bm_size = 65\<rparr> (bits \<lparr>bm_map = [9, 1], bm_size = 65\<rparr>) bm' \<and> \<not> ch)"
  using set_operations_spec [of "\<lparr>bm_map = [9, 1], bm_size = 65\<rparr>" "\<lparr>bm_map = [9, 1], bm_size = 65\<rparr>"] witness_clean
  by (auto simp: bm_wf_def has_bits_def succeeds_iff)

text \<open>
  C35: on well-formed bitmaps of the same size without bits beyond the size, \<^verbatim>\<open>contains\<close>,
  \<^verbatim>\<open>intersects\<close> and \<^verbatim>\<open>is_same\<close> decide inclusion, overlap and equality of the bit sets, and
  \<^verbatim>\<open>count_one_bits\<close> counts the bits, whether its table is already there or built on the way.
\<close>

theorem set_tests_spec:
  assumes "bm_wf bm" "bm_wf other" "bm_size other = bm_size bm" "bm_clean bm" "bm_clean other"
    and "table = None \<or> init_pop_count_table None = table"
  shows "bm_contains bm other = Some (bits other \<subseteq> bits bm)
    \<and> bm_intersects bm other = Some (bits bm \<inter> bits other \<noteq> {})
    \<and> bm_is_same bm other = Some (bits bm = bits other)
    \<and> count_one_bits table bm = Some (card (bits bm))"
proof -
  have len: "length (bm_map other) = length (bm_map bm)" by (rule same_size_words [OF assms(1-3)])
  have same_map: "bm_map bm = bm_map other \<longleftrightarrow> bits bm = bits other"
    using raw_bits_inj [OF len [symmetric]] clean_raw_bits [OF assms(4)] clean_raw_bits [OF assms(5)] by auto
  have "pop_table_ok t" if "table = Some t" for t
    using init_pop_count_table_ok [of None] that assms(6) by (auto simp: succeeds_iff)
  then show ?thesis
    using contains_raw [OF assms(1) len] intersects_raw [OF assms(1) len] is_same_raw [OF assms(1) len]
      count_one_bits_card [OF assms(1), of table] same_map
    by (simp add: clean_raw_bits assms(4,5))
qed

theorem set_tests_spec_witness:
  "bm_contains \<lparr>bm_map = [9, 1], bm_size = 65\<rparr> \<lparr>bm_map = [9, 1], bm_size = 65\<rparr> = Some True
   \<and> count_one_bits None \<lparr>bm_map = [9, 1], bm_size = 65\<rparr> = Some (card (bits \<lparr>bm_map = [9, 1], bm_size = 65\<rparr>))"
  using set_tests_spec [of "\<lparr>bm_map = [9, 1], bm_size = 65\<rparr>" "\<lparr>bm_map = [9, 1], bm_size = 65\<rparr>" None] witness_clean
  by (simp add: bm_wf_def)

text \<open>
  The tests \<^verbatim>\<open>is_full\<close> and \<^verbatim>\<open>is_empty\<close> decide, on every well-formed bitmap and whatever its last
  word holds beyond the size, whether all bits below the size are set, or none is.
\<close>

lemma full_empty_spec:
  assumes "bm_wf bm"
  shows "bm_is_full bm = Some (bits bm = {..<bm_size bm}) \<and> bm_is_empty bm = Some (bits bm = {})"
  using is_full_bits [OF assms] is_empty_bits [OF assms] by blast

lemma full_empty_spec_example:
  "bm_is_full \<lparr>bm_map = [- 1, 7], bm_size = 66\<rparr> = Some (bits \<lparr>bm_map = [- 1, 7], bm_size = 66\<rparr> = {..<66})"
  using full_empty_spec [of "\<lparr>bm_map = [- 1, 7], bm_size = 66\<rparr>"] by (simp add: bm_wf_def)

end
