(* ===== verification/Bit_Map_Scan.thy ===== *)
theory Bit_Map_Scan
  imports Bit_Map
begin

text \<open>
  Searching and iterating (\<^verbatim>\<open>utilities/bitMap.inline.hpp\<close> and \<^verbatim>\<open>bitMap.cpp\<close>): the next one or zero bit of a
  range, and \<^verbatim>\<open>iterate\<close>, whose closure may modify the bitmap it is iterated over.
\<close>

section \<open>Searching\<close>

text \<open>The loops \<^verbatim>\<open>for (; !(res & 1); res_offset++) res = res >> 1\<close> and \<^verbatim>\<open>for (; res & 1; res_offset++) ...\<close>.\<close>

partial_function (option) find_one :: "uintptr \<Rightarrow> nat \<Rightarrow> nat option" where
  "find_one res res_offset =
     (if res AND 1 = 0 then find_one (drop_bit 1 res) (res_offset + 1) else Some res_offset)"

partial_function (option) find_zero :: "uintptr \<Rightarrow> nat \<Rightarrow> nat option" where
  "find_zero res res_offset =
     (if res AND 1 \<noteq> 0 then find_zero (drop_bit 1 res) (res_offset + 1) else Some res_offset)"

definition get_next_one_offset_inline :: "bitmap \<Rightarrow> nat \<Rightarrow> nat \<Rightarrow> nat option" where
  "get_next_one_offset_inline bm l_offset r_offset =
     (if l_offset = r_offset then Some l_offset
      else let index = word_index l_offset; r_index = word_index (r_offset - 1) + 1;
               pos = bit_in_word l_offset
           in do {
             w \<leftarrow> bm_word bm index;
             let res = drop_bit pos w;
             if res \<noteq> 0
             then do { res_offset \<leftarrow> find_one res l_offset; Some (min res_offset r_offset) }
             else do {
               r \<leftarrow> for_return (index + 1) r_index (\<lambda>index _. do {
                 res \<leftarrow> bm_word bm index;
                 if res \<noteq> 0
                 then do { res_offset \<leftarrow> find_one res (bit_index index); Some (Inl (min res_offset r_offset)) }
                 else Some (Inr ())
               }) ();
               Some (case r of Inl res_offset \<Rightarrow> res_offset | Inr _ \<Rightarrow> r_offset)
             }
           })"

definition get_next_zero_offset_inline :: "bitmap \<Rightarrow> nat \<Rightarrow> nat \<Rightarrow> nat option" where
  "get_next_zero_offset_inline bm l_offset r_offset =
     (if l_offset = r_offset then Some l_offset
      else let index = word_index l_offset; r_index = word_index (r_offset - 1) + 1;
               pos = l_offset AND (BitsPerWord - 1)
           in do {
             w \<leftarrow> bm_word bm index;
             let res = drop_bit pos w OR left_n_bits pos;
             if res \<noteq> - 1
             then do { res_offset \<leftarrow> find_zero res l_offset; Some (min res_offset r_offset) }
             else do {
               r \<leftarrow> for_return (index + 1) r_index (\<lambda>index _. do {
                 res \<leftarrow> bm_word bm index;
                 if res \<noteq> - 1
                 then do {
                   res_offset \<leftarrow> find_zero res (push_bit LogBitsPerWord index);
                   Some (Inl (min res_offset r_offset))
                 }
                 else Some (Inr ())
               }) ();
               Some (case r of Inl res_offset \<Rightarrow> res_offset | Inr _ \<Rightarrow> r_offset)
             }
           })"

definition get_next_one_offset_inline_aligned_right :: "bitmap \<Rightarrow> nat \<Rightarrow> nat \<Rightarrow> nat option" where
  "get_next_one_offset_inline_aligned_right bm l_offset r_offset =
     (if l_offset = r_offset then Some l_offset
      else let index = word_index l_offset; r_index = word_index r_offset
           in do {
             w \<leftarrow> bm_word bm index;
             let res = drop_bit (bit_in_word l_offset) w;
             if res \<noteq> 0
             then find_one res l_offset
             else do {
               r \<leftarrow> for_return (index + 1) r_index (\<lambda>index _. do {
                 res \<leftarrow> bm_word bm index;
                 if res \<noteq> 0
                 then do { res_offset \<leftarrow> find_one res (bit_index index); Some (Inl res_offset) }
                 else Some (Inr ())
               }) ();
               Some (case r of Inl res_offset \<Rightarrow> res_offset | Inr _ \<Rightarrow> r_offset)
             }
           })"

definition get_next_one_offset :: "bitmap \<Rightarrow> nat \<Rightarrow> nat option" where
  "get_next_one_offset bm offset = get_next_one_offset_inline bm offset (bm_size bm)"

definition get_next_zero_offset :: "bitmap \<Rightarrow> nat \<Rightarrow> nat option" where
  "get_next_zero_offset bm offset = get_next_zero_offset_inline bm offset (bm_size bm)"

section \<open>Iterating\<close>

text \<open>
  A closure takes the offset and the state it works on, which includes the bitmap; it returns
  whether to go on and the new state.
\<close>

type_synonym 's bit_closure = "nat \<Rightarrow> 's \<times> bitmap \<Rightarrow> (bool \<times> ('s \<times> bitmap)) option"

function iterate_word ::
    "'s bit_closure \<Rightarrow> nat \<Rightarrow> nat \<Rightarrow> nat \<Rightarrow> uintptr \<Rightarrow> 's \<times> bitmap \<Rightarrow> (bool \<times> ('s \<times> bitmap)) option" where
  "iterate_word do_bit index rightOffset offset rest s =
     (if offset < rightOffset \<and> rest \<noteq> 0
      then if rest AND 1 \<noteq> 0
           then do {
             (ok, s') \<leftarrow> do_bit offset s;
             if \<not> ok then Some (False, s')
             else do {
               w \<leftarrow> bm_word (snd s') index;
               let rest = drop_bit (offset AND (BitsPerWord - 1)) w;
               iterate_word do_bit index rightOffset (offset + 1) (drop_bit 1 rest) s'
             }
           }
           else iterate_word do_bit index rightOffset (offset + 1) (drop_bit 1 rest) s
      else Some (True, s))"
  by pat_completeness auto
termination
  by (relation "measure (\<lambda>(do_bit, index, r, offset, rest, s). r - offset)") auto

function iterate_words ::
    "'s bit_closure \<Rightarrow> nat \<Rightarrow> nat \<Rightarrow> nat \<Rightarrow> nat \<Rightarrow> 's \<times> bitmap \<Rightarrow> (bool \<times> ('s \<times> bitmap)) option" where
  "iterate_words do_bit endIndex rightOffset index offset s =
     (if offset < rightOffset \<and> index < endIndex
      then do {
        w \<leftarrow> bm_word (snd s) index;
        let rest = drop_bit (offset AND (BitsPerWord - 1)) w;
        (ok, s') \<leftarrow> iterate_word do_bit index rightOffset offset rest s;
        if ok then iterate_words do_bit endIndex rightOffset (index + 1) (push_bit LogBitsPerWord (index + 1)) s'
        else Some (False, s')
      }
      else Some (True, s))"
  by pat_completeness auto
termination
  by (relation "measure (\<lambda>(do_bit, endIndex, r, index, offset, s). endIndex - index)") auto

definition bm_iterate :: "'s bit_closure \<Rightarrow> nat \<Rightarrow> nat \<Rightarrow> 's \<times> bitmap \<Rightarrow> (bool \<times> ('s \<times> bitmap)) option" where
  "bm_iterate do_bit leftOffset rightOffset s =
     (let startIndex = word_index leftOffset;
          endIndex = min (word_index rightOffset + 1) (size_in_words (snd s))
      in iterate_words do_bit endIndex rightOffset startIndex leftOffset s)"

declare iterate_word.simps [simp del] iterate_words.simps [simp del]

text \<open>The reference: look at one bit after the other, in the bitmap as it is at that moment.\<close>

function iterate_bits :: "'s bit_closure \<Rightarrow> nat \<Rightarrow> nat \<Rightarrow> 's \<times> bitmap \<Rightarrow> (bool \<times> ('s \<times> bitmap)) option" where
  "iterate_bits do_bit i n s =
     (if i < n
      then do {
        b \<leftarrow> bm_at (snd s) i;
        if b then do {
          (ok, s') \<leftarrow> do_bit i s;
          if ok then iterate_bits do_bit (i + 1) n s' else Some (False, s')
        }
        else iterate_bits do_bit (i + 1) n s
      }
      else Some (True, s))"
  by pat_completeness auto
termination
  by (relation "measure (\<lambda>(do_bit, i, n, s). n - i)") auto

declare iterate_bits.simps [simp del]

section \<open>The searches find the next bit\<close>

text \<open>\<open>off\<close> is the first offset of the range at which \<open>P\<close> holds, or its end.\<close>

definition next_offset :: "(nat \<Rightarrow> bool) \<Rightarrow> nat \<Rightarrow> nat \<Rightarrow> nat \<Rightarrow> bool" where
  "next_offset P l r off \<longleftrightarrow> l \<le> off \<and> off \<le> r \<and> (\<forall>i. l \<le> i \<longrightarrow> i < off \<longrightarrow> \<not> P i) \<and> (off < r \<longrightarrow> P off)"

lemma word_pos: "i AND (BitsPerWord - Suc 0) = i mod 64"
  using bit_in_word_mod [of i] unfolding bit_in_word_def by simp

lemma word_base: "push_bit LogBitsPerWord k = k * 64" for k :: nat
  using bit_index_mult [of k] unfolding bit_index_def .

lemma shift_neq_0: "w \<noteq> 0 \<Longrightarrow> \<not> bit w 0 \<Longrightarrow> drop_bit 1 w \<noteq> 0" for w :: uintptr
proof -
  assume "w \<noteq> 0" "\<not> bit w 0"
  then obtain n where "bit w n" "n \<noteq> 0" by (metis word_neq_0_bit)
  then have "bit (drop_bit 1 w) (n - 1)" by (simp add: bit_drop_bit_eq)
  then show ?thesis by auto
qed

lemma find_one_first:
  "w \<noteq> 0 \<Longrightarrow> \<exists>k. find_one w off = Some (off + k) \<and> bit w k \<and> (\<forall>j<k. \<not> bit w j)"
proof (induction "unat w" arbitrary: w off rule: less_induct)
  case less
  show ?case
  proof (cases "bit w 0")
    case True
    then have "find_one w off = Some off" by (subst find_one.simps) (simp add: word_and_1_eq_0)
    then show ?thesis using True by (intro exI [of _ 0]) simp
  next
    case False
    then have s: "find_one w off = find_one (drop_bit 1 w) (off + 1)"
      by (subst find_one.simps) (simp add: word_and_1_eq_0)
    from less.hyps [OF unat_shift [OF less.prems] shift_neq_0 [OF less.prems False], of "off + 1"]
    obtain k where k: "find_one (drop_bit 1 w) (off + 1) = Some (off + 1 + k)" "bit (drop_bit 1 w) k"
      "\<forall>j<k. \<not> bit (drop_bit 1 w) j" by blast
    have "\<not> bit w j" if "j < Suc k" for j
      using that k(3) False by (cases j) (simp_all add: bit_drop_bit_eq)
    then show ?thesis using s k(1,2) by (intro exI [of _ "Suc k"]) (simp add: bit_drop_bit_eq)
  qed
qed

lemma find_zero_first:
  "\<exists>k. find_zero w off = Some (off + k) \<and> \<not> bit w k \<and> (\<forall>j<k. bit w j)"
proof (induction "unat w" arbitrary: w off rule: less_induct)
  case less
  show ?case
  proof (cases "bit w 0")
    case False
    then have "find_zero w off = Some off" by (subst find_zero.simps) (simp add: word_and_1_eq_0)
    then show ?thesis using False by (intro exI [of _ 0]) simp
  next
    case True
    then have s: "find_zero w off = find_zero (drop_bit 1 w) (off + 1)"
      by (subst find_zero.simps) (simp add: word_and_1_eq_0)
    from True have "w \<noteq> 0" by auto
    from less.hyps [OF unat_shift [OF this], of "off + 1"]
    obtain k where k: "find_zero (drop_bit 1 w) (off + 1) = Some (off + 1 + k)" "\<not> bit (drop_bit 1 w) k"
      "\<forall>j<k. bit (drop_bit 1 w) j" by blast
    have "bit w j" if "j < Suc k" for j
      using that k(3) True by (cases j) (simp_all add: bit_drop_bit_eq)
    then show ?thesis using s k(1,2) by (intro exI [of _ "Suc k"]) (simp add: bit_drop_bit_eq)
  qed
qed

text \<open>What the body of the loop over words reports about word \<open>k\<close>.\<close>

definition word_report :: "(nat \<Rightarrow> bool) \<Rightarrow> nat \<Rightarrow> nat \<Rightarrow> nat + unit \<Rightarrow> bool" where
  "word_report P k r x \<longleftrightarrow> (case x of
     Inl off \<Rightarrow> \<exists>q. q div 64 = k \<and> P q \<and> (\<forall>i. k * 64 \<le> i \<longrightarrow> i < q \<longrightarrow> \<not> P i) \<and> off = min q r
   | Inr _ \<Rightarrow> \<forall>i. i div 64 = k \<longrightarrow> \<not> P i)"

text \<open>The loop over whole words, for a property of bits that each word decides.\<close>

lemma scan_words:
  assumes "\<And>k. i0 \<le> k \<Longrightarrow> k < n \<Longrightarrow> succeeds (body k ())
(word_report P k r)"
    and "\<And>i. l \<le> i \<Longrightarrow> i < i0 * 64 \<Longrightarrow> \<not> P i" "l \<le> i0 * 64" "i0 \<le> n" "r \<le> n * 64" "l \<le> r"
  shows "succeeds (for_return i0 n body ())
    (\<lambda>x. next_offset P l r (case x of Inl off \<Rightarrow> off | Inr _ \<Rightarrow> r))"
proof -
  have "succeeds (for_return i0 n body ())
      (\<lambda>x. case x of Inl off \<Rightarrow> next_offset P l r off | Inr _ \<Rightarrow> \<forall>i. l \<le> i \<longrightarrow> i < n * 64 \<longrightarrow> \<not> P i)"
  proof (rule for_return_rule [where I = "\<lambda>k _. \<forall>i. l \<le> i \<longrightarrow> i < k * 64 \<longrightarrow> \<not> P i"])
    fix k :: nat and u :: unit
    assume k: "i0 \<le> k" "k < n" and none: "\<forall>i. l \<le> i \<longrightarrow> i < k * 64 \<longrightarrow> \<not> P i"
    have lk: "l \<le> k * 64" using k(1) assms(3) by linarith
    have div: "i div 64 = k" if "\<not> i < k * 64" "i < Suc k * 64" for i
      using that by (intro div_nat_eqI) auto
    show "succeeds (body k u) (\<lambda>x. case x of Inl off \<Rightarrow> next_offset P l r off
        | Inr _ \<Rightarrow> \<forall>i. l \<le> i \<longrightarrow> i < Suc k * 64 \<longrightarrow> \<not> P i)"
      unfolding unit_eq [of u]
    proof (rule succeeds_weaken [OF assms(1) [OF k]], split sum.splits, intro conjI allI impI)
      fix x :: "nat + unit" and off
      assume "word_report P k r x" and "x = Inl off"
      then obtain q where q: "q div 64 = k" "P q" "\<forall>i. k * 64 \<le> i \<longrightarrow> i < q \<longrightarrow> \<not> P i" "off = min q r" by (auto simp: word_report_def)
      have "k * 64 \<le> q" using q(1) by (simp add: div_64_iff)
      then show "next_offset P l r off"
        using q none lk assms(6) by (auto simp: next_offset_def min_def split: if_splits)
    next
      fix x :: "nat + unit" and v i
      assume "word_report P k r x" "x = Inr v" "l \<le> i" "i < Suc k * 64"
      then show "\<not> P i" using none div [of i] by (auto simp: word_report_def)
    qed
  qed (use assms in auto)
  then show ?thesis
    by (rule succeeds_weaken) (use assms(5,6) in \<open>auto simp: next_offset_def split: sum.splits\<close>)
qed

lemma word_has_one:
  assumes "k < length m" "m ! k \<noteq> 0"
  shows "\<exists>q. find_one (m ! k) (k * 64) = Some q \<and> q div 64 = k \<and> q \<in> raw_bits m
    \<and> (\<forall>i. k * 64 \<le> i \<longrightarrow> i < q \<longrightarrow> i \<notin> raw_bits m)"
proof -
  obtain j where j: "find_one (m ! k) (k * 64) = Some (k * 64 + j)" "bit (m ! k) j" "\<forall>i<j. \<not> bit (m ! k) i"
    using find_one_first [OF assms(2)] by blast
  have "j < 64" using bit_imp_le_length [OF j(2)] by simp
  then have d: "(k * 64 + j) div 64 = k" "(k * 64 + j) mod 64 = j" by simp_all
  have "i \<notin> raw_bits m" if "k * 64 \<le> i" "i < k * 64 + j" for i
  proof -
    have "i div 64 = k" using that \<open>j < 64\<close> by (intro div_nat_eqI) auto
    moreover from this have "i mod 64 < j" using that div_mult_mod_eq [of i 64] by linarith
    ultimately show ?thesis using j(3) assms(1) by (simp add: in_raw_bits)
  qed
  then show ?thesis using j(1,2) d assms(1) by (intro exI [of _ "k * 64 + j"]) (simp add: raw_bits_def)
qed

lemma word_has_zero:
  assumes "k < length m" "m ! k \<noteq> - 1"
  shows "\<exists>q. find_zero (m ! k) (k * 64) = Some q \<and> q div 64 = k \<and> q \<notin> raw_bits m
    \<and> (\<forall>i. k * 64 \<le> i \<longrightarrow> i < q \<longrightarrow> i \<in> raw_bits m)"
proof -
  obtain j where j: "find_zero (m ! k) (k * 64) = Some (k * 64 + j)" "\<not> bit (m ! k) j" "\<forall>i<j. bit (m ! k) i"
    using find_zero_first by blast
  have "j < 64"
  proof (rule ccontr)
    assume "\<not> j < 64"
    then have "m ! k = - 1" using j(3) by (auto intro: bit_word_eqI)
    with assms(2) show False by simp
  qed
  then have d: "(k * 64 + j) div 64 = k" "(k * 64 + j) mod 64 = j" by simp_all
  have "i \<in> raw_bits m" if "k * 64 \<le> i" "i < k * 64 + j" for i
  proof -
    have "i div 64 = k" using that \<open>j < 64\<close> by (intro div_nat_eqI) auto
    moreover from this have "i mod 64 < j" using that div_mult_mod_eq [of i 64] by linarith
    ultimately show ?thesis using j(3) assms(1) by (simp add: in_raw_bits)
  qed
  then show ?thesis using j(1,2) d assms(1) by (intro exI [of _ "k * 64 + j"]) (simp add: raw_bits_def)
qed

lemma no_ones: "m ! k = 0 \<Longrightarrow> i div 64 = k \<Longrightarrow> i \<notin> raw_bits m"
  by (simp add: raw_bits_def)

lemma all_ones: "k < length m \<Longrightarrow> m ! k = - 1 \<Longrightarrow> i div 64 = k \<Longrightarrow> i \<in> raw_bits m"
  by (simp add: raw_bits_def)

text \<open>The first, partial word of a search that starts at \<open>l\<close>.\<close>

lemma partial_word_bits:
  assumes "l div 64 < length m" "l \<le> i" "i < Suc (l div 64) * 64"
  shows "i \<in> raw_bits m \<longleftrightarrow> bit (drop_bit (l mod 64) (m ! (l div 64))) (i - l)"
proof -
  have d: "i div 64 = l div 64"
    using assms(2,3) div_mult_mod_eq [of l 64] by (intro div_nat_eqI) auto
  have "l mod 64 + (i - l) = i mod 64"
    using assms(2) d div_mult_mod_eq [of l 64] div_mult_mod_eq [of i 64] by linarith
  then show ?thesis using assms(1) d by (simp add: raw_bits_def bit_drop_bit_eq)
qed

lemma next_offset_min: "l \<le> q \<Longrightarrow> l \<le> r \<Longrightarrow> P q \<Longrightarrow> (\<And>i. l \<le> i \<Longrightarrow> i < q \<Longrightarrow> \<not> P i) \<Longrightarrow> next_offset P l r (min q r)"
  by (auto simp: next_offset_def min_def)

lemma first_word_one:
  assumes "l div 64 < length m" "drop_bit (l mod 64) (m ! (l div 64)) \<noteq> 0"
  shows "\<exists>q. find_one (drop_bit (l mod 64) (m ! (l div 64))) l = Some q \<and> l \<le> q
    \<and> q < Suc (l div 64) * 64 \<and> q \<in> raw_bits m \<and> (\<forall>i. l \<le> i \<longrightarrow> i < q \<longrightarrow> i \<notin> raw_bits m)"
proof -
  let ?w = "drop_bit (l mod 64) (m ! (l div 64))"
  obtain j where j: "find_one ?w l = Some (l + j)" "bit ?w j" "\<forall>i<j. \<not> bit ?w i"
    using find_one_first [OF assms(2)] by blast
  have "l mod 64 + j < 64" using j(2) bit_imp_le_length [of "m ! (l div 64)" "l mod 64 + j"] by (simp add: bit_drop_bit_eq)
  then have lt: "l + j < Suc (l div 64) * 64" using div_mult_mod_eq [of l 64] unfolding mult_Suc by linarith
  have "i \<notin> raw_bits m" if "l \<le> i" "i < l + j" for i
    using partial_word_bits [OF assms(1) that(1)] that lt j(3) by auto
  moreover have "l + j \<in> raw_bits m" using partial_word_bits [OF assms(1), of "l + j"] lt j(2) by simp
  ultimately show ?thesis using j(1) lt by (intro exI [of _ "l + j"]) simp
qed

lemma first_word_no_one:
  assumes "drop_bit (l mod 64) (m ! (l div 64)) = 0" "l div 64 < length m" "l \<le> i" "i < Suc (l div 64) * 64"
  shows "i \<notin> raw_bits m"
  using partial_word_bits [OF assms(2-4)] by (simp add: assms(1))

lemma first_word_zero:
  assumes "l div 64 < length m" "drop_bit (l mod 64) (m ! (l div 64)) OR left_n_bits (l mod 64) \<noteq> - 1"
  shows "\<exists>q. find_zero (drop_bit (l mod 64) (m ! (l div 64)) OR left_n_bits (l mod 64)) l = Some q \<and> l \<le> q
    \<and> q \<notin> raw_bits m \<and> (\<forall>i. l \<le> i \<longrightarrow> i < q \<longrightarrow> i \<in> raw_bits m)"
proof -
  let ?v = "drop_bit (l mod 64) (m ! (l div 64))"
  let ?w = "?v OR left_n_bits (l mod 64)"
  obtain j where j: "find_zero ?w l = Some (l + j)" "\<not> bit ?w j" "\<forall>i<j. bit ?w i"
    using find_zero_first by blast
  have "j < 64"
  proof (rule ccontr)
    assume "\<not> j < 64"
    then have "?w = - 1" using j(3) by (auto intro: bit_word_eqI)
    with assms(2) show False by simp
  qed
  then have jl: "l mod 64 + j < 64" using j(2) by (auto simp: bit_or_iff bit_left_n_bits)
  then have v: "bit ?w i = bit ?v i" if "i \<le> j" for i
    using that by (simp add: bit_or_iff bit_left_n_bits)
  have lt: "l + j < Suc (l div 64) * 64" using jl div_mult_mod_eq [of l 64] unfolding mult_Suc by linarith
  have "i \<in> raw_bits m" if "l \<le> i" "i < l + j" for i
    using partial_word_bits [OF assms(1) that(1)] that lt j(3) v [of "i - l"] by auto
  moreover have "l + j \<notin> raw_bits m" using partial_word_bits [OF assms(1), of "l + j"] lt j(2) v by simp
  ultimately show ?thesis using j(1) lt by (intro exI [of _ "l + j"]) simp
qed

lemma first_word_no_zero:
  assumes "drop_bit (l mod 64) (m ! (l div 64)) OR left_n_bits (l mod 64) = - 1" "l div 64 < length m"
    "l \<le> i" "i < Suc (l div 64) * 64"
  shows "\<not> i \<notin> raw_bits m"
proof -
  have "l mod 64 + (i - l) < 64" using assms(3,4) div_mult_mod_eq [of l 64] unfolding mult_Suc by linarith
  moreover have "bit (drop_bit (l mod 64) (m ! (l div 64)) OR left_n_bits (l mod 64)) (i - l)"
    unfolding assms(1) using calculation by simp
  ultimately have "bit (drop_bit (l mod 64) (m ! (l div 64))) (i - l)" by (simp add: bit_or_iff bit_left_n_bits)
  then show ?thesis using partial_word_bits [OF assms(2-4)] by simp
qed

lemma search_words:
  assumes "bm_wf bm" "l < r" "r \<le> bm_size bm"
  shows "l div 64 < length (bm_map bm)" "l \<le> Suc (l div 64) * 64" "Suc (l div 64) \<le> Suc ((r - 1) div 64)"
    "r \<le> Suc ((r - 1) div 64) * 64" "Suc ((r - 1) div 64) \<le> length (bm_map bm)"
proof -
  show "Suc (l div 64) \<le> Suc ((r - 1) div 64)" using assms(2) by (auto intro: div_le_mono)
qed (use assms in \<open>unfold bm_wf_def mult_Suc, linarith+\<close>)

lemma report_one:
  assumes "k < length (bm_map bm)"
  shows "succeeds (do { res \<leftarrow> bm_word bm k;
      if res \<noteq> 0 then do { off \<leftarrow> find_one res (k * 64); Some (Inl (min off r)) } else Some (Inr ()) })
    (word_report (\<lambda>i. i \<in> raw_bits (bm_map bm)) k r)"
  using word_has_one [OF assms] no_ones [of "bm_map bm" k] assms
  by (cases "bm_map bm ! k = 0") (auto simp: vcg word_report_def)

lemma report_zero:
  assumes "k < length (bm_map bm)"
  shows "succeeds (do { res \<leftarrow> bm_word bm k;
      if res \<noteq> - 1 then do { off \<leftarrow> find_zero res (k * 64); Some (Inl (min off r)) } else Some (Inr ()) })
    (word_report (\<lambda>i. i \<notin> raw_bits (bm_map bm)) k r)"
  using word_has_zero [OF assms] all_ones [OF assms] assms
  by (cases "bm_map bm ! k = - 1") (auto simp: vcg word_report_def)

lemma report_one_aligned:
  assumes "k < length (bm_map bm)" "k < r div 64"
  shows "succeeds (do { res \<leftarrow> bm_word bm k;
      if res \<noteq> 0 then do { off \<leftarrow> find_one res (k * 64); Some (Inl off) } else Some (Inr ()) })
    (word_report (\<lambda>i. i \<in> raw_bits (bm_map bm)) k r)"
proof -
  have "min q r = q" if "q div 64 = k" for q
    using that assms(2) by (metis div_le_mono leD linorder_linear min_def)
  then show ?thesis
    using word_has_one [OF assms(1)] no_ones [of "bm_map bm" k] assms(1)
    by (cases "bm_map bm ! k = 0") (auto simp: vcg word_report_def, metis)
qed

lemma next_one_spec:
  assumes "bm_wf bm" "l \<le> r" "r \<le> bm_size bm"
  shows "succeeds (get_next_one_offset_inline bm l r) (next_offset (\<lambda>i. i \<in> raw_bits (bm_map bm)) l r)"
proof (cases "l = r")
  case False
  let ?m = "bm_map bm" and ?res = "drop_bit (l mod 64) (bm_map bm ! (l div 64))"
  from False assms(2) have lr: "l < r" by simp
  note b = search_words [OF assms(1) lr assms(3)]
  show ?thesis
  proof (cases "?res = 0")
    case res: False
    then show ?thesis
      using first_word_one [OF b(1) res] False assms(2) b(1)
      by (auto simp: get_next_one_offset_inline_def vcg Let_def intro!: next_offset_min)
  next
    case res: True
    have "succeeds (for_return (Suc (l div 64)) (Suc ((r - 1) div 64)) (\<lambda>k _. do { w \<leftarrow> bm_word bm k;
        if w \<noteq> 0 then do { off \<leftarrow> find_one w (k * 64); Some (Inl (min off r)) } else Some (Inr ()) }) ())
      (\<lambda>x. next_offset (\<lambda>i. i \<in> raw_bits ?m) l r (case x of Inl off \<Rightarrow> off | Inr _ \<Rightarrow> r))"
      by (rule scan_words) (rule report_one first_word_no_one [OF res b(1)] b(2-4) assms(2); use b(5) in linarith)+
    then show ?thesis using False b(1) res by (simp add: get_next_one_offset_inline_def vcg Let_def cong: if_cong)
  qed
qed (simp add: get_next_one_offset_inline_def next_offset_def)

lemma next_zero_spec:
  assumes "bm_wf bm" "l \<le> r" "r \<le> bm_size bm"
  shows "succeeds (get_next_zero_offset_inline bm l r) (next_offset (\<lambda>i. i \<notin> raw_bits (bm_map bm)) l r)"
proof (cases "l = r")
  case False
  let ?m = "bm_map bm" and ?res = "drop_bit (l mod 64) (bm_map bm ! (l div 64)) OR left_n_bits (l mod 64)"
  from False assms(2) have lr: "l < r" by simp
  note b = search_words [OF assms(1) lr assms(3)]
  show ?thesis
  proof (cases "?res = - 1")
    case res: False
    then show ?thesis
      using first_word_zero [OF b(1) res] False assms(2) b(1)
      by (auto simp: get_next_zero_offset_inline_def vcg Let_def word_pos intro!: next_offset_min)
  next
    case res: True
    have "succeeds (for_return (Suc (l div 64)) (Suc ((r - 1) div 64)) (\<lambda>k _. do { w \<leftarrow> bm_word bm k;
        if w \<noteq> - 1 then do { off \<leftarrow> find_zero w (k * 64); Some (Inl (min off r)) } else Some (Inr ()) }) ())
      (\<lambda>x. next_offset (\<lambda>i. i \<notin> raw_bits ?m) l r (case x of Inl off \<Rightarrow> off | Inr _ \<Rightarrow> r))"
      by (rule scan_words) (rule report_zero first_word_no_zero [OF res b(1)] b(2-4) assms(2); use b(5) in linarith)+
    then show ?thesis using False b(1) res by (simp add: get_next_zero_offset_inline_def vcg Let_def word_pos word_base cong: if_cong)
  qed
qed (simp add: get_next_zero_offset_inline_def next_offset_def)

lemma next_one_aligned_spec:
  assumes "bm_wf bm" "l \<le> r" "r \<le> bm_size bm" "r mod 64 = 0"
  shows "succeeds (get_next_one_offset_inline_aligned_right bm l r) (next_offset (\<lambda>i. i \<in> raw_bits (bm_map bm)) l r)"
proof (cases "l = r")
  case False
  let ?m = "bm_map bm" and ?res = "drop_bit (l mod 64) (bm_map bm ! (l div 64))"
  from False assms(2) have lr: "l < r" by simp
  note b = search_words [OF assms(1) lr assms(3)]
  have r: "Suc ((r - 1) div 64) = r div 64" "r = r div 64 * 64"
    using lr assms(4) div_mult_mod_eq [of r 64] by linarith+
  show ?thesis
  proof (cases "?res = 0")
    case res: False
    obtain q where q: "find_one ?res l = Some q" "l \<le> q" "q < Suc (l div 64) * 64" "q \<in> raw_bits ?m"
      "\<forall>i. l \<le> i \<longrightarrow> i < q \<longrightarrow> i \<notin> raw_bits ?m"
      using first_word_one [OF b(1) res] by blast
    have "Suc (l div 64) * 64 \<le> r div 64 * 64" using b(3) r(1) by (metis mult_le_mono1)
    then have "q = min q r" using q(3) r(2) by linarith
    moreover have "next_offset (\<lambda>i. i \<in> raw_bits ?m) l r (min q r)"
      by (rule next_offset_min) (use q assms(2) in auto)
    ultimately show ?thesis
      using q(1) False res b(1) by (simp add: get_next_one_offset_inline_aligned_right_def vcg Let_def)
  next
    case res: True
    have "succeeds (for_return (Suc (l div 64)) (r div 64) (\<lambda>k _. do { w \<leftarrow> bm_word bm k;
        if w \<noteq> 0 then do { off \<leftarrow> find_one w (k * 64); Some (Inl off) } else Some (Inr ()) }) ())
      (\<lambda>x. next_offset (\<lambda>i. i \<in> raw_bits ?m) l r (case x of Inl off \<Rightarrow> off | Inr _ \<Rightarrow> r))"
      by (rule scan_words) (rule report_one_aligned first_word_no_one [OF res b(1)] b(2-4) [unfolded r(1)] assms(2); use b(5) r in linarith)+
    then show ?thesis using False b(1) res by (simp add: get_next_one_offset_inline_aligned_right_def vcg Let_def cong: if_cong)
  qed
qed (simp add: get_next_one_offset_inline_aligned_right_def next_offset_def)

section \<open>Iteration visits the bits in order\<close>

lemma iterate_bits_done [simp]: "n \<le> i \<Longrightarrow> iterate_bits do_bit i n s = Some (True, s)"
  by (simp add: iterate_bits.simps)

lemma iterate_bits_skip:
  assumes "i \<le> j" "\<And>k. i \<le> k \<Longrightarrow> k < j \<Longrightarrow> bm_at (snd s) k = Some False"
  shows "iterate_bits do_bit i n s = iterate_bits do_bit (if j < n then j else max i n) n s"
  using assms
proof (induction "j - i" arbitrary: i)
  case (Suc d)
  then have "i < j" "d = j - Suc i" by auto
  with Suc show ?case by (cases "i < n") (auto simp: iterate_bits.simps [of do_bit i] max_def)
qed (auto simp: max_def)

lemma iterate_bits_split:
  assumes "i \<le> m" "m \<le> n"
  shows "iterate_bits do_bit i n s = do {
    (ok, s') \<leftarrow> iterate_bits do_bit i m s;
    if ok then iterate_bits do_bit m n s' else Some (False, s')
  }"
  using assms
proof (induction "m - i" arbitrary: i s)
  case 0
  then show ?case by simp
next
  case (Suc d)
  then have lt: "i < m" "i < n" and IH: "iterate_bits do_bit (Suc i) n s = do {
      (ok, s') \<leftarrow> iterate_bits do_bit (Suc i) m s;
      if ok then iterate_bits do_bit m n s' else Some (False, s')
    }" for s by auto
  show ?case
    using lt by (cases "bm_at (snd s) i"; cases "do_bit i s")
      (auto simp: iterate_bits.simps [of do_bit i] IH)
qed

text \<open>A closure may change the bits but not the number of words of the bitmap.\<close>

definition keeps_words :: "'s bit_closure \<Rightarrow> bool" where
  "keeps_words do_bit \<longleftrightarrow> (\<forall>i s ok s'. do_bit i s = Some (ok, s') \<longrightarrow>
     length (bm_map (snd s')) = length (bm_map (snd s)))"

lemma bm_at_word:
  assumes "index < length (bm_map bm)" "index * 64 \<le> i" "i < Suc index * 64"
  shows "bm_at bm i = Some (bit (bm_map bm ! index) (i - index * 64))"
proof -
  have d: "i div 64 = index" using assms by (intro div_nat_eqI) auto
  then have "i mod 64 = i - index * 64" using div_mult_mod_eq [of i 64] by simp
  then show ?thesis using assms(1) d by (simp add: bm_at_def bm_word_def mem_simps word_and_bit_mask)
qed

lemma iterate_word_bits:
  assumes "keeps_words do_bit" "index < length (bm_map (snd s))" "index * 64 \<le> offset" "offset \<le> Suc index * 64"
    "rest = drop_bit (offset - index * 64) (bm_map (snd s) ! index)"
  shows "iterate_word do_bit index r offset rest s = iterate_bits do_bit offset (min r (Suc index * 64)) s"
  using assms
proof (induction do_bit index r offset rest s rule: iterate_word.induct)
  case (1 do_bit index r offset rest s)
  let ?w = "bm_map (snd s) ! index" and ?n = "min r (Suc index * 64)"
  have bit: "bit rest k = bit ?w (offset + k - index * 64)" for k
    using 1(5,7) by (simp add: bit_drop_bit_eq add.commute diff_add_assoc2)
  show ?case
  proof (cases "offset < r \<and> rest \<noteq> 0")
    case False
    have "bm_at (snd s) k = Some False" if "offset \<le> k" "k < ?n" for k
    proof -
      from False that have "rest = 0" by auto
      then have "\<not> bit ?w k'" if "offset - index * 64 \<le> k'" for k'
        using that bit [of "k' - (offset - index * 64)"] 1(5) by (simp add: algebra_simps)
      then show ?thesis using bm_at_word [OF 1(4), of k] that 1(5) by simp
    qed
    then have "iterate_bits do_bit offset ?n s = Some (True, s)"
      using iterate_bits_skip [of offset ?n s do_bit ?n] iterate_bits_done [of ?n offset do_bit s]
      by (cases "offset \<le> ?n") (auto simp: max_def)
    then show ?thesis using False by (simp add: iterate_word.simps)
  next
    case True
    have off: "offset < Suc index * 64"
    proof (rule ccontr)
      assume "\<not> ?thesis"
      then have "offset - index * 64 = 64" using 1(5,6) by simp
      then have "rest = 0" using 1(7) by (auto intro!: bit_word_eqI simp: bit_drop_bit_eq dest: bit_imp_le_length)
      with True show False by simp
    qed
    have at: "bm_at (snd s) offset = Some (bit rest 0)" using bm_at_word [OF 1(4,5) off] bit [of 0] by simp
    have "offset div 64 = index" using 1(5) off by (intro div_nat_eqI) auto
    then have pos: "offset AND (BitsPerWord - Suc 0) = offset - index * 64"
      using word_pos [of offset] div_mult_mod_eq [of offset 64] by simp
    have nxt: "drop_bit 1 (drop_bit (offset - index * 64) v) = drop_bit (Suc offset - index * 64) v" for v :: uintptr
      using 1(5) by (simp add: Suc_diff_le)
    have n: "offset < ?n" using True off by simp
    show ?thesis
    proof (cases "bit rest 0")
      case False
      then have "iterate_word do_bit index r offset rest s = iterate_word do_bit index r (offset + 1) (drop_bit 1 rest) s"
        using True by (simp add: iterate_word.simps [of do_bit index r offset] word_and_1_eq_0)
      also have "\<dots> = iterate_bits do_bit (offset + 1) ?n s"
        by (rule 1(2)) (use True False off 1(3-7) nxt in \<open>auto simp: word_and_1_eq_0\<close>)
      finally show ?thesis using n at False by (simp add: iterate_bits.simps [of do_bit offset])
    next
      case one: True
      show ?thesis
      proof (cases "do_bit offset s")
        case None
        then show ?thesis using True one n at
          by (simp add: iterate_word.simps [of do_bit index r offset] iterate_bits.simps [of do_bit offset] word_and_1_eq_0)
      next
        case (Some p)
        obtain ok s' where p: "p = (ok, s')" by (cases p)
        have len: "length (bm_map (snd s')) = length (bm_map (snd s))"
          using 1(3) Some p unfolding keeps_words_def by blast
        have IH: "iterate_word do_bit index r (offset + 1) (drop_bit 1 (drop_bit (offset - index * 64) (bm_map (snd s') ! index))) s'
            = iterate_bits do_bit (offset + 1) ?n s'" if ok
          by (rule 1(1) [OF True _ Some p [symmetric]])
            (use that True one off 1(3-6) len nxt in \<open>auto simp: word_and_1_eq_0 pos bm_word_def mem_simps\<close>)
        show ?thesis
          using True one n at Some p len 1(4) IH
          by (simp add: iterate_word.simps [of do_bit index r offset] iterate_bits.simps [of do_bit offset]
              word_and_1_eq_0 pos bm_word_def mem_simps Let_def)
      qed
    qed
  qed
qed

lemma iterate_bits_length:
  assumes "keeps_words do_bit" "iterate_bits do_bit i n s = Some (ok, s')"
  shows "length (bm_map (snd s')) = length (bm_map (snd s))"
  using assms
proof (induction do_bit i n s rule: iterate_bits.induct)
  case (1 do_bit i n s)
  have *: "do_bit i s = Some (ok, t) \<Longrightarrow> length (bm_map (snd t)) = length (bm_map (snd s))" for ok t
    using 1(3) unfolding keeps_words_def by blast
  show ?case
  proof (cases "i < n")
    case lt: True
    then obtain b where b: "bm_at (snd s) i = Some b" using 1(4) by (auto simp: iterate_bits.simps [of do_bit i])
    show ?thesis
    proof (cases b)
      case True
      then obtain ok2 t where t: "do_bit i s = Some (ok2, t)" "(if ok2 then iterate_bits do_bit (i + 1) n t else Some (False, t)) = Some (ok, s')"
        using 1(4) lt b by (auto simp: iterate_bits.simps [of do_bit i])
      show ?thesis using 1(1) [OF lt b True t(1) refl] t(2) 1(3) * [OF t(1)] by (cases ok2) auto
    next
      case False
      then show ?thesis using 1(2) [OF lt b False 1(3)] 1(4) lt b by (simp add: iterate_bits.simps [of do_bit i])
    qed
  qed (use 1(4) in simp)
qed

lemma iterate_words_bits:
  assumes "keeps_words do_bit" "index * 64 \<le> offset" "offset < Suc index * 64"
    "endIndex \<le> length (bm_map (snd s))" "r \<le> endIndex * 64"
  shows "iterate_words do_bit endIndex r index offset s = iterate_bits do_bit offset r s"
  using assms
proof (induction do_bit endIndex r index offset s rule: iterate_words.induct)
  case (1 do_bit endIndex r index offset s)
  show ?case
  proof (cases "offset < r \<and> index < endIndex")
    case False
    then have "r \<le> offset" using 1(3,6) by (auto simp: not_less)
    then show ?thesis by (simp add: iterate_words.simps)
  next
    case True
    let ?w = "bm_map (snd s) ! index" and ?n = "min r (Suc index * 64)"
    have i: "index < length (bm_map (snd s))" using True 1(5) by simp
    have "offset div 64 = index" using 1(3,4) by (intro div_nat_eqI) auto
    then have "offset mod 64 = offset - index * 64" using div_mult_mod_eq [of offset 64] by simp
    then have rest: "drop_bit (offset AND (BitsPerWord - Suc 0)) ?w = drop_bit (offset - index * 64) ?w"
      by (simp only: word_pos)
    have word: "iterate_word do_bit index r offset (drop_bit (offset - index * 64) ?w) s = iterate_bits do_bit offset ?n s"
      by (rule iterate_word_bits [OF 1(2) i 1(3)]) (use 1(4) in auto)
    have IH: "iterate_words do_bit endIndex r (index + 1) (push_bit LogBitsPerWord (index + 1)) s'
        = iterate_bits do_bit (Suc index * 64) r s'" if "iterate_bits do_bit offset ?n s = Some (True, s')" for s'
    proof -
      have "length (bm_map (snd s')) = length (bm_map (snd s))" by (rule iterate_bits_length [OF 1(2) that])
      then show ?thesis
        using 1(1) [OF True, of ?w "drop_bit (offset AND (BitsPerWord - 1)) ?w" "(True, s')" True s'] that word rest i 1(2,5,6)
        by (simp add: bm_word_def mem_simps word_base)
    qed
    have split: "iterate_bits do_bit offset r s = do {
        (ok, s') \<leftarrow> iterate_bits do_bit offset ?n s;
        if ok then iterate_bits do_bit (Suc index * 64) r s' else Some (False, s')
      }"
    proof (cases "Suc index * 64 \<le> r")
      case True
      then show ?thesis using iterate_bits_split [of offset "Suc index * 64" r do_bit s] 1(4) by (simp add: min_def)
    next
      case False
      then show ?thesis by (cases "iterate_bits do_bit offset r s") (auto simp: min_def)
    qed
    show ?thesis
      using True i word rest IH split
      by (cases "iterate_bits do_bit offset ?n s")
        (auto simp: iterate_words.simps [of do_bit endIndex r index offset] bm_word_def mem_simps Let_def)
  qed
qed

lemma bm_iterate_eq_bits:
  assumes "keeps_words do_bit" "bm_wf (snd s)" "l \<le> r" "r \<le> bm_size (snd s)"
  shows "bm_iterate do_bit l r s = iterate_bits do_bit l r s"
proof -
  let ?len = "length (bm_map (snd s))"
  have "r \<le> ?len * 64" using assms(2,4) unfolding bm_wf_def by linarith
  moreover have "r \<le> Suc (r div 64) * 64" "l \<le> l div 64 * 64 + 63" "l div 64 * 64 \<le> l" unfolding mult_Suc by linarith+
  ultimately have "iterate_words do_bit (min (Suc (r div 64)) ?len) r (l div 64) l s = iterate_bits do_bit l r s"
    by (intro iterate_words_bits [OF assms(1)]) (auto simp: min_def)
  then show ?thesis using assms(2) by (simp add: bm_iterate_def Let_def)
qed

definition collect_bit :: "nat list bit_closure" where
  "collect_bit i s = Some (True, (fst s @ [i], snd s))"

lemma collect_keeps_words: "keeps_words collect_bit"
  by (simp add: keeps_words_def collect_bit_def)

lemma iterate_bits_collect:
  assumes "bm_wf bm" "n \<le> bm_size bm"
  shows "iterate_bits collect_bit i n (xs, bm) = Some (True, (xs @ filter (\<lambda>k. k \<in> bits bm) [i..<n], bm))"
proof (induction "n - i" arbitrary: i xs)
  case (Suc d)
  then have "i < n" "d = n - Suc i" by auto
  moreover from this have "[i..<n] = i # [Suc i..<n]" by (simp add: upt_conv_Cons)
  ultimately show ?case
    using Suc assms by (simp add: iterate_bits.simps [of _ i] bm_at_bits collect_bit_def)
qed simp

section \<open>Properties\<close>

text \<open>
  The three searches return the first offset at or after the left end whose bit is one (or
  zero), and the right end when there is none; the variant for aligned right ends needs the
  right end to be a multiple of the word size.
\<close>

lemma next_offset_spec:
  assumes "bm_wf bm" "l \<le> r" "r \<le> bm_size bm"
  shows "succeeds (get_next_one_offset_inline bm l r) (next_offset (\<lambda>i. i \<in> bits bm) l r)
    \<and> succeeds (get_next_zero_offset_inline bm l r) (next_offset (\<lambda>i. i \<notin> bits bm) l r)
    \<and> (r mod 64 = 0 \<longrightarrow>
        succeeds (get_next_one_offset_inline_aligned_right bm l r) (next_offset (\<lambda>i. i \<in> bits bm) l r))"
proof -
  have "next_offset (\<lambda>i. i \<in> raw_bits (bm_map bm)) l r off = next_offset (\<lambda>i. i \<in> bits bm) l r off"
    "next_offset (\<lambda>i. i \<notin> raw_bits (bm_map bm)) l r off = next_offset (\<lambda>i. i \<notin> bits bm) l r off" for off
    using assms(3) by (auto simp: next_offset_def bits_def)
  then show ?thesis
    using next_one_spec [OF assms] next_zero_spec [OF assms] next_one_aligned_spec [OF assms]
    by (auto elim!: succeeds_weaken)
qed

lemma next_offset_spec_example:
  "succeeds (get_next_zero_offset_inline \<lparr>bm_map = [- 1, 7], bm_size = 128\<rparr> 3 128)
     (next_offset (\<lambda>i. i \<notin> bits \<lparr>bm_map = [- 1, 7], bm_size = 128\<rparr>) 3 128)
   \<and> succeeds (get_next_one_offset_inline_aligned_right \<lparr>bm_map = [- 1, 7], bm_size = 128\<rparr> 3 128)
     (next_offset (\<lambda>i. i \<in> bits \<lparr>bm_map = [- 1, 7], bm_size = 128\<rparr>) 3 128)"
  using next_offset_spec [of "\<lparr>bm_map = [- 1, 7], bm_size = 128\<rparr>" 3 128] by (simp add: bm_wf_def)

text \<open>
  C20: for every closure that keeps the number of words, \<^verbatim>\<open>iterate\<close> does what a scan of one bit
  after the other does that looks at the bitmap as the closure left it: it applies the closure to
  each bit of the range that is set when the scan arrives there and stops at the first refusal.
  With a closure that only records its argument the result is the sorted list of the set bits.
\<close>

theorem iterate_spec:
  assumes "keeps_words do_bit" "bm_wf (snd s)" "l \<le> r" "r \<le> bm_size (snd s)"
  shows "bm_iterate do_bit l r s = iterate_bits do_bit l r s
    \<and> bm_iterate collect_bit l r ([], snd s) =
        Some (True, (filter (\<lambda>i. i \<in> bits (snd s)) [l..<r], snd s))"
  using bm_iterate_eq_bits [OF assms] bm_iterate_eq_bits [OF collect_keeps_words, of "([], snd s)" l r]
    iterate_bits_collect [of "snd s" r l "[]"] assms(2-4) by simp

theorem iterate_spec_witness:
  "bm_iterate collect_bit 0 65 ([], \<lparr>bm_map = [9, 1], bm_size = 65\<rparr>) =
    Some (True, (filter (\<lambda>i. i \<in> bits \<lparr>bm_map = [9, 1], bm_size = 65\<rparr>) [0..<65], \<lparr>bm_map = [9, 1], bm_size = 65\<rparr>))"
  by (rule iterate_spec [OF collect_keeps_words, THEN conjunct2, of "([], \<lparr>bm_map = [9, 1], bm_size = 65\<rparr>)",
        unfolded snd_conv]) (simp_all add: bm_wf_def)

end
