(* ===== verification/Bit_Map_2D.thy ===== *)
theory Bit_Map_2D
  imports Bit_Map
begin

text \<open>
  \<^verbatim>\<open>BitMap2D\<close> of \<^verbatim>\<open>utilities/bitMap.hpp\<close>: slots of several bits on top of a bitmap.  What it relies on is the
  contract of a bit store, the locale \<open>bit_store\<close>, which the bitmap provides.
\<close>

section \<open>Data and operations\<close>

record bitmap2d =
  bm2_map :: bitmap
  bits_per_slot :: nat

definition bm2_bit_index :: "bitmap2d \<Rightarrow> nat \<Rightarrow> nat \<Rightarrow> nat" where
  "bm2_bit_index b slot_index bit_within_slot_index =
     idx (idx (slot_index * bits_per_slot b) + bit_within_slot_index)"

definition new_bitmap2d :: "(nat \<Rightarrow> uintptr list) \<Rightarrow> nat \<Rightarrow> nat \<Rightarrow> bitmap2d option" where
  "new_bitmap2d fresh size_in_slots nbits = do {
     m \<leftarrow> new_bitmap fresh (idx (size_in_slots * nbits));
     Some \<lparr>bm2_map = m, bits_per_slot = nbits\<rparr>
   }"

definition bm2_size_in_bits :: "bitmap2d \<Rightarrow> nat" where
  "bm2_size_in_bits b = bm_size (bm2_map b)"

definition bm2_size_in_slots :: "bitmap2d \<Rightarrow> nat option" where
  "bm2_size_in_slots b =
     (if bits_per_slot b = 0 then None else Some (bm_size (bm2_map b) div bits_per_slot b))"

definition bm2_is_valid_index :: "bitmap2d \<Rightarrow> nat \<Rightarrow> nat \<Rightarrow> bool" where
  "bm2_is_valid_index b slot_index bit_within_slot_index \<longleftrightarrow>
     bm2_bit_index b slot_index bit_within_slot_index < bm2_size_in_bits b"

definition bm2_at :: "bitmap2d \<Rightarrow> nat \<Rightarrow> nat \<Rightarrow> bool option" where
  "bm2_at b slot_index bit_within_slot_index =
     bm_at (bm2_map b) (bm2_bit_index b slot_index bit_within_slot_index)"

definition bm2_set_bit :: "bitmap2d \<Rightarrow> nat \<Rightarrow> nat \<Rightarrow> bitmap2d option" where
  "bm2_set_bit b slot_index bit_within_slot_index = do {
     m \<leftarrow> bm_set_bit (bm2_map b) (bm2_bit_index b slot_index bit_within_slot_index);
     Some (b\<lparr>bm2_map := m\<rparr>)
   }"

definition bm2_clear_bit :: "bitmap2d \<Rightarrow> nat \<Rightarrow> nat \<Rightarrow> bitmap2d option" where
  "bm2_clear_bit b slot_index bit_within_slot_index = do {
     m \<leftarrow> bm_clear_bit (bm2_map b) (bm2_bit_index b slot_index bit_within_slot_index);
     Some (b\<lparr>bm2_map := m\<rparr>)
   }"

definition bm2_at_put :: "bitmap2d \<Rightarrow> nat \<Rightarrow> nat \<Rightarrow> bool \<Rightarrow> bitmap2d option" where
  "bm2_at_put b slot_index bit_within_slot_index v = do {
     m \<leftarrow> bm_at_put (bm2_map b) (bm2_bit_index b slot_index bit_within_slot_index) v;
     Some (b\<lparr>bm2_map := m\<rparr>)
   }"

definition bm2_at_put_grow :: "(nat \<Rightarrow> uintptr list) \<Rightarrow> bitmap2d \<Rightarrow> nat \<Rightarrow> nat \<Rightarrow> bool \<Rightarrow> bitmap2d option" where
  "bm2_at_put_grow fresh b slot_index bit_within_slot_index v = do {
     m \<leftarrow> bm_at_put_grow fresh (bm2_map b) (bm2_bit_index b slot_index bit_within_slot_index) v;
     Some (b\<lparr>bm2_map := m\<rparr>)
   }"

definition bm2_clear :: "bitmap2d \<Rightarrow> bitmap2d option" where
  "bm2_clear b = do { m \<leftarrow> bm_clear (bm2_map b); Some (b\<lparr>bm2_map := m\<rparr>) }"

section \<open>The contract of a bit store and its clients\<close>

locale bit_store =
  fixes inv :: "'m \<Rightarrow> bool" and sz :: "'m \<Rightarrow> nat"
    and at :: "'m \<Rightarrow> nat \<Rightarrow> bool option" and put :: "'m \<Rightarrow> nat \<Rightarrow> bool \<Rightarrow> 'm option"
  assumes at_defined: "inv m \<Longrightarrow> i < sz m \<Longrightarrow> at m i \<noteq> None"
    and put_at: "inv m \<Longrightarrow> i < sz m \<Longrightarrow> succeeds (put m i v)
      (\<lambda>m'. inv m' \<and> sz m' = sz m \<and> (\<forall>j < sz m. at m' j = (if j = i then Some v else at m j)))"
begin

lemma slot_index_inj:
  fixes s t i j w :: nat
  assumes "i < w" "j < w"
  shows "s * w + i = t * w + j \<longleftrightarrow> s = t \<and> i = j"
proof
  assume eq: "s * w + i = t * w + j"
  have "(s * w + i) div w = s" "(t * w + j) div w = t" using assms by simp_all
  with eq show "s = t \<and> i = j" by auto
qed simp

lemma put_slot:
  assumes "inv m" "i < w" "s * w + i < sz m"
  shows "succeeds (put m (s * w + i) v) (\<lambda>m'. inv m' \<and> sz m' = sz m \<and>
    (\<forall>t j. j < w \<longrightarrow> t * w + j < sz m \<longrightarrow>
       at m' (t * w + j) = (if t = s \<and> j = i then Some v else at m (t * w + j))))"
  by (rule succeeds_weaken [OF put_at [OF assms(1,3), of v]]) (use slot_index_inj assms(2) in auto)

end

interpretation bm_store: bit_store bm_wf bm_size bm_at bm_at_put
proof unfold_locales
  fix m :: bitmap and i v
  assume m: "bm_wf m" "i < bm_size m"
  then show "bm_at m i \<noteq> None" by (simp add: bm_at_bits)
  show "succeeds (bm_at_put m i v) (\<lambda>m'. bm_wf m' \<and> bm_size m' = bm_size m \<and>
      (\<forall>j < bm_size m. bm_at m' j = (if j = i then Some v else bm_at m j)))"
    by (rule succeeds_weaken [OF bm_at_put_spec [OF m]])
      (use m in \<open>auto simp: bm_at_bits range_put_def bits_def\<close>)
qed

section \<open>Properties\<close>

lemma bm2_index_small:
  "s * bits_per_slot b + i < bm_size (bm2_map b) \<Longrightarrow> bm_wf (bm2_map b) \<Longrightarrow>
    bm2_bit_index b s i = s * bits_per_slot b + i"
  by (simp add: bm2_bit_index_def bm_wf_def)

text \<open>
  Storing a bit of a slot changes exactly that bit of that slot: every bit of every slot
  reads as before, except the one stored, which reads as the stored value.
\<close>

lemma bitmap2d_put_spec:
  assumes "bm_wf (bm2_map b)" "i < bits_per_slot b" "s * bits_per_slot b + i < bm_size (bm2_map b)"
  shows "succeeds (bm2_at_put b s i v) (\<lambda>b'. bm_wf (bm2_map b') \<and> bits_per_slot b' = bits_per_slot b
    \<and> bm2_size_in_bits b' = bm2_size_in_bits b
    \<and> (\<forall>t j. j < bits_per_slot b \<longrightarrow> t * bits_per_slot b + j < bm_size (bm2_map b) \<longrightarrow>
         bm2_at b' t j = (if t = s \<and> j = i then Some v else bm2_at b t j)))"
  using bm_store.put_slot [OF assms(1,2,3), of v] assms(1)
  by (auto simp: bm2_at_put_def bm2_index_small [OF assms(3,1)] succeeds_iff bm2_at_def bm2_index_small
      bm2_size_in_bits_def)

lemma bitmap2d_put_spec_example:
  "succeeds (bm2_at_put \<lparr>bm2_map = \<lparr>bm_map = [9, 1], bm_size = 66\<rparr>, bits_per_slot = 3\<rparr> 4 2 True)
    (\<lambda>b'. bm2_at b' 4 2 = Some True
      \<and> bm2_at b' 4 1 = bm2_at \<lparr>bm2_map = \<lparr>bm_map = [9, 1], bm_size = 66\<rparr>, bits_per_slot = 3\<rparr> 4 1)"
  using bitmap2d_put_spec [of "\<lparr>bm2_map = \<lparr>bm_map = [9, 1], bm_size = 66\<rparr>, bits_per_slot = 3\<rparr>" 2 4 True]
  by (auto simp: bm_wf_def succeeds_iff)

end
