(* ===== verification/Compressed_Stream.thy ===== *)
theory Compressed_Stream
  imports Global_Definitions
begin

text \<open>
  \<^verbatim>\<open>code/compressedStream.hpp\<close> and \<^verbatim>\<open>compressedStream.cpp\<close>: the byte streams that hold debugging
  information.  A write stream is its buffer (\<^verbatim>\<open>_size\<close> bytes), its position and its size; a read
  stream is a buffer and a position.  Floats and doubles are their bit patterns, which is what
  \<^verbatim>\<open>jint_cast\<close>, \<^verbatim>\<open>jfloat_cast\<close>, \<^verbatim>\<open>jlong_cast\<close> and \<^verbatim>\<open>jdouble_cast\<close> convert between.  Positions and sizes are
  natural numbers.
\<close>

section \<open>Encodings of single values\<close>

definition encode_sign :: "jint \<Rightarrow> juint" where
  "encode_sign v = push_bit 1 v XOR signed_drop_bit 31 v"

definition decode_sign :: "juint \<Rightarrow> jint" where
  "decode_sign v = drop_bit 1 v XOR - (v AND 1)"

definition reverse_int :: "juint \<Rightarrow> juint" where
  "reverse_int i0 =
     (let i1 = push_bit 1 (i0 AND 0x55555555) OR (drop_bit 1 i0 AND 0x55555555);
          i2 = push_bit 2 (i1 AND 0x33333333) OR (drop_bit 2 i1 AND 0x33333333);
          i3 = push_bit 4 (i2 AND 0x0f0f0f0f) OR (drop_bit 4 i2 AND 0x0f0f0f0f)
      in push_bit 24 i3 OR push_bit 8 (i3 AND 0xff00) OR (drop_bit 8 i3 AND 0xff00) OR drop_bit 24 i3)"

section \<open>Read streams\<close>

definition lg_H :: nat where "lg_H = 6"
definition stream_H :: nat where "stream_H = 2 ^ lg_H"
definition stream_L :: nat where "stream_L = 2 ^ 8 - stream_H"
definition MAX_i :: nat where "MAX_i = 4"

record read_stream =
  rs_buffer :: "u1 list"
  rs_position :: nat

definition rs_read :: "read_stream \<Rightarrow> (u1 \<times> read_stream) option" where
  "rs_read rs = do {
     b \<leftarrow> array_get (rs_buffer rs) (rs_position rs);
     Some (b, rs\<lparr>rs_position := rs_position rs + 1\<rparr>)
   }"

function read_int_loop :: "u1 list \<Rightarrow> nat \<Rightarrow> nat \<Rightarrow> jint \<Rightarrow> nat \<Rightarrow> (jint \<times> nat) option" where
  "read_int_loop buffer pos i acc lg_H_i = do {
     b_i \<leftarrow> array_get buffer (pos + (i + 1));
     let acc = acc + push_bit lg_H_i (ucast b_i);
     if unat b_i < stream_L \<or> i + 1 = MAX_i then Some (acc, pos + (i + 1) + 1)
     else read_int_loop buffer pos (i + 1) acc (lg_H_i + lg_H)
   }"
  by pat_completeness auto
termination
  by (relation "measure (\<lambda>(buffer, pos, i, s, l). length buffer - i)") (auto simp: array_get_def split: if_splits)

definition read_int_mb :: "read_stream \<Rightarrow> jint \<Rightarrow> (jint \<times> read_stream) option" where
  "read_int_mb rs b0 = do {
     let pos = rs_position rs - 1;
     (v, p) \<leftarrow> read_int_loop (rs_buffer rs) pos 0 b0 lg_H;
     Some (v, rs\<lparr>rs_position := p\<rparr>)
   }"

definition read_int :: "read_stream \<Rightarrow> (jint \<times> read_stream) option" where
  "read_int rs = do {
     (b0, rs) \<leftarrow> rs_read rs;
     if unat b0 < stream_L then Some (ucast b0, rs) else read_int_mb rs (ucast b0)
   }"

definition read_signed_int :: "read_stream \<Rightarrow> (jint \<times> read_stream) option" where
  "read_signed_int rs = do { (v, rs) \<leftarrow> read_int rs; Some (decode_sign v, rs) }"

definition read_bool :: "read_stream \<Rightarrow> (u1 \<times> read_stream) option" where
  "read_bool rs = rs_read rs"

definition read_byte :: "read_stream \<Rightarrow> (jbyte \<times> read_stream) option" where
  "read_byte rs = rs_read rs"

definition read_char :: "read_stream \<Rightarrow> (jchar \<times> read_stream) option" where
  "read_char rs = do { (v, rs) \<leftarrow> read_int rs; Some (ucast v, rs) }"

definition read_short :: "read_stream \<Rightarrow> (16 word \<times> read_stream) option" where
  "read_short rs = do { (v, rs) \<leftarrow> read_signed_int rs; Some (ucast v, rs) }"

definition read_float :: "read_stream \<Rightarrow> (jint \<times> read_stream) option" where
  "read_float rs = do { (rf, rs) \<leftarrow> read_int rs; Some (reverse_int rf, rs) }"

definition read_double :: "read_stream \<Rightarrow> (jlong \<times> read_stream) option" where
  "read_double rs = do {
     (rh, rs) \<leftarrow> read_int rs;
     (rl, rs) \<leftarrow> read_int rs;
     Some (jlong_from (reverse_int rh) (reverse_int rl), rs)
   }"

definition read_long :: "read_stream \<Rightarrow> (jlong \<times> read_stream) option" where
  "read_long rs = do {
     (lo, rs) \<leftarrow> read_signed_int rs;
     (hi, rs) \<leftarrow> read_signed_int rs;
     Some (jlong_from hi lo, rs)
   }"

section \<open>Write streams\<close>

record write_stream =
  ws_buffer :: "u1 list"
  ws_position :: nat
  ws_size :: nat

text \<open>\<open>fresh n\<close> is the content of a newly allocated array of \<open>n\<close> bytes.\<close>

type_synonym allocator = "nat \<Rightarrow> u1 list"

definition new_write_stream :: "allocator \<Rightarrow> nat \<Rightarrow> write_stream" where
  "new_write_stream fresh initial_size = \<lparr>ws_buffer = fresh initial_size, ws_position = 0, ws_size = initial_size\<rparr>"

definition ws_full :: "write_stream \<Rightarrow> bool" where
  "ws_full ws \<longleftrightarrow> ws_position ws \<ge> ws_size ws"

definition ws_store :: "write_stream \<Rightarrow> u1 \<Rightarrow> write_stream option" where
  "ws_store ws b = do {
     buf \<leftarrow> array_put (ws_buffer ws) (ws_position ws) b;
     Some (ws\<lparr>ws_buffer := buf, ws_position := ws_position ws + 1\<rparr>)
   }"

definition memcpy :: "u1 list \<Rightarrow> u1 list \<Rightarrow> nat \<Rightarrow> u1 list option" where
  "memcpy dest source n = (if n \<le> length source \<and> n \<le> length dest then Some (take n source @ drop n dest) else None)"

definition ws_grow :: "allocator \<Rightarrow> write_stream \<Rightarrow> write_stream option" where
  "ws_grow fresh ws = do {
     new_buffer \<leftarrow> memcpy (fresh (ws_size ws * 2)) (ws_buffer ws) (ws_position ws);
     Some (ws\<lparr>ws_buffer := new_buffer, ws_size := ws_size ws * 2\<rparr>)
   }"

definition ws_write :: "allocator \<Rightarrow> write_stream \<Rightarrow> u1 \<Rightarrow> write_stream option" where
  "ws_write fresh ws b = do {
     ws \<leftarrow> (if ws_full ws then ws_grow fresh ws else Some ws);
     ws_store ws b
   }"

function write_int_loop :: "allocator \<Rightarrow> write_stream \<Rightarrow> juint \<Rightarrow> nat \<Rightarrow> write_stream option" where
  "write_int_loop fresh ws acc i =
     (if unat acc < stream_L \<or> i = MAX_i then ws_write fresh ws (ucast acc)
      else let acc = acc - of_nat stream_L;
               b_i = of_nat stream_L + acc mod of_nat stream_H
           in do {
             ws \<leftarrow> ws_write fresh ws (ucast b_i);
             write_int_loop fresh ws (drop_bit lg_H acc) (i + 1)
           })"
  by pat_completeness auto
termination
proof (relation "measure (\<lambda>(fresh, ws, acc, i). unat acc)")
  fix acc x :: juint and y :: juint and fresh ws i ws'
  assume "\<not> (unat acc < stream_L \<or> i = MAX_i)" and x: "x = acc - of_nat stream_L"
  then have "192 \<le> unat acc" by (simp add: stream_L_def stream_H_def lg_H_def)
  moreover have "unat (drop_bit lg_H x) \<le> unat x"
    unfolding unat_drop_bit_eq by (simp add: drop_bit_eq_div)
  moreover have "unat x = unat acc - 192"
    using calculation(1) x by (simp add: stream_L_def stream_H_def lg_H_def unat_sub word_le_nat_alt)
  ultimately show "((fresh, ws', drop_bit lg_H x, i + 1), (fresh, ws, acc, i)) \<in> measure (\<lambda>(fresh, ws, acc, i). unat acc)"
    by simp
qed auto

definition write_int_mb :: "allocator \<Rightarrow> write_stream \<Rightarrow> jint \<Rightarrow> write_stream option" where
  "write_int_mb fresh ws v = write_int_loop fresh ws v 0"

definition write_int :: "allocator \<Rightarrow> write_stream \<Rightarrow> jint \<Rightarrow> write_stream option" where
  "write_int fresh ws v =
     (if unat v < stream_L \<and> \<not> ws_full ws then ws_store ws (ucast v) else write_int_mb fresh ws v)"

definition write_signed_int :: "allocator \<Rightarrow> write_stream \<Rightarrow> jint \<Rightarrow> write_stream option" where
  "write_signed_int fresh ws v = write_int fresh ws (encode_sign v)"

definition write_bool :: "allocator \<Rightarrow> write_stream \<Rightarrow> u1 \<Rightarrow> write_stream option" where
  "write_bool fresh ws v = ws_write fresh ws v"

definition write_byte :: "allocator \<Rightarrow> write_stream \<Rightarrow> jbyte \<Rightarrow> write_stream option" where
  "write_byte fresh ws v = ws_write fresh ws v"

definition write_char :: "allocator \<Rightarrow> write_stream \<Rightarrow> jchar \<Rightarrow> write_stream option" where
  "write_char fresh ws v = write_int fresh ws (ucast v)"

definition write_short :: "allocator \<Rightarrow> write_stream \<Rightarrow> 16 word \<Rightarrow> write_stream option" where
  "write_short fresh ws v = write_signed_int fresh ws (scast v)"

definition write_float :: "allocator \<Rightarrow> write_stream \<Rightarrow> jint \<Rightarrow> write_stream option" where
  "write_float fresh ws v = write_int fresh ws (reverse_int v)"

definition write_double :: "allocator \<Rightarrow> write_stream \<Rightarrow> jlong \<Rightarrow> write_stream option" where
  "write_double fresh ws v = do {
     let rh = reverse_int (high v);
     let rl = reverse_int (low v);
     ws \<leftarrow> write_int fresh ws rh;
     write_int fresh ws rl
   }"

definition write_long :: "allocator \<Rightarrow> write_stream \<Rightarrow> jlong \<Rightarrow> write_stream option" where
  "write_long fresh ws v = do {
     ws \<leftarrow> write_signed_int fresh ws (low v);
     write_signed_int fresh ws (high v)
   }"

declare read_int_loop.simps [simp del] write_int_loop.simps [simp del]

section \<open>Bit-level inverses\<close>

lemma decode_encode_sign: "decode_sign (encode_sign v) = v"
proof -
  have e: "bit (encode_sign v) n \<longleftrightarrow> (n < 32 \<and> ((0 < n \<and> bit v (n - 1)) \<noteq> bit v 31))" for n
    unfolding encode_sign_def bit_xor_iff bit_push_bit_iff bit_signed_drop_bit_iff
    by (cases n) (auto simp: min_def dest: bit_imp_le_length)
  have "- (u AND 1) = (if bit u 0 then - 1 else 0)" for u :: juint
    by (auto simp: and_one_eq bit_0 even_iff_mod_2_eq_zero odd_iff_mod_2_eq_one)
  then have d: "bit (decode_sign u) n \<longleftrightarrow> n < 32 \<and> (bit u (Suc n) \<noteq> bit u 0)" for u n
    by (auto simp: decode_sign_def bit_xor_iff bit_drop_bit_eq dest: bit_imp_le_length)
  show ?thesis
  proof (rule word_bit_ext)
    fix n assume "n < LENGTH(32)"
    then show "bit (decode_sign (encode_sign v)) n = bit v n"
      unfolding d e by (cases "n = 31") auto
  qed
qed

text \<open>One exchange step of \<open>reverse_int\<close>, and the final exchange of bytes.\<close>

definition swap_bits :: "nat \<Rightarrow> juint \<Rightarrow> juint \<Rightarrow> juint" where
  "swap_bits k m w = push_bit k (w AND m) OR (drop_bit k w AND m)"

definition swap_bytes :: "juint \<Rightarrow> juint" where
  "swap_bytes w = push_bit 24 w OR push_bit 8 (w AND 0xff00) OR (drop_bit 8 w AND 0xff00) OR drop_bit 24 w"

lemma reverse_int_swaps:
  "reverse_int w = swap_bytes (swap_bits 4 0x0f0f0f0f (swap_bits 2 0x33333333 (swap_bits 1 0x55555555 w)))"
  by (simp only: reverse_int_def swap_bits_def swap_bytes_def Let_def)

lemma bit_swap_bits:
  "n < 32 \<Longrightarrow> bit (swap_bits k m w) n \<longleftrightarrow> k \<le> n \<and> bit w (n - k) \<and> bit m (n - k) \<or> bit w (k + n) \<and> bit m n"
  by (auto simp: swap_bits_def bit_or_iff bit_and_iff bit_push_bit_iff bit_drop_bit_eq)

lemma bit_swap_bytes:
  "n < 32 \<Longrightarrow> bit (swap_bytes w) n \<longleftrightarrow> 24 \<le> n \<and> bit w (n - 24) \<or> 8 \<le> n \<and> bit w (n - 8) \<and> bit (0xff00 :: juint) (n - 8)
     \<or> bit w (8 + n) \<and> bit (0xff00 :: juint) n \<or> bit w (24 + n)"
  by (auto simp: swap_bytes_def bit_or_iff bit_and_iff bit_push_bit_iff bit_drop_bit_eq simp del: push_bit_numeral)

lemma all_less_32:
  "(\<forall>n < 32. P n) \<longleftrightarrow> P 0 \<and> P 1 \<and> P 2 \<and> P 3 \<and> P 4 \<and> P 5 \<and> P 6 \<and> P 7 \<and> P 8 \<and> P 9 \<and> P 10 \<and> P 11 \<and> P 12 \<and> P 13 \<and> P 14 \<and> P 15 \<and> P 16 \<and> P 17 \<and> P 18 \<and> P 19 \<and> P 20 \<and> P 21 \<and> P 22 \<and> P 23 \<and> P 24 \<and> P 25 \<and> P 26 \<and> P 27 \<and> P 28 \<and> P 29 \<and> P 30 \<and> P 31" for P :: "nat \<Rightarrow> bool"
  by (simp add: numeral_eq_Suc All_less_Suc2)

lemma bit_outside: "32 \<le> n \<Longrightarrow> \<not> bit (w :: juint) n"
  by (auto dest: bit_imp_le_length)

definition exchange :: "nat \<Rightarrow> nat \<Rightarrow> nat" where
  "exchange k n = (if even (n div k) then n + k else n - k)"

definition mirror_byte :: "nat \<Rightarrow> nat" where
  "mirror_byte n = 24 - n div 8 * 8 + n mod 8"

lemma mirror_bounds: "n < 32 \<Longrightarrow> mirror_byte n < 32 \<and> exchange 4 (mirror_byte n) < 32
    \<and> exchange 2 (exchange 4 (mirror_byte n)) < 32 \<and> exchange 1 (exchange 2 (exchange 4 (mirror_byte n))) = 31 - n"
proof -
  have "\<forall>n < 32. mirror_byte n < 32 \<and> exchange 4 (mirror_byte n) < 32
    \<and> exchange 2 (exchange 4 (mirror_byte n)) < 32 \<and> exchange 1 (exchange 2 (exchange 4 (mirror_byte n))) = 31 - n"
    unfolding all_less_32 by (simp add: mirror_byte_def exchange_def)
  then show "n < 32 \<Longrightarrow> ?thesis" by blast
qed

lemma bit_swap_1: "n < 32 \<Longrightarrow> bit (swap_bits 1 0x55555555 w) n = bit w (exchange 1 n)"
proof -
  have "\<forall>n < 32. bit (swap_bits 1 0x55555555 w) n = bit w (exchange 1 n)"
    unfolding all_less_32 by (simp add: bit_swap_bits bit_outside exchange_def numeral_2_eq_2 [symmetric] numeral_3_eq_3 [symmetric])
  then show "n < 32 \<Longrightarrow> ?thesis" by blast
qed

lemma bit_swap_2: "n < 32 \<Longrightarrow> bit (swap_bits 2 0x33333333 w) n = bit w (exchange 2 n)"
proof -
  have "\<forall>n < 32. bit (swap_bits 2 0x33333333 w) n = bit w (exchange 2 n)"
    unfolding all_less_32 by (simp add: bit_swap_bits bit_outside exchange_def numeral_2_eq_2 [symmetric] numeral_3_eq_3 [symmetric])
  then show "n < 32 \<Longrightarrow> ?thesis" by blast
qed

lemma bit_swap_4: "n < 32 \<Longrightarrow> bit (swap_bits 4 0x0f0f0f0f w) n = bit w (exchange 4 n)"
proof -
  have "\<forall>n < 32. bit (swap_bits 4 0x0f0f0f0f w) n = bit w (exchange 4 n)"
    unfolding all_less_32 by (simp add: bit_swap_bits bit_outside exchange_def)
  then show "n < 32 \<Longrightarrow> ?thesis" by blast
qed

lemma bit_swap_bytes_24: "n < 32 \<Longrightarrow> bit (swap_bytes w) n = bit w (mirror_byte n)"
proof -
  have "\<forall>n < 32. bit (swap_bytes w) n = bit w (mirror_byte n)"
    unfolding all_less_32 by (simp add: bit_swap_bytes bit_outside mirror_byte_def numeral_2_eq_2 [symmetric])
  then show "n < 32 \<Longrightarrow> ?thesis" by blast
qed

lemma bit_reverse_int:
  assumes "n < 32"
  shows "bit (reverse_int w) n = bit w (31 - n)"
  using mirror_bounds [OF assms] assms
  by (simp only: reverse_int_swaps bit_swap_bytes_24 bit_swap_4 bit_swap_2 bit_swap_1)

lemma reverse_int_reverse [simp]: "reverse_int (reverse_int w) = w"
  by (rule word_bit_ext) (simp add: bit_reverse_int)

section \<open>The contract of an encoding\<close>

definition content :: "write_stream \<Rightarrow> u1 list" where
  "content ws = take (ws_position ws) (ws_buffer ws)"

definition ws_wf :: "write_stream \<Rightarrow> bool" where
  "ws_wf ws \<longleftrightarrow> length (ws_buffer ws) = ws_size ws \<and> ws_position ws \<le> ws_size ws \<and> 0 < ws_size ws"

definition allocates :: "allocator \<Rightarrow> bool" where
  "allocates fresh \<longleftrightarrow> (\<forall>n. length (fresh n) = n)"

definition appends :: "write_stream \<Rightarrow> u1 list \<Rightarrow> write_stream \<Rightarrow> bool" where
  "appends ws bs ws' \<longleftrightarrow> ws_wf ws' \<and> content ws' = content ws @ bs"

definition at_bytes :: "read_stream \<Rightarrow> u1 list \<Rightarrow> bool" where
  "at_bytes rs bs \<longleftrightarrow> rs_position rs + length bs \<le> length (rs_buffer rs)
     \<and> take (length bs) (drop (rs_position rs) (rs_buffer rs)) = bs"

definition advance :: "read_stream \<Rightarrow> nat \<Rightarrow> read_stream" where
  "advance rs n = rs\<lparr>rs_position := rs_position rs + n\<rparr>"

lemma advance_advance [simp]: "advance (advance rs m) n = advance rs (m + n)"
  by (simp add: advance_def add.assoc)

lemma appends_trans: "appends ws bs ws' \<Longrightarrow> appends ws' cs ws'' \<Longrightarrow> appends ws (bs @ cs) ws''"
  by (simp add: appends_def)

lemma appends_wf: "appends ws bs ws' \<Longrightarrow> ws_wf ws'"
  by (simp add: appends_def)

lemma at_bytes_append: "at_bytes rs (bs @ cs) \<longleftrightarrow> at_bytes rs bs \<and> at_bytes (advance rs (length bs)) cs"
  by (auto simp: at_bytes_def advance_def take_add add.assoc add.commute drop_drop)

lemma at_bytes_nth: "at_bytes rs bs \<Longrightarrow> i < length bs \<Longrightarrow> array_get (rs_buffer rs) (rs_position rs + i) = Some (bs ! i)"
proof -
  assume a: "at_bytes rs bs" and i: "i < length bs"
  then have len: "rs_position rs + length bs \<le> length (rs_buffer rs)"
    and "bs ! i = take (length bs) (drop (rs_position rs) (rs_buffer rs)) ! i" by (simp_all add: at_bytes_def)
  then have "bs ! i = rs_buffer rs ! (rs_position rs + i)" using i by simp
  then show ?thesis using len i by (simp add: mem_simps)
qed

locale codec =
  fixes wr :: "allocator \<Rightarrow> write_stream \<Rightarrow> 'a \<Rightarrow> write_stream option"
    and rd :: "read_stream \<Rightarrow> ('a \<times> read_stream) option"
    and enc :: "'a \<Rightarrow> u1 list"
  assumes write_enc: "allocates fresh \<Longrightarrow> ws_wf ws \<Longrightarrow> succeeds (wr fresh ws v) (appends ws (enc v))"
    and read_enc: "at_bytes rs (enc v) \<Longrightarrow> rd rs = Some (v, advance rs (length (enc v)))"
begin

lemma enc_prefix_free:
  assumes "enc v @ xs = enc w @ ys"
  shows "v = w"
proof -
  let ?rs = "\<lparr>rs_buffer = enc v @ xs, rs_position = 0\<rparr>"
  have "at_bytes ?rs (enc v)" by (simp add: at_bytes_def)
  moreover have "at_bytes ?rs (enc w)" unfolding assms by (simp add: at_bytes_def)
  ultimately show ?thesis using read_enc [of ?rs v] read_enc [of ?rs w] by simp
qed

end

text \<open>A codec for values that are converted to others before they are written.\<close>

locale recoded_codec = codec wr rd enc
  for wr :: "allocator \<Rightarrow> write_stream \<Rightarrow> 'a \<Rightarrow> write_stream option" and rd enc +
  fixes f :: "'b \<Rightarrow> 'a" and g :: "'a \<Rightarrow> 'b"
  assumes g_f: "g (f v) = v"

sublocale recoded_codec \<subseteq> recoded: codec "\<lambda>fresh ws v. wr fresh ws (f v)"
    "\<lambda>rs. rd rs \<bind> (\<lambda>(v, rs). Some (g v, rs))" "\<lambda>v. enc (f v)"
  by unfold_locales (auto intro: write_enc simp: read_enc g_f)

text \<open>A codec for values that are written as two parts, one after the other.\<close>

locale paired_codec = codec wr rd enc
  for wr :: "allocator \<Rightarrow> write_stream \<Rightarrow> 'a \<Rightarrow> write_stream option" and rd enc +
  fixes f1 f2 :: "'b \<Rightarrow> 'a" and g :: "'a \<Rightarrow> 'a \<Rightarrow> 'b"
  assumes g_f12: "g (f1 v) (f2 v) = v"

sublocale paired_codec \<subseteq> paired: codec
    "\<lambda>fresh ws v. wr fresh ws (f1 v) \<bind> (\<lambda>ws. wr fresh ws (f2 v))"
    "\<lambda>rs. rd rs \<bind> (\<lambda>(v1, rs). rd rs \<bind> (\<lambda>(v2, rs). Some (g v1 v2, rs)))"
    "\<lambda>v. enc (f1 v) @ enc (f2 v)"
proof unfold_locales
  fix fresh ws v assume a: "allocates fresh" "ws_wf ws"
  show "succeeds (wr fresh ws (f1 v) \<bind> (\<lambda>ws. wr fresh ws (f2 v))) (appends ws (enc (f1 v) @ enc (f2 v)))"
    unfolding succeeds_bind
  proof (rule succeeds_weaken [OF write_enc [OF a, of "f1 v"]])
    fix ws' assume "appends ws (enc (f1 v)) ws'"
    then show "succeeds (wr fresh ws' (f2 v)) (appends ws (enc (f1 v) @ enc (f2 v)))"
      using succeeds_weaken [OF write_enc [OF a(1) appends_wf, of ws "enc (f1 v)" ws' "f2 v"]] appends_trans by blast
  qed
qed (auto simp: at_bytes_append read_enc g_f12)

section \<open>The encodings of the streams\<close>

lemma ws_store_appends:
  "ws_wf ws \<Longrightarrow> \<not> ws_full ws \<Longrightarrow> succeeds (ws_store ws b) (appends ws [b])"
  by (auto simp: ws_store_def vcg ws_full_def ws_wf_def appends_def content_def take_Suc_conv_app_nth)

lemma ws_write_appends:
  assumes "allocates fresh" "ws_wf ws"
  shows "succeeds (ws_write fresh ws b) (appends ws [b])"
proof (cases "ws_full ws")
  case True
  let ?ws = "ws\<lparr>ws_buffer := take (ws_position ws) (ws_buffer ws) @ drop (ws_position ws) (fresh (ws_size ws * 2)),
      ws_size := ws_size ws * 2\<rparr>"
  have g: "ws_grow fresh ws = Some ?ws" "ws_wf ?ws" "\<not> ws_full ?ws" "content ?ws = content ws"
    using assms True by (auto simp: ws_grow_def memcpy_def ws_wf_def allocates_def ws_full_def content_def)
  have "appends ?ws [b] = appends ws [b]" by (rule ext) (simp only: appends_def g(4))
  then show ?thesis
    using ws_store_appends [OF g(2,3), of b] True by (simp add: ws_write_def g(1))
next
  case False
  then show ?thesis using ws_store_appends [OF assms(2)] by (simp add: ws_write_def)
qed

lemma read_at_bytes: "at_bytes rs (b # bs) \<Longrightarrow> rs_read rs = Some (b, advance rs 1)"
  using at_bytes_nth [of rs "b # bs" 0] by (simp add: rs_read_def advance_def)

interpretation byte_codec: codec ws_write rs_read "\<lambda>b. [b]"
  by unfold_locales (auto intro: ws_write_appends simp: read_at_bytes)

text \<open>The UNSIGNED5 code, with its bytes from number \<open>i\<close> on.\<close>

fun unsigned5_from :: "nat \<Rightarrow> nat \<Rightarrow> u1 list" where
  "unsigned5_from i n =
     (if n < 192 \<or> i \<ge> 4 then [of_nat n] else of_nat (192 + (n - 192) mod 64) # unsigned5_from (i + 1) ((n - 192) div 64))"

declare unsigned5_from.simps [simp del]

definition unsigned5 :: "jint \<Rightarrow> u1 list" where
  "unsigned5 v = unsigned5_from 0 (unat v)"

lemmas stream_consts = stream_L_def stream_H_def lg_H_def MAX_i_def

lemma ucast_of_nat_u1: "(ucast (of_nat n :: juint) :: u1) = of_nat n"
  by (simp add: ucast_of_unat unsigned_of_nat word_of_nat_eq_iff del: of_nat_unat)

lemma high_byte:
  "unat (of_nat (192 + k mod 64) :: u1) = 192 + k mod 64"
  "(ucast (of_nat (192 + k mod 64) :: u1) :: jint) = of_nat (192 + k mod 64)"
proof -
  have "k mod 64 < 64" by simp
  then have "192 + k mod 64 < 2 ^ LENGTH(8)" unfolding len_num1 by simp
  then show "unat (of_nat (192 + k mod 64) :: u1) = 192 + k mod 64"
    "(ucast (of_nat (192 + k mod 64) :: u1) :: jint) = of_nat (192 + k mod 64)"
    by (rule unat_of_nat_small, rule ucast_of_nat_small)
qed

lemma write_step:
  assumes "\<not> unat (acc :: juint) < 192"
  shows "unat (acc - 192) = unat acc - 192" "unat (drop_bit 6 (acc - 192)) = (unat acc - 192) div 64"
    "(ucast (192 + (acc - 192) mod 64) :: u1) = of_nat (192 + (unat acc - 192) mod 64)"
proof -
  show s: "unat (acc - 192) = unat acc - 192" using assms by (simp add: unat_sub word_le_nat_alt)
  show "unat (drop_bit 6 (acc - 192)) = (unat acc - 192) div 64"
    unfolding unat_drop_bit_eq s by (simp add: drop_bit_eq_div)
  have "unat ((acc - 192) mod 64) = (unat acc - 192) mod 64" by (simp add: unat_mod_distrib s)
  then have "of_nat (192 + (unat acc - 192) mod 64) = 192 + (of_nat (unat ((acc - 192) mod 64)) :: juint)"
    by (simp only: of_nat_add of_nat_numeral)
  then have "192 + (acc - 192) mod 64 = of_nat (192 + (unat acc - 192) mod 64)"
    by (simp only: of_nat_unat ucast_id)
  then show "(ucast (192 + (acc - 192) mod 64) :: u1) = of_nat (192 + (unat acc - 192) mod 64)"
    by (simp only: ucast_of_nat_u1)
qed

lemma write_int_loop_appends:
  assumes "allocates fresh"
  shows "ws_wf ws \<Longrightarrow> i \<le> 4 \<Longrightarrow> succeeds (write_int_loop fresh ws acc i) (appends ws (unsigned5_from i (unat acc)))"
proof (induction "4 - i" arbitrary: ws acc i)
  case 0
  then show ?case
    using ws_write_appends [OF assms 0(2), of "ucast acc"]
    by (simp add: write_int_loop.simps unsigned5_from.simps stream_consts)
next
  case (Suc d)
  then have i: "i < 4" "d = 4 - (i + 1)" by auto
  show ?case
  proof (cases "unat acc < 192")
    case True
    then show ?thesis
      using ws_write_appends [OF assms Suc.prems(1), of "ucast acc"]
      by (simp add: write_int_loop.simps unsigned5_from.simps stream_consts)
  next
    case False
    let ?b = "of_nat (192 + (unat acc - 192) mod 64) :: u1" and ?acc = "drop_bit 6 (acc - 192)"
    obtain ws' where ws': "ws_write fresh ws ?b = Some ws'" "appends ws [?b] ws'"
      using ws_write_appends [OF assms Suc.prems(1), of ?b] by (auto elim: succeedsE)
    have "succeeds (write_int_loop fresh ws' ?acc (i + 1)) (appends ws' (unsigned5_from (i + 1) (unat ?acc)))"
      by (rule Suc.hyps(1) [OF i(2) appends_wf [OF ws'(2)]]) (use i in simp)
    then have "succeeds (write_int_loop fresh ws' ?acc (i + 1)) (appends ws (?b # unsigned5_from (i + 1) (unat ?acc)))"
      by (rule succeeds_weaken) (use appends_trans [OF ws'(2)] in simp)
    moreover have "write_int_loop fresh ws acc i = write_int_loop fresh ws' ?acc (i + 1)"
      using False i ws'(1) write_step(3) [OF False]
      by (subst write_int_loop.simps) (simp add: stream_consts)
    moreover have "unsigned5_from i (unat acc) = ?b # unsigned5_from (i + 1) (unat ?acc)"
      using False i write_step(2) [OF False] by (subst unsigned5_from.simps) simp
    ultimately show ?thesis by simp
  qed
qed

lemma write_int_appends:
  assumes "allocates fresh" "ws_wf ws"
  shows "succeeds (write_int fresh ws v) (appends ws (unsigned5 v))"
proof (cases "unat v < 192 \<and> \<not> ws_full ws")
  case True
  then show ?thesis
    using ws_store_appends [OF assms(2), of "ucast v"]
    by (simp add: write_int_def unsigned5_def unsigned5_from.simps stream_consts)
next
  case False
  then show ?thesis
    using write_int_loop_appends [OF assms, of 0 v]
    by (auto simp: write_int_def write_int_mb_def unsigned5_def stream_consts)
qed

text \<open>Reading collects what was written.\<close>

lemma read_int_loop_unsigned5:
  assumes "i < 4" "\<And>k. k < length (unsigned5_from (Suc i) n) \<Longrightarrow> array_get buf (pos + (Suc i + k)) = Some (unsigned5_from (Suc i) n ! k)"
    and "n < 2 ^ (26 - 6 * i)"
  shows "read_int_loop buf pos i acc (6 * Suc i) =
    Some (acc + push_bit (6 * Suc i) (of_nat n), pos + Suc i + length (unsigned5_from (Suc i) n))"
  using assms
proof (induction "4 - i" arbitrary: i n acc)
  case (Suc d)
  note * = Suc.prems
  show ?case
  proof (cases "n < 192 \<or> i = 3")
    case True
    have "n < 256" using True *(3) by auto
    then have u: "unat (of_nat n :: u1) = n" "ucast (of_nat n :: u1) = (of_nat n :: jint)"
      by (simp_all add: unat_of_nat_small ucast_of_nat_small)
    have e: "unsigned5_from (Suc i) n = [of_nat n]" using True by (subst unsigned5_from.simps) auto
    show ?thesis
      using True *(2) [of 0] u by (subst read_int_loop.simps) (auto simp: e stream_consts add.commute)
  next
    case False
    let ?m = "(n - 192) div 64" and ?b = "of_nat (192 + (n - 192) mod 64) :: u1"
    have e: "unsigned5_from (Suc i) n = ?b # unsigned5_from (Suc (Suc i)) ?m"
      using False *(1) by (subst unsigned5_from.simps) auto
    have b: "unat ?b = 192 + (n - 192) mod 64" "ucast ?b = (of_nat (192 + (n - 192) mod 64) :: jint)"
      by (rule high_byte)+
    have "i = 0 \<or> i = 1 \<or> i = 2" using False *(1) by auto
    then have m: "?m < 2 ^ (26 - 6 * Suc i)" using *(3) by (elim disjE) simp_all
    have n: "n = 192 + (n - 192) mod 64 + 64 * ?m" using False by simp
    have "(of_nat n :: jint) = ucast ?b + 64 * of_nat ?m"
      unfolding b(2) using arg_cong [OF n, of "of_nat :: nat \<Rightarrow> jint"]
      by (simp only: of_nat_add of_nat_mult of_nat_numeral)
    then have shift: "push_bit (6 * Suc i) (of_nat n) = push_bit (6 * Suc i) (ucast ?b) + push_bit (6 * Suc (Suc i)) (of_nat ?m :: jint)"
      by (simp add: push_bit_eq_mult algebra_simps power_add)
    have IH: "read_int_loop buf pos (Suc i) acc' (6 * Suc (Suc i)) =
        Some (acc' + push_bit (6 * Suc (Suc i)) (of_nat ?m), pos + Suc (Suc i) + length (unsigned5_from (Suc (Suc i)) ?m))" for acc'
    proof (rule Suc.hyps(1))
      show "array_get buf (pos + (Suc (Suc i) + k)) = Some (unsigned5_from (Suc (Suc i)) ?m ! k)"
        if "k < length (unsigned5_from (Suc (Suc i)) ?m)" for k
        using *(2) [of "Suc k"] that by (simp add: e)
    qed (use Suc.hyps(2) *(1) m False in auto)
    have "array_get buf (pos + Suc i) = Some ?b" using *(2) [of 0] by (simp add: e)
    then have "read_int_loop buf pos i acc (6 * Suc i) =
        read_int_loop buf pos (Suc i) (acc + push_bit (6 * Suc i) (ucast ?b)) (6 * Suc (Suc i))"
      using False b(1) by (subst read_int_loop.simps) (simp add: stream_consts add.commute)
    also have "\<dots> = Some (acc + push_bit (6 * Suc i) (of_nat n), pos + Suc i + length (unsigned5_from (Suc i) n))"
      unfolding IH shift e by (simp add: add.assoc)
    finally show ?thesis .
  qed
qed simp

lemma unsigned5_short: "unat v < 192 \<Longrightarrow> unsigned5 v = [ucast v]"
  by (simp add: unsigned5_def unsigned5_from.simps)

lemma read_int_unsigned5:
  assumes "at_bytes rs (unsigned5 v)"
  shows "read_int rs = Some (v, advance rs (length (unsigned5 v)))"
proof (cases "unat v < 192")
  case True
  then have u: "unat (ucast v :: u1) = unat v"
    by (simp add: ucast_of_unat unat_of_nat_small del: of_nat_unat)
  then have "ucast (ucast v :: u1) = v" by (simp add: ucast_of_unat [of "ucast v :: u1"] del: of_nat_unat) simp
  moreover have "unat (ucast v :: u1) < 192" using True u by simp
  ultimately show ?thesis
    using assms read_at_bytes [of rs "ucast v" "[]"] by (simp add: unsigned5_short [OF True] read_int_def stream_consts)
next
  case False
  let ?m = "(unat v - 192) div 64" and ?b = "of_nat (192 + (unat v - 192) mod 64) :: u1"
  have e: "unsigned5 v = ?b # unsigned5_from 1 ?m" using False by (simp add: unsigned5_def unsigned5_from.simps [of 0])
  have b: "unat ?b = 192 + (unat v - 192) mod 64" "ucast ?b = (of_nat (192 + (unat v - 192) mod 64) :: jint)"
    by (rule high_byte)+
  have n: "unat v = 192 + (unat v - 192) mod 64 + 64 * ?m" using False by simp
  have "v = ucast ?b + 64 * of_nat ?m"
    unfolding b(2) using arg_cong [OF n, of "of_nat :: nat \<Rightarrow> jint"]
    by (simp only: of_nat_add of_nat_mult of_nat_numeral of_nat_unat ucast_id)
  then have v: "v = ucast ?b + push_bit 6 (of_nat ?m)" by (simp add: push_bit_eq_mult mult.commute)
  have "?m < 2 ^ 26" using unat_bound [of v] by simp
  then have loop: "read_int_loop (rs_buffer rs) (rs_position rs) 0 (ucast ?b) 6 =
      Some (v, rs_position rs + 1 + length (unsigned5_from 1 ?m))"
    using read_int_loop_unsigned5 [of 0 ?m "rs_buffer rs" "rs_position rs" "ucast ?b"] v
      at_bytes_nth [OF assms, of "Suc _"] by (simp add: e)
  show ?thesis
    using read_at_bytes [of rs ?b "unsigned5_from 1 ?m"] assms b(1) loop
    by (simp add: e read_int_def read_int_mb_def stream_consts advance_def)
qed

interpretation int_codec: codec write_int read_int unsigned5
  by unfold_locales (auto intro: write_int_appends read_int_unsigned5)

interpretation sign_recoded: recoded_codec write_int read_int unsigned5 encode_sign decode_sign
  by unfold_locales (rule decode_encode_sign)

interpretation signed_codec: codec write_signed_int read_signed_int "\<lambda>v. unsigned5 (encode_sign v)"
  unfolding write_signed_int_def read_signed_int_def by unfold_locales

lemma ucast_jchar: "ucast (ucast v :: jint) = (v :: jchar)"
  by (rule word_bit_ext) (simp add: bit_ucast_iff)

lemma ucast_scast_short: "ucast (scast v :: jint) = (v :: 16 word)"
  by (rule word_bit_ext) (simp add: bit_ucast_iff bit_signed_iff)

interpretation char_recoded: recoded_codec write_int read_int unsigned5 "ucast :: jchar \<Rightarrow> jint" ucast
  by unfold_locales (rule ucast_jchar)

interpretation char_codec: codec write_char read_char "\<lambda>v. unsigned5 (ucast v)"
  unfolding write_char_def read_char_def by unfold_locales

interpretation short_recoded: recoded_codec write_signed_int read_signed_int
    "\<lambda>v. unsigned5 (encode_sign v)" "scast :: 16 word \<Rightarrow> jint" ucast
  by unfold_locales (rule ucast_scast_short)

interpretation short_codec: codec write_short read_short "\<lambda>v. unsigned5 (encode_sign (scast v))"
  unfolding write_short_def read_short_def by unfold_locales

interpretation float_recoded: recoded_codec write_int read_int unsigned5 reverse_int reverse_int
  by unfold_locales simp

interpretation float_codec: codec write_float read_float "\<lambda>v. unsigned5 (reverse_int v)"
  unfolding write_float_def read_float_def by unfold_locales

interpretation double_paired: paired_codec write_int read_int unsigned5
    "\<lambda>v. reverse_int (high v)" "\<lambda>v. reverse_int (low v)" "\<lambda>h l. jlong_from (reverse_int h) (reverse_int l)"
  by unfold_locales (simp add: jlong_from_high_low)

interpretation double_codec: codec write_double read_double
    "\<lambda>v. unsigned5 (reverse_int (high v)) @ unsigned5 (reverse_int (low v))"
  unfolding write_double_def read_double_def Let_def by unfold_locales

interpretation long_paired: paired_codec write_signed_int read_signed_int "\<lambda>v. unsigned5 (encode_sign v)"
    low high "\<lambda>l h. jlong_from h l"
  by unfold_locales (simp add: jlong_from_high_low)

interpretation long_codec: codec write_long read_long
    "\<lambda>v. unsigned5 (encode_sign (low v)) @ unsigned5 (encode_sign (high v))"
  unfolding write_long_def read_long_def by unfold_locales

section \<open>Whole streams\<close>

datatype stream_item =
    It_bool u1 | It_byte jbyte | It_char jchar | It_short "16 word" | It_int jint | It_signed_int jint
  | It_float jint | It_double jlong | It_long jlong

datatype stream_kind = K_bool | K_byte | K_char | K_short | K_int | K_signed_int | K_float | K_double | K_long

fun kind_of :: "stream_item \<Rightarrow> stream_kind" where
  "kind_of (It_bool _) = K_bool" | "kind_of (It_byte _) = K_byte" | "kind_of (It_char _) = K_char"
| "kind_of (It_short _) = K_short" | "kind_of (It_int _) = K_int" | "kind_of (It_signed_int _) = K_signed_int"
| "kind_of (It_float _) = K_float" | "kind_of (It_double _) = K_double" | "kind_of (It_long _) = K_long"

fun write_item :: "allocator \<Rightarrow> write_stream \<Rightarrow> stream_item \<Rightarrow> write_stream option" where
  "write_item fresh ws (It_bool v) = write_bool fresh ws v"
| "write_item fresh ws (It_byte v) = write_byte fresh ws v"
| "write_item fresh ws (It_char v) = write_char fresh ws v"
| "write_item fresh ws (It_short v) = write_short fresh ws v"
| "write_item fresh ws (It_int v) = write_int fresh ws v"
| "write_item fresh ws (It_signed_int v) = write_signed_int fresh ws v"
| "write_item fresh ws (It_float v) = write_float fresh ws v"
| "write_item fresh ws (It_double v) = write_double fresh ws v"
| "write_item fresh ws (It_long v) = write_long fresh ws v"

fun read_item :: "stream_kind \<Rightarrow> read_stream \<Rightarrow> (stream_item \<times> read_stream) option" where
  "read_item K_bool rs = map_option (apfst It_bool) (read_bool rs)"
| "read_item K_byte rs = map_option (apfst It_byte) (read_byte rs)"
| "read_item K_char rs = map_option (apfst It_char) (read_char rs)"
| "read_item K_short rs = map_option (apfst It_short) (read_short rs)"
| "read_item K_int rs = map_option (apfst It_int) (read_int rs)"
| "read_item K_signed_int rs = map_option (apfst It_signed_int) (read_signed_int rs)"
| "read_item K_float rs = map_option (apfst It_float) (read_float rs)"
| "read_item K_double rs = map_option (apfst It_double) (read_double rs)"
| "read_item K_long rs = map_option (apfst It_long) (read_long rs)"

fun write_items :: "allocator \<Rightarrow> write_stream \<Rightarrow> stream_item list \<Rightarrow> write_stream option" where
  "write_items fresh ws [] = Some ws"
| "write_items fresh ws (x # xs) = write_item fresh ws x \<bind> (\<lambda>ws. write_items fresh ws xs)"

fun read_items :: "stream_kind list \<Rightarrow> read_stream \<Rightarrow> (stream_item list \<times> read_stream) option" where
  "read_items [] rs = Some ([], rs)"
| "read_items (k # ks) rs = do {
     (x, rs) \<leftarrow> read_item k rs;
     (xs, rs) \<leftarrow> read_items ks rs;
     Some (x # xs, rs)
   }"

fun item_bytes :: "stream_item \<Rightarrow> u1 list" where
  "item_bytes (It_bool v) = [v]"
| "item_bytes (It_byte v) = [v]"
| "item_bytes (It_char v) = unsigned5 (ucast v)"
| "item_bytes (It_short v) = unsigned5 (encode_sign (scast v))"
| "item_bytes (It_int v) = unsigned5 v"
| "item_bytes (It_signed_int v) = unsigned5 (encode_sign v)"
| "item_bytes (It_float v) = unsigned5 (reverse_int v)"
| "item_bytes (It_double v) = unsigned5 (reverse_int (high v)) @ unsigned5 (reverse_int (low v))"
| "item_bytes (It_long v) = unsigned5 (encode_sign (low v)) @ unsigned5 (encode_sign (high v))"

lemmas item_write_enc = byte_codec.write_enc int_codec.write_enc signed_codec.write_enc char_codec.write_enc
  short_codec.write_enc float_codec.write_enc double_codec.write_enc long_codec.write_enc

lemmas item_read_enc = byte_codec.read_enc int_codec.read_enc signed_codec.read_enc char_codec.read_enc
  short_codec.read_enc float_codec.read_enc double_codec.read_enc long_codec.read_enc

lemma write_item_appends: "allocates fresh \<Longrightarrow> ws_wf ws \<Longrightarrow> succeeds (write_item fresh ws x) (appends ws (item_bytes x))"
  by (cases x) (simp_all add: write_bool_def write_byte_def item_write_enc)

lemma read_item_bytes: "at_bytes rs (item_bytes x) \<Longrightarrow>
    read_item (kind_of x) rs = Some (x, advance rs (length (item_bytes x)))"
  by (cases x) (simp_all add: read_bool_def read_byte_def item_read_enc del: length_append)

lemma write_items_appends:
  assumes "allocates fresh"
  shows "ws_wf ws \<Longrightarrow> succeeds (write_items fresh ws xs) (appends ws (concat (map item_bytes xs)))"
proof (induction xs arbitrary: ws)
  case (Cons x xs)
  obtain ws' where ws': "write_item fresh ws x = Some ws'" "appends ws (item_bytes x) ws'"
    using write_item_appends [OF assms Cons.prems] by (rule succeedsE)
  show ?case
    using succeeds_weaken [OF Cons.IH [OF appends_wf [OF ws'(2)]] appends_trans [OF ws'(2)]] ws'(1) by simp
qed (simp add: appends_def)

lemma read_items_bytes:
  "at_bytes rs (concat (map item_bytes xs)) \<Longrightarrow>
    read_items (map kind_of xs) rs = Some (xs, advance rs (length (concat (map item_bytes xs))))"
proof (induction xs arbitrary: rs)
  case (Cons x xs)
  then show ?case by (auto simp: at_bytes_append read_item_bytes)
qed (simp add: advance_def)

lemma unsigned5_from_grammar:
  "i \<le> 4 \<Longrightarrow> unsigned5_from i n \<noteq> [] \<and> length (unsigned5_from i n) \<le> 5 - i
    \<and> (\<forall>b \<in> set (butlast (unsigned5_from i n)). 192 \<le> unat b)
    \<and> (length (unsigned5_from i n) < 5 - i \<longrightarrow> unat (last (unsigned5_from i n)) < 192)"
proof (induction i n rule: unsigned5_from.induct)
  case (1 i n)
  show ?case
  proof (cases "n < 192 \<or> 4 \<le> i")
    case True
    then show ?thesis using 1(2) by (subst (1 2 3 4 5) unsigned5_from.simps) (auto simp: unat_of_nat_small)
  next
    case False
    then have "unsigned5_from i n = of_nat (192 + (n - 192) mod 64) # unsigned5_from (i + 1) ((n - 192) div 64)"
      by (subst unsigned5_from.simps) simp
    moreover have "5 - i = Suc (4 - i)" using False by linarith
    ultimately show ?thesis using 1(1) [OF False] False high_byte(1) [of "n - 192"] by auto
  qed
qed

section \<open>Properties\<close>

text \<open>
  C10: whatever sequence of values is written to a new stream with a positive initial size,
  reading the buffer from its start with the matching sequence of read operations returns exactly
  these values and ends at the position where the writer ended.
\<close>

theorem stream_roundtrip:
  assumes "allocates fresh" "0 < initial_size"
  shows "succeeds (write_items fresh (new_write_stream fresh initial_size) items) (\<lambda>ws. \<exists>rs.
    read_items (map kind_of items) \<lparr>rs_buffer = ws_buffer ws, rs_position = 0\<rparr> = Some (items, rs)
    \<and> rs_position rs = ws_position ws)"
proof -
  have "ws_wf (new_write_stream fresh initial_size)" "content (new_write_stream fresh initial_size) = []"
    using assms by (simp_all add: new_write_stream_def ws_wf_def allocates_def content_def)
  from write_items_appends [OF assms(1) this(1), of items] this(2)
  show ?thesis
  proof (elim succeeds_weaken)
    fix ws
    let ?bs = "concat (map item_bytes items)"
    assume "appends (new_write_stream fresh initial_size) ?bs ws" "content (new_write_stream fresh initial_size) = []"
    then have c: "take (ws_position ws) (ws_buffer ws) = ?bs" "ws_position ws \<le> length (ws_buffer ws)"
      by (simp_all add: appends_def content_def ws_wf_def)
    then have l: "length ?bs = ws_position ws" by (metis length_take min.absorb2)
    then have "at_bytes \<lparr>rs_buffer = ws_buffer ws, rs_position = 0\<rparr> ?bs" using c by (simp add: at_bytes_def)
    from read_items_bytes [OF this] l show "\<exists>rs. read_items (map kind_of items)
        \<lparr>rs_buffer = ws_buffer ws, rs_position = 0\<rparr> = Some (items, rs) \<and> rs_position rs = ws_position ws"
      by (simp add: advance_def)
  qed
qed

theorem stream_roundtrip_witness:
  "succeeds (write_items (\<lambda>n. replicate n 0) (new_write_stream (\<lambda>n. replicate n 0) 1)
      [It_int (- 1), It_long 123456789, It_double 0x4000000000000000, It_short (- 3)]) (\<lambda>ws. \<exists>rs.
    read_items [K_int, K_long, K_double, K_short] \<lparr>rs_buffer = ws_buffer ws, rs_position = 0\<rparr>
      = Some ([It_int (- 1), It_long 123456789, It_double 0x4000000000000000, It_short (- 3)], rs)
    \<and> rs_position rs = ws_position ws)"
  using stream_roundtrip [of "\<lambda>n. replicate n 0" 1
      "[It_int (- 1), It_long 123456789, It_double 0x4000000000000000, It_short (- 3)]"]
  by (simp add: allocates_def del: write_items.simps read_items.simps write_item.simps read_item.simps)

text \<open>
  C36: \<^verbatim>\<open>write_int\<close> appends between one and five bytes, one byte exactly for the values below
  192; all but the last are high codes, and the last is a low code unless it is the fifth.
\<close>

theorem unsigned5_grammar:
  assumes "allocates fresh" "ws_wf ws"
  shows "succeeds (write_int fresh ws v) (\<lambda>ws'. \<exists>bs. content ws' = content ws @ bs
    \<and> bs \<noteq> [] \<and> length bs \<le> 5 \<and> (length bs = 1 \<longleftrightarrow> unat v < 192)
    \<and> (\<forall>b \<in> set (butlast bs). 192 \<le> unat b) \<and> (length bs < 5 \<longrightarrow> unat (last bs) < 192))"
proof -
  have "length (unsigned5 v) = 1 \<longleftrightarrow> unat v < 192"
  proof (cases "unat v < 192")
    case False
    then have "unsigned5 v = of_nat (192 + (unat v - 192) mod 64) # unsigned5_from 1 ((unat v - 192) div 64)"
      unfolding unsigned5_def by (subst unsigned5_from.simps) simp
    then show ?thesis using unsigned5_from_grammar [of 1 "(unat v - 192) div 64"] False by simp
  qed (simp add: unsigned5_short)
  then show ?thesis
    using succeeds_weaken [OF write_int_appends [OF assms, of v]] unsigned5_from_grammar [of 0 "unat v"]
    by (simp add: appends_def flip: unsigned5_def)
qed

theorem unsigned5_grammar_witness:
  "succeeds (write_int (\<lambda>n. replicate n 0) \<lparr>ws_buffer = [7, 8], ws_position = 1, ws_size = 2\<rparr> 1000) (\<lambda>ws'. \<exists>bs.
    content ws' = [7] @ bs \<and> length bs \<noteq> 1)"
  by (rule succeeds_weaken [OF unsigned5_grammar [of "\<lambda>n. replicate n 0" "\<lparr>ws_buffer = [7, 8], ws_position = 1, ws_size = 2\<rparr>" 1000]])
    (auto simp: allocates_def ws_wf_def content_def)

end
