(* ===== verification/Oop_Recorder.thy ===== *)
theory Oop_Recorder
  imports Global_Definitions
begin

text \<open>
  \<^verbatim>\<open>code/oopRecorder.hpp\<close> and \<^verbatim>\<open>oopRecorder.cpp\<close>: the tables that number the oops and metadata of a compiled
  method.  A \<^verbatim>\<open>ValueRecorder\<close> is the list of its handles, the indexes that \<^verbatim>\<open>find_index\<close> must not return,
  and a lossy cache from handles to indexes whose entries carry a collision bit.  Handles are
  addresses; \<open>non_oop\<close> stands for \<^verbatim>\<open>Universe::non_oop_word()\<close>.  Indexes and the \<^verbatim>\<open>int\<close> cache entries are
  natural numbers; the result \<^verbatim>\<open>-1\<close> of \<^verbatim>\<open>maybe_find_index\<close> is \<open>None\<close>.
\<close>

section \<open>The index cache\<close>

type_synonym handle = uintptr

definition cache_size :: nat where
  "cache_size = 2 ^ 9"

definition cache_index :: "handle \<Rightarrow> nat" where
  "cache_index h =
     (let ci = ucast h :: juint;
          ci = ci XOR drop_bit 16 ci;
          ci = ci + drop_bit 8 ci
      in unat (ci AND (of_nat cache_size - 1)))"

definition cache_location_collision :: "nat \<Rightarrow> bool" where
  "cache_location_collision cval \<longleftrightarrow> cval AND 1 \<noteq> 0"

definition cache_location_index :: "nat \<Rightarrow> nat" where
  "cache_location_index cval = drop_bit 1 cval"

definition set_cache_location_index :: "nat list \<Rightarrow> nat \<Rightarrow> nat \<Rightarrow> nat list option" where
  "set_cache_location_index cache cloc index = do {
     cval0 \<leftarrow> array_get cache cloc;
     let cval1 = push_bit 1 index;
     array_put cache cloc (if cval0 \<noteq> 0 \<and> cval1 \<noteq> cval0 then cval1 + 1 else cval1)
   }"

section \<open>The recorder\<close>

record value_recorder =
  vr_handles :: "handle list option"
  vr_no_finds :: "nat list"
  vr_indexes :: "nat list option"
  vr_arena :: bool
  vr_complete :: bool

definition new_value_recorder :: "bool \<Rightarrow> value_recorder" where
  "new_value_recorder arena =
     \<lparr>vr_handles = None, vr_no_finds = [], vr_indexes = None, vr_arena = arena, vr_complete = False\<rparr>"

definition first_index :: nat where
  "first_index = 1"

definition index_cache_threshold :: nat where
  "index_cache_threshold = 20"

definition is_real :: "handle \<Rightarrow> handle \<Rightarrow> bool" where
  "is_real non_oop h \<longleftrightarrow> h \<noteq> 0 \<and> h \<noteq> non_oop"

definition maybe_initialize :: "value_recorder \<Rightarrow> value_recorder" where
  "maybe_initialize vr =
     (if vr_handles vr = None then vr\<lparr>vr_handles := Some [], vr_no_finds := []\<rparr> else vr)"

definition vr_size :: "value_recorder \<Rightarrow> nat \<times> value_recorder" where
  "vr_size vr =
     ((case vr_handles vr of None \<Rightarrow> 0 | Some hs \<Rightarrow> length hs * 8), vr\<lparr>vr_complete := True\<rparr>)"

definition vr_count :: "value_recorder \<Rightarrow> nat" where
  "vr_count vr = (case vr_handles vr of None \<Rightarrow> 0 | Some hs \<Rightarrow> length hs + first_index)"

definition vr_is_unused :: "value_recorder \<Rightarrow> bool" where
  "vr_is_unused vr \<longleftrightarrow> vr_handles vr = None \<and> \<not> vr_complete vr"

definition vr_at :: "value_recorder \<Rightarrow> nat \<Rightarrow> handle option" where
  "vr_at vr index =
     (if index = 0 then Some 0
      else do { hs \<leftarrow> vr_handles vr; array_get hs (index - first_index) })"

definition load_cache :: "nat list \<Rightarrow> handle list \<Rightarrow> nat list option" where
  "load_cache no_finds hs =
     for_loop 0 (length hs) (\<lambda>i cache.
       let index0 = i + first_index
       in if index0 \<in> set no_finds then Some cache
          else do {
            h \<leftarrow> array_get hs i;
            set_cache_location_index cache (cache_index h) index0
          }) (replicate cache_size 0)"

definition add_handle :: "handle \<Rightarrow> value_recorder \<Rightarrow> handle \<Rightarrow> bool \<Rightarrow> (nat \<times> value_recorder) option" where
  "add_handle non_oop vr0 h make_findable = do {
     let vr = maybe_initialize vr0;
     hs \<leftarrow> vr_handles vr;
     let index = length hs + first_index;
     let vr = vr\<lparr>vr_handles := Some (hs @ [h])\<rparr>;
     vr \<leftarrow> (if make_findable
           then case vr_indexes vr of
               Some cache \<Rightarrow> do {
                 cache \<leftarrow> set_cache_location_index cache (cache_index h) index;
                 Some (vr\<lparr>vr_indexes := Some cache\<rparr>)
               }
             | None \<Rightarrow>
                 if index = index_cache_threshold \<and> vr_arena vr
                 then do {
                   cache \<leftarrow> load_cache (vr_no_finds vr) (hs @ [h]);
                   Some (vr\<lparr>vr_indexes := Some cache\<rparr>)
                 }
                 else Some vr
           else if is_real non_oop h then Some (vr\<lparr>vr_no_finds := vr_no_finds vr @ [index]\<rparr>)
           else Some vr);
     Some (index, vr)
   }"

text \<open>The linear search, most recent to oldest: positions \<open>n - 1\<close> down to 0.\<close>

fun search_handle :: "nat list \<Rightarrow> handle list \<Rightarrow> handle \<Rightarrow> nat \<Rightarrow> nat option option" where
  "search_handle no_finds hs h 0 = Some None"
| "search_handle no_finds hs h (Suc i) = do {
     x \<leftarrow> array_get hs i;
     if x = h \<and> i + first_index \<notin> set no_finds then Some (Some (i + first_index))
     else search_handle no_finds hs h i
   }"

definition maybe_find_index :: "value_recorder \<Rightarrow> handle \<Rightarrow> (nat option \<times> value_recorder) option" where
  "maybe_find_index vr0 h =
     (let vr = maybe_initialize vr0
      in if h = 0 then Some (Some 0, vr)
         else do {
           hs \<leftarrow> vr_handles vr;
           (case vr_indexes vr of
              None \<Rightarrow> do { r \<leftarrow> search_handle (vr_no_finds vr) hs h (length hs); Some (r, vr) }
            | Some cache \<Rightarrow> do {
                cval \<leftarrow> array_get cache (cache_index h);
                let cindex = cache_location_index cval;
                if cindex = 0 then Some (None, vr)
                else do {
                  x \<leftarrow> array_get hs (cindex - first_index);
                  if x = h then Some (Some cindex, vr)
                  else if \<not> cache_location_collision cval then Some (None, vr)
                  else do {
                    r \<leftarrow> search_handle (vr_no_finds vr) hs h (length hs);
                    (case r of
                       None \<Rightarrow> Some (None, vr)
                     | Some findex \<Rightarrow> do {
                         cache \<leftarrow> set_cache_location_index cache (cache_index h) findex;
                         Some (Some findex, vr\<lparr>vr_indexes := Some cache\<rparr>)
                       })
                  }
                }
              })
         })"

definition vr_find_index :: "handle \<Rightarrow> value_recorder \<Rightarrow> handle \<Rightarrow> (nat \<times> value_recorder) option" where
  "vr_find_index non_oop vr h = do {
     (r, vr) \<leftarrow> maybe_find_index vr h;
     (case r of None \<Rightarrow> add_handle non_oop vr h True | Some index \<Rightarrow> Some (index, vr))
   }"

definition vr_allocate_index :: "handle \<Rightarrow> value_recorder \<Rightarrow> handle \<Rightarrow> (nat \<times> value_recorder) option" where
  "vr_allocate_index non_oop vr h = add_handle non_oop vr h False"

section \<open>The recorder of a compiled method\<close>

record oop_recorder =
  or_oops :: value_recorder
  or_metadata :: value_recorder

text \<open>Without deduplication, that is with \<^verbatim>\<open>_object_lookup == NULL\<close>.\<close>

definition new_oop_recorder :: "bool \<Rightarrow> oop_recorder" where
  "new_oop_recorder arena = \<lparr>or_oops = new_value_recorder arena, or_metadata = new_value_recorder arena\<rparr>"

definition or_allocate_oop_index :: "handle \<Rightarrow> oop_recorder \<Rightarrow> handle \<Rightarrow> (nat \<times> oop_recorder) option" where
  "or_allocate_oop_index non_oop r h = do { (i, v) \<leftarrow> vr_allocate_index non_oop (or_oops r) h; Some (i, r\<lparr>or_oops := v\<rparr>) }"

definition or_find_oop_index :: "handle \<Rightarrow> oop_recorder \<Rightarrow> handle \<Rightarrow> (nat \<times> oop_recorder) option" where
  "or_find_oop_index non_oop r h = do { (i, v) \<leftarrow> vr_find_index non_oop (or_oops r) h; Some (i, r\<lparr>or_oops := v\<rparr>) }"

definition or_oop_at :: "oop_recorder \<Rightarrow> nat \<Rightarrow> handle option" where
  "or_oop_at r index = vr_at (or_oops r) index"

definition or_allocate_metadata_index :: "handle \<Rightarrow> oop_recorder \<Rightarrow> handle \<Rightarrow> (nat \<times> oop_recorder) option" where
  "or_allocate_metadata_index non_oop r h =
     do { (i, v) \<leftarrow> vr_allocate_index non_oop (or_metadata r) h; Some (i, r\<lparr>or_metadata := v\<rparr>) }"

definition or_find_metadata_index :: "handle \<Rightarrow> oop_recorder \<Rightarrow> handle \<Rightarrow> (nat \<times> oop_recorder) option" where
  "or_find_metadata_index non_oop r h =
     do { (i, v) \<leftarrow> vr_find_index non_oop (or_metadata r) h; Some (i, r\<lparr>or_metadata := v\<rparr>) }"

definition or_metadata_at :: "oop_recorder \<Rightarrow> nat \<Rightarrow> handle option" where
  "or_metadata_at r index = vr_at (or_metadata r) index"

definition or_is_unused :: "oop_recorder \<Rightarrow> bool" where
  "or_is_unused r \<longleftrightarrow> vr_is_unused (or_oops r) \<and> vr_is_unused (or_metadata r)"

definition or_freeze :: "oop_recorder \<Rightarrow> oop_recorder" where
  "or_freeze r = r\<lparr>or_oops := snd (vr_size (or_oops r)), or_metadata := snd (vr_size (or_metadata r))\<rparr>"

section \<open>The invariant\<close>

text \<open>The positions \<^verbatim>\<open>find_index\<close> may return.\<close>

definition findable :: "nat list \<Rightarrow> handle list \<Rightarrow> nat \<Rightarrow> bool" where
  "findable no_finds hs i \<longleftrightarrow> i < length hs \<and> Suc i \<notin> set no_finds"

text \<open>The cache slot of position \<open>i\<close> is taken, and without a collision by \<open>i\<close> itself.\<close>

definition slot_ok :: "handle list \<Rightarrow> nat list \<Rightarrow> nat \<Rightarrow> bool" where
  "slot_ok hs cache i \<longleftrightarrow> (let cval = cache ! cache_index (hs ! i)
     in cval \<noteq> 0 \<and> (even cval \<longrightarrow> cval = Suc i * 2))"

text \<open>What the cache guarantees for the first \<open>k\<close> positions.\<close>

definition cache_ok :: "handle \<Rightarrow> nat list \<Rightarrow> handle list \<Rightarrow> nat \<Rightarrow> nat list \<Rightarrow> bool" where
  "cache_ok non_oop no_finds hs k cache \<longleftrightarrow> length cache = cache_size
     \<and> (\<forall>i < k. findable no_finds hs i \<longrightarrow> is_real non_oop (hs ! i) \<longrightarrow> slot_ok hs cache i)
     \<and> (\<forall>c < cache_size. cache ! c \<noteq> 0 \<longrightarrow> 0 < cache ! c div 2 \<and> findable no_finds hs (cache ! c div 2 - 1))"

definition table_ok :: "handle \<Rightarrow> nat list \<Rightarrow> handle list \<Rightarrow> nat list option \<Rightarrow> bool" where
  "table_ok non_oop no_finds hs indexes \<longleftrightarrow>
       (\<forall>n \<in> set no_finds. n \<le> length hs)
     \<and> (\<forall>i j. findable no_finds hs i \<longrightarrow> findable no_finds hs j \<longrightarrow>
          is_real non_oop (hs ! i) \<longrightarrow> hs ! i = hs ! j \<longrightarrow> i = j)
     \<and> (\<forall>cache. indexes = Some cache \<longrightarrow> cache_ok non_oop no_finds hs (length hs) cache)"

definition vr_inv :: "handle \<Rightarrow> value_recorder \<Rightarrow> bool" where
  "vr_inv non_oop vr \<longleftrightarrow> (case vr_handles vr of
     None \<Rightarrow> vr_indexes vr = None
   | Some hs \<Rightarrow> table_ok non_oop (vr_no_finds vr) hs (vr_indexes vr))"

section \<open>The cache finds what is in the table\<close>

lemma cache_index_bound: "cache_index h < cache_size"
proof -
  have "(of_nat cache_size - 1 :: juint) = mask 9" by (simp add: cache_size_def mask_eq_exp_minus_1)
  then have "unat (w AND (of_nat cache_size - 1)) < 2 ^ 9" for w :: juint
    using take_bit_nat_less_exp [of 9 "unat w"] by (simp add: unsigned_take_bit_eq flip: take_bit_eq_mask)
  then show ?thesis by (simp add: cache_index_def Let_def cache_size_def)
qed

lemma location_index: "cache_location_index cval = cval div 2"
  by (simp add: cache_location_index_def drop_bit_eq_div)

lemma location_collision: "cache_location_collision cval \<longleftrightarrow> odd cval"
  by (simp add: cache_location_collision_def and_one_eq odd_iff_mod_2_eq_one)

lemma findable_append: "i < length hs \<Longrightarrow> findable nf (hs @ [h]) i \<longleftrightarrow> findable nf hs i"
  by (simp add: findable_def)

lemma set_cache:
  assumes "cache_ok n nf hs k cache" "findable nf hs i" "h = hs ! i"
  shows "succeeds (set_cache_location_index cache (cache_index h) (Suc i))
    (\<lambda>cache'. cache_ok n nf hs k cache' \<and> slot_ok hs cache' i)"
proof -
  let ?c = "cache_index (hs ! i)"
  define v where "v = (if cache ! ?c \<noteq> 0 \<and> push_bit 1 (Suc i) \<noteq> cache ! ?c then push_bit 1 (Suc i) + 1 else push_bit 1 (Suc i))"
  let ?cache = "cache[?c := v]"
  have v: "v \<noteq> 0" "v div 2 = Suc i" "even v \<longrightarrow> v = Suc i * 2" "cache ! ?c \<noteq> 0 \<longrightarrow> odd v \<or> v = cache ! ?c"
    by (auto simp: v_def push_bit_eq_mult)
  have len: "length cache = cache_size" using assms(1) by (simp add: cache_ok_def)
  have c: "?c < cache_size" by (rule cache_index_bound)
  have slot: "slot_ok hs ?cache i" using c len v by (simp add: slot_ok_def)
  have "slot_ok hs ?cache j" if "slot_ok hs cache j" for j
    using that c len v by (cases "cache_index (hs ! j) = ?c") (auto simp: slot_ok_def Let_def)
  moreover have "0 < ?cache ! d div 2 \<and> findable nf hs (?cache ! d div 2 - 1)" if "d < cache_size" "?cache ! d \<noteq> 0" for d
    using that assms(1,2) len v by (cases "d = ?c") (auto simp: cache_ok_def)
  ultimately have "cache_ok n nf hs k ?cache" using assms(1) len by (simp add: cache_ok_def)
  moreover have "set_cache_location_index cache (cache_index h) (Suc i) = Some ?cache"
    using len c by (simp only: set_cache_location_index_def assms(3) v_def Let_def array_get_Some array_put_Some Option.bind.bind_lunit)
  ultimately show ?thesis using slot by simp
qed

lemma cache_ok_Suc:
  "cache_ok n nf hs k cache \<Longrightarrow> (findable nf hs k \<Longrightarrow> is_real n (hs ! k) \<Longrightarrow> slot_ok hs cache k) \<Longrightarrow>
    cache_ok n nf hs (Suc k) cache"
  by (auto simp: cache_ok_def less_Suc_eq)

lemma load_cache_ok: "succeeds (load_cache nf hs) (cache_ok n nf hs (length hs))"
  unfolding load_cache_def
proof (rule for_loop_rule [where I = "cache_ok n nf hs"])
  show "cache_ok n nf hs 0 (replicate cache_size 0)" by (simp add: cache_ok_def)
next
  fix k cache assume k: "k < length hs" "cache_ok n nf hs k cache"
  show "succeeds (let index0 = k + first_index in if index0 \<in> set nf then Some cache
      else do { h \<leftarrow> array_get hs k; set_cache_location_index cache (cache_index h) index0 })
      (cache_ok n nf hs (Suc k))"
  proof (cases "Suc k \<in> set nf")
    case True
    then show ?thesis using k by (auto simp: first_index_def findable_def intro!: cache_ok_Suc)
  next
    case False
    then have "findable nf hs k" using k(1) by (simp add: findable_def)
    from succeeds_weaken [OF set_cache [OF k(2) this refl], of "cache_ok n nf hs (Suc k)"] False k(1)
    show ?thesis by (simp add: first_index_def vcg cache_ok_Suc)
  qed
qed simp

lemma search_handle_spec:
  "m \<le> length hs \<Longrightarrow> succeeds (search_handle nf hs h m) (\<lambda>r. case r of
     None \<Rightarrow> \<forall>i < m. findable nf hs i \<longrightarrow> hs ! i \<noteq> h
   | Some x \<Rightarrow> \<exists>i. x = Suc i \<and> findable nf hs i \<and> hs ! i = h)"
proof (induction m)
  case (Suc m)
  then show ?case
    by (auto simp: vcg first_index_def findable_def less_Suc_eq elim!: succeeds_weaken split: option.splits)
qed simp

definition found :: "nat list \<Rightarrow> handle list \<Rightarrow> handle \<Rightarrow> nat option \<Rightarrow> bool" where
  "found nf hs h r \<longleftrightarrow> (case r of
     None \<Rightarrow> \<forall>i. findable nf hs i \<longrightarrow> hs ! i \<noteq> h
   | Some x \<Rightarrow> \<exists>i. x = Suc i \<and> findable nf hs i \<and> hs ! i = h)"

lemma search_handle_found: "succeeds (search_handle nf hs h (length hs)) (found nf hs h)"
  by (rule succeeds_weaken [OF search_handle_spec]) (auto simp: found_def findable_def split: option.splits)

lemma table_ok_cache: "table_ok n nf hs ix \<Longrightarrow> cache_ok n nf hs (length hs) cache \<Longrightarrow> table_ok n nf hs (Some cache)"
  unfolding table_ok_def by (elim conjE, intro conjI) (assumption | simp)+

lemma maybe_find_index_found:
  assumes "vr_handles vr = Some hs" "table_ok n (vr_no_finds vr) hs (vr_indexes vr)" "is_real n h"
  shows "succeeds (maybe_find_index vr h) (\<lambda>(r, vr'). found (vr_no_finds vr) hs h r
    \<and> (\<exists>indexes. vr' = vr\<lparr>vr_indexes := indexes\<rparr> \<and> table_ok n (vr_no_finds vr) hs indexes))"
proof -
  let ?nf = "vr_no_finds vr"
  have init: "maybe_initialize vr = vr" and h0: "h \<noteq> 0"
    using assms by (simp_all add: maybe_initialize_def is_real_def)
  show ?thesis
  proof (cases "vr_indexes vr")
    case None
    then have "maybe_find_index vr h = search_handle ?nf hs h (length hs) \<bind> (\<lambda>r. Some (r, vr))"
      using assms(1) init h0 by (simp add: maybe_find_index_def)
    then show ?thesis
      using search_handle_found [of ?nf hs h] None assms(2)
      by (auto simp: succeeds_iff intro!: exI [of _ "None :: nat list option"])
  next
    case (Some cache)
    have ok: "cache_ok n ?nf hs (length hs) cache" using assms(2) Some by (simp add: table_ok_def)
    let ?c = "cache_index h"
    let ?cval = "cache ! ?c"
    have len: "?c < length cache" using ok cache_index_bound [of h] by (simp add: cache_ok_def)
    have same: "\<exists>indexes. vr = vr\<lparr>vr_indexes := indexes\<rparr> \<and> table_ok n ?nf hs indexes"
      using assms(2) by (intro exI [of _ "vr_indexes vr"]) simp
    have slot: "slot_ok hs cache i" if "findable ?nf hs i" "hs ! i = h" for i
      using ok that assms(3) by (auto simp: cache_ok_def findable_def)
    show ?thesis
    proof (cases "?cval div 2 = 0")
      case True
      have "\<not> (findable ?nf hs i \<and> hs ! i = h)" for i
        using slot [of i] True ok len by (auto simp: slot_ok_def Let_def cache_ok_def)
      then show ?thesis
        using True Some assms(1) init h0 len same
        by (simp add: maybe_find_index_def Let_def vcg location_index found_def)
    next
      case nz: False
      let ?x = "hs ! (?cval div 2 - 1)"
      have x: "findable ?nf hs (?cval div 2 - 1)" using ok nz len by (auto simp: cache_ok_def)
      then have xl: "?cval div 2 - 1 < length hs" by (simp add: findable_def)
      show ?thesis
      proof (cases "?x = h")
        case True
        then have "found ?nf hs h (Some (?cval div 2))"
          using x nz by (auto simp: found_def intro!: exI [of _ "?cval div 2 - 1"])
        then show ?thesis
          using True nz Some assms(1) init h0 len same xl
          by (simp add: maybe_find_index_def Let_def vcg location_index first_index_def)
      next
        case False
        show ?thesis
        proof (cases "odd ?cval")
          case odd: False
          have "\<not> (findable ?nf hs i \<and> hs ! i = h)" for i
            using slot [of i] odd False by (auto simp: slot_ok_def Let_def)
          then show ?thesis
            using False odd nz Some assms(1) init h0 len same xl
            by (simp add: maybe_find_index_def Let_def vcg location_index location_collision first_index_def found_def)
        next
          case odd: True
          obtain r where r: "search_handle ?nf hs h (length hs) = Some r" "found ?nf hs h r"
            using search_handle_found by (rule succeedsE)
          show ?thesis
          proof (cases r)
            case None
            then show ?thesis
              using r False odd nz Some assms(1) init h0 len same xl
              by (simp add: maybe_find_index_def Let_def vcg location_index location_collision first_index_def)
          next
            case r': (Some y)
            then obtain i where i: "y = Suc i" "findable ?nf hs i" "hs ! i = h" using r(2) by (auto simp: found_def)
            obtain cache' where c': "set_cache_location_index cache ?c (Suc i) = Some cache'"
              "cache_ok n ?nf hs (length hs) cache'"
              using set_cache [OF ok i(2) i(3) [symmetric]] by (auto simp: succeeds_iff)
            then have "table_ok n ?nf hs (Some cache')" by (intro table_ok_cache [OF assms(2)])
            then show ?thesis
              using r r' i(1) c'(1) False odd nz Some assms(1) init h0 len xl
              by (auto simp: maybe_find_index_def Let_def vcg location_index location_collision first_index_def)
          qed
        qed
      qed
    qed
  qed
qed

lemma cache_ok_append:
  assumes "cache_ok n nf hs (length hs) cache" "\<And>i. i < length hs \<Longrightarrow> findable nf' (hs @ [h]) i = findable nf hs i"
  shows "cache_ok n nf' (hs @ [h]) (length hs) cache"
proof -
  have "slot_ok (hs @ [h]) cache i = slot_ok hs cache i" if "i < length hs" for i
    using that by (simp add: slot_ok_def nth_append)
  moreover have "findable nf hs i \<Longrightarrow> i < length hs" for i by (simp add: findable_def)
  ultimately show ?thesis using assms by (auto simp: cache_ok_def nth_append)
qed

lemma table_ok_append_findable:
  assumes "table_ok n nf hs ix" "found nf hs h None"
  shows "table_ok n nf (hs @ [h]) None" "findable nf (hs @ [h]) (length hs)"
proof -
  show f: "findable nf (hs @ [h]) (length hs)" using assms(1) by (fastforce simp: table_ok_def findable_def)
  have "i = j" if "findable nf (hs @ [h]) i" "findable nf (hs @ [h]) j" "is_real n ((hs @ [h]) ! i)"
    "(hs @ [h]) ! i = (hs @ [h]) ! j" for i j
  proof -
    have "i < length hs \<Longrightarrow> findable nf hs i" "j < length hs \<Longrightarrow> findable nf hs j"
      using that(1,2) by (simp_all add: findable_def)
    moreover have "i \<le> length hs" "j \<le> length hs" using that(1,2) by (simp_all add: findable_def)
    ultimately show ?thesis
      using that(3,4) assms by (auto simp: nth_append table_ok_def found_def split: if_splits)
  qed
  then show "table_ok n nf (hs @ [h]) None" using assms(1) by (auto simp: table_ok_def)
qed

lemma table_ok_append_hidden:
  assumes "table_ok n nf hs ix" "is_real n h \<Longrightarrow> nf' = nf @ [Suc (length hs)]" "\<not> is_real n h \<Longrightarrow> nf' = nf"
  shows "table_ok n nf' (hs @ [h]) ix"
proof -
  have old: "i < length hs \<Longrightarrow> findable nf' (hs @ [h]) i = findable nf hs i" for i
    using assms(2,3) by (cases "is_real n h") (auto simp: findable_def)
  have new: "findable nf' (hs @ [h]) (length hs) \<Longrightarrow> \<not> is_real n h" using assms(2) by (auto simp: findable_def)
  have bound: "\<forall>m \<in> set nf'. m \<le> length (hs @ [h])"
    using assms by (cases "is_real n h") (auto simp: table_ok_def)
  have uniq: "i = j" if "findable nf' (hs @ [h]) i" "findable nf' (hs @ [h]) j" "is_real n ((hs @ [h]) ! i)"
    "(hs @ [h]) ! i = (hs @ [h]) ! j" for i j
  proof -
    have "i \<le> length hs" "j \<le> length hs" using that(1,2) by (simp_all add: findable_def)
    moreover have "i \<noteq> length hs" "j \<noteq> length hs" using that new by auto
    ultimately have "i < length hs" "j < length hs" by simp_all
    then show ?thesis using that old assms(1) by (simp add: nth_append table_ok_def)
  qed
  have "cache_ok n nf' (hs @ [h]) (length (hs @ [h])) cache" if "ix = Some cache" for cache
  proof -
    have "cache_ok n nf hs (length hs) cache" using assms(1) that by (simp add: table_ok_def)
    from cache_ok_Suc [OF cache_ok_append [OF this old]] new show ?thesis by simp
  qed
  then show ?thesis using bound uniq unfolding table_ok_def by blast
qed

section \<open>The recorder as a table of values\<close>

definition vr_table :: "value_recorder \<Rightarrow> handle list" where
  "vr_table vr = (case vr_handles vr of None \<Rightarrow> [] | Some hs \<Rightarrow> hs)"

lemma vr_at_table: "vr_at vr (Suc i) = array_get (vr_table vr) i"
  by (cases "vr_handles vr") (simp_all add: vr_at_def vr_table_def first_index_def array_get_def)

lemma initialized:
  assumes "vr_inv n vr"
  shows "vr_handles (maybe_initialize vr) = Some (vr_table vr)"
    "table_ok n (vr_no_finds (maybe_initialize vr)) (vr_table vr) (vr_indexes (maybe_initialize vr))"
    "maybe_initialize (maybe_initialize vr) = maybe_initialize vr"
  using assms by (auto simp: maybe_initialize_def vr_table_def vr_inv_def table_ok_def findable_def split: option.splits)

text \<open>\<open>vr'\<close> extends \<open>vr\<close> by the handles \<open>xs\<close>.\<close>

definition extends :: "handle \<Rightarrow> value_recorder \<Rightarrow> handle list \<Rightarrow> value_recorder \<Rightarrow> bool" where
  "extends n vr xs vr' \<longleftrightarrow> vr_inv n vr' \<and> vr_table vr' = vr_table vr @ xs"

lemma add_handle_findable:
  assumes "vr_handles vr = Some hs" "table_ok n (vr_no_finds vr) hs (vr_indexes vr)"
    "found (vr_no_finds vr) hs h None" "is_real n h"
  shows "succeeds (add_handle n vr h True) (\<lambda>(i, vr'). i = Suc (length hs) \<and> vr_no_finds vr' = vr_no_finds vr
    \<and> findable (vr_no_finds vr') (hs @ [h]) (length hs)
    \<and> vr_handles vr' = Some (hs @ [h]) \<and> table_ok n (vr_no_finds vr') (hs @ [h]) (vr_indexes vr'))"
proof -
  let ?nf = "vr_no_finds vr"
  have init: "maybe_initialize vr = vr" using assms(1) by (simp add: maybe_initialize_def)
  note app = table_ok_append_findable [OF assms(2,3)]
  show ?thesis
  proof (cases "vr_indexes vr")
    case (Some cache)
    have "cache_ok n ?nf hs (length hs) cache" using assms(2) Some by (simp add: table_ok_def)
    from cache_ok_append [OF this findable_append]
    have "cache_ok n ?nf (hs @ [h]) (length hs) cache" .
    from set_cache [OF this app(2), of h] obtain cache' where
      c': "set_cache_location_index cache (cache_index h) (Suc (length hs)) = Some cache'"
      "cache_ok n ?nf (hs @ [h]) (length hs) cache'" "slot_ok (hs @ [h]) cache' (length hs)"
      by (auto simp: succeeds_iff)
    have "cache_ok n ?nf (hs @ [h]) (length (hs @ [h])) cache'" using cache_ok_Suc [OF c'(2)] c'(3) by simp
    from table_ok_cache [OF app(1) this] show ?thesis
      using assms(1) init Some c'(1) app(2) by (simp add: add_handle_def first_index_def Let_def)
  next
    case None
    obtain cache where c: "load_cache ?nf (hs @ [h]) = Some cache" "cache_ok n ?nf (hs @ [h]) (length (hs @ [h])) cache"
      using load_cache_ok by (rule succeedsE)
    from table_ok_cache [OF app(1) c(2)] show ?thesis
      using assms(1) init None c(1) app by (simp add: add_handle_def first_index_def Let_def)
  qed
qed

lemma find_index_step:
  assumes "vr_inv n vr" "h = 0 \<or> is_real n h"
  shows "succeeds (vr_find_index n vr h) (\<lambda>(i, vr'). vr_inv n vr' \<and> (\<exists>xs. vr_table vr' = vr_table vr @ xs)
    \<and> vr_at vr' i = Some h \<and> vr_no_finds vr' = vr_no_finds (maybe_initialize vr) \<and> vr_handles vr' \<noteq> None
    \<and> (h = 0 \<longrightarrow> i = 0)
    \<and> (h \<noteq> 0 \<longrightarrow> (\<exists>k. i = Suc k \<and> findable (vr_no_finds vr') (vr_table vr') k)))"
proof (cases "h = 0")
  case True
  then show ?thesis
    using initialized [OF assms(1)]
    by (simp add: vr_find_index_def maybe_find_index_def vr_at_def) (auto simp: vr_inv_def vr_table_def)
next
  case False
  let ?vr = "maybe_initialize vr" and ?hs = "vr_table vr"
  let ?nf = "vr_no_finds ?vr"
  note init = initialized [OF assms(1)]
  have real: "is_real n h" using False assms(2) by simp
  have "maybe_find_index vr h = maybe_find_index ?vr h" by (simp add: maybe_find_index_def init(3))
  then obtain r ix where r: "maybe_find_index vr h = Some (r, ?vr\<lparr>vr_indexes := ix\<rparr>)" "found ?nf ?hs h r" "table_ok n ?nf ?hs ix"
    using maybe_find_index_found [OF init(1,2) real] by (auto simp: succeeds_iff)
  show ?thesis
  proof (cases r)
    case None
    let ?vr' = "?vr\<lparr>vr_indexes := ix\<rparr>"
    have "succeeds (add_handle n ?vr' h True) (\<lambda>(i, vr'). i = Suc (length ?hs) \<and> vr_no_finds vr' = vr_no_finds ?vr'
        \<and> findable (vr_no_finds vr') (?hs @ [h]) (length ?hs)
        \<and> vr_handles vr' = Some (?hs @ [h]) \<and> table_ok n (vr_no_finds vr') (?hs @ [h]) (vr_indexes vr'))"
      by (rule add_handle_findable) (use init(1) r None real in auto)
    then show ?thesis
      using r(1) None False by (auto simp: vr_find_index_def succeeds_iff vr_inv_def vr_table_def vr_at_table mem_simps)
  next
    case (Some x)
    then obtain i where "x = Suc i" "findable ?nf ?hs i" "?hs ! i = h" using r(2) by (auto simp: found_def)
    then show ?thesis
      using r Some init(1) False
      by (auto simp: vr_find_index_def vr_inv_def vr_table_def vr_at_table mem_simps findable_def)
  qed
qed

lemma allocate_index_step:
  assumes "vr_inv n vr"
  shows "succeeds (vr_allocate_index n vr h) (\<lambda>(i, vr'). vr_inv n vr' \<and> vr_table vr' = vr_table vr @ [h]
    \<and> i = Suc (length (vr_table vr)) \<and> vr_at vr' i = Some h \<and> vr_handles vr' \<noteq> None
    \<and> (is_real n h \<longrightarrow> i \<in> set (vr_no_finds vr')))"
proof -
  let ?vr = "maybe_initialize vr" and ?hs = "vr_table vr"
  note init = initialized [OF assms]
  let ?nf = "if is_real n h then vr_no_finds ?vr @ [Suc (length ?hs)] else vr_no_finds ?vr"
  have "table_ok n ?nf (?hs @ [h]) (vr_indexes ?vr)" by (rule table_ok_append_hidden [OF init(2)]) simp_all
  then show ?thesis
    using init(1)
    by (auto simp: vr_allocate_index_def add_handle_def first_index_def Let_def vr_inv_def vr_table_def vr_at_table mem_simps)
qed

text \<open>A second search finds the position of the first.\<close>

lemma find_index_again:
  assumes "vr_inv n vr" "h = 0 \<or> is_real n h" "vr_find_index n vr h = Some (i, vr')"
  shows "succeeds (vr_find_index n vr' h) (\<lambda>(j, vr''). j = i \<and> vr_table vr'' = vr_table vr')"
proof (cases "h = 0")
  case True
  then show ?thesis
    using assms(3) by (auto simp: vr_find_index_def maybe_find_index_def vr_table_def maybe_initialize_def split: option.splits)
next
  case False
  with assms(2) have real: "is_real n h" by simp
  from find_index_step [OF assms(1,2)] assms(3) False obtain k hs where
    k: "i = Suc k" "findable (vr_no_finds vr') hs k" "vr_handles vr' = Some hs" "vr_inv n vr'" "vr_at vr' i = Some h"
    by (auto simp: vr_table_def)
  have t: "table_ok n (vr_no_finds vr') hs (vr_indexes vr')" using k(3,4) by (simp add: vr_inv_def)
  have hk: "hs ! k = h" using k by (simp add: vr_at_table vr_table_def mem_simps)
  obtain r ix where r: "maybe_find_index vr' h = Some (r, vr'\<lparr>vr_indexes := ix\<rparr>)" "found (vr_no_finds vr') hs h r"
    using maybe_find_index_found [OF k(3) t real] by (auto simp: succeeds_iff)
  have "r = Some (Suc k)"
  proof (cases r)
    case None
    then show ?thesis using r(2) k(2) hk by (auto simp: found_def)
  next
    case (Some x)
    then obtain j where j: "x = Suc j" "findable (vr_no_finds vr') hs j" "hs ! j = h" using r(2) by (auto simp: found_def)
    then have "j = k" using t k(2) hk real by (auto simp: table_ok_def)
    then show ?thesis using Some j by simp
  qed
  then show ?thesis using r(1) k(1) by (simp add: vr_find_index_def vr_table_def)
qed

section \<open>The contract of an index table\<close>

text \<open>The indexes of a sequence of values.\<close>

fun find_all :: "('t \<Rightarrow> 'v \<Rightarrow> (nat \<times> 't) option) \<Rightarrow> 't \<Rightarrow> 'v list \<Rightarrow> (nat list \<times> 't) option" where
  "find_all f t [] = Some ([], t)"
| "find_all f t (v # vs) = do {
     (i, t) \<leftarrow> f t v;
     (is, t) \<leftarrow> find_all f t vs;
     Some (i # is, t)
   }"

text \<open>Indexes, once handed out, keep denoting their values.\<close>

locale index_table =
  fixes inv :: "'t \<Rightarrow> bool" and valid :: "'v \<Rightarrow> bool"
    and find :: "'t \<Rightarrow> 'v \<Rightarrow> (nat \<times> 't) option" and at :: "'t \<Rightarrow> nat \<Rightarrow> 'v option"
  assumes find_at: "inv t \<Longrightarrow> valid v \<Longrightarrow> succeeds (find t v) (\<lambda>(i, t'). inv t' \<and> at t' i = Some v)"
    and find_keeps: "inv t \<Longrightarrow> valid v \<Longrightarrow> find t v = Some (i, t') \<Longrightarrow> at t j = Some w \<Longrightarrow> at t' j = Some w"
begin

lemma find_all_keeps: "inv t \<Longrightarrow> \<forall>v \<in> set vs. valid v \<Longrightarrow> find_all find t vs = Some (is, t') \<Longrightarrow> at t j = Some w \<Longrightarrow> at t' j = Some w"
proof (induction vs arbitrary: t "is")
  case (Cons v vs)
  then obtain i t1 is1 where 1: "find t v = Some (i, t1)" "find_all find t1 vs = Some (is1, t')" by auto
  have "inv t1" using find_at [of t v] Cons.prems 1(1) by simp
  then show ?case using Cons.IH [OF _ _ 1(2)] Cons.prems find_keeps [OF _ _ 1(1)] by simp
qed simp

lemma find_all_at:
  "inv t \<Longrightarrow> \<forall>v \<in> set vs. valid v \<Longrightarrow> succeeds (find_all find t vs) (\<lambda>(is, t'). inv t' \<and> map (at t') is = map Some vs)"
proof (induction vs arbitrary: t)
  case (Cons v vs)
  obtain i t1 where 1: "find t v = Some (i, t1)" "inv t1" "at t1 i = Some v"
    using find_at [of t v] Cons.prems by (auto simp: succeeds_iff)
  obtain "is" t2 where 2: "find_all find t1 vs = Some (is, t2)" "inv t2" "map (at t2) is = map Some vs"
    using Cons.IH [OF 1(2)] Cons.prems by (auto simp: succeeds_iff)
  have "at t2 i = Some v" by (rule find_all_keeps [OF 1(2) _ 2(1) 1(3)]) (use Cons.prems in simp)
  then show ?case using 1(1) 2 by simp
qed simp

end

lemma find_index_at:
  assumes "vr_inv n vr" "h = 0 \<or> is_real n h"
  shows "succeeds (vr_find_index n vr h) (\<lambda>(i, vr'). vr_inv n vr' \<and> vr_at vr' i = Some h)"
  by (rule succeeds_weaken [OF find_index_step [OF assms]]) auto

lemma table_extended:
  assumes "vr_at vr j = Some w" "vr_table vr' = vr_table vr @ xs"
  shows "vr_at vr' j = Some w"
  using assms by (cases j) (auto simp: vr_at_table mem_simps nth_append, simp add: vr_at_def)

lemma find_index_keeps:
  assumes "vr_inv n vr" "h = 0 \<or> is_real n h" "vr_find_index n vr h = Some (i, vr')" "vr_at vr j = Some w"
  shows "vr_at vr' j = Some w"
proof -
  obtain xs where "vr_table vr' = vr_table vr @ xs" using find_index_step [OF assms(1,2)] assms(3) by auto
  then show ?thesis by (rule table_extended [OF assms(4)])
qed

interpretation vr_index_table: index_table "vr_inv n" "\<lambda>h. h = 0 \<or> is_real n h" "vr_find_index n" vr_at for n
  by unfold_locales (auto intro: find_index_at dest: find_index_keeps)

lemma find_all_avoids:
  "vr_inv n vr \<Longrightarrow> vr_handles vr \<noteq> None \<Longrightarrow> \<forall>v \<in> set hs. v = 0 \<or> is_real n v \<Longrightarrow> i \<in> set (vr_no_finds vr) \<Longrightarrow> i \<noteq> 0 \<Longrightarrow>
    succeeds (find_all (vr_find_index n) vr hs) (\<lambda>(js, vr'). i \<notin> set js)"
proof (induction hs arbitrary: vr)
  case (Cons h hs)
  have init: "maybe_initialize vr = vr" using Cons.prems(2) by (auto simp: maybe_initialize_def)
  obtain j vr' where j: "vr_find_index n vr h = Some (j, vr')" "vr_inv n vr'" "vr_no_finds vr' = vr_no_finds vr"
    "vr_handles vr' \<noteq> None" "h = 0 \<longrightarrow> j = 0" "h \<noteq> 0 \<longrightarrow> (\<exists>k. j = Suc k \<and> findable (vr_no_finds vr') (vr_table vr') k)"
    using find_index_step [of n vr h] Cons.prems init by (auto simp: succeeds_iff)
  have "succeeds (find_all (vr_find_index n) vr' hs) (\<lambda>(js, vr'). i \<notin> set js)"
    by (rule Cons.IH) (use j Cons.prems in auto)
  moreover have "i \<noteq> j" using j(3,5,6) Cons.prems(4,5) by (auto simp: findable_def)
  ultimately show ?case using j(1) by (auto simp: succeeds_iff)
qed simp

lemma find_all_avoids_unreal:
  assumes "vr_inv n vr" "\<forall>v \<in> set hs. v = 0 \<or> is_real n v" "vr_at vr i = Some h" "\<not> is_real n h" "i \<noteq> 0"
  shows "succeeds (find_all (vr_find_index n) vr hs) (\<lambda>(js, vr'). i \<notin> set js)"
  using assms(1-3)
proof (induction hs arbitrary: vr)
  case (Cons v hs)
  obtain j vr' where j: "vr_find_index n vr v = Some (j, vr')" "vr_inv n vr'" "vr_at vr' j = Some v" "v = 0 \<longrightarrow> j = 0"
    using find_index_step [of n vr v] Cons.prems by (auto simp: succeeds_iff)
  have at: "vr_at vr' i = Some h" by (rule find_index_keeps [OF _ _ j(1)]) (use Cons.prems in auto)
  have "succeeds (find_all (vr_find_index n) vr' hs) (\<lambda>(js, vr'). i \<notin> set js)"
    by (rule Cons.IH) (use j(2) at Cons.prems in auto)
  moreover have "i \<noteq> j" using j(3,4) at assms(4,5) Cons.prems(2) by auto
  ultimately show ?case using j(1) by (auto simp: succeeds_iff)
qed simp

section \<open>Properties\<close>

text \<open>
  C25: \<^verbatim>\<open>find_index\<close> of a handle (null or real) returns an index at which the table holds that
  handle, whatever the state of the cache; all other indexes keep their handles, and a further
  \<^verbatim>\<open>find_index\<close> of the same handle returns the same index and adds nothing.
\<close>

theorem find_index_spec:
  assumes "vr_inv non_oop vr" "h = 0 \<or> is_real non_oop h"
  shows "succeeds (vr_find_index non_oop vr h) (\<lambda>(i, vr'). vr_inv non_oop vr' \<and> vr_at vr' i = Some h
    \<and> (\<forall>j w. vr_at vr j = Some w \<longrightarrow> vr_at vr' j = Some w)
    \<and> succeeds (vr_find_index non_oop vr' h) (\<lambda>(j, vr''). j = i \<and> vr_table vr'' = vr_table vr'))"
  using find_index_at [OF assms] find_index_keeps [OF assms] find_index_again [OF assms]
  by (auto simp: succeeds_iff [of "vr_find_index non_oop vr h"])

lemma new_value_recorder_inv: "vr_inv n (new_value_recorder arena)"
  by (simp add: vr_inv_def new_value_recorder_def)

theorem find_index_spec_witness:
  "succeeds (vr_find_index 0xffff (new_value_recorder True) 0x1000) (\<lambda>(i, vr'). vr_at vr' i = Some 0x1000
    \<and> succeeds (vr_find_index 0xffff vr' 0x1000) (\<lambda>(j, vr''). j = i \<and> vr_table vr'' = vr_table vr'))"
  by (rule succeeds_weaken [OF find_index_spec [OF new_value_recorder_inv, of "0x1000" "0xffff" True]])
    (auto simp: is_real_def)

text \<open>
  C34: \<^verbatim>\<open>allocate_index\<close> of any handle, null, the non-oop word or a real one, returns an index that was not
  handed out before and holds the handle, keeps all other indexes, and no later sequence of calls of
  \<^verbatim>\<open>find_index\<close> returns the new index.
\<close>

theorem allocate_index_spec:
  assumes "vr_inv non_oop vr" "\<forall>v \<in> set hs. v = 0 \<or> is_real non_oop v"
  shows "succeeds (vr_allocate_index non_oop vr h) (\<lambda>(i, vr'). vr_inv non_oop vr' \<and> vr_at vr' i = Some h
    \<and> vr_at vr i = None \<and> (\<forall>j w. vr_at vr j = Some w \<longrightarrow> vr_at vr' j = Some w)
    \<and> succeeds (find_all (vr_find_index non_oop) vr' hs) (\<lambda>(js, vr''). i \<notin> set js))"
proof -
  obtain i vr' where a: "vr_allocate_index non_oop vr h = Some (i, vr')" "vr_inv non_oop vr'" "vr_table vr' = vr_table vr @ [h]"
    "i = Suc (length (vr_table vr))" "vr_at vr' i = Some h" "vr_handles vr' \<noteq> None" "is_real non_oop h \<longrightarrow> i \<in> set (vr_no_finds vr')"
    using allocate_index_step [OF assms(1), of h] by (auto simp: succeeds_iff)
  have "vr_at vr i = None" using a(4) by (simp add: vr_at_table mem_simps)
  moreover have "vr_at vr' j = Some w" if "vr_at vr j = Some w" for j w using that a(3) by (rule table_extended)
  moreover have "succeeds (find_all (vr_find_index non_oop) vr' hs) (\<lambda>(js, vr''). i \<notin> set js)"
    using find_all_avoids [OF a(2,6) assms(2)] find_all_avoids_unreal [OF a(2) assms(2) a(5)] a(4,7) by (cases "is_real non_oop h") simp_all
  ultimately show ?thesis using a(1,2,5) by simp
qed

theorem allocate_index_spec_witness:
  "succeeds (vr_allocate_index 0xffff (new_value_recorder True) 0) (\<lambda>(i, vr'). vr_at vr' i = Some 0
    \<and> succeeds (find_all (vr_find_index 0xffff) vr' [0x1000, 0]) (\<lambda>(js, vr''). i \<notin> set js))
   \<and> succeeds (vr_allocate_index 0xffff (new_value_recorder True) 0x1000) (\<lambda>(i, vr'). vr_at vr' i = Some 0x1000
    \<and> succeeds (find_all (vr_find_index 0xffff) vr' [0x1000, 0]) (\<lambda>(js, vr''). i \<notin> set js))"
proof -
  have r: "\<forall>v \<in> set [0x1000, 0]. v = 0 \<or> is_real 0xffff v" by (simp add: is_real_def)
  note w = allocate_index_spec [OF new_value_recorder_inv r, of True]
  show ?thesis by (intro conjI; rule succeeds_weaken [OF w]; auto)
qed

end
