(* ===== verification/Debug_Info.thy ===== *)
theory Debug_Info
  imports Compressed_Stream Oop_Recorder
begin

text \<open>
  \<^verbatim>\<open>code/location.hpp\<close>, \<^verbatim>\<open>code/debugInfo.hpp\<close> and \<^verbatim>\<open>code/debugInfo.cpp\<close>: the serialization of scope values
  on a compressed stream.  Objects that escape analysis has removed form a graph, possibly with
  cycles: an object is written in full at its first visit and by its id afterwards, and the reader
  rebuilds the graph in a pool.  A pointer to an \<^verbatim>\<open>ObjectValue\<close> is a number: a key of the writer's
  object store, an index of the reader's pool.
\<close>

section \<open>Locations\<close>

datatype loc_where = On_stack | In_register

datatype loc_type =
  Loc_invalid | Loc_normal | Loc_oop | Loc_int_in_long | Loc_lng | Loc_float_in_dbl | Loc_dbl | Loc_addr | Loc_narrowoop

fun where_code :: "loc_where \<Rightarrow> juint" where
  "where_code On_stack = 0" | "where_code In_register = 1"

fun type_code :: "loc_type \<Rightarrow> juint" where
  "type_code Loc_invalid = 0" | "type_code Loc_normal = 1" | "type_code Loc_oop = 2"
| "type_code Loc_int_in_long = 3" | "type_code Loc_lng = 4" | "type_code Loc_float_in_dbl = 5"
| "type_code Loc_dbl = 6" | "type_code Loc_addr = 7" | "type_code Loc_narrowoop = 8"

type_synonym location = juint

definition loc_set :: "loc_where \<Rightarrow> loc_type \<Rightarrow> juint \<Rightarrow> location" where
  "loc_set where' type' offset' =
     push_bit 4 (where_code where') OR type_code type' OR (push_bit 5 offset' AND 0xFFFFFFE0)"

definition loc_where_of :: "location \<Rightarrow> juint" where
  "loc_where_of v = drop_bit 4 (v AND 0x10)"

definition loc_type_of :: "location \<Rightarrow> juint" where
  "loc_type_of v = v AND 0x0F"

definition loc_offset :: "location \<Rightarrow> juint" where
  "loc_offset v = drop_bit 5 (v AND 0xFFFFFFE0)"

definition new_stk_loc :: "loc_type \<Rightarrow> jint \<Rightarrow> location" where
  "new_stk_loc t offset = loc_set On_stack t (signed_drop_bit 2 offset)"

definition new_reg_loc :: "loc_type \<Rightarrow> jint \<Rightarrow> location" where
  "new_reg_loc t reg = loc_set In_register t reg"

definition stack_offset :: "location \<Rightarrow> jint" where
  "stack_offset v = push_bit 2 (loc_offset v)"

definition register_number :: "location \<Rightarrow> jint" where
  "register_number v = loc_offset v"

text \<open>When the remainder is zero the truncating division of C++ is the division of \<open>int\<close>.\<close>

definition legal_offset_in_bytes :: "jint \<Rightarrow> bool" where
  "legal_offset_in_bytes offset_in_bytes \<longleftrightarrow>
     (if sint offset_in_bytes mod 4 \<noteq> 0 then False
      else (word_of_int (sint offset_in_bytes div 4) :: juint) < drop_bit 5 0xFFFFFFE0)"

section \<open>Scope values\<close>

datatype scope_value =
    LocationValue location
  | ConstantIntValue jint
  | ConstantLongValue jlong
  | ConstantDoubleValue jlong
  | ConstantOopValue handle
  | ObjectRef nat

record object_value =
  ov_id :: jint
  ov_klass :: "scope_value option"
  ov_fields :: "scope_value list"
  ov_visited :: bool

text \<open>\<^verbatim>\<open>set_visited\<close> ignores its argument, as in the source.\<close>

definition ov_set_visited :: "object_value \<Rightarrow> bool \<Rightarrow> object_value" where
  "ov_set_visited ov visited = ov\<lparr>ov_visited := False\<rparr>"

text \<open>The serialization codes.\<close>

definition LOCATION_CODE :: jint where "LOCATION_CODE = 0"
definition CONSTANT_INT_CODE :: jint where "CONSTANT_INT_CODE = 1"
definition CONSTANT_OOP_CODE :: jint where "CONSTANT_OOP_CODE = 2"
definition CONSTANT_LONG_CODE :: jint where "CONSTANT_LONG_CODE = 3"
definition CONSTANT_DOUBLE_CODE :: jint where "CONSTANT_DOUBLE_CODE = 4"
definition OBJECT_CODE :: jint where "OBJECT_CODE = 5"
definition OBJECT_ID_CODE :: jint where "OBJECT_ID_CODE = 6"

lemmas serialization_codes = LOCATION_CODE_def CONSTANT_INT_CODE_def CONSTANT_OOP_CODE_def
  CONSTANT_LONG_CODE_def CONSTANT_DOUBLE_CODE_def OBJECT_CODE_def OBJECT_ID_CODE_def

section \<open>Writing\<close>

record debug_writer =
  dw_stream :: write_stream
  dw_recorder :: oop_recorder
  dw_objs :: "nat \<rightharpoonup> object_value"

text \<open>What a writer needs of its surroundings: the allocator and \<^verbatim>\<open>Universe::non_oop_word()\<close>.\<close>

type_synonym write_env = "allocator \<times> handle"

definition dw_write_int :: "write_env \<Rightarrow> debug_writer \<Rightarrow> jint \<Rightarrow> debug_writer option" where
  "dw_write_int env st v = do { ws \<leftarrow> write_int (fst env) (dw_stream st) v; Some (st\<lparr>dw_stream := ws\<rparr>) }"

definition dw_write_handle :: "write_env \<Rightarrow> debug_writer \<Rightarrow> handle \<Rightarrow> debug_writer option" where
  "dw_write_handle env st h = do {
     (i, r) \<leftarrow> or_find_oop_index (snd env) (dw_recorder st) h;
     dw_write_int env (st\<lparr>dw_recorder := r\<rparr>) (of_nat i)
   }"

definition dw_write_metadata :: "write_env \<Rightarrow> debug_writer \<Rightarrow> handle \<Rightarrow> debug_writer option" where
  "dw_write_metadata env st h = do {
     (i, r) \<leftarrow> or_find_metadata_index (snd env) (dw_recorder st) h;
     dw_write_int env (st\<lparr>dw_recorder := r\<rparr>) (of_nat i)
   }"

definition InvocationEntryBci :: jint where
  "InvocationEntryBci = - 1"

definition write_bci :: "write_env \<Rightarrow> debug_writer \<Rightarrow> jint \<Rightarrow> debug_writer option" where
  "write_bci env st bci = dw_write_int env st (bci - InvocationEntryBci)"

text \<open>The \<^verbatim>\<open>write_on\<close> of the values other than objects.\<close>

fun write_simple :: "write_env \<Rightarrow> debug_writer \<Rightarrow> scope_value \<Rightarrow> debug_writer option" where
  "write_simple env st (LocationValue l) = do {
     st \<leftarrow> dw_write_int env st LOCATION_CODE;
     dw_write_int env st l
   }"
| "write_simple env st (ConstantIntValue v) = do {
     st \<leftarrow> dw_write_int env st CONSTANT_INT_CODE;
     ws \<leftarrow> write_signed_int (fst env) (dw_stream st) v;
     Some (st\<lparr>dw_stream := ws\<rparr>)
   }"
| "write_simple env st (ConstantLongValue v) = do {
     st \<leftarrow> dw_write_int env st CONSTANT_LONG_CODE;
     ws \<leftarrow> write_long (fst env) (dw_stream st) v;
     Some (st\<lparr>dw_stream := ws\<rparr>)
   }"
| "write_simple env st (ConstantDoubleValue v) = do {
     st \<leftarrow> dw_write_int env st CONSTANT_DOUBLE_CODE;
     ws \<leftarrow> write_double (fst env) (dw_stream st) v;
     Some (st\<lparr>dw_stream := ws\<rparr>)
   }"
| "write_simple env st (ConstantOopValue h) = do {
     st \<leftarrow> dw_write_int env st CONSTANT_OOP_CODE;
     dw_write_handle env st h
   }"
| "write_simple env st (ObjectRef p) = None"

text \<open>
  \<^verbatim>\<open>write_on\<close> of the values of a list, one after the other; a single value is a list of length one.
  The recursion follows pointers, so that it ends is a theorem and not evident.
\<close>

partial_function (option) write_values :: "write_env \<Rightarrow> debug_writer \<Rightarrow> scope_value list \<Rightarrow> debug_writer option" where
  "write_values env st vs = (case vs of
     [] \<Rightarrow> Some st
   | v # rest \<Rightarrow> do {
       st \<leftarrow> (case v of
         ObjectRef p \<Rightarrow> do {
           ov \<leftarrow> dw_objs st p;
           if ov_visited ov
           then do {
             st \<leftarrow> dw_write_int env st OBJECT_ID_CODE;
             dw_write_int env st (ov_id ov)
           }
           else do {
             let st = st\<lparr>dw_objs := (dw_objs st)(p \<mapsto> ov\<lparr>ov_visited := True\<rparr>)\<rparr>;
             st \<leftarrow> dw_write_int env st OBJECT_CODE;
             st \<leftarrow> dw_write_int env st (ov_id ov);
             klass \<leftarrow> ov_klass ov;
             st \<leftarrow> write_values env st [klass];
             st \<leftarrow> dw_write_int env st (of_nat (length (ov_fields ov)));
             write_values env st (ov_fields ov)
           }
         }
       | _ \<Rightarrow> write_simple env st v);
       write_values env st rest
     })"

definition write_on :: "write_env \<Rightarrow> debug_writer \<Rightarrow> scope_value \<Rightarrow> debug_writer option" where
  "write_on env st v = write_values env st [v]"

section \<open>Reading\<close>

record debug_reader =
  dr_stream :: read_stream
  dr_pool :: "object_value list"

definition dr_read_int :: "debug_reader \<Rightarrow> (jint \<times> debug_reader) option" where
  "dr_read_int st = do { (v, rs) \<leftarrow> read_int (dr_stream st); Some (v, st\<lparr>dr_stream := rs\<rparr>) }"

definition read_bci :: "debug_reader \<Rightarrow> (jint \<times> debug_reader) option" where
  "read_bci st = do { (v, st) \<leftarrow> dr_read_int st; Some (v + InvocationEntryBci, st) }"

text \<open>\<open>oop_at\<close> stands for \<^verbatim>\<open>nmethod::oop_at\<close>.\<close>

definition read_oop :: "(jint \<Rightarrow> handle option) \<Rightarrow> debug_reader \<Rightarrow> (handle \<times> debug_reader) option" where
  "read_oop oop_at st = do { (i, st) \<leftarrow> dr_read_int st; h \<leftarrow> oop_at i; Some (h, st) }"

text \<open>\<open>metadata_at\<close> stands for \<^verbatim>\<open>nmethod::metadata_at\<close>.\<close>

definition read_method :: "(jint \<Rightarrow> handle option) \<Rightarrow> debug_reader \<Rightarrow> (handle \<times> debug_reader) option" where
  "read_method metadata_at st = do { (i, st) \<leftarrow> dr_read_int st; h \<leftarrow> metadata_at i; Some (h, st) }"

text \<open>The search of \<^verbatim>\<open>get_cached_object\<close>, from the last object to the first.\<close>

fun search_pool :: "object_value list \<Rightarrow> jint \<Rightarrow> nat \<Rightarrow> nat option" where
  "search_pool pool id' 0 = None"
| "search_pool pool id' (Suc i) = do {
     ov \<leftarrow> array_get pool i;
     if ov_id ov = id' then Some i else search_pool pool id' i
   }"

definition get_cached_object :: "debug_reader \<Rightarrow> (scope_value \<times> debug_reader) option" where
  "get_cached_object st = do {
     (id', st) \<leftarrow> dr_read_int st;
     k \<leftarrow> search_pool (dr_pool st) id' (length (dr_pool st));
     Some (ObjectRef k, st)
   }"

definition read_simple ::
    "(jint \<Rightarrow> handle option) \<Rightarrow> jint \<Rightarrow> debug_reader \<Rightarrow> (scope_value \<times> debug_reader) option" where
  "read_simple oop_at code st =
     (if code = LOCATION_CODE then do { (v, st) \<leftarrow> dr_read_int st; Some (LocationValue v, st) }
      else if code = CONSTANT_INT_CODE
      then do { (v, rs) \<leftarrow> read_signed_int (dr_stream st); Some (ConstantIntValue v, st\<lparr>dr_stream := rs\<rparr>) }
      else if code = CONSTANT_OOP_CODE then do { (h, st) \<leftarrow> read_oop oop_at st; Some (ConstantOopValue h, st) }
      else if code = CONSTANT_LONG_CODE
      then do { (v, rs) \<leftarrow> read_long (dr_stream st); Some (ConstantLongValue v, st\<lparr>dr_stream := rs\<rparr>) }
      else if code = CONSTANT_DOUBLE_CODE
      then do { (v, rs) \<leftarrow> read_double (dr_stream st); Some (ConstantDoubleValue v, st\<lparr>dr_stream := rs\<rparr>) }
      else if code = OBJECT_ID_CODE then get_cached_object st
      else None)"

text \<open>
  \<^verbatim>\<open>ScopeValue::read_from\<close>, \<open>n\<close> times.  \<^verbatim>\<open>read_object_value\<close> pushes the new object before it reads the
  fields, which may refer to it.
\<close>

partial_function (option) read_values ::
    "(jint \<Rightarrow> handle option) \<Rightarrow> nat \<Rightarrow> debug_reader \<Rightarrow> (scope_value list \<times> debug_reader) option" where
  "read_values oop_at n st =
     (if n = 0 then Some ([], st)
      else do {
        (code, st) \<leftarrow> dr_read_int st;
        (v, st) \<leftarrow> (if code = OBJECT_CODE
          then do {
            (id', st) \<leftarrow> dr_read_int st;
            let k = length (dr_pool st);
            let ov = \<lparr>ov_id = id', ov_klass = None, ov_fields = [], ov_visited = False\<rparr>;
            let st = st\<lparr>dr_pool := dr_pool st @ [ov]\<rparr>;
            (klass, st) \<leftarrow> read_values oop_at 1 st;
            (len, st) \<leftarrow> dr_read_int st;
            (fields, st) \<leftarrow> read_values oop_at (nat (sint len)) st;
            let ov = ov\<lparr>ov_klass := Some (hd klass), ov_fields := fields\<rparr>;
            Some (ObjectRef k, st\<lparr>dr_pool := (dr_pool st)[k := ov]\<rparr>)
          }
          else read_simple oop_at code st);
        (vs, st) \<leftarrow> read_values oop_at (n - 1) st;
        Some (v # vs, st)
      })"

definition read_from :: "(jint \<Rightarrow> handle option) \<Rightarrow> debug_reader \<Rightarrow> (scope_value \<times> debug_reader) option" where
  "read_from oop_at st = do { (vs, st) \<leftarrow> read_values oop_at 1 st; Some (hd vs, st) }"

section \<open>Monitors\<close>

record monitor_value =
  mv_owner :: scope_value
  mv_basic_lock :: location
  mv_eliminated :: bool

definition monitor_write_on :: "write_env \<Rightarrow> debug_writer \<Rightarrow> monitor_value \<Rightarrow> debug_writer option" where
  "monitor_write_on env st mv = do {
     st \<leftarrow> dw_write_int env st (mv_basic_lock mv);
     st \<leftarrow> write_on env st (mv_owner mv);
     ws \<leftarrow> write_bool (fst env) (dw_stream st) (if mv_eliminated mv then 1 else 0);
     Some (st\<lparr>dw_stream := ws\<rparr>)
   }"

definition monitor_read_from :: "(jint \<Rightarrow> handle option) \<Rightarrow> debug_reader \<Rightarrow> (monitor_value \<times> debug_reader) option" where
  "monitor_read_from oop_at st = do {
     (lock, st) \<leftarrow> dr_read_int st;
     (owner, st) \<leftarrow> read_from oop_at st;
     (b, rs) \<leftarrow> read_bool (dr_stream st);
     Some (\<lparr>mv_owner = owner, mv_basic_lock = lock, mv_eliminated = (b \<noteq> 0)\<rparr>, st\<lparr>dr_stream := rs\<rparr>)
   }"

section \<open>The graph of a value\<close>

definition pos_of :: "nat list \<Rightarrow> nat \<Rightarrow> nat" where
  "pos_of ps p = length (takeWhile (\<lambda>q. q \<noteq> p) ps)"

lemma pos_of_append: "p \<in> set ps \<Longrightarrow> pos_of (ps @ qs) p = pos_of ps p"
  by (simp add: pos_of_def takeWhile_append1)

lemma pos_of_new: "p \<notin> set ps \<Longrightarrow> pos_of (ps @ p # qs) p = length ps"
proof -
  assume "p \<notin> set ps"
  then have "takeWhile (\<lambda>q. q \<noteq> p) (ps @ p # qs) = ps" by (subst takeWhile_append2) auto
  then show ?thesis by (simp add: pos_of_def)
qed

lemma pos_of_bound: "p \<in> set ps \<Longrightarrow> pos_of ps p < length ps \<and> ps ! pos_of ps p = p"
proof (induction ps)
  case (Cons q ps)
  then show ?case by (auto simp: pos_of_def)
qed simp

text \<open>The value the reader returns for \<open>v\<close>, when the objects were visited in the order \<open>ps\<close>.\<close>

fun reread :: "nat list \<Rightarrow> scope_value \<Rightarrow> scope_value" where
  "reread ps (ObjectRef p) = ObjectRef (pos_of ps p)"
| "reread ps v = v"

definition sv_ok :: "handle \<Rightarrow> (nat \<rightharpoonup> object_value) \<Rightarrow> scope_value \<Rightarrow> bool" where
  "sv_ok n objs v \<longleftrightarrow> (case v of
     ObjectRef p \<Rightarrow> p \<in> dom objs
   | ConstantOopValue h \<Rightarrow> h = 0 \<or> is_real n h
   | _ \<Rightarrow> True)"

definition graph_ok :: "handle \<Rightarrow> (nat \<rightharpoonup> object_value) \<Rightarrow> bool" where
  "graph_ok n objs \<longleftrightarrow> finite (dom objs)
     \<and> (\<forall>p q ov ow. objs p = Some ov \<longrightarrow> objs q = Some ow \<longrightarrow> ov_id ov = ov_id ow \<longrightarrow> p = q)
     \<and> (\<forall>p ov. objs p = Some ov \<longrightarrow> (\<exists>k. ov_klass ov = Some k \<and> (\<forall>v \<in> set (k # ov_fields ov). sv_ok n objs v))
          \<and> length (ov_fields ov) < 2 ^ 31)"

definition mark_visited :: "(nat \<rightharpoonup> object_value) \<Rightarrow> nat list \<Rightarrow> nat \<rightharpoonup> object_value" where
  "mark_visited objs ps p = map_option (\<lambda>ov. ov\<lparr>ov_visited := (p \<in> set ps)\<rparr>) (objs p)"

definition writer_at :: "handle \<Rightarrow> (nat \<rightharpoonup> object_value) \<Rightarrow> nat list \<Rightarrow> debug_writer \<Rightarrow> bool" where
  "writer_at n objs ps st \<longleftrightarrow> ws_wf (dw_stream st) \<and> vr_inv n (or_oops (dw_recorder st)) \<and> dw_objs st = mark_visited objs ps"

definition keeps_oops :: "debug_writer \<Rightarrow> debug_writer \<Rightarrow> bool" where
  "keeps_oops st st' \<longleftrightarrow> or_metadata (dw_recorder st') = or_metadata (dw_recorder st)
     \<and> (\<forall>i h. or_oop_at (dw_recorder st) i = Some h \<longrightarrow> or_oop_at (dw_recorder st') i = Some h)"

definition agrees :: "(jint \<Rightarrow> handle option) \<Rightarrow> debug_writer \<Rightarrow> bool" where
  "agrees oop_at st \<longleftrightarrow> (\<forall>i h. or_oop_at (dw_recorder st) i = Some h \<longrightarrow> oop_at (of_nat i) = Some h)"

definition pool_matches :: "(nat \<rightharpoonup> object_value) \<Rightarrow> nat list \<Rightarrow> object_value list \<Rightarrow> bool" where
  "pool_matches objs ps pool \<longleftrightarrow> length pool = length ps
     \<and> (\<forall>k < length ps. \<exists>ov. objs (ps ! k) = Some ov \<and> ov_id (pool ! k) = ov_id ov)"

definition reread_object :: "nat list \<Rightarrow> object_value \<Rightarrow> object_value" where
  "reread_object ps ov = \<lparr>ov_id = ov_id ov, ov_klass = map_option (reread ps) (ov_klass ov),
     ov_fields = map (reread ps) (ov_fields ov), ov_visited = False\<rparr>"

definition forward :: "debug_reader \<Rightarrow> nat \<Rightarrow> object_value list \<Rightarrow> debug_reader" where
  "forward rd n pool = rd\<lparr>dr_stream := advance (dr_stream rd) n, dr_pool := pool\<rparr>"

text \<open>The bytes \<open>bs\<close> read back as \<open>vs\<close>, with the objects \<open>qs\<close> added to the pool, completely.\<close>

definition reads_back :: "(nat \<rightharpoonup> object_value) \<Rightarrow> nat list \<Rightarrow> nat list \<Rightarrow> scope_value list \<Rightarrow> u1 list \<Rightarrow> debug_writer \<Rightarrow> bool" where
  "reads_back objs ps qs vs bs st' \<longleftrightarrow> (\<forall>oop_at rd.
     at_bytes (dr_stream rd) bs \<longrightarrow> agrees oop_at st' \<longrightarrow> pool_matches objs ps (dr_pool rd) \<longrightarrow>
     (\<exists>pool. read_values oop_at (length vs) rd = Some (map (reread (ps @ qs)) vs, forward rd (length bs) pool)
        \<and> pool_matches objs (ps @ qs) pool \<and> take (length ps) pool = dr_pool rd
        \<and> (\<forall>k. length ps \<le> k \<longrightarrow> k < length (ps @ qs) \<longrightarrow>
             Some (pool ! k) = map_option (reread_object (ps @ qs)) (objs ((ps @ qs) ! k)))))"

definition refers_into :: "(nat \<rightharpoonup> object_value) \<Rightarrow> nat list \<Rightarrow> nat list \<Rightarrow> bool" where
  "refers_into objs qs rs \<longleftrightarrow> (\<forall>q \<in> set qs. \<forall>ov r. objs q = Some ov \<longrightarrow>
     ov_klass ov = Some (ObjectRef r) \<or> ObjectRef r \<in> set (ov_fields ov) \<longrightarrow> r \<in> set rs)"

definition round_trip :: "write_env \<Rightarrow> (nat \<rightharpoonup> object_value) \<Rightarrow> nat list \<Rightarrow> scope_value list \<Rightarrow> bool" where
  "round_trip env objs ps vs \<longleftrightarrow> (\<forall>st. writer_at (snd env) objs ps st \<longrightarrow>
     (\<exists>st' qs bs. write_values env st vs = Some st' \<and> writer_at (snd env) objs (ps @ qs) st'
        \<and> distinct (ps @ qs) \<and> set qs \<subseteq> dom objs
        \<and> appends (dw_stream st) bs (dw_stream st') \<and> keeps_oops st st'
        \<and> (\<forall>p. ObjectRef p \<in> set vs \<longrightarrow> p \<in> set (ps @ qs)) \<and> refers_into objs qs (ps @ qs)
        \<and> reads_back objs ps qs vs bs st'))"

section \<open>Single integers and simple values\<close>

lemma dw_write_int_appends:
  assumes "allocates (fst env)" "writer_at n objs ps st"
  obtains ws where "dw_write_int env st v = Some (st\<lparr>dw_stream := ws\<rparr>)" "appends (dw_stream st) (unsigned5 v) ws"
    "writer_at n objs ps (st\<lparr>dw_stream := ws\<rparr>)" "keeps_oops st (st\<lparr>dw_stream := ws\<rparr>)"
proof -
  have "ws_wf (dw_stream st)" using assms(2) by (simp add: writer_at_def)
  from int_codec.write_enc [OF assms(1) this, of v] obtain ws where
    "write_int (fst env) (dw_stream st) v = Some ws" "appends (dw_stream st) (unsigned5 v) ws" by (rule succeedsE)
  with assms(2) that show ?thesis by (simp add: dw_write_int_def writer_at_def appends_wf keeps_oops_def)
qed

lemma dr_read_int_bytes:
  "at_bytes (dr_stream rd) (unsigned5 v) \<Longrightarrow> dr_read_int rd = Some (v, forward rd (length (unsigned5 v)) (dr_pool rd))"
  by (simp add: dr_read_int_def int_codec.read_enc forward_def)

lemma forward_simps [simp]:
  "dr_stream (forward rd n pool) = advance (dr_stream rd) n" "dr_pool (forward rd n pool) = pool"
  "forward (forward rd m pool) n pool' = forward rd (m + n) pool'"
  "(forward rd n pool)\<lparr>dr_pool := pool'\<rparr> = forward rd n pool'"
  by (simp_all add: forward_def)

lemma keeps_oops_trans: "keeps_oops st st' \<Longrightarrow> keeps_oops st' st'' \<Longrightarrow> keeps_oops st st''"
  by (simp add: keeps_oops_def)

lemma keeps_agrees: "keeps_oops st st' \<Longrightarrow> agrees oop_at st' \<Longrightarrow> agrees oop_at st"
  by (simp add: keeps_oops_def agrees_def)

lemma forward_0: "forward rd 0 (dr_pool rd) = rd"
  by (simp add: forward_def advance_def)

text \<open>The payload of a simple value, behind its code.\<close>

definition simple_trip :: "write_env \<Rightarrow> (nat \<rightharpoonup> object_value) \<Rightarrow> nat list \<Rightarrow> debug_writer \<Rightarrow> scope_value \<Rightarrow> bool" where
  "simple_trip env objs ps st v \<longleftrightarrow> (\<exists>st' code bs. write_simple env st v = Some st' \<and> writer_at (snd env) objs ps st'
     \<and> appends (dw_stream st) (unsigned5 code @ bs) (dw_stream st') \<and> keeps_oops st st' \<and> code \<noteq> OBJECT_CODE
     \<and> (\<forall>oop_at rd. at_bytes (dr_stream rd) bs \<longrightarrow> agrees oop_at st' \<longrightarrow>
          read_simple oop_at code rd = Some (v, forward rd (length bs) (dr_pool rd))))"

lemma simple_stream_trip:
  assumes "allocates (fst env)" "writer_at (snd env) objs ps st"
    and "\<And>st. write_simple env st v = dw_write_int env st code \<bind>
           (\<lambda>st. wr (fst env) (dw_stream st) x \<bind> (\<lambda>ws. Some (st\<lparr>dw_stream := ws\<rparr>)))"
    and "codec wr rd enc" "code \<noteq> OBJECT_CODE"
    and "\<And>oop_at r. read_simple oop_at code r = rd (dr_stream r) \<bind> (\<lambda>(x, rs). Some (f x, r\<lparr>dr_stream := rs\<rparr>))"
    and "f x = v"
  shows "simple_trip env objs ps st v"
proof -
  obtain ws where ws: "dw_write_int env st code = Some (st\<lparr>dw_stream := ws\<rparr>)" "appends (dw_stream st) (unsigned5 code) ws"
    "writer_at (snd env) objs ps (st\<lparr>dw_stream := ws\<rparr>)" "keeps_oops st (st\<lparr>dw_stream := ws\<rparr>)"
    by (rule dw_write_int_appends [OF assms(1,2)])
  have "ws_wf ws" using ws(3) by (simp add: writer_at_def)
  from codec.write_enc [OF assms(4) assms(1) this, of x] obtain ws' where
    ws': "wr (fst env) ws x = Some ws'" "appends ws (enc x) ws'" by (rule succeedsE)
  let ?st' = "st\<lparr>dw_stream := ws'\<rparr>"
  have "writer_at (snd env) objs ps ?st'" using assms(2) ws'(2) by (simp add: writer_at_def appends_wf)
  moreover have "write_simple env st v = Some ?st'" using ws(1) ws'(1) by (simp add: assms(3))
  moreover have "keeps_oops st ?st'" by (simp add: keeps_oops_def)
  moreover have "read_simple oop_at code r = Some (v, forward r (length (enc x)) (dr_pool r))"
    if "at_bytes (dr_stream r) (enc x)" for oop_at r
    using codec.read_enc [OF assms(4) that] by (simp add: assms(6,7) forward_def)
  ultimately show ?thesis
    using appends_trans [OF ws(2) ws'(2)] assms(5) unfolding simple_trip_def
    by (intro exI [of _ ?st'] exI [of _ code] exI [of _ "enc x"]) simp
qed

lemma find_oop_trip:
  assumes "allocates (fst env)" "writer_at (snd env) objs ps st" "h = 0 \<or> is_real (snd env) h"
  shows "simple_trip env objs ps st (ConstantOopValue h)"
proof -
  obtain ws where ws: "dw_write_int env st CONSTANT_OOP_CODE = Some (st\<lparr>dw_stream := ws\<rparr>)"
    "appends (dw_stream st) (unsigned5 CONSTANT_OOP_CODE) ws" "writer_at (snd env) objs ps (st\<lparr>dw_stream := ws\<rparr>)"
    by (rule dw_write_int_appends [OF assms(1,2)])
  have inv: "vr_inv (snd env) (or_oops (dw_recorder st))" using assms(2) by (simp add: writer_at_def)
  obtain i v where v: "vr_find_index (snd env) (or_oops (dw_recorder st)) h = Some (i, v)" "vr_inv (snd env) v" "vr_at v i = Some h"
    using vr_index_table.find_at [OF inv assms(3)] by (auto simp: succeeds_iff)
  let ?r = "dw_recorder st\<lparr>or_oops := v\<rparr>"
  let ?st1 = "st\<lparr>dw_stream := ws, dw_recorder := ?r\<rparr>"
  have "writer_at (snd env) objs ps ?st1" using ws(3) v(2) by (simp add: writer_at_def)
  then obtain ws' where ws': "dw_write_int env ?st1 (of_nat i) = Some (?st1\<lparr>dw_stream := ws'\<rparr>)"
    "appends ws (unsigned5 (of_nat i)) ws'" "writer_at (snd env) objs ps (?st1\<lparr>dw_stream := ws'\<rparr>)"
    by (rule dw_write_int_appends [OF assms(1), where v = "of_nat i"]) simp
  let ?st' = "?st1\<lparr>dw_stream := ws'\<rparr>"
  have "write_simple env st (ConstantOopValue h) = Some ?st'"
    using ws(1) v(1) ws'(1) by (simp add: dw_write_handle_def or_find_oop_index_def)
  moreover have "keeps_oops st ?st'"
    using vr_index_table.find_keeps [OF inv assms(3) v(1)] by (simp add: keeps_oops_def or_oop_at_def)
  moreover have "read_simple oop_at CONSTANT_OOP_CODE rd =
      Some (ConstantOopValue h, forward rd (length (unsigned5 (of_nat i))) (dr_pool rd))"
    if "at_bytes (dr_stream rd) (unsigned5 (of_nat i))" "agrees oop_at ?st'" for oop_at rd
  proof -
    have "oop_at (of_nat i) = Some h" using that(2) v(3) by (simp add: agrees_def or_oop_at_def)
    then show ?thesis
      using dr_read_int_bytes [OF that(1)] by (simp add: read_simple_def serialization_codes read_oop_def)
  qed
  ultimately show ?thesis
    using appends_trans [OF ws(2) ws'(2)] ws'(3) unfolding simple_trip_def
    by (intro exI [of _ ?st'] exI [of _ CONSTANT_OOP_CODE] exI [of _ "unsigned5 (of_nat i)"]) (simp add: serialization_codes)
qed

lemma write_simple_trip:
  assumes "allocates (fst env)" "writer_at (snd env) objs ps st" "sv_ok (snd env) objs v" "\<And>p. v \<noteq> ObjectRef p"
  shows "simple_trip env objs ps st v"
proof (cases v)
  case (LocationValue l)
  then show ?thesis
    by (intro simple_stream_trip [OF assms(1,2) _ int_codec.codec_axioms, where code = LOCATION_CODE and x = l and f = LocationValue])
      (simp_all add: dw_write_int_def serialization_codes read_simple_def dr_read_int_def split_def)
next
  case (ConstantIntValue x)
  then show ?thesis
    by (intro simple_stream_trip [OF assms(1,2) _ signed_codec.codec_axioms, where code = CONSTANT_INT_CODE and x = x and f = ConstantIntValue])
      (simp_all add: serialization_codes read_simple_def)
next
  case (ConstantLongValue x)
  then show ?thesis
    by (intro simple_stream_trip [OF assms(1,2) _ long_codec.codec_axioms, where code = CONSTANT_LONG_CODE and x = x and f = ConstantLongValue])
      (simp_all add: serialization_codes read_simple_def)
next
  case (ConstantDoubleValue x)
  then show ?thesis
    by (intro simple_stream_trip [OF assms(1,2) _ double_codec.codec_axioms, where code = CONSTANT_DOUBLE_CODE and x = x and f = ConstantDoubleValue])
      (simp_all add: serialization_codes read_simple_def)
next
  case (ConstantOopValue h)
  then show ?thesis using find_oop_trip [OF assms(1,2)] assms(3) by (simp add: sv_ok_def)
next
  case (ObjectRef p)
  then show ?thesis using assms(4) by simp
qed

section \<open>Lists of values\<close>

lemma write_values_Nil [simp]: "write_values env st [] = Some st"
  by (subst write_values.simps) simp

lemma write_values_Cons: "write_values env st (v # vs) = write_values env st [v] \<bind> (\<lambda>st. write_values env st vs)"
  by (subst (1 2) write_values.simps) (simp split: scope_value.split)

lemma read_values_0 [simp]: "read_values oop_at 0 rd = Some ([], rd)"
  by (subst read_values.simps) simp

text \<open>One call of \<^verbatim>\<open>read_from\<close>.\<close>

definition read_one :: "(jint \<Rightarrow> handle option) \<Rightarrow> debug_reader \<Rightarrow> (scope_value \<times> debug_reader) option" where
  "read_one oop_at st = dr_read_int st \<bind> (\<lambda>(code, st).
     if code = OBJECT_CODE
     then do {
       (id', st) \<leftarrow> dr_read_int st;
       let k = length (dr_pool st);
       let ov = \<lparr>ov_id = id', ov_klass = None, ov_fields = [], ov_visited = False\<rparr>;
       let st = st\<lparr>dr_pool := dr_pool st @ [ov]\<rparr>;
       (klass, st) \<leftarrow> read_values oop_at 1 st;
       (len, st) \<leftarrow> dr_read_int st;
       (fields, st) \<leftarrow> read_values oop_at (nat (sint len)) st;
       let ov = ov\<lparr>ov_klass := Some (hd klass), ov_fields := fields\<rparr>;
       Some (ObjectRef k, st\<lparr>dr_pool := (dr_pool st)[k := ov]\<rparr>)
     }
     else read_simple oop_at code st)"

lemma read_values_unfold:
  "read_values oop_at (Suc n) rd = read_one oop_at rd \<bind> (\<lambda>(v, st).
     read_values oop_at n st \<bind> (\<lambda>(vs, st). Some (v # vs, st)))"
  by (subst read_values.simps) (cases "dr_read_int rd"; auto simp only: read_one_def nat.distinct if_False
      Option.bind.simps prod.case diff_Suc_1 split: prod.split)

lemma read_values_single: "read_values oop_at (Suc 0) rd = Some ([v], rd') \<longleftrightarrow> read_one oop_at rd = Some (v, rd')"
  by (auto simp: read_values_unfold)

lemma read_values_Suc:
  assumes "read_values oop_at (Suc 0) rd = Some ([v], rd')" "read_values oop_at n rd' = Some (vs, rd'')"
  shows "read_values oop_at (Suc n) rd = Some (v # vs, rd'')"
  using assms by (simp add: read_values_single read_values_unfold)

lemma round_trip_Nil: "distinct ps \<Longrightarrow> round_trip env objs ps []"
  unfolding round_trip_def
proof (intro allI impI)
  fix st assume "writer_at (snd env) objs ps st" "distinct ps"
  moreover have "reads_back objs ps [] [] [] st"
    by (auto simp: reads_back_def pool_matches_def forward_0 intro!: exI [of _ "dr_pool _"])
  ultimately show "\<exists>st' qs bs. write_values env st [] = Some st' \<and> writer_at (snd env) objs (ps @ qs) st'
      \<and> distinct (ps @ qs) \<and> set qs \<subseteq> dom objs \<and> appends (dw_stream st) bs (dw_stream st') \<and> keeps_oops st st'
      \<and> (\<forall>p. ObjectRef p \<in> set [] \<longrightarrow> p \<in> set (ps @ qs)) \<and> refers_into objs qs (ps @ qs) \<and> reads_back objs ps qs [] bs st'"
    by (intro exI [of _ st] exI [of _ "[]"]) (simp add: writer_at_def appends_def keeps_oops_def refers_into_def)
qed

lemma reread_append: "(\<And>p. v = ObjectRef p \<Longrightarrow> p \<in> set ps) \<Longrightarrow> reread (ps @ qs) v = reread ps v"
  by (cases v) (simp_all add: pos_of_append)

lemma reread_object_append:
  assumes "refers_into objs [q] ps" "objs q = Some ov"
  shows "reread_object (ps @ qs) ov = reread_object ps ov"
proof -
  have *: "reread (ps @ qs) v = reread ps v" if "ov_klass ov = Some v \<or> v \<in> set (ov_fields ov)" for v
    by (rule reread_append) (use assms that in \<open>auto simp: refers_into_def\<close>)
  show ?thesis
    by (cases "ov_klass ov") (simp_all add: reread_object_def *)
qed

lemma refers_into_append: "refers_into objs qs rs \<Longrightarrow> set rs \<subseteq> set rs' \<Longrightarrow> refers_into objs qs rs'"
  by (fastforce simp: refers_into_def)

lemma refers_into_app: "refers_into objs (qs @ qs') rs \<longleftrightarrow> refers_into objs qs rs \<and> refers_into objs qs' rs"
  by (auto simp: refers_into_def)

lemma refers_into_nth: "refers_into objs qs rs \<Longrightarrow> k < length qs \<Longrightarrow> refers_into objs [qs ! k] rs"
  using nth_mem [of k qs] by (fastforce simp: refers_into_def)

text \<open>Entries that were complete stay complete when more objects are visited.\<close>

lemma complete_later:
  assumes "Some (pool ! k) = map_option (reread_object (ps @ qs)) (objs ((ps @ qs) ! k))"
    "refers_into objs qs (ps @ qs)" "length ps \<le> k" "k < length (ps @ qs)"
  shows "Some (pool ! k) = map_option (reread_object (ps @ qs @ rs)) (objs ((ps @ qs @ rs) ! k))"
proof -
  have nth: "(ps @ qs @ rs) ! k = (ps @ qs) ! k" "(ps @ qs) ! k = qs ! (k - length ps)"
    using assms(3,4) nth_append [of "ps @ qs" rs k] by (simp, simp add: nth_append)
  obtain ov where ov: "objs (qs ! (k - length ps)) = Some ov" using assms(1) nth(2) by (cases "objs (qs ! (k - length ps))") simp_all
  have "k - length ps < length qs" using assms(3,4) by simp
  from reread_object_append [OF refers_into_nth [OF assms(2) this] ov, of rs]
  show ?thesis using assms(1) by (simp add: nth ov)
qed

lemma reads_back_Cons:
  assumes "reads_back objs ps qs [v] bs st1" "reads_back objs (ps @ qs) rs vs cs st2" "keeps_oops st1 st2"
    "\<And>p. v = ObjectRef p \<Longrightarrow> p \<in> set (ps @ qs)" "refers_into objs qs (ps @ qs)"
  shows "reads_back objs ps (qs @ rs) (v # vs) (bs @ cs) st2"
  unfolding reads_back_def
proof (intro allI impI)
  fix oop_at and rd :: debug_reader
  assume b: "at_bytes (dr_stream rd) (bs @ cs)" and ag: "agrees oop_at st2" and pm: "pool_matches objs ps (dr_pool rd)"
  have "at_bytes (dr_stream rd) bs" using b by (simp add: at_bytes_append)
  then obtain pool where 1: "read_values oop_at (Suc 0) rd = Some ([reread (ps @ qs) v], forward rd (length bs) pool)"
    "pool_matches objs (ps @ qs) pool" "take (length ps) pool = dr_pool rd"
    "\<And>k. length ps \<le> k \<Longrightarrow> k < length (ps @ qs) \<Longrightarrow> Some (pool ! k) = map_option (reread_object (ps @ qs)) (objs ((ps @ qs) ! k))"
    using assms(1) pm keeps_agrees [OF assms(3) ag] unfolding reads_back_def by fastforce
  let ?rd = "forward rd (length bs) pool"
  have "at_bytes (dr_stream ?rd) cs" using b by (simp add: at_bytes_append)
  then obtain pool' where 2: "read_values oop_at (length vs) ?rd = Some (map (reread (ps @ qs @ rs)) vs, forward rd (length bs + length cs) pool')"
    "pool_matches objs (ps @ qs @ rs) pool'" "take (length (ps @ qs)) pool' = pool"
    "\<And>k. length (ps @ qs) \<le> k \<Longrightarrow> k < length (ps @ qs @ rs) \<Longrightarrow> Some (pool' ! k) = map_option (reread_object (ps @ qs @ rs)) (objs ((ps @ qs @ rs) ! k))"
    using assms(2) 1(2) ag unfolding reads_back_def by fastforce
  have v: "reread (ps @ qs) v = reread (ps @ qs @ rs) v" using reread_append [of v "ps @ qs" rs] assms(4) by simp
  have "take (length ps) pool' = dr_pool rd"
    using 1(3) 2(3) by (metis append_take_drop_id length_append take_add take_take min.commute le_add1 min.absorb_iff2)
  moreover have "Some (pool' ! k) = map_option (reread_object (ps @ qs @ rs)) (objs ((ps @ qs @ rs) ! k))"
    if "length ps \<le> k" "k < length (ps @ qs @ rs)" for k
  proof (cases "k < length (ps @ qs)")
    case True
    then have "pool' ! k = pool ! k" using 2(3) by (metis nth_take)
    then show ?thesis using complete_later [OF 1(4) [OF that(1) True] assms(5) that(1) True] by simp
  qed (use 2(4) that in simp)
  ultimately show "\<exists>pool. read_values oop_at (length (v # vs)) rd =
        Some (map (reread (ps @ qs @ rs)) (v # vs), forward rd (length (bs @ cs)) pool)
      \<and> pool_matches objs (ps @ qs @ rs) pool \<and> take (length ps) pool = dr_pool rd
      \<and> (\<forall>k. length ps \<le> k \<longrightarrow> k < length (ps @ qs @ rs) \<longrightarrow>
          Some (pool ! k) = map_option (reread_object (ps @ qs @ rs)) (objs ((ps @ qs @ rs) ! k)))"
    using read_values_Suc [OF 1(1) 2(1)] 2(2) v by (intro exI [of _ pool']) simp
qed

lemma round_trip_Cons:
  assumes "round_trip env objs ps [v]"
    and "\<And>qs. distinct (ps @ qs) \<Longrightarrow> set qs \<subseteq> dom objs \<Longrightarrow> round_trip env objs (ps @ qs) vs"
  shows "round_trip env objs ps (v # vs)"
  unfolding round_trip_def
proof (intro allI impI)
  fix st assume st: "writer_at (snd env) objs ps st"
  obtain st1 qs bs where 1: "write_values env st [v] = Some st1" "writer_at (snd env) objs (ps @ qs) st1" "distinct (ps @ qs)"
    "set qs \<subseteq> dom objs" "appends (dw_stream st) bs (dw_stream st1)" "keeps_oops st st1"
    "\<forall>p. ObjectRef p \<in> set [v] \<longrightarrow> p \<in> set (ps @ qs)" "refers_into objs qs (ps @ qs)" "reads_back objs ps qs [v] bs st1"
    using assms(1) st unfolding round_trip_def by blast
  obtain st2 rs cs where 2: "write_values env st1 vs = Some st2" "writer_at (snd env) objs ((ps @ qs) @ rs) st2"
    "distinct ((ps @ qs) @ rs)" "set rs \<subseteq> dom objs" "appends (dw_stream st1) cs (dw_stream st2)" "keeps_oops st1 st2"
    "\<forall>p. ObjectRef p \<in> set vs \<longrightarrow> p \<in> set ((ps @ qs) @ rs)" "refers_into objs rs ((ps @ qs) @ rs)"
    "reads_back objs (ps @ qs) rs vs cs st2"
    using assms(2) [OF 1(3,4)] 1(2) unfolding round_trip_def by blast
  have "write_values env st (v # vs) = Some st2" by (subst write_values_Cons) (simp add: 1(1) 2(1))
  moreover have "reads_back objs ps (qs @ rs) (v # vs) (bs @ cs) st2"
    by (rule reads_back_Cons [OF 1(9) 2(9,6) _ 1(8)]) (use 1(7) in simp)
  moreover have "refers_into objs (qs @ rs) (ps @ qs @ rs)"
    using refers_into_append [OF 1(8), of "ps @ qs @ rs"] 2(8) by (auto simp: refers_into_app)
  ultimately show "\<exists>st' qs bs. write_values env st (v # vs) = Some st' \<and> writer_at (snd env) objs (ps @ qs) st'
      \<and> distinct (ps @ qs) \<and> set qs \<subseteq> dom objs \<and> appends (dw_stream st) bs (dw_stream st') \<and> keeps_oops st st'
      \<and> (\<forall>p. ObjectRef p \<in> set (v # vs) \<longrightarrow> p \<in> set (ps @ qs)) \<and> refers_into objs qs (ps @ qs) \<and> reads_back objs ps qs (v # vs) bs st'"
    using 1 2 appends_trans [OF 1(5) 2(5)] keeps_oops_trans [OF 1(6) 2(6)]
    by (intro exI [of _ st2] exI [of _ "qs @ rs"] exI [of _ "bs @ cs"]) auto
qed

section \<open>One value\<close>

text \<open>A value that visits no new object: its bytes are a code and a payload that leaves the pool alone.\<close>

definition leaf_trip :: "write_env \<Rightarrow> (nat \<rightharpoonup> object_value) \<Rightarrow> nat list \<Rightarrow> scope_value \<Rightarrow> bool" where
  "leaf_trip env objs ps v \<longleftrightarrow> (\<forall>st. writer_at (snd env) objs ps st \<longrightarrow> (\<exists>st' bs.
     write_values env st [v] = Some st' \<and> writer_at (snd env) objs ps st'
     \<and> appends (dw_stream st) bs (dw_stream st') \<and> keeps_oops st st'
     \<and> (\<forall>oop_at rd. at_bytes (dr_stream rd) bs \<longrightarrow> agrees oop_at st' \<longrightarrow> pool_matches objs ps (dr_pool rd) \<longrightarrow>
          read_values oop_at (Suc 0) rd = Some ([reread ps v], forward rd (length bs) (dr_pool rd)))))"

lemma leaf_tripI:
  assumes "\<And>st. writer_at (snd env) objs ps st \<Longrightarrow> \<exists>st' code bs. write_values env st [v] = Some st' \<and> writer_at (snd env) objs ps st'
       \<and> appends (dw_stream st) (unsigned5 code @ bs) (dw_stream st') \<and> keeps_oops st st' \<and> code \<noteq> OBJECT_CODE
       \<and> (\<forall>oop_at rd. at_bytes (dr_stream rd) bs \<longrightarrow> agrees oop_at st' \<longrightarrow> pool_matches objs ps (dr_pool rd) \<longrightarrow>
            read_simple oop_at code rd = Some (reread ps v, forward rd (length bs) (dr_pool rd)))"
  shows "leaf_trip env objs ps v"
  unfolding leaf_trip_def
proof (intro allI impI)
  fix st assume "writer_at (snd env) objs ps st"
  from assms [OF this] obtain st' code bs where st': "write_values env st [v] = Some st'" "writer_at (snd env) objs ps st'"
    "appends (dw_stream st) (unsigned5 code @ bs) (dw_stream st')" "keeps_oops st st'" and code: "code \<noteq> OBJECT_CODE"
    and rd: "\<And>oop_at rd. at_bytes (dr_stream rd) bs \<Longrightarrow> agrees oop_at st' \<Longrightarrow> pool_matches objs ps (dr_pool rd) \<Longrightarrow>
      read_simple oop_at code rd = Some (reread ps v, forward rd (length bs) (dr_pool rd))"
    by blast
  have "read_values oop_at (Suc 0) r = Some ([reread ps v], forward r (length (unsigned5 code @ bs)) (dr_pool r))"
    if "at_bytes (dr_stream r) (unsigned5 code @ bs)" "agrees oop_at st'" "pool_matches objs ps (dr_pool r)" for oop_at r
  proof -
    let ?r = "forward r (length (unsigned5 code)) (dr_pool r)"
    have "at_bytes (dr_stream r) (unsigned5 code)" "at_bytes (dr_stream ?r) bs" using that(1) by (simp_all add: at_bytes_append)
    then show ?thesis
      using rd [of ?r oop_at] that(2,3) by (simp add: read_values_single read_one_def dr_read_int_bytes code)
  qed
  with st' show "\<exists>st' bs. write_values env st [v] = Some st' \<and> writer_at (snd env) objs ps st'
     \<and> appends (dw_stream st) bs (dw_stream st') \<and> keeps_oops st st'
     \<and> (\<forall>oop_at rd. at_bytes (dr_stream rd) bs \<longrightarrow> agrees oop_at st' \<longrightarrow> pool_matches objs ps (dr_pool rd) \<longrightarrow>
          read_values oop_at (Suc 0) rd = Some ([reread ps v], forward rd (length bs) (dr_pool rd)))"
    by blast
qed

lemma round_trip_leaf:
  assumes "distinct ps" "\<And>p. v = ObjectRef p \<Longrightarrow> p \<in> set ps" "leaf_trip env objs ps v"
  shows "round_trip env objs ps [v]"
  unfolding round_trip_def
proof (intro allI impI)
  fix st assume "writer_at (snd env) objs ps st"
  with assms(3) obtain st' bs where st': "write_values env st [v] = Some st'" "writer_at (snd env) objs ps st'"
    "appends (dw_stream st) bs (dw_stream st')" "keeps_oops st st'"
    and rd: "\<forall>oop_at rd. at_bytes (dr_stream rd) bs \<longrightarrow> agrees oop_at st' \<longrightarrow> pool_matches objs ps (dr_pool rd) \<longrightarrow>
      read_values oop_at (Suc 0) rd = Some ([reread ps v], forward rd (length bs) (dr_pool rd))"
    unfolding leaf_trip_def by blast
  have "reads_back objs ps [] [v] bs st'"
    unfolding reads_back_def using rd
    by (intro allI impI, rule_tac x = "dr_pool rd" in exI) (simp add: pool_matches_def)
  then show "\<exists>st' qs bs. write_values env st [v] = Some st' \<and> writer_at (snd env) objs (ps @ qs) st'
      \<and> distinct (ps @ qs) \<and> set qs \<subseteq> dom objs \<and> appends (dw_stream st) bs (dw_stream st') \<and> keeps_oops st st'
      \<and> (\<forall>p. ObjectRef p \<in> set [v] \<longrightarrow> p \<in> set (ps @ qs)) \<and> refers_into objs qs (ps @ qs) \<and> reads_back objs ps qs [v] bs st'"
    using st' assms(1,2)
    by (intro exI [of _ st'] exI [of _ "[]"] exI [of _ bs]) (auto simp: refers_into_def)
qed

lemma leaf_trip_simple:
  assumes "allocates (fst env)" "sv_ok (snd env) objs v" "\<And>p. v \<noteq> ObjectRef p"
  shows "leaf_trip env objs ps v"
proof (rule leaf_tripI)
  fix st assume "writer_at (snd env) objs ps st"
  from write_simple_trip [OF assms(1) this assms(2,3)]
  have "simple_trip env objs ps st v" .
  moreover have "write_values env st [v] = write_simple env st v"
    using assms(3) by (subst write_values.simps) (simp split: scope_value.split)
  moreover have "reread ps v = v" using assms(3) by (cases v) (blast | simp)+
  ultimately show "\<exists>st' code bs. write_values env st [v] = Some st' \<and> writer_at (snd env) objs ps st'
       \<and> appends (dw_stream st) (unsigned5 code @ bs) (dw_stream st') \<and> keeps_oops st st' \<and> code \<noteq> OBJECT_CODE
       \<and> (\<forall>oop_at rd. at_bytes (dr_stream rd) bs \<longrightarrow> agrees oop_at st' \<longrightarrow> pool_matches objs ps (dr_pool rd) \<longrightarrow>
            read_simple oop_at code rd = Some (reread ps v, forward rd (length bs) (dr_pool rd)))"
    unfolding simple_trip_def by (elim exE conjE) (simp, blast)
qed

lemma write_values_ref:
  "write_values env st [ObjectRef p] = dw_objs st p \<bind> (\<lambda>ov.
     if ov_visited ov then dw_write_int env st OBJECT_ID_CODE \<bind> (\<lambda>st. dw_write_int env st (ov_id ov))
     else dw_write_int env (st\<lparr>dw_objs := (dw_objs st)(p \<mapsto> ov\<lparr>ov_visited := True\<rparr>)\<rparr>) OBJECT_CODE \<bind> (\<lambda>st.
       dw_write_int env st (ov_id ov) \<bind> (\<lambda>st. ov_klass ov \<bind> (\<lambda>klass. write_values env st [klass] \<bind> (\<lambda>st.
       dw_write_int env st (of_nat (length (ov_fields ov))) \<bind> (\<lambda>st. write_values env st (ov_fields ov)))))))"
  by (subst write_values.simps) (simp only: list.case scope_value.case Let_def write_values_Nil Option.bind_runit)

lemma write_values_oop: "write_values env st [ConstantOopValue h] = write_simple env st (ConstantOopValue h)"
  by (subst write_values.simps) simp

lemma search_pool_finds:
  assumes "k < n" "n \<le> length pool" "ov_id (pool ! k) = i" "\<And>j. j < n \<Longrightarrow> ov_id (pool ! j) = i \<Longrightarrow> j = k"
  shows "search_pool pool i n = Some k"
  using assms
proof (induction n)
  case (Suc n)
  have get: "array_get pool n = Some (pool ! n)" using Suc.prems(2) by (simp add: array_get_def)
  show ?case
  proof (cases "ov_id (pool ! n) = i")
    case True
    then have "n = k" using Suc.prems(4) by blast
    then show ?thesis using get True by simp
  next
    case False
    then have "k < n" using Suc.prems(1,3) by (cases "k = n") auto
    moreover have "search_pool pool i n = Some k"
    proof (rule Suc.IH [OF \<open>k < n\<close>])
      show "j = k" if "j < n" "ov_id (pool ! j) = i" for j
        by (rule Suc.prems(4)) (use that in simp_all)
    qed (use Suc.prems(2,3) in simp_all)
    ultimately show ?thesis using get False by simp
  qed
qed simp

lemma graph_ok_unique: "graph_ok n objs \<Longrightarrow> objs p = Some ov \<Longrightarrow> objs q = Some ow \<Longrightarrow> ov_id ov = ov_id ow \<Longrightarrow> p = q"
  unfolding graph_ok_def by blast

lemma leaf_trip_visited:
  assumes "allocates (fst env)" "distinct ps" "graph_ok (snd env) objs" "p \<in> set ps" "objs p = Some ov"
  shows "leaf_trip env objs ps (ObjectRef p)"
proof (rule leaf_tripI)
  fix st assume st: "writer_at (snd env) objs ps st"
  obtain ws where ws: "dw_write_int env st OBJECT_ID_CODE = Some (st\<lparr>dw_stream := ws\<rparr>)"
    "appends (dw_stream st) (unsigned5 OBJECT_ID_CODE) ws" "writer_at (snd env) objs ps (st\<lparr>dw_stream := ws\<rparr>)"
    by (rule dw_write_int_appends [OF assms(1) st])
  obtain ws' where ws': "dw_write_int env (st\<lparr>dw_stream := ws\<rparr>) (ov_id ov) = Some (st\<lparr>dw_stream := ws'\<rparr>)"
    "appends ws (unsigned5 (ov_id ov)) ws'" "writer_at (snd env) objs ps (st\<lparr>dw_stream := ws'\<rparr>)"
    by (rule dw_write_int_appends [OF assms(1) ws(3), where v = "ov_id ov"]) simp
  have "write_values env st [ObjectRef p] = Some (st\<lparr>dw_stream := ws'\<rparr>)"
    using st assms(4,5) ws(1) ws'(1) by (simp add: write_values_ref writer_at_def mark_visited_def)
  moreover have "read_simple oop_at OBJECT_ID_CODE rd =
      Some (reread ps (ObjectRef p), forward rd (length (unsigned5 (ov_id ov))) (dr_pool rd))"
    if "at_bytes (dr_stream rd) (unsigned5 (ov_id ov))" "pool_matches objs ps (dr_pool rd)" for oop_at rd
  proof -
    have len: "length (dr_pool rd) = length ps" using that(2) by (simp add: pool_matches_def)
    have id: "ov_id (dr_pool rd ! k) = ov_id ov \<longleftrightarrow> ps ! k = p" if k: "k < length ps" for k
    proof -
      obtain ow where ow: "objs (ps ! k) = Some ow" "ov_id (dr_pool rd ! k) = ov_id ow"
        using \<open>pool_matches objs ps (dr_pool rd)\<close> k unfolding pool_matches_def by blast
      have "ov_id ow = ov_id ov \<Longrightarrow> ps ! k = p" using graph_ok_unique [OF assms(3) ow(1) assms(5)] .
      then show ?thesis using ow assms(5) by auto
    qed
    have "search_pool (dr_pool rd) (ov_id ov) (length (dr_pool rd)) = Some (pos_of ps p)"
    proof (rule search_pool_finds)
      show "j = pos_of ps p" if "j < length (dr_pool rd)" "ov_id (dr_pool rd ! j) = ov_id ov" for j
      proof -
        have "j < length ps" "ps ! j = p" using that len id by simp_all
        then show ?thesis using pos_of_bound [OF assms(4)] nth_eq_iff_index_eq [OF assms(2), of j "pos_of ps p"] by auto
      qed
    qed (use pos_of_bound [OF assms(4)] id len in simp_all)
    then show ?thesis
      using dr_read_int_bytes [OF that(1)] by (simp add: read_simple_def serialization_codes get_cached_object_def)
  qed
  ultimately show "\<exists>st' code bs. write_values env st [ObjectRef p] = Some st' \<and> writer_at (snd env) objs ps st'
       \<and> appends (dw_stream st) (unsigned5 code @ bs) (dw_stream st') \<and> keeps_oops st st' \<and> code \<noteq> OBJECT_CODE
       \<and> (\<forall>oop_at rd. at_bytes (dr_stream rd) bs \<longrightarrow> agrees oop_at st' \<longrightarrow> pool_matches objs ps (dr_pool rd) \<longrightarrow>
            read_simple oop_at code rd = Some (reread ps (ObjectRef p), forward rd (length bs) (dr_pool rd)))"
    using ws'(3) appends_trans [OF ws(2) ws'(2)]
    by (intro exI [of _ "st\<lparr>dw_stream := ws'\<rparr>"] exI [of _ OBJECT_ID_CODE] exI [of _ "unsigned5 (ov_id ov)"])
      (simp add: keeps_oops_def serialization_codes)
qed

text \<open>A value without new objects.\<close>

definition sv_known :: "handle \<Rightarrow> (nat \<rightharpoonup> object_value) \<Rightarrow> nat list \<Rightarrow> scope_value \<Rightarrow> bool" where
  "sv_known n objs ps v \<longleftrightarrow> sv_ok n objs v \<and> (\<forall>p. v = ObjectRef p \<longrightarrow> p \<in> set ps)"

lemma leaf_trip_known:
  assumes "allocates (fst env)" "distinct ps" "graph_ok (snd env) objs" "sv_known (snd env) objs ps v"
  shows "leaf_trip env objs ps v"
proof (cases "\<exists>p. v = ObjectRef p")
  case True
  then obtain p ov where "v = ObjectRef p" "p \<in> set ps" "objs p = Some ov" using assms(4) by (auto simp: sv_known_def sv_ok_def)
  then show ?thesis using leaf_trip_visited [OF assms(1-3)] by simp
next
  case False
  then show ?thesis using leaf_trip_simple [OF assms(1)] assms(4) by (auto simp: sv_known_def)
qed

section \<open>Object graphs\<close>

lemma mark_visit: "objs p = Some ov \<Longrightarrow> (mark_visited objs ps)(p \<mapsto> ov\<lparr>ov_visited := True\<rparr>) = mark_visited objs (ps @ [p])"
  by (auto simp: mark_visited_def fun_eq_iff)

lemma read_object_step:
  assumes code: "dr_read_int rd = Some (OBJECT_CODE, rd1)" and i: "dr_read_int rd1 = Some (i, rd2)"
    and klass: "read_values oop_at (Suc 0)
        (rd2\<lparr>dr_pool := dr_pool rd2 @ [\<lparr>ov_id = i, ov_klass = None, ov_fields = [], ov_visited = False\<rparr>]\<rparr>) = Some ([kl], rd3)"
    and len: "dr_read_int rd3 = Some (of_nat n, rd4)" "n < 2 ^ 31"
    and fields: "read_values oop_at n rd4 = Some (fs, rd5)"
  shows "read_one oop_at rd = Some (ObjectRef (length (dr_pool rd2)), rd5\<lparr>dr_pool := (dr_pool rd5)
      [length (dr_pool rd2) := \<lparr>ov_id = i, ov_klass = Some kl, ov_fields = fs, ov_visited = False\<rparr>]\<rparr>)"
proof -
  have "nat (sint (of_nat n :: jint)) = n"
    using len(2) by (simp add: signed_of_nat signed_take_bit_int_eq_self)
  then show ?thesis using assms by (simp add: read_one_def Let_def)
qed

text \<open>
  The bytes of a new object \<open>p\<close>: the code, the id, the class, the number of fields and the fields, read
  with \<open>p\<close> already in the pool.
\<close>

lemma reads_back_object:
  assumes klass: "reads_back objs (ps @ [p]) qs [kl] bs st1" and fields: "reads_back objs (ps @ p # qs) rs (ov_fields ov) cs st2"
    and keeps: "keeps_oops st1 st2" and ov: "objs p = Some ov" "ov_klass ov = Some kl" "length (ov_fields ov) < 2 ^ 31"
    and new: "p \<notin> set ps" and refs: "refers_into objs qs (ps @ p # qs)" and k: "\<And>q. kl = ObjectRef q \<Longrightarrow> q \<in> set (ps @ p # qs)"
  shows "reads_back objs ps (p # qs @ rs) [ObjectRef p]
    (unsigned5 OBJECT_CODE @ unsigned5 (ov_id ov) @ bs @ unsigned5 (of_nat (length (ov_fields ov))) @ cs) st2"
  unfolding reads_back_def
proof (intro allI impI)
  fix oop_at and rd :: debug_reader
  let ?c = "unsigned5 OBJECT_CODE" and ?i = "unsigned5 (ov_id ov)" and ?n = "unsigned5 (of_nat (length (ov_fields ov)))"
  let ?new = "\<lparr>ov_id = ov_id ov, ov_klass = None, ov_fields = [], ov_visited = False\<rparr>"
  assume b: "at_bytes (dr_stream rd) (?c @ ?i @ bs @ ?n @ cs)" and ag: "agrees oop_at st2" and pm: "pool_matches objs ps (dr_pool rd)"
  let ?rd2 = "forward rd (length ?c + length ?i) (dr_pool rd @ [?new])"
  have at: "at_bytes (dr_stream rd) ?c" "at_bytes (advance (dr_stream rd) (length ?c)) ?i"
    "at_bytes (dr_stream ?rd2) bs" "at_bytes (advance (dr_stream ?rd2) (length bs)) ?n"
    "at_bytes (advance (dr_stream ?rd2) (length bs + length ?n)) cs"
    using b by (simp_all add: at_bytes_append add.assoc)
  have "pool_matches objs (ps @ [p]) (dr_pool ?rd2)"
    using pm ov(1) by (auto simp: pool_matches_def nth_append less_Suc_eq)
  then obtain pool1 where 1: "read_values oop_at (Suc 0) ?rd2 = Some ([reread (ps @ p # qs) kl], forward ?rd2 (length bs) pool1)"
    "pool_matches objs (ps @ p # qs) pool1" "take (Suc (length ps)) pool1 = dr_pool rd @ [?new]"
    "\<forall>k. Suc (length ps) \<le> k \<longrightarrow> k < length (ps @ p # qs) \<longrightarrow> Some (pool1 ! k) = map_option (reread_object (ps @ p # qs)) (objs ((ps @ p # qs) ! k))"
    using klass at(3) keeps_agrees [OF keeps ag] unfolding reads_back_def by fastforce
  let ?rd4 = "forward ?rd2 (length bs + length ?n) pool1"
  have "at_bytes (dr_stream ?rd4) cs" using at(5) by simp
  then obtain pool2 where 2: "read_values oop_at (length (ov_fields ov)) ?rd4 =
      Some (map (reread (ps @ p # qs @ rs)) (ov_fields ov), forward ?rd4 (length cs) pool2)"
    "pool_matches objs (ps @ p # qs @ rs) pool2" "take (length (ps @ p # qs)) pool2 = pool1"
    "\<forall>k. length (ps @ p # qs) \<le> k \<longrightarrow> k < length (ps @ p # qs @ rs) \<longrightarrow> Some (pool2 ! k) = map_option (reread_object (ps @ p # qs @ rs)) (objs ((ps @ p # qs @ rs) ! k))"
    using fields 1(2) ag unfolding reads_back_def by fastforce
  let ?ov = "reread_object (ps @ p # qs @ rs) ov"
  let ?pool = "pool2[length ps := ?ov]"
  have lens: "length (dr_pool rd) = length ps" using pm by (simp add: pool_matches_def)
  have kl: "reread (ps @ p # qs) kl = reread (ps @ p # qs @ rs) kl" using reread_append [of kl "ps @ p # qs" rs] k by simp
  have "read_one oop_at rd = Some (ObjectRef (length ps), forward rd (length (?c @ ?i @ bs @ ?n @ cs)) ?pool)"
  proof -
    have r1: "dr_read_int rd = Some (OBJECT_CODE, forward rd (length ?c) (dr_pool rd))" by (rule dr_read_int_bytes [OF at(1)])
    have r2: "dr_read_int (forward rd (length ?c) (dr_pool rd)) = Some (ov_id ov, forward rd (length ?c + length ?i) (dr_pool rd))"
      using at(2) by (simp add: dr_read_int_bytes)
    have r3: "read_values oop_at (Suc 0) ((forward rd (length ?c + length ?i) (dr_pool rd))
          \<lparr>dr_pool := dr_pool (forward rd (length ?c + length ?i) (dr_pool rd)) @ [?new]\<rparr>)
        = Some ([reread (ps @ p # qs) kl], forward ?rd2 (length bs) pool1)"
      using 1(1) by simp
    have r4: "dr_read_int (forward ?rd2 (length bs) pool1) = Some (of_nat (length (ov_fields ov)), ?rd4)"
      using at(4) by (simp add: dr_read_int_bytes add.assoc)
    note read_object_step [OF r1 r2 r3 r4 ov(3) 2(1)]
    then show ?thesis by (simp add: lens kl ov(2) reread_object_def add.assoc)
  qed
  moreover have "pool_matches objs (ps @ p # qs @ rs) ?pool"
    using 2(2) ov(1) by (auto simp: pool_matches_def nth_list_update nth_append reread_object_def)
  moreover have "take (length ps) ?pool = dr_pool rd"
  proof -
    have "take (length ps) pool2 = take (length ps) (take (length (ps @ p # qs)) pool2)" by simp
    also have "\<dots> = take (length ps) (take (Suc (length ps)) pool1)" unfolding 2(3) by simp
    also have "\<dots> = dr_pool rd" unfolding 1(3) by (simp add: lens)
    finally show ?thesis by simp
  qed
  moreover have "Some (?pool ! k) = map_option (reread_object (ps @ p # qs @ rs)) (objs ((ps @ p # qs @ rs) ! k))"
    if "length ps \<le> k" "k < length (ps @ p # qs @ rs)" for k
  proof (cases "k = length ps \<or> length (ps @ p # qs) \<le> k")
    case True
    then show ?thesis using 2(2,4) that ov(1) by (auto simp: pool_matches_def)
  next
    case False
    then have k': "Suc (length ps) \<le> k" "k < length (ps @ p # qs)" using that by auto
    then have "pool2 ! k = pool1 ! k" using 2(3) by (metis nth_take)
    then show ?thesis using complete_later [of pool1 k "ps @ [p]" qs objs rs] 1(4) refs k' by simp
  qed
  ultimately show "\<exists>pool. read_values oop_at (length [ObjectRef p]) rd =
        Some (map (reread (ps @ p # qs @ rs)) [ObjectRef p], forward rd (length (?c @ ?i @ bs @ ?n @ cs)) pool)
      \<and> pool_matches objs (ps @ p # qs @ rs) pool \<and> take (length ps) pool = dr_pool rd
      \<and> (\<forall>k. length ps \<le> k \<longrightarrow> k < length (ps @ p # qs @ rs) \<longrightarrow>
          Some (pool ! k) = map_option (reread_object (ps @ p # qs @ rs)) (objs ((ps @ p # qs @ rs) ! k)))"
    using pos_of_new [OF new] by (intro exI [of _ ?pool]) (simp add: read_values_single)
qed

lemma round_trip_object:
  assumes a: "allocates (fst env)" and ps: "distinct ps" and new: "p \<notin> set ps"
    and ov: "objs p = Some ov" "ov_klass ov = Some kl" "length (ov_fields ov) < 2 ^ 31"
    and klass: "round_trip env objs (ps @ [p]) [kl]"
    and fields: "\<And>qs. distinct (ps @ p # qs) \<Longrightarrow> set qs \<subseteq> dom objs \<Longrightarrow> round_trip env objs (ps @ p # qs) (ov_fields ov)"
  shows "round_trip env objs ps [ObjectRef p]"
  unfolding round_trip_def
proof (intro allI impI)
  fix st assume st: "writer_at (snd env) objs ps st"
  let ?st0 = "st\<lparr>dw_objs := (dw_objs st)(p \<mapsto> ov\<lparr>ov_visited := True\<rparr>)\<rparr>"
  let ?n = "of_nat (length (ov_fields ov)) :: jint"
  have objs: "dw_objs st p = Some (ov\<lparr>ov_visited := False\<rparr>)" using st ov(1) new by (simp add: writer_at_def mark_visited_def)
  have "writer_at (snd env) objs (ps @ [p]) ?st0"
    using st mark_visit [of objs p ov ps, OF ov(1)] by (simp add: writer_at_def)
  then obtain wa where wa: "dw_write_int env ?st0 OBJECT_CODE = Some (?st0\<lparr>dw_stream := wa\<rparr>)"
    "appends (dw_stream st) (unsigned5 OBJECT_CODE) wa" "writer_at (snd env) objs (ps @ [p]) (?st0\<lparr>dw_stream := wa\<rparr>)"
    by (rule dw_write_int_appends [OF a, where v = OBJECT_CODE]) simp
  obtain wb where wb: "dw_write_int env (?st0\<lparr>dw_stream := wa\<rparr>) (ov_id ov) = Some (?st0\<lparr>dw_stream := wb\<rparr>)"
    "appends wa (unsigned5 (ov_id ov)) wb" "writer_at (snd env) objs (ps @ [p]) (?st0\<lparr>dw_stream := wb\<rparr>)"
    by (rule dw_write_int_appends [OF a wa(3), where v = "ov_id ov"]) simp
  obtain st1 qs bs where 1: "write_values env (?st0\<lparr>dw_stream := wb\<rparr>) [kl] = Some st1" "writer_at (snd env) objs (ps @ p # qs) st1"
    "distinct (ps @ p # qs)" "set qs \<subseteq> dom objs" "appends wb bs (dw_stream st1)" "keeps_oops (?st0\<lparr>dw_stream := wb\<rparr>) st1"
    "\<forall>q. ObjectRef q \<in> set [kl] \<longrightarrow> q \<in> set (ps @ p # qs)" "refers_into objs qs (ps @ p # qs)" "reads_back objs (ps @ [p]) qs [kl] bs st1"
    using klass [unfolded round_trip_def, rule_format, OF wb(3)] by auto
  obtain wc where wc: "dw_write_int env st1 ?n = Some (st1\<lparr>dw_stream := wc\<rparr>)"
    "appends (dw_stream st1) (unsigned5 ?n) wc" "writer_at (snd env) objs (ps @ p # qs) (st1\<lparr>dw_stream := wc\<rparr>)"
    "keeps_oops st1 (st1\<lparr>dw_stream := wc\<rparr>)"
    by (rule dw_write_int_appends [OF a 1(2)])
  obtain st2 rs cs where 2: "write_values env (st1\<lparr>dw_stream := wc\<rparr>) (ov_fields ov) = Some st2"
    "writer_at (snd env) objs (ps @ p # qs @ rs) st2" "distinct (ps @ p # qs @ rs)" "set rs \<subseteq> dom objs"
    "appends wc cs (dw_stream st2)" "keeps_oops (st1\<lparr>dw_stream := wc\<rparr>) st2"
    "\<forall>q. ObjectRef q \<in> set (ov_fields ov) \<longrightarrow> q \<in> set (ps @ p # qs @ rs)" "refers_into objs rs (ps @ p # qs @ rs)"
    "reads_back objs (ps @ p # qs) rs (ov_fields ov) cs st2"
    using fields [OF 1(3,4), unfolded round_trip_def, rule_format, OF wc(3)] by auto
  let ?bs = "unsigned5 OBJECT_CODE @ unsigned5 (ov_id ov) @ bs @ unsigned5 ?n @ cs"
  have "write_values env st [ObjectRef p] = Some st2"
    using objs wa(1) wb(1) 1(1) wc(1) 2(1) by (simp add: write_values_ref ov(2))
  moreover have "reads_back objs ps (p # qs @ rs) [ObjectRef p] ?bs st2"
    by (rule reads_back_object [OF 1(9) 2(9) keeps_oops_trans [OF wc(4) 2(6)] ov new 1(8)]) (use 1(7) in simp)
  moreover have "appends (dw_stream st) ?bs (dw_stream st2)"
    by (rule appends_trans [OF wa(2) appends_trans [OF wb(2) appends_trans [OF 1(5) appends_trans [OF wc(2) 2(5)]]]])
  moreover have "keeps_oops st st2"
    using keeps_oops_trans [OF 1(6) keeps_oops_trans [OF wc(4) 2(6)]] by (simp add: keeps_oops_def)
  moreover have "refers_into objs (p # qs @ rs) (ps @ p # qs @ rs)"
  proof -
    have "refers_into objs [p] (ps @ p # qs @ rs)" using 2(7) 1(7) ov(1,2) by (auto simp: refers_into_def)
    moreover have "refers_into objs qs (ps @ p # qs @ rs)" by (rule refers_into_append [OF 1(8)]) auto
    ultimately show ?thesis using 2(8) refers_into_app [of objs "[p]" "qs @ rs"] by (simp add: refers_into_app)
  qed
  ultimately show "\<exists>st' qs bs. write_values env st [ObjectRef p] = Some st' \<and> writer_at (snd env) objs (ps @ qs) st'
      \<and> distinct (ps @ qs) \<and> set qs \<subseteq> dom objs \<and> appends (dw_stream st) bs (dw_stream st') \<and> keeps_oops st st'
      \<and> (\<forall>q. ObjectRef q \<in> set [ObjectRef p] \<longrightarrow> q \<in> set (ps @ qs)) \<and> refers_into objs qs (ps @ qs)
      \<and> reads_back objs ps qs [ObjectRef p] bs st'"
    using 1(4) 2(2,3,4) ov(1)
    by (intro exI [of _ st2] exI [of _ "p # qs @ rs"] exI [of _ ?bs]) auto
qed

text \<open>Every list of values makes the round trip: by induction on the objects not yet visited.\<close>

lemma round_trip_all:
  assumes "allocates (fst env)" "graph_ok (snd env) objs" "distinct ps" "set ps \<subseteq> dom objs" "\<forall>v \<in> set vs. sv_ok (snd env) objs v"
  shows "round_trip env objs ps vs"
  using assms(3-)
proof (induction "card (dom objs - set ps)" arbitrary: ps vs rule: less_induct)
  case less
  have fin: "finite (dom objs)" using assms(2) by (simp add: graph_ok_def)
  have single: "round_trip env objs rs [v]" if rs: "distinct rs" "set rs \<subseteq> dom objs" "set ps \<subseteq> set rs" and v: "sv_ok (snd env) objs v" for rs v
  proof (cases "\<exists>p. v = ObjectRef p")
    case True
    then obtain p ov where p: "v = ObjectRef p" "objs p = Some ov" using v by (auto simp: sv_ok_def)
    show ?thesis
    proof (cases "p \<in> set rs")
      case True
      then show ?thesis using round_trip_leaf [OF rs(1) _ leaf_trip_visited [OF assms(1) rs(1) assms(2) _ p(2)]] p(1) by simp
    next
      case False
      obtain kl where kl: "ov_klass ov = Some kl" "\<forall>w \<in> set (kl # ov_fields ov). sv_ok (snd env) objs w" "length (ov_fields ov) < 2 ^ 31"
        using assms(2) p(2) unfolding graph_ok_def by blast
      have lt: "card (dom objs - set (rs @ p # qs)) < card (dom objs - set ps)" for qs
        using p(2) rs(3) False fin by (intro psubset_card_mono) auto
      have step: "round_trip env objs (rs @ p # qs) ws"
        if "distinct (rs @ p # qs)" "set qs \<subseteq> dom objs" "\<forall>w \<in> set ws. sv_ok (snd env) objs w" for qs ws
        by (rule less.hyps [OF lt that(1) _ that(3)]) (use rs(2) that(2) p(2) in auto)
      show ?thesis unfolding p(1)
        by (rule round_trip_object [where objs = objs, OF assms(1) rs(1) False p(2) kl(1,3)])
          (use step [of "[]" "[kl]"] step [where ws = "ov_fields ov"] rs(1) False kl(2) in auto)
    qed
  next
    case False
    then show ?thesis using round_trip_leaf [OF rs(1) _ leaf_trip_simple [OF assms(1) v]] by blast
  qed
  have "round_trip env objs rs ws"
    if "distinct rs" "set rs \<subseteq> dom objs" "set ps \<subseteq> set rs" "\<forall>v \<in> set ws. sv_ok (snd env) objs v" for rs ws
    using that
  proof (induction ws arbitrary: rs)
    case Nil
    then show ?case by (simp add: round_trip_Nil)
  next
    case (Cons w ws)
    show ?case
    proof (rule round_trip_Cons [OF single])
      fix qs assume "distinct (rs @ qs)" "set qs \<subseteq> dom objs"
      then show "round_trip env objs (rs @ qs) ws" using Cons.prems by (intro Cons.IH) auto
    qed (use Cons.prems in auto)
  qed
  then show ?case using less.prems by simp
qed

section \<open>Locations as fields of a word\<close>

lemma field_bits:
  "bit (0xFFFFFFE0 :: 32 word) k \<longleftrightarrow> 5 \<le> k \<and> k < 32" "bit (0x10 :: 32 word) k \<longleftrightarrow> k = 4" "bit (0x0F :: 32 word) k \<longleftrightarrow> k < 4"
proof -
  have f: "0xFFFFFFE0 = push_bit 5 (mask 27 :: 32 word)" "(0x10 :: 32 word) = push_bit 4 1" "(0x0F :: 32 word) = mask 4"
    by (simp_all add: mask_eq_exp_minus_1)
  have "bit (push_bit 5 (mask 27 :: 32 word)) k \<longleftrightarrow> 5 \<le> k \<and> k < 32" "bit (push_bit 4 1 :: 32 word) k \<longleftrightarrow> k = 4"
    "bit (mask 4 :: 32 word) k \<longleftrightarrow> k < 4"
    unfolding bit_push_bit_iff bit_mask_iff possible_bit_word bit_1_iff by (simp, linarith) (simp, linarith)+
  then show "bit (0xFFFFFFE0 :: 32 word) k \<longleftrightarrow> 5 \<le> k \<and> k < 32" "bit (0x10 :: 32 word) k \<longleftrightarrow> k = 4" "bit (0x0F :: 32 word) k \<longleftrightarrow> k < 4"
    unfolding f by -
qed

lemma type_code_bit: "bit (type_code t) k \<Longrightarrow> k < 4"
proof -
  have "type_code t AND mask 4 = type_code t" by (cases t) (simp_all add: mask_eq_exp_minus_1)
  then show "bit (type_code t) k \<Longrightarrow> k < 4" by (metis bit_and_iff bit_mask_iff)
qed

lemma where_code_bit: "bit (where_code w) k \<Longrightarrow> k = 0"
  by (cases w) (simp_all add: bit_1_iff)

lemma small_bit: "(x :: 32 word) < 2 ^ 27 \<Longrightarrow> bit x k \<Longrightarrow> k < 27"
proof -
  assume "x < 2 ^ 27"
  then have "unat x < 2 ^ 27" by (simp add: word_less_nat_alt)
  then have "take_bit 27 x = x" by (simp add: word_unat_eq_iff unsigned_take_bit_eq take_bit_nat_eq_self)
  then show "bit x k \<Longrightarrow> k < 27" by (metis bit_take_bit_iff)
qed

lemma loc_set_bit:
  assumes "k < 32"
  shows "bit (loc_set w t off) k \<longleftrightarrow>
    (if k < 4 then bit (type_code t) k else if k = 4 then bit (where_code w) 0 else bit off (k - 5))"
  using assms type_code_bit [of t k] where_code_bit [of w "k - 4"]
  by (unfold loc_set_def bit_or_iff bit_and_iff bit_push_bit_iff field_bits) auto

lemma loc_set_fields:
  "loc_where_of (loc_set w t off) = where_code w" "loc_type_of (loc_set w t off) = type_code t"
  "off < 2 ^ 27 \<Longrightarrow> loc_offset (loc_set w t off) = off"
proof -
  show "loc_where_of (loc_set w t off) = where_code w"
  proof (rule word_bit_ext)
    fix n assume "n < LENGTH(32)"
    then show "bit (loc_where_of (loc_set w t off)) n \<longleftrightarrow> bit (where_code w) n"
      using where_code_bit [of w n] unfolding loc_where_of_def bit_drop_bit_eq bit_and_iff field_bits comp_def
      by (cases "n = 0") (auto simp: loc_set_bit)
  qed
  show "loc_type_of (loc_set w t off) = type_code t"
    using type_code_bit [of t]
    by (intro word_bit_ext) (unfold loc_type_of_def bit_and_iff field_bits, auto simp: loc_set_bit)
  show "off < 2 ^ 27 \<Longrightarrow> loc_offset (loc_set w t off) = off"
    using small_bit [of off]
    by (intro word_bit_ext) (unfold loc_offset_def bit_drop_bit_eq bit_and_iff field_bits comp_def, fastforce simp: loc_set_bit)
qed

lemma legal_offset:
  assumes "legal_offset_in_bytes off"
  shows "signed_drop_bit 2 off < 2 ^ 27" "push_bit 2 (signed_drop_bit 2 off) = off"
proof -
  let ?q = "sint off div 4"
  have q: "signed_drop_bit 2 off = word_of_int ?q"
  proof -
    have "sint (signed_drop_bit 2 off) = ?q" by (simp add: sint_signed_drop_bit_eq drop_bit_eq_div)
    then have "(word_of_int (sint (signed_drop_bit 2 off)) :: jint) = word_of_int ?q" by simp
    then show ?thesis by simp
  qed
  have m: "sint off mod 4 = 0" and lt: "(word_of_int ?q :: juint) < 0x7FFFFFF"
    using assms by (simp_all add: legal_offset_in_bytes_def drop_bit_eq_div split: if_splits)
  show "signed_drop_bit 2 off < 2 ^ 27" using less_trans [OF lt, of "2 ^ 27"] by (simp add: q)
  have "push_bit 2 (word_of_int ?q :: juint) = word_of_int (4 * ?q)" by (simp add: push_bit_eq_mult)
  also have "4 * ?q = sint off" using m by auto
  finally show "push_bit 2 (signed_drop_bit 2 off) = off" by (simp add: q)
qed

section \<open>Properties\<close>

lemma mark_Nil: "\<forall>p ov. objs p = Some ov \<longrightarrow> \<not> ov_visited ov \<Longrightarrow> mark_visited objs [] = objs"
proof
  fix p assume "\<forall>p ov. objs p = Some ov \<longrightarrow> \<not> ov_visited ov"
  then show "mark_visited objs [] p = objs p" by (cases "objs p") (auto simp: mark_visited_def)
qed

text \<open>
  C4: writing any list of scope values ends, also when the object values refer to each other in
  cycles, and reading the written bytes gives the same values: the reader's pool holds one object for
  each object that was reached, in the order of the first visits, with its id, its class and its fields,
  and every reference to an object is a reference to its copy.
\<close>

theorem debug_info_roundtrip:
  assumes "allocates fresh" "0 < initial_size" "graph_ok non_oop objs" "\<forall>v \<in> set vs. sv_ok non_oop objs v"
    and "\<forall>p ov. objs p = Some ov \<longrightarrow> \<not> ov_visited ov" "vr_inv non_oop (or_oops recorder)"
  shows "succeeds (write_values (fresh, non_oop)
      \<lparr>dw_stream = new_write_stream fresh initial_size, dw_recorder = recorder, dw_objs = objs\<rparr> vs) (\<lambda>st. \<exists>order pool.
    distinct order \<and> (\<forall>p. ObjectRef p \<in> set vs \<longrightarrow> p \<in> set order) \<and> refers_into objs order order
    \<and> map Some pool = map (\<lambda>p. map_option (reread_object order) (objs p)) order
    \<and> (\<forall>oop_at. agrees oop_at st \<longrightarrow> read_values oop_at (length vs)
          \<lparr>dr_stream = \<lparr>rs_buffer = ws_buffer (dw_stream st), rs_position = 0\<rparr>, dr_pool = []\<rparr>
        = Some (map (reread order) vs, \<lparr>dr_stream = \<lparr>rs_buffer = ws_buffer (dw_stream st),
            rs_position = ws_position (dw_stream st)\<rparr>, dr_pool = pool\<rparr>)))"
proof -
  let ?init = "\<lparr>dw_stream = new_write_stream fresh initial_size, dw_recorder = recorder, dw_objs = objs\<rparr>"
  have "writer_at non_oop objs [] ?init" and empty: "content (new_write_stream fresh initial_size) = []"
    using assms(1,2,5,6) by (simp_all add: writer_at_def mark_Nil new_write_stream_def ws_wf_def allocates_def content_def)
  with round_trip_all [of "(fresh, non_oop)" objs "[]" vs] assms(1,3,4) obtain st order bs where
    st: "write_values (fresh, non_oop) ?init vs = Some st" "distinct order" "set order \<subseteq> dom objs" "appends (dw_stream ?init) bs (dw_stream st)"
    "\<forall>p. ObjectRef p \<in> set vs \<longrightarrow> p \<in> set order" "refers_into objs order order" "reads_back objs [] order vs bs st"
    unfolding round_trip_def by fastforce
  let ?rd = "\<lparr>dr_stream = \<lparr>rs_buffer = ws_buffer (dw_stream st), rs_position = 0\<rparr>, dr_pool = []\<rparr>"
  have b: "take (ws_position (dw_stream st)) (ws_buffer (dw_stream st)) = bs" "ws_position (dw_stream st) \<le> length (ws_buffer (dw_stream st))"
    using st(4) empty by (simp_all add: appends_def content_def ws_wf_def)
  then have l: "length bs = ws_position (dw_stream st)" by (metis length_take min.absorb2)
  then have at: "at_bytes (dr_stream ?rd) bs" using b by (simp add: at_bytes_def)
  define pool where "pool = map (\<lambda>p. the (map_option (reread_object order) (objs p))) order"
  have pool: "map Some pool = map (\<lambda>p. map_option (reread_object order) (objs p)) order"
    using st(3) by (auto simp: pool_def)
  have "read_values oop_at (length vs) ?rd = Some (map (reread order) vs, forward ?rd (length bs) pool)" if ag: "agrees oop_at st" for oop_at
  proof -
    obtain pool' where p: "read_values oop_at (length vs) ?rd = Some (map (reread order) vs, forward ?rd (length bs) pool')"
      "pool_matches objs order pool'" "\<forall>k < length order. Some (pool' ! k) = map_option (reread_object order) (objs (order ! k))"
      using st(7) [unfolded reads_back_def, rule_format, OF at ag] by (auto simp: pool_matches_def)
    have "map Some pool' = map (\<lambda>p. map_option (reread_object order) (objs p)) order"
      using p(2,3) by (intro nth_equalityI) (auto simp: pool_matches_def)
    also note pool [symmetric]
    finally have "map Some pool' = map Some pool" .
    then have "pool' = pool" by (rule map_injective) simp
    then show ?thesis using p(1) by simp
  qed
  then have "\<forall>oop_at. agrees oop_at st \<longrightarrow> read_values oop_at (length vs) ?rd
      = Some (map (reread order) vs, ?rd\<lparr>dr_stream := \<lparr>rs_buffer = ws_buffer (dw_stream st),
            rs_position = ws_position (dw_stream st)\<rparr>, dr_pool := pool\<rparr>)"
    by (simp add: forward_def advance_def l)
  then show ?thesis unfolding st(1) succeeds_Some using st(2,5,6) pool
    by (intro exI [of _ order] exI [of _ pool]) simp
qed

definition example_objs :: "nat \<rightharpoonup> object_value" where
  "example_objs = [7 \<mapsto> \<lparr>ov_id = 40, ov_klass = Some (ConstantOopValue 0x1000), ov_fields = [ObjectRef 9], ov_visited = False\<rparr>,
     9 \<mapsto> \<lparr>ov_id = 41, ov_klass = Some (ConstantOopValue 0x1000), ov_fields = [ObjectRef 7], ov_visited = False\<rparr>]"

lemma example_graph_ok: "graph_ok 0xffff example_objs"
  by (auto simp: graph_ok_def example_objs_def sv_ok_def is_real_def split: if_splits)

definition example_writer :: debug_writer where
  "example_writer = \<lparr>dw_stream = new_write_stream (\<lambda>n. replicate n 0) 1, dw_recorder = new_oop_recorder True, dw_objs = example_objs\<rparr>"

lemma example_written:
  "map_option (\<lambda>st. vr_handles (or_oops (dw_recorder st))) (write_values (\<lambda>n. replicate n 0, 0xffff) example_writer [ObjectRef 7])
    = Some (Some [0x1000])"
  by ((simp only: write_values_ref write_values_oop)?, code_simp)+

lemma example_agrees:
  assumes "write_values (\<lambda>n. replicate n 0, 0xffff) example_writer [ObjectRef 7] = Some st"
  shows "agrees (\<lambda>i. if i = 0 then Some 0 else if i = 1 then Some 0x1000 else None) st"
proof -
  have "vr_handles (or_oops (dw_recorder st)) = Some [0x1000]" using example_written assms by simp
  then show ?thesis by (auto simp: agrees_def or_oop_at_def vr_at_def array_get_def first_index_def le_Suc_eq split: if_splits)
qed

theorem debug_info_roundtrip_witness:
  "succeeds (write_values (\<lambda>n. replicate n 0, 0xffff) example_writer [ObjectRef 7]) (\<lambda>st. \<exists>order pool rs.
    distinct order \<and> {7, 9} \<subseteq> set order \<and> map Some pool = map (\<lambda>p. map_option (reread_object order) (example_objs p)) order
    \<and> read_values (\<lambda>i. if i = 0 then Some 0 else if i = 1 then Some 0x1000 else None) 1
          \<lparr>dr_stream = \<lparr>rs_buffer = ws_buffer (dw_stream st), rs_position = 0\<rparr>, dr_pool = []\<rparr>
        = Some ([ObjectRef (pos_of order 7)], \<lparr>dr_stream = rs, dr_pool = pool\<rparr>))"
proof -
  have inv: "vr_inv 0xffff (or_oops (new_oop_recorder True))" by (simp add: new_oop_recorder_def new_value_recorder_inv)
  have ok: "\<forall>v \<in> set [ObjectRef 7]. sv_ok 0xffff example_objs v" "\<forall>p ov. example_objs p = Some ov \<longrightarrow> \<not> ov_visited ov"
    by (auto simp: sv_ok_def example_objs_def split: if_splits)
  have "succeeds (write_values (\<lambda>n. replicate n 0, 0xffff) example_writer [ObjectRef 7]) (\<lambda>st. \<exists>order pool.
    distinct order \<and> (\<forall>p. ObjectRef p \<in> set [ObjectRef 7] \<longrightarrow> p \<in> set order) \<and> refers_into example_objs order order
    \<and> map Some pool = map (\<lambda>p. map_option (reread_object order) (example_objs p)) order
    \<and> (\<forall>oop_at. agrees oop_at st \<longrightarrow> read_values oop_at (length [ObjectRef 7])
          \<lparr>dr_stream = \<lparr>rs_buffer = ws_buffer (dw_stream st), rs_position = 0\<rparr>, dr_pool = []\<rparr>
        = Some (map (reread order) [ObjectRef 7], \<lparr>dr_stream = \<lparr>rs_buffer = ws_buffer (dw_stream st),
            rs_position = ws_position (dw_stream st)\<rparr>, dr_pool = pool\<rparr>)))"
    unfolding example_writer_def
    by (rule debug_info_roundtrip [OF _ _ example_graph_ok ok inv]) (simp_all add: allocates_def)
  then show ?thesis
  proof (rule succeedsE, elim exE conjE)
    fix st order pool
    assume st: "write_values (\<lambda>n. replicate n 0, 0xffff) example_writer [ObjectRef 7] = Some st"
      and o: "distinct order" "\<forall>p. ObjectRef p \<in> set [ObjectRef 7] \<longrightarrow> p \<in> set order" "refers_into example_objs order order"
      and p: "map Some pool = map (\<lambda>p. map_option (reread_object order) (example_objs p)) order"
      and r: "\<forall>oop_at. agrees oop_at st \<longrightarrow> read_values oop_at (length [ObjectRef 7])
          \<lparr>dr_stream = \<lparr>rs_buffer = ws_buffer (dw_stream st), rs_position = 0\<rparr>, dr_pool = []\<rparr>
        = Some (map (reread order) [ObjectRef 7], \<lparr>dr_stream = \<lparr>rs_buffer = ws_buffer (dw_stream st),
            rs_position = ws_position (dw_stream st)\<rparr>, dr_pool = pool\<rparr>)"
    have 7: "7 \<in> set order" using o(2) by simp
    have "example_objs 7 = Some \<lparr>ov_id = 40, ov_klass = Some (ConstantOopValue 0x1000), ov_fields = [ObjectRef 9], ov_visited = False\<rparr>"
      by (simp add: example_objs_def)
    then have "9 \<in> set order" using o(3) 7 unfolding refers_into_def by fastforce
    then have "{7, 9} \<subseteq> set order" using 7 by simp
    moreover note r [rule_format, OF example_agrees [OF st], simplified]
    ultimately show ?thesis unfolding st succeeds_Some using o(1) p
      by (intro exI [of _ order] exI [of _ pool] exI [of _ "\<lparr>rs_buffer = ws_buffer (dw_stream st),
            rs_position = ws_position (dw_stream st)\<rparr>"]) simp
  qed
qed

text \<open>
  The three fields of a location are independent of each other, and for an offset that
  \<^verbatim>\<open>legal_offset_in_bytes\<close> accepts the stack location of that offset gives the offset back.
\<close>

lemma location_fields:
  "loc_where_of (loc_set w t off) = where_code w \<and> loc_type_of (loc_set w t off) = type_code t
    \<and> (off < 2 ^ 27 \<longrightarrow> register_number (new_reg_loc t off) = off)
    \<and> (legal_offset_in_bytes bytes \<longrightarrow> stack_offset (new_stk_loc t bytes) = bytes)"
  using legal_offset [of bytes]
  by (auto simp: loc_set_fields register_number_def new_reg_loc_def stack_offset_def new_stk_loc_def)

lemma location_fields_example:
  "register_number (new_reg_loc Loc_oop 17) = 17 \<and> legal_offset_in_bytes 48 \<and> stack_offset (new_stk_loc Loc_lng 48) = 48"
proof -
  have "legal_offset_in_bytes 48" by (simp add: legal_offset_in_bytes_def)
  then show ?thesis
    using location_fields [where t = Loc_oop and off = 17] location_fields [where t = Loc_lng and bytes = 48] by simp
qed

end
