(* ===== verification/Growable_Array.thy ===== *)
theory Growable_Array
  imports Hs_Prelude
begin

text \<open>
  \<^verbatim>\<open>utilities/growableArray.hpp\<close>: the growable array that most of the VM uses for its lists, with
  the linear searches, insertions and removals, and the sorted insertion by binary search.
  The slots between the length and the capacity hold default-constructed elements (\<open>dflt\<close> stands
  for \<^verbatim>\<open>E()\<close>).  Lengths are \<open>int\<close>s of the source that are never negative; the doubling of the
  capacity and the midpoint of the binary search are guarded against signed overflow.
\<close>

section \<open>State\<close>

record 'a growable_array =
  ga_len :: nat
  ga_max :: nat
  ga_data :: "'a list"
  ga_on_C_heap :: bool

definition new_growable_array :: "'a \<Rightarrow> nat \<Rightarrow> bool \<Rightarrow> 'a growable_array" where
  "new_growable_array dflt initial_size c_heap =
     \<lparr>ga_len = 0, ga_max = initial_size, ga_data = replicate initial_size dflt, ga_on_C_heap = c_heap\<rparr>"

definition new_filled_array :: "'a \<Rightarrow> nat \<Rightarrow> nat \<Rightarrow> 'a \<Rightarrow> bool \<Rightarrow> 'a growable_array option" where
  "new_filled_array dflt initial_size initial_len filler c_heap =
     (if initial_size < initial_len then None
      else Some \<lparr>ga_len = initial_len, ga_max = initial_size,
             ga_data = replicate initial_len filler @ replicate (initial_size - initial_len) dflt, ga_on_C_heap = c_heap\<rparr>)"

definition ga_clear :: "'a growable_array \<Rightarrow> 'a growable_array" where
  "ga_clear ga = ga\<lparr>ga_len := 0\<rparr>"

definition ga_trunc_to :: "'a growable_array \<Rightarrow> nat \<Rightarrow> 'a growable_array" where
  "ga_trunc_to ga l = ga\<lparr>ga_len := l\<rparr>"

definition ga_is_empty :: "'a growable_array \<Rightarrow> bool" where
  "ga_is_empty ga \<longleftrightarrow> ga_len ga = 0"

definition ga_is_nonempty :: "'a growable_array \<Rightarrow> bool" where
  "ga_is_nonempty ga \<longleftrightarrow> ga_len ga \<noteq> 0"

definition ga_is_full :: "'a growable_array \<Rightarrow> bool" where
  "ga_is_full ga \<longleftrightarrow> ga_len ga = ga_max ga"

text \<open>
  The doubling loop of \<^verbatim>\<open>grow\<close>.  From capacity 0 it would never end, and a doubling past the
  range of \<^verbatim>\<open>int\<close> is undefined.
\<close>

function grow_max :: "nat \<Rightarrow> nat \<Rightarrow> nat option" where
  "grow_max j m =
     (if j < m then Some m
      else if m = 0 \<or> 2 ^ 31 \<le> m * 2 then None
      else grow_max j (m * 2))"
  by pat_completeness auto
termination
  by (relation "measure (\<lambda>(j, m). j + 1 - m)") auto

declare grow_max.simps [simp del]

definition ga_grow :: "'a \<Rightarrow> 'a growable_array \<Rightarrow> nat \<Rightarrow> 'a growable_array option" where
  "ga_grow dflt ga j = do {
     m \<leftarrow> grow_max j (if ga_max ga = 0 then 1 else ga_max ga);
     if ga_len ga \<le> length (ga_data ga) \<and> ga_len ga \<le> m
     then Some (ga\<lparr>ga_max := m, ga_data := take (ga_len ga) (ga_data ga) @ replicate (m - ga_len ga) dflt\<rparr>)
     else None
   }"

text \<open>
  \<^verbatim>\<open>append\<close> takes its element by reference.  The reference may point into the array itself
  (\<open>Slot i\<close>); if \<^verbatim>\<open>grow\<close> then releases the old block on the C heap, reading the element is a use
  after free.  The old block stays readable in a resource area or arena.
\<close>

datatype 'a elem_ref = Val 'a | Slot nat

definition ga_append :: "'a \<Rightarrow> 'a growable_array \<Rightarrow> 'a elem_ref \<Rightarrow> (nat \<times> 'a growable_array) option" where
  "ga_append dflt ga elem = do {
     let grown = (ga_len ga = ga_max ga);
     ga' \<leftarrow> (if grown then ga_grow dflt ga (ga_len ga) else Some ga);
     let idx = ga_len ga';
     x \<leftarrow> (case elem of
        Val v \<Rightarrow> Some v
      | Slot i \<Rightarrow> if grown \<and> ga_on_C_heap ga then None else array_get (ga_data ga) i);
     d \<leftarrow> array_put (ga_data ga') idx x;
     Some (idx, ga'\<lparr>ga_len := idx + 1, ga_data := d\<rparr>)
   }"

definition ga_push :: "'a \<Rightarrow> 'a growable_array \<Rightarrow> 'a \<Rightarrow> 'a growable_array option" where
  "ga_push dflt ga x = do { (_, ga) \<leftarrow> ga_append dflt ga (Val x); Some ga }"

definition ga_at :: "'a growable_array \<Rightarrow> nat \<Rightarrow> 'a option" where
  "ga_at ga i = array_get (ga_data ga) i"

definition ga_first :: "'a growable_array \<Rightarrow> 'a option" where
  "ga_first ga = array_get (ga_data ga) 0"

definition ga_top :: "'a growable_array \<Rightarrow> 'a option" where
  "ga_top ga = (if ga_len ga = 0 then None else array_get (ga_data ga) (ga_len ga - 1))"

definition ga_pop :: "'a growable_array \<Rightarrow> ('a \<times> 'a growable_array) option" where
  "ga_pop ga =
     (if ga_len ga = 0 then None
      else do {
        let ga = ga\<lparr>ga_len := ga_len ga - 1\<rparr>;
        x \<leftarrow> array_get (ga_data ga) (ga_len ga);
        Some (x, ga)
      })"

definition ga_at_put :: "'a growable_array \<Rightarrow> nat \<Rightarrow> 'a \<Rightarrow> 'a growable_array option" where
  "ga_at_put ga i x = do { d \<leftarrow> array_put (ga_data ga) i x; Some (ga\<lparr>ga_data := d\<rparr>) }"

definition fill_slots :: "'a list \<Rightarrow> nat \<Rightarrow> nat \<Rightarrow> 'a \<Rightarrow> 'a list option" where
  "fill_slots d i n fill = for_loop i n (\<lambda>j d. array_put d j fill) d"

definition ga_at_grow :: "'a \<Rightarrow> 'a growable_array \<Rightarrow> nat \<Rightarrow> 'a \<Rightarrow> ('a \<times> 'a growable_array) option" where
  "ga_at_grow dflt ga i fill = do {
     ga \<leftarrow> (if i \<ge> ga_len ga
       then do {
         ga \<leftarrow> (if i \<ge> ga_max ga then ga_grow dflt ga i else Some ga);
         d \<leftarrow> fill_slots (ga_data ga) (ga_len ga) (i + 1) fill;
         Some (ga\<lparr>ga_len := i + 1, ga_data := d\<rparr>)
       }
       else Some ga);
     x \<leftarrow> array_get (ga_data ga) i;
     Some (x, ga)
   }"

definition raw_at_put_grow :: "'a \<Rightarrow> 'a growable_array \<Rightarrow> nat \<Rightarrow> 'a \<Rightarrow> 'a \<Rightarrow> 'a growable_array option" where
  "raw_at_put_grow dflt ga i p fill = do {
     ga \<leftarrow> (if i \<ge> ga_len ga
       then do {
         ga \<leftarrow> (if i \<ge> ga_max ga then ga_grow dflt ga i else Some ga);
         d \<leftarrow> fill_slots (ga_data ga) (ga_len ga) i fill;
         Some (ga\<lparr>ga_len := i + 1, ga_data := d\<rparr>)
       }
       else Some ga);
     d \<leftarrow> array_put (ga_data ga) i p;
     Some (ga\<lparr>ga_data := d\<rparr>)
   }"

definition ga_at_put_grow :: "'a \<Rightarrow> 'a growable_array \<Rightarrow> nat \<Rightarrow> 'a \<Rightarrow> 'a \<Rightarrow> 'a growable_array option" where
  "ga_at_put_grow dflt ga i elem fill = raw_at_put_grow dflt ga i elem fill"

section \<open>Searches\<close>

definition ga_find_if :: "'a growable_array \<Rightarrow> ('a \<Rightarrow> bool) \<Rightarrow> int option" where
  "ga_find_if ga f = do {
     r \<leftarrow> for_return 0 (ga_len ga) (\<lambda>i _. do {
         x \<leftarrow> array_get (ga_data ga) i;
         Some (if f x then Inl (int i) else Inr ())
       }) ();
     Some (case r of Inl i \<Rightarrow> i | Inr _ \<Rightarrow> - 1)
   }"

definition ga_find :: "'a growable_array \<Rightarrow> 'a \<Rightarrow> int option" where
  "ga_find ga elem = do {
     r \<leftarrow> for_return 0 (ga_len ga) (\<lambda>i _. do {
         x \<leftarrow> array_get (ga_data ga) i;
         Some (if x = elem then Inl (int i) else Inr ())
       }) ();
     Some (case r of Inl i \<Rightarrow> i | Inr _ \<Rightarrow> - 1)
   }"

definition ga_contains :: "'a growable_array \<Rightarrow> 'a \<Rightarrow> bool option" where
  "ga_contains ga elem = do {
     r \<leftarrow> for_return 0 (ga_len ga) (\<lambda>i _. do {
         x \<leftarrow> array_get (ga_data ga) i;
         Some (if x = elem then Inl True else Inr ())
       }) ();
     Some (case r of Inl b \<Rightarrow> b | Inr _ \<Rightarrow> False)
   }"

definition ga_append_if_missing :: "'a \<Rightarrow> 'a growable_array \<Rightarrow> 'a \<Rightarrow> (bool \<times> 'a growable_array) option" where
  "ga_append_if_missing dflt ga elem = do {
     c \<leftarrow> ga_contains ga elem;
     let missed = (\<not> c);
     if missed then do { (_, ga) \<leftarrow> ga_append dflt ga (Val elem); Some (missed, ga) } else Some (missed, ga)
   }"

text \<open>The loops that run from the last element down to the first.\<close>

fun find_down :: "'a list \<Rightarrow> ('a \<Rightarrow> bool) \<Rightarrow> nat \<Rightarrow> int option" where
  "find_down d f 0 = Some (- 1)"
| "find_down d f (Suc i) = do { x \<leftarrow> array_get d i; if f x then Some (int i) else find_down d f i }"

definition ga_find_from_end :: "'a growable_array \<Rightarrow> 'a \<Rightarrow> int option" where
  "ga_find_from_end ga elem = find_down (ga_data ga) (\<lambda>x. x = elem) (ga_len ga)"

definition ga_find_from_end_if :: "'a growable_array \<Rightarrow> ('a \<Rightarrow> bool) \<Rightarrow> int option" where
  "ga_find_from_end_if ga f = find_down (ga_data ga) f (ga_len ga)"

section \<open>Removals and insertions\<close>

definition shift_down :: "'a list \<Rightarrow> nat \<Rightarrow> nat \<Rightarrow> 'a list option" where
  "shift_down d i n = for_loop (i + 1) n (\<lambda>j d. do { x \<leftarrow> array_get d j; array_put d (j - 1) x }) d"

definition ga_remove_at :: "'a growable_array \<Rightarrow> nat \<Rightarrow> 'a growable_array option" where
  "ga_remove_at ga index = do {
     d \<leftarrow> shift_down (ga_data ga) index (ga_len ga);
     Some (ga\<lparr>ga_len := ga_len ga - 1, ga_data := d\<rparr>)
   }"

definition ga_remove :: "'a growable_array \<Rightarrow> 'a \<Rightarrow> 'a growable_array option" where
  "ga_remove ga elem = do {
     r \<leftarrow> for_return 0 (ga_len ga) (\<lambda>i _. do {
         x \<leftarrow> array_get (ga_data ga) i;
         if x = elem
         then do {
           d \<leftarrow> shift_down (ga_data ga) i (ga_len ga);
           Some (Inl (ga\<lparr>ga_len := ga_len ga - 1, ga_data := d\<rparr>))
         }
         else Some (Inr ())
       }) ();
     (case r of Inl ga' \<Rightarrow> Some ga' | Inr _ \<Rightarrow> None)
   }"

definition ga_delete_at :: "'a growable_array \<Rightarrow> nat \<Rightarrow> 'a growable_array option" where
  "ga_delete_at ga index =
     (let len = ga_len ga - 1
      in if index < len
         then do {
           x \<leftarrow> array_get (ga_data ga) len;
           d \<leftarrow> array_put (ga_data ga) index x;
           Some (ga\<lparr>ga_len := len, ga_data := d\<rparr>)
         }
         else Some (ga\<lparr>ga_len := len\<rparr>))"

fun shift_up :: "'a list \<Rightarrow> nat \<Rightarrow> nat \<Rightarrow> 'a list option" where
  "shift_up d idx 0 = Some d"
| "shift_up d idx (Suc j) =
     (if idx \<le> j
      then do { x \<leftarrow> array_get d j; d \<leftarrow> array_put d (j + 1) x; shift_up d idx j }
      else Some d)"

definition ga_insert_before :: "'a \<Rightarrow> 'a growable_array \<Rightarrow> nat \<Rightarrow> 'a \<Rightarrow> 'a growable_array option" where
  "ga_insert_before dflt ga idx elem = do {
     ga \<leftarrow> (if ga_len ga = ga_max ga then ga_grow dflt ga (ga_len ga) else Some ga);
     d \<leftarrow> shift_up (ga_data ga) idx (ga_len ga);
     d \<leftarrow> array_put d idx elem;
     Some (ga\<lparr>ga_len := ga_len ga + 1, ga_data := d\<rparr>)
   }"

definition ga_appendAll :: "'a \<Rightarrow> 'a \<Rightarrow> 'a growable_array \<Rightarrow> 'a growable_array \<Rightarrow> 'a growable_array option" where
  "ga_appendAll dflt zero ga l = for_loop 0 (ga_len l) (\<lambda>i ga. do {
     x \<leftarrow> array_get (ga_data l) i;
     raw_at_put_grow dflt ga (ga_len ga) x zero
   }) ga"

section \<open>Binary search\<close>

text \<open>\<^verbatim>\<open>max\<close> starts at -1 for an empty array and may become -1, so the bounds are integers.\<close>

function find_binary_loop :: "('k \<Rightarrow> 'a \<Rightarrow> int) \<Rightarrow> 'k \<Rightarrow> 'a growable_array \<Rightarrow> int \<Rightarrow> int \<Rightarrow> (bool \<times> nat) option" where
  "find_binary_loop compare key ga mn mx =
     (if mx \<ge> mn
      then if 2 ^ 31 \<le> mx + mn then None
      else do {
        let mid = (mx + mn) div 2;
        v \<leftarrow> ga_at ga (nat mid);
        let diff = compare key v;
        if diff > 0 then find_binary_loop compare key ga (mid + 1) mx
        else if diff < 0 then find_binary_loop compare key ga mn (mid - 1)
        else Some (True, nat mid)
      }
      else Some (False, nat mn))"
  by pat_completeness auto
termination
  by (relation "measure (\<lambda>(compare, key, ga, mn, mx). nat (mx - mn + 1))") auto

declare find_binary_loop.simps [simp del]

definition find_binary :: "('k \<Rightarrow> 'a \<Rightarrow> int) \<Rightarrow> 'a growable_array \<Rightarrow> 'k \<Rightarrow> (bool \<times> nat) option" where
  "find_binary compare ga key = find_binary_loop compare key ga 0 (int (ga_len ga) - 1)"

definition insert_binary :: "'a \<Rightarrow> 'a growable_array \<Rightarrow> nat \<Rightarrow> 'a \<Rightarrow> 'a growable_array option" where
  "insert_binary dflt ga location element =
     (let len = ga_len ga
      in if len = location then do { (_, ga) \<leftarrow> ga_append dflt ga (Val element); Some ga }
      else if len = 0 then None
      else do {
        (_, ga) \<leftarrow> ga_append dflt ga (Slot (len - 1));
        d \<leftarrow> shift_up (ga_data ga) location (len - 1);
        ga_at_put (ga\<lparr>ga_data := d\<rparr>) location element
      })"

definition find_insert_binary :: "('a \<Rightarrow> 'a \<Rightarrow> int) \<Rightarrow> 'a \<Rightarrow> 'a growable_array \<Rightarrow> 'a \<Rightarrow> ('a \<times> 'a growable_array) option" where
  "find_insert_binary compare dflt ga key = do {
     (found, location) \<leftarrow> find_binary compare ga key;
     ga \<leftarrow> (if \<not> found then insert_binary dflt ga location key else Some ga);
     x \<leftarrow> ga_at ga location;
     Some (x, ga)
   }"

section \<open>Well-formed arrays and their contents\<close>

definition ga_wf :: "'a growable_array \<Rightarrow> bool" where
  "ga_wf ga \<longleftrightarrow> ga_len ga \<le> ga_max ga \<and> length (ga_data ga) = ga_max ga"

definition ga_contents :: "'a growable_array \<Rightarrow> 'a list" where
  "ga_contents ga = take (ga_len ga) (ga_data ga)"

text \<open>The array \<open>ga'\<close> is well formed, lives where \<open>ga\<close> lives and has the contents \<open>xs\<close>.\<close>

definition holds :: "'a growable_array \<Rightarrow> 'a list \<Rightarrow> 'a growable_array \<Rightarrow> bool" where
  "holds ga xs ga' \<longleftrightarrow> ga_wf ga' \<and> ga_contents ga' = xs \<and> ga_on_C_heap ga' = ga_on_C_heap ga"

lemma length_contents [simp]: "ga_wf ga \<Longrightarrow> length (ga_contents ga) = ga_len ga"
  by (simp add: ga_wf_def ga_contents_def)

lemma contents_nth: "ga_wf ga \<Longrightarrow> i < ga_len ga \<Longrightarrow> array_get (ga_data ga) i = Some (ga_contents ga ! i)"
  by (simp add: ga_wf_def ga_contents_def array_get_def)

lemma grow_max_doubles: "0 < m \<Longrightarrow> j < 2 ^ 30 \<Longrightarrow> succeeds (grow_max j m) (\<lambda>m'. j < m' \<and> m \<le> m')"
proof (induction j m rule: grow_max.induct)
  case (1 j m)
  show ?case
  proof (cases "j < m")
    case False
    then have "\<not> (m = 0 \<or> 2 ^ 31 \<le> m * 2)" using 1(2,3) by simp
    from succeeds_weaken [OF 1(1) [OF False this]] this 1(2,3) False show ?thesis
      by (simp add: grow_max.simps [of j m])
  qed (simp add: grow_max.simps)
qed

lemma ga_grow_spec:
  assumes "ga_wf ga" "j < 2 ^ 30" "ga_len ga \<le> j"
  shows "succeeds (ga_grow dflt ga j) (\<lambda>ga'. holds ga (ga_contents ga) ga' \<and> ga_len ga' = ga_len ga \<and> j < ga_max ga')"
proof -
  let ?m = "if ga_max ga = 0 then 1 else ga_max ga"
  have "0 < ?m" by simp
  from grow_max_doubles [OF this assms(2)] obtain m' where "grow_max j ?m = Some m'" "j < m' \<and> ?m \<le> m'"
    by (rule succeedsE)
  then show ?thesis using assms by (simp add: ga_grow_def ga_wf_def holds_def ga_contents_def)
qed

lemma fill_slots_spec:
  assumes "i \<le> n" "n \<le> length d"
  shows "fill_slots d i n fill = Some (take i d @ replicate (n - i) fill @ drop n d)"
proof -
  have "succeeds (fill_slots d i n fill) (\<lambda>d'. d' = take i d @ replicate (n - i) fill @ drop n d)"
    unfolding fill_slots_def
  proof (rule for_loop_rule [OF assms(1), where I = "\<lambda>k d'. d' = take i d @ replicate (k - i) fill @ drop k d"])
    fix k d' assume k: "i \<le> k" "k < n" and d': "d' = take i d @ replicate (k - i) fill @ drop k d"
    have "drop k d = d ! k # drop (Suc k) d" using k assms(2) by (simp add: Cons_nth_drop_Suc)
    then show "succeeds (array_put d' k fill) (\<lambda>d'. d' = take i d @ replicate (Suc k - i) fill @ drop (Suc k) d)"
      using k assms(2) by (simp add: d' succeeds_put list_update_append Suc_diff_le replicate_append_same [symmetric])
  qed simp
  then show ?thesis by (auto simp: succeeds_iff)
qed

text \<open>Room for one more element: the common start of \<^verbatim>\<open>append\<close> and \<^verbatim>\<open>insert_before\<close>.\<close>

lemma make_room:
  assumes "ga_wf ga" "ga_len ga < 2 ^ 30"
  shows "succeeds (if ga_len ga = ga_max ga then ga_grow dflt ga (ga_len ga) else Some ga)
    (\<lambda>ga'. holds ga (ga_contents ga) ga' \<and> ga_len ga' = ga_len ga \<and> ga_len ga' < ga_max ga')"
  using succeeds_weaken [OF ga_grow_spec [OF assms(1,2) order_refl, of dflt]] assms(1)
  by (auto simp: holds_def ga_wf_def)

lemma contents_append:
  assumes "ga_wf ga" "ga_len ga < ga_max ga"
  shows "holds ga (ga_contents ga @ [x]) (ga\<lparr>ga_len := Suc (ga_len ga), ga_data := (ga_data ga)[ga_len ga := x]\<rparr>)"
  using assms by (simp add: holds_def ga_wf_def ga_contents_def take_Suc_conv_app_nth)

lemma ga_append_spec:
  assumes "ga_wf ga" "ga_len ga < 2 ^ 30"
  shows "succeeds (ga_append dflt ga (Val x)) (\<lambda>(i, ga'). i = ga_len ga \<and> holds ga (ga_contents ga @ [x]) ga')"
proof -
  obtain ga' where g: "(if ga_len ga = ga_max ga then ga_grow dflt ga (ga_len ga) else Some ga) = Some ga'"
    "holds ga (ga_contents ga) ga'" "ga_len ga' = ga_len ga" "ga_len ga' < ga_max ga'"
    using make_room [OF assms, of dflt] by (auto simp: succeeds_iff)
  then show ?thesis
    using contents_append [of ga' x] by (simp add: ga_append_def g(1) Let_def array_put_def holds_def ga_wf_def)
qed

lemma ga_pop_spec:
  assumes "ga_wf ga" "ga_len ga \<noteq> 0"
  shows "succeeds (ga_pop ga) (\<lambda>(x, ga'). x = last (ga_contents ga) \<and> holds ga (butlast (ga_contents ga)) ga')"
proof -
  have "ga_contents ga \<noteq> []" using assms by (auto simp: ga_contents_def ga_wf_def)
  then have "ga_data ga ! (ga_len ga - 1) = last (ga_contents ga)"
    using assms by (simp add: last_conv_nth ga_contents_def ga_wf_def)
  then show ?thesis
    using assms by (auto simp: ga_pop_def Let_def array_get_def ga_wf_def holds_def ga_contents_def butlast_take)
qed

lemma grow_to:
  assumes "ga_wf ga" "i < 2 ^ 30" "ga_len ga \<le> i"
  shows "succeeds (if i \<ge> ga_max ga then ga_grow dflt ga i else Some ga)
    (\<lambda>ga'. holds ga (ga_contents ga) ga' \<and> ga_len ga' = ga_len ga \<and> i < ga_max ga')"
  using succeeds_weaken [OF ga_grow_spec [OF assms, of dflt]] assms(1)
  by (auto simp: holds_def ga_wf_def)

lemma ga_at_grow_spec:
  assumes "ga_wf ga" "i < 2 ^ 30"
  shows "succeeds (ga_at_grow dflt ga i fill) (\<lambda>(x, ga').
    let xs = ga_contents ga @ replicate (Suc i - ga_len ga) fill in x = xs ! i \<and> holds ga xs ga')"
proof (cases "i < ga_len ga")
  case True
  then show ?thesis using assms(1) contents_nth [OF assms(1) True]
    by (simp add: ga_at_grow_def holds_def nth_append)
next
  case False
  obtain ga' where g: "(if i \<ge> ga_max ga then ga_grow dflt ga i else Some ga) = Some ga'"
    "holds ga (ga_contents ga) ga'" "ga_len ga' = ga_len ga" "i < ga_max ga'"
    using grow_to [OF assms, of dflt] False by (auto simp: succeeds_iff)
  have w: "ga_wf ga'" "length (ga_data ga') = ga_max ga'" "take (ga_len ga) (ga_data ga') = ga_contents ga"
    using g(2,3) by (simp_all add: holds_def ga_wf_def ga_contents_def)
  have "i - ga_len ga < Suc i - ga_len ga" using False by linarith
  with w show ?thesis
    using False g assms(1)
    by (simp add: ga_at_grow_def g(1) fill_slots_spec Let_def holds_def ga_wf_def ga_contents_def array_get_def nth_append)
qed

lemma raw_at_put_grow_spec:
  assumes "ga_wf ga" "i < 2 ^ 30"
  shows "succeeds (raw_at_put_grow dflt ga i p fill)
    (holds ga (if i < ga_len ga then (ga_contents ga)[i := p] else ga_contents ga @ replicate (i - ga_len ga) fill @ [p]))"
proof (cases "i < ga_len ga")
  case True
  then show ?thesis using assms(1)
    by (simp add: raw_at_put_grow_def holds_def ga_wf_def ga_contents_def array_put_def take_update_swap)
next
  case False
  obtain ga' where g: "(if i \<ge> ga_max ga then ga_grow dflt ga i else Some ga) = Some ga'"
    "holds ga (ga_contents ga) ga'" "ga_len ga' = ga_len ga" "i < ga_max ga'"
    using grow_to [OF assms, of dflt] False by (auto simp: succeeds_iff)
  have w: "ga_wf ga'" "length (ga_data ga') = ga_max ga'" "take (ga_len ga) (ga_data ga') = ga_contents ga"
    using g(2,3) by (simp_all add: holds_def ga_wf_def ga_contents_def)
  have "drop i (ga_data ga') = ga_data ga' ! i # drop (Suc i) (ga_data ga')" using w(2) g(4) by (simp add: Cons_nth_drop_Suc)
  then show ?thesis
    using False g w assms(1)
    by (simp add: raw_at_put_grow_def g(1) fill_slots_spec Let_def holds_def ga_wf_def ga_contents_def array_put_def
        list_update_append)
qed

lemma shift_down_spec:
  assumes "i < n" "n \<le> length d"
  shows "shift_down d i n = Some (take i d @ drop (Suc i) (take n d) @ drop (n - 1) d)"
proof -
  have "succeeds (shift_down d i n) (\<lambda>d'. d' = take i d @ drop (Suc i) (take n d) @ drop (n - 1) d)"
    unfolding shift_down_def
  proof (rule for_loop_rule [where I = "\<lambda>k d'. d' = take i d @ drop (Suc i) (take k d) @ drop (k - 1) d"])
    fix k d' assume k: "i + 1 \<le> k" "k < n" and d': "d' = take i d @ drop (Suc i) (take k d) @ drop (k - 1) d"
    let ?p = "take i d @ drop (Suc i) (take k d)"
    obtain j where j: "k = Suc j" using k by (cases k) auto
    have "drop j d = d ! j # d ! Suc j # drop (Suc k) d" using k assms(2) by (simp add: Cons_nth_drop_Suc j)
    then have d'': "d' = ?p @ d ! j # d ! k # drop (Suc k) d" using d' by (simp add: j)
    have p: "length ?p = j" using k assms(2) by (simp add: j)
    have "d' ! k = d ! k" unfolding d'' using p by (metis j nth_append_length nth_append_length_plus append_Cons append_Nil append_assoc length_Cons length_append_singleton)
    moreover have "d'[j := d ! k] = ?p @ d ! k # d ! k # drop (Suc k) d" unfolding d'' using p by (metis list_update_length)
    moreover have "drop (Suc i) (take k d) @ d ! k # ys = drop (Suc i) (take (Suc k) d) @ ys" for ys
      using k assms(2) by (simp add: take_Suc_conv_app_nth)
    moreover have "drop k d = d ! k # drop (Suc k) d" using k assms(2) by (simp add: Cons_nth_drop_Suc)
    moreover have "k < length d'" using k assms(2) unfolding d' by simp
    ultimately show "succeeds (array_get d' k \<bind> (\<lambda>x. array_put d' (k - 1) x)) (\<lambda>d'. d' = take i d @ drop (Suc i) (take (Suc k) d) @ drop (Suc k - 1) d)"
      by (simp add: vcg j)
  qed (use assms in simp_all)
  then show ?thesis by (auto simp: succeeds_iff)
qed

lemma ga_remove_at_spec:
  assumes "ga_wf ga" "i < ga_len ga"
  shows "succeeds (ga_remove_at ga i) (holds ga (take i (ga_contents ga) @ drop (Suc i) (ga_contents ga)))"
  using assms shift_down_spec [OF assms(2), of "ga_data ga"]
  by (auto simp: ga_remove_at_def ga_wf_def holds_def ga_contents_def)

lemma ga_delete_at_spec:
  assumes "ga_wf ga" "i < ga_len ga"
  shows "succeeds (ga_delete_at ga i) (holds ga (butlast ((ga_contents ga)[i := last (ga_contents ga)])))"
proof -
  have "ga_contents ga \<noteq> []" using assms by (auto simp: ga_contents_def ga_wf_def)
  then have l: "last (ga_contents ga) = ga_data ga ! (ga_len ga - 1)"
    using assms by (simp add: last_conv_nth ga_contents_def ga_wf_def)
  show ?thesis
  proof (cases "i < ga_len ga - 1")
    case True
    then show ?thesis using assms l
      by (auto simp: ga_delete_at_def Let_def array_get_def array_put_def ga_wf_def holds_def ga_contents_def butlast_take
          simp flip: take_update_swap)
  next
    case False
    then have "i = ga_len ga - 1" using assms(2) by simp
    then show ?thesis using assms l
      by (simp add: ga_delete_at_def Let_def ga_wf_def holds_def ga_contents_def butlast_take butlast_list_update)
  qed
qed

lemma shift_up_spec:
  "idx \<le> n \<Longrightarrow> n < length d \<Longrightarrow> shift_up d idx n = Some (take (Suc idx) d @ drop idx (take n d) @ drop (Suc n) d)"
proof (induction n arbitrary: d)
  case 0
  then show ?case by simp
next
  case (Suc n)
  show ?case
  proof (cases "idx \<le> n")
    case True
    let ?d = "d[Suc n := d ! n]"
    have "drop (Suc n) d = d ! Suc n # drop (Suc (Suc n)) d" using Suc.prems by (simp add: Cons_nth_drop_Suc)
    then have "drop (Suc n) ?d = d ! n # drop (Suc (Suc n)) d" by (simp add: drop_update_swap)
    moreover have "drop idx (take (Suc n) d) = drop idx (take n d) @ [d ! n]" using Suc.prems True by (simp add: take_Suc_conv_app_nth)
    ultimately show ?thesis using Suc.IH [of ?d] Suc.prems True by (simp add: array_get_def array_put_def)
  next
    case False
    then have "idx = Suc n" using Suc.prems by simp
    then show ?thesis by simp
  qed
qed

lemma shift_up_put:
  assumes "idx \<le> n" "n < length d"
  shows "succeeds (shift_up d idx n \<bind> (\<lambda>d. array_put d idx x))
    (\<lambda>d'. length d' = length d \<and> take (Suc n) d' = take idx d @ x # drop idx (take n d) \<and> drop (Suc n) d' = drop (Suc n) d)"
proof -
  define p r where "p = take idx d" and "r = drop idx (take n d)"
  have p: "length p = idx" "length r = n - idx" using assms by (simp_all add: p_def r_def)
  have "take (Suc idx) d = p @ [d ! idx]" using assms by (simp add: take_Suc_conv_app_nth p_def)
  then have "shift_up d idx n = Some (p @ d ! idx # r @ drop (Suc n) d)" using assms by (simp add: shift_up_spec r_def)
  moreover have "array_put (p @ d ! idx # r @ drop (Suc n) d) idx x = Some ((p @ x # r) @ drop (Suc n) d)"
    using p(1) by (simp add: array_put_def list_update_append)
  moreover have l: "length (p @ x # r) = Suc n" using assms(1) p by simp
  have "take (Suc n) ((p @ x # r) @ drop (Suc n) d) = p @ x # r" "drop (Suc n) ((p @ x # r) @ drop (Suc n) d) = drop (Suc n) d"
    using l by (metis append_eq_conv_conj)+
  moreover have "length ((p @ x # r) @ drop (Suc n) d) = length d" using l assms(2) by simp
  ultimately show ?thesis unfolding p_def [symmetric] r_def [symmetric] by (simp only: succeeds_Some Option.bind.simps)
qed

lemma ga_insert_before_spec:
  assumes "ga_wf ga" "ga_len ga < 2 ^ 30" "idx \<le> ga_len ga"
  shows "succeeds (ga_insert_before dflt ga idx x) (holds ga (take idx (ga_contents ga) @ x # drop idx (ga_contents ga)))"
proof -
  obtain ga' where g: "(if ga_len ga = ga_max ga then ga_grow dflt ga (ga_len ga) else Some ga) = Some ga'"
    "holds ga (ga_contents ga) ga'" "ga_len ga' = ga_len ga" "ga_len ga' < ga_max ga'"
    using make_room [OF assms(1,2), of dflt] by (auto simp: succeeds_iff)
  have w: "length (ga_data ga') = ga_max ga'" "take (ga_len ga) (ga_data ga') = ga_contents ga"
    using g(2,3) by (simp_all add: holds_def ga_wf_def ga_contents_def)
  from shift_up_put [of idx "ga_len ga" "ga_data ga'" x] assms(3) g(3,4) w(1)
  obtain d where d: "(shift_up (ga_data ga') idx (ga_len ga) \<bind> (\<lambda>d. array_put d idx x)) = Some d" "length d = ga_max ga'"
    "take (Suc (ga_len ga)) d = take idx (ga_data ga') @ x # drop idx (take (ga_len ga) (ga_data ga'))"
    by (auto simp: succeeds_iff)
  have "take idx (ga_data ga') = take idx (ga_contents ga)" using assms(3) by (simp flip: w(2))
  then show ?thesis
    using d g w by (auto simp: ga_insert_before_def g(1) holds_def ga_wf_def ga_contents_def)
qed

lemma ga_appendAll_spec:
  assumes "ga_wf ga" "ga_wf l" "ga_len ga + ga_len l \<le> 2 ^ 30"
  shows "succeeds (ga_appendAll dflt zero ga l) (holds ga (ga_contents ga @ ga_contents l))"
proof -
  have "succeeds (ga_appendAll dflt zero ga l) (holds ga (ga_contents ga @ take (ga_len l) (ga_contents l)))"
    unfolding ga_appendAll_def
  proof (rule for_loop_rule [where I = "\<lambda>k. holds ga (ga_contents ga @ take k (ga_contents l))"])
    fix k g assume k: "0 \<le> k" "k < ga_len l" and g: "holds ga (ga_contents ga @ take k (ga_contents l)) g"
    then have wf: "ga_wf g" and "length (ga_contents g) = ga_len ga + k" using assms(1,2) by (simp_all add: holds_def)
    then have "ga_len g = ga_len ga + k" by simp
    then have "succeeds (raw_at_put_grow dflt g (ga_len g) (ga_contents l ! k) zero) (holds g (ga_contents g @ [ga_contents l ! k]))"
      using raw_at_put_grow_spec [OF wf, of "ga_len g" dflt "ga_contents l ! k" zero] k assms(3) by simp
    from succeeds_weaken [OF this] show "succeeds (array_get (ga_data l) k \<bind> (\<lambda>x. raw_at_put_grow dflt g (ga_len g) x zero))
        (holds ga (ga_contents ga @ take (Suc k) (ga_contents l)))"
      using g k contents_nth [OF assms(2) k(2)] length_contents [OF assms(2)] by (simp add: holds_def take_Suc_conv_app_nth)
  qed (use assms(1) in \<open>simp_all add: holds_def\<close>)
  then show ?thesis using length_contents [OF assms(2)] by simp
qed

section \<open>Searches return the first or the last hit\<close>

definition first_hit :: "('a \<Rightarrow> bool) \<Rightarrow> 'a list \<Rightarrow> nat \<Rightarrow> bool" where
  "first_hit f xs k \<longleftrightarrow> k < length xs \<and> f (xs ! k) \<and> (\<forall>j < k. \<not> f (xs ! j))"

lemma search_loop:
  assumes "ga_wf ga"
  shows "succeeds (for_return 0 (ga_len ga) (\<lambda>i _. array_get (ga_data ga) i \<bind>
      (\<lambda>x. Some (if f x then Inl (g i) else Inr ()))) ())
    (\<lambda>r. case r of Inl y \<Rightarrow> \<exists>k. y = g k \<and> first_hit f (ga_contents ga) k | Inr _ \<Rightarrow> \<forall>x \<in> set (ga_contents ga). \<not> f x)"
proof -
  have "succeeds (for_return 0 (ga_len ga) (\<lambda>i _. array_get (ga_data ga) i \<bind>
      (\<lambda>x. Some (if f x then Inl (g i) else Inr ()))) ())
    (\<lambda>r. case r of Inl y \<Rightarrow> \<exists>k. y = g k \<and> first_hit f (ga_contents ga) k | Inr _ \<Rightarrow> \<forall>j < ga_len ga. \<not> f (ga_contents ga ! j))"
    by (rule for_return_rule [where I = "\<lambda>k _. \<forall>j < k. \<not> f (ga_contents ga ! j)"])
      (use assms contents_nth [OF assms] in \<open>auto simp: first_hit_def less_Suc_eq\<close>)
  then show ?thesis
    by (rule succeeds_weaken) (use length_contents [OF assms] in \<open>auto simp: in_set_conv_nth split: sum.splits\<close>)
qed

lemma ga_find_if_spec:
  assumes "ga_wf ga"
  shows "succeeds (ga_find_if ga f) (\<lambda>r. (\<exists>k. r = int k \<and> first_hit f (ga_contents ga) k) \<or> (r = - 1 \<and> (\<forall>x \<in> set (ga_contents ga). \<not> f x)))"
  unfolding ga_find_if_def succeeds_bind
  by (rule succeeds_weaken [OF search_loop [OF assms, of f int]]) (auto split: sum.splits)

lemma ga_find_eq: "ga_find ga elem = ga_find_if ga (\<lambda>x. x = elem)"
  by (simp add: ga_find_def ga_find_if_def)

lemma ga_contains_spec:
  assumes "ga_wf ga"
  shows "ga_contains ga elem = Some (elem \<in> set (ga_contents ga))"
proof -
  have "succeeds (ga_contains ga elem) (\<lambda>r. r = (elem \<in> set (ga_contents ga)))"
    unfolding ga_contains_def succeeds_bind
    by (rule succeeds_weaken [OF search_loop [OF assms, of "\<lambda>x. x = elem" "\<lambda>_. True"]])
      (auto simp: first_hit_def split: sum.splits)
  then show ?thesis by (auto simp: succeeds_iff)
qed

lemma ga_append_if_missing_spec:
  assumes "ga_wf ga" "ga_len ga < 2 ^ 30"
  shows "succeeds (ga_append_if_missing dflt ga x) (\<lambda>(missed, ga'). missed = (x \<notin> set (ga_contents ga))
    \<and> holds ga (if x \<in> set (ga_contents ga) then ga_contents ga else ga_contents ga @ [x]) ga')"
  using ga_append_spec [OF assms, of dflt x] assms(1)
  by (auto simp: ga_append_if_missing_def ga_contains_spec [OF assms(1)] succeeds_iff holds_def)

lemma find_down_spec:
  "n \<le> length d \<Longrightarrow> succeeds (find_down d f n) (\<lambda>r. (\<exists>k < n. r = int k \<and> f (d ! k) \<and> (\<forall>j. k < j \<longrightarrow> j < n \<longrightarrow> \<not> f (d ! j)))
    \<or> (r = - 1 \<and> (\<forall>j < n. \<not> f (d ! j))))"
proof (induction n)
  case (Suc n)
  then show ?case
  proof (cases "f (d ! n)")
    case False
    with Suc obtain r where "find_down d f n = Some r" "(\<exists>k < n. r = int k \<and> f (d ! k) \<and> (\<forall>j. k < j \<longrightarrow> j < n \<longrightarrow> \<not> f (d ! j))) \<or> (r = - 1 \<and> (\<forall>j < n. \<not> f (d ! j)))"
      by (auto simp: succeeds_iff)
    then show ?thesis using Suc.prems False by (auto simp: array_get_def less_Suc_eq)
  qed (auto simp: array_get_def)
qed simp

lemma ga_find_from_end_if_spec:
  assumes "ga_wf ga"
  shows "succeeds (ga_find_from_end_if ga f) (\<lambda>r. let xs = ga_contents ga in
    (\<exists>k < length xs. r = int k \<and> f (xs ! k) \<and> (\<forall>j. k < j \<longrightarrow> j < length xs \<longrightarrow> \<not> f (xs ! j))) \<or> (r = - 1 \<and> (\<forall>x \<in> set xs. \<not> f x)))"
proof -
  have n: "ga_len ga \<le> length (ga_data ga)" using assms by (simp add: ga_wf_def)
  have e: "ga_data ga ! k = ga_contents ga ! k" if "k < ga_len ga" for k using that by (simp add: ga_contents_def)
  show ?thesis unfolding ga_find_from_end_if_def
    by (rule succeeds_weaken [OF find_down_spec [OF n, of f]])
      (use length_contents [OF assms] e in \<open>auto simp: in_set_conv_nth\<close>)
qed

text \<open>The positions as functions of the list.\<close>

definition first_position :: "('a \<Rightarrow> bool) \<Rightarrow> 'a list \<Rightarrow> int" where
  "first_position f xs = (case filter (\<lambda>i. f (xs ! i)) [0..<length xs] of [] \<Rightarrow> - 1 | k # _ \<Rightarrow> int k)"

definition last_position :: "('a \<Rightarrow> bool) \<Rightarrow> 'a list \<Rightarrow> int" where
  "last_position f xs = (case rev (filter (\<lambda>i. f (xs ! i)) [0..<length xs]) of [] \<Rightarrow> - 1 | k # _ \<Rightarrow> int k)"

lemma hits_around:
  assumes "k < length xs" "f (xs ! k)"
  shows "filter (\<lambda>i. f (xs ! i)) [0..<length xs] =
    filter (\<lambda>i. f (xs ! i)) [0..<k] @ k # filter (\<lambda>i. f (xs ! i)) [Suc k..<length xs]"
proof -
  have "[0..<length xs] = [0..<k] @ k # [Suc k..<length xs]"
    using assms(1) by (metis le0 less_imp_le_nat upt_add_eq_append upt_conv_Cons le_add_diff_inverse)
  then show ?thesis using assms(2) by simp
qed

lemma ga_find_index:
  assumes "ga_wf ga"
  shows "ga_find_if ga f = Some (first_position f (ga_contents ga))"
proof -
  let ?xs = "ga_contents ga"
  obtain r where r: "ga_find_if ga f = Some r" "(\<exists>k. r = int k \<and> first_hit f ?xs k) \<or> (r = - 1 \<and> (\<forall>x \<in> set ?xs. \<not> f x))"
    using ga_find_if_spec [OF assms, of f] by (auto simp: succeeds_iff)
  from r(2) have "r = first_position f ?xs"
  proof (elim disjE exE conjE)
    fix k assume k: "r = int k" "first_hit f ?xs k"
    then have "filter (\<lambda>i. f (?xs ! i)) [0..<k] = []" by (auto simp: first_hit_def filter_empty_conv)
    then show ?thesis using k hits_around [of k ?xs f] by (simp add: first_hit_def first_position_def)
  next
    assume "r = - 1" "\<forall>x \<in> set ?xs. \<not> f x"
    moreover from this have "filter (\<lambda>i. f (?xs ! i)) [0..<length ?xs] = []" by (auto simp: filter_empty_conv)
    ultimately show ?thesis by (simp add: first_position_def)
  qed
  then show ?thesis using r(1) by simp
qed

lemma ga_find_last:
  assumes "ga_wf ga"
  shows "ga_find_from_end_if ga f = Some (last_position f (ga_contents ga))"
proof -
  let ?xs = "ga_contents ga"
  obtain r where r: "ga_find_from_end_if ga f = Some r"
    "(\<exists>k < length ?xs. r = int k \<and> f (?xs ! k) \<and> (\<forall>j. k < j \<longrightarrow> j < length ?xs \<longrightarrow> \<not> f (?xs ! j))) \<or> (r = - 1 \<and> (\<forall>x \<in> set ?xs. \<not> f x))"
    using ga_find_from_end_if_spec [OF assms, of f] by (auto simp: succeeds_iff Let_def)
  from r(2) have "r = last_position f ?xs"
  proof (elim disjE exE conjE)
    fix k assume k: "k < length ?xs" "r = int k" "f (?xs ! k)" "\<forall>j. k < j \<longrightarrow> j < length ?xs \<longrightarrow> \<not> f (?xs ! j)"
    then have "filter (\<lambda>i. f (?xs ! i)) [Suc k..<length ?xs] = []" by (auto simp: filter_empty_conv)
    then show ?thesis using k(2) hits_around [of k ?xs f, OF k(1,3)] by (simp add: last_position_def)
  next
    assume "r = - 1" "\<forall>x \<in> set ?xs. \<not> f x"
    moreover from this have "filter (\<lambda>i. f (?xs ! i)) [0..<length ?xs] = []" by (auto simp: filter_empty_conv)
    ultimately show ?thesis by (simp add: last_position_def)
  qed
  then show ?thesis using r(1) by simp
qed

lemma ga_find_from_end_eq: "ga_find_from_end ga x = ga_find_from_end_if ga (\<lambda>y. y = x)"
  by (simp add: ga_find_from_end_def ga_find_from_end_if_def)

lemma remove1_at:
  assumes "first_hit (\<lambda>x. x = e) xs k"
  shows "remove1 e xs = take k xs @ drop (Suc k) xs"
proof -
  have "xs = take k xs @ e # drop (Suc k) xs" using assms by (auto simp: first_hit_def id_take_nth_drop)
  moreover have "e \<notin> set (take k xs)" using assms by (auto simp: first_hit_def in_set_conv_nth)
  ultimately show ?thesis by (metis remove1.simps(2) remove1_append)
qed

lemma ga_remove_spec:
  assumes "ga_wf ga" "x \<in> set (ga_contents ga)"
  shows "succeeds (ga_remove ga x) (holds ga (remove1 x (ga_contents ga)))"
proof -
  let ?body = "\<lambda>i _. array_get (ga_data ga) i \<bind> (\<lambda>y. if y = x
       then shift_down (ga_data ga) i (ga_len ga) \<bind> (\<lambda>d. Some (Inl (ga\<lparr>ga_len := ga_len ga - 1, ga_data := d\<rparr>))) else Some (Inr ()))"
  have "succeeds (for_return 0 (ga_len ga) ?body ())
    (\<lambda>r. case r of Inl ga' \<Rightarrow> holds ga (remove1 x (ga_contents ga)) ga' | Inr _ \<Rightarrow> \<forall>j < ga_len ga. ga_contents ga ! j \<noteq> x)"
  proof (rule for_return_rule [where I = "\<lambda>k _. \<forall>j < k. ga_contents ga ! j \<noteq> x"])
    fix k :: nat and u assume k: "0 \<le> k" "k < ga_len ga" "\<forall>j < k. ga_contents ga ! j \<noteq> x"
    show "succeeds (?body k u) (\<lambda>r. case r of Inl ga' \<Rightarrow> holds ga (remove1 x (ga_contents ga)) ga' | Inr _ \<Rightarrow> \<forall>j < Suc k. ga_contents ga ! j \<noteq> x)"
    proof (cases "ga_contents ga ! k = x")
      case True
      then have "first_hit (\<lambda>y. y = x) (ga_contents ga) k" using k assms(1) by (simp add: first_hit_def)
      from remove1_at [OF this] ga_remove_at_spec [OF assms(1) k(2)] True contents_nth [OF assms(1) k(2)]
      show ?thesis by (simp add: ga_remove_at_def succeeds_bind)
    next
      case False
      then show ?thesis using k contents_nth [OF assms(1) k(2)] by (auto simp: less_Suc_eq)
    qed
  qed simp_all
  then show ?thesis unfolding ga_remove_def succeeds_bind
    by (rule succeeds_weaken) (use assms length_contents [OF assms(1)] in \<open>auto simp: in_set_conv_nth split: sum.splits\<close>)
qed

section \<open>Binary search\<close>

text \<open>The elements before the key's place compare as smaller, those after it as larger.\<close>

definition bisected :: "('k \<Rightarrow> 'a \<Rightarrow> int) \<Rightarrow> 'k \<Rightarrow> 'a list \<Rightarrow> bool" where
  "bisected compare key xs \<longleftrightarrow> (\<forall>i j. i < j \<longrightarrow> j < length xs \<longrightarrow>
     (compare key (xs ! j) \<ge> 0 \<longrightarrow> compare key (xs ! i) > 0) \<and> (compare key (xs ! i) \<le> 0 \<longrightarrow> compare key (xs ! j) < 0))"

definition place_of :: "('k \<Rightarrow> 'a \<Rightarrow> int) \<Rightarrow> 'k \<Rightarrow> 'a list \<Rightarrow> bool \<Rightarrow> nat \<Rightarrow> bool" where
  "place_of compare key xs found k \<longleftrightarrow> k \<le> length xs \<and> (\<forall>i < k. compare key (xs ! i) > 0)
     \<and> (\<forall>i. k < i \<longrightarrow> i < length xs \<longrightarrow> compare key (xs ! i) < 0)
     \<and> (if found then k < length xs \<and> compare key (xs ! k) = 0 else k < length xs \<longrightarrow> compare key (xs ! k) < 0)"

lemma find_binary_loop_spec:
  assumes "ga_wf ga" "ga_len ga \<le> 2 ^ 30" "bisected compare key (ga_contents ga)"
  shows "0 \<le> mn \<Longrightarrow> mx < int (ga_len ga) \<Longrightarrow> mn \<le> mx + 1 \<Longrightarrow>
    (\<forall>i. int i < mn \<longrightarrow> compare key (ga_contents ga ! i) > 0) \<Longrightarrow>
    (\<forall>i < ga_len ga. mx < int i \<longrightarrow> compare key (ga_contents ga ! i) < 0) \<Longrightarrow>
    succeeds (find_binary_loop compare key ga mn mx) (\<lambda>(found, k). place_of compare key (ga_contents ga) found k)"
proof (induction "nat (mx - mn + 1)" arbitrary: mn mx rule: less_induct)
  case less
  show ?case
  proof (cases "mx \<ge> mn")
    case False
    then have "mn = mx + 1" using less.prems(3) by simp
    moreover have "place_of compare key (ga_contents ga) False (nat mn)"
      using less.prems assms(1) calculation by (auto simp: place_of_def)
    ultimately show ?thesis using False by (simp add: find_binary_loop.simps [of compare key ga "mx + 1" mx])
  next
    case True
    define mid where "mid = (mx + mn) div 2"
    define v where "v = ga_contents ga ! nat mid"
    have m: "mn \<le> mid" "mid \<le> mx" "0 \<le> mid" "nat mid < ga_len ga" "mx + mn < 2 ^ 31"
      using True less.prems(1,2) assms(2) by (auto simp: mid_def)
    have get: "ga_at ga (nat mid) = Some v" using contents_nth [OF assms(1) m(4)] by (simp add: ga_at_def v_def)
    have b: "compare key v > 0 \<Longrightarrow> i < nat mid \<Longrightarrow> compare key (ga_contents ga ! i) > 0"
      "compare key v < 0 \<Longrightarrow> nat mid < i \<Longrightarrow> i < ga_len ga \<Longrightarrow> compare key (ga_contents ga ! i) < 0"
      "compare key v = 0 \<Longrightarrow> i < nat mid \<Longrightarrow> compare key (ga_contents ga ! i) > 0"
      "compare key v = 0 \<Longrightarrow> nat mid < i \<Longrightarrow> i < ga_len ga \<Longrightarrow> compare key (ga_contents ga ! i) < 0" for i
      using assms(1,3) m(4) unfolding bisected_def v_def by (metis length_contents order.strict_implies_order order_refl)+
    consider "compare key v > 0" | "compare key v < 0" | "compare key v = 0" by linarith
    then show ?thesis
    proof cases
      case 1
      have "succeeds (find_binary_loop compare key ga (mid + 1) mx) (\<lambda>(found, k). place_of compare key (ga_contents ga) found k)"
      proof (rule less.hyps)
        show "\<forall>i. int i < mid + 1 \<longrightarrow> compare key (ga_contents ga ! i) > 0"
        proof (intro allI impI)
          fix i :: nat assume "int i < mid + 1"
          then have "i < nat mid \<or> i = nat mid" using m(3) by linarith
          then show "compare key (ga_contents ga ! i) > 0" using b(1) [OF 1] 1 by (auto simp: v_def)
        qed
      qed (use m less.prems True in auto)
      then show ?thesis using True m(5) get 1
        by (simp add: find_binary_loop.simps [of compare key ga mn mx] Let_def flip: mid_def)
    next
      case 2
      have "succeeds (find_binary_loop compare key ga mn (mid - 1)) (\<lambda>(found, k). place_of compare key (ga_contents ga) found k)"
      proof (rule less.hyps)
        show "\<forall>i < ga_len ga. mid - 1 < int i \<longrightarrow> compare key (ga_contents ga ! i) < 0"
        proof (intro allI impI)
          fix i :: nat assume "i < ga_len ga" "mid - 1 < int i"
          moreover from this have "nat mid < i \<or> i = nat mid" using m(3) by linarith
          ultimately show "compare key (ga_contents ga ! i) < 0" using b(2) [OF 2] 2 by (auto simp: v_def)
        qed
      qed (use m less.prems True in auto)
      then show ?thesis using True m(5) get 2
        by (simp add: find_binary_loop.simps [of compare key ga mn mx] Let_def flip: mid_def)
    next
      case 3
      then have "place_of compare key (ga_contents ga) True (nat mid)"
        using b(3,4) [OF 3] m(4) assms(1) by (simp add: place_of_def v_def)
      then show ?thesis using True m(5) get 3
        by (simp add: find_binary_loop.simps [of compare key ga mn mx] Let_def flip: mid_def)
    qed
  qed
qed

lemma find_binary_place:
  assumes "ga_wf ga" "ga_len ga \<le> 2 ^ 30" "bisected compare key (ga_contents ga)"
  shows "succeeds (find_binary compare ga key) (\<lambda>(found, k). place_of compare key (ga_contents ga) found k)"
  unfolding find_binary_def by (rule find_binary_loop_spec [OF assms]) auto

text \<open>Without any order the search still ends inside the array.\<close>

lemma find_binary_ends:
  assumes "ga_wf ga" "ga_len ga \<le> 2 ^ 30"
  shows "succeeds (find_binary compare ga key) (\<lambda>(found, k). k \<le> ga_len ga \<and> (found \<longrightarrow> k < ga_len ga \<and> compare key (ga_contents ga ! k) = 0))"
proof -
  have "0 \<le> mn \<Longrightarrow> mx < int (ga_len ga) \<Longrightarrow> mn \<le> mx + 1 \<Longrightarrow> succeeds (find_binary_loop compare key ga mn mx)
      (\<lambda>(found, k). k \<le> ga_len ga \<and> (found \<longrightarrow> k < ga_len ga \<and> compare key (ga_contents ga ! k) = 0))" for mn mx
  proof (induction "nat (mx - mn + 1)" arbitrary: mn mx rule: less_induct)
    case less
    show ?case
    proof (cases "mx \<ge> mn")
      case False
      then show ?thesis using less.prems by (simp add: find_binary_loop.simps [of compare key ga mn mx])
    next
      case True
      define mid where "mid = (mx + mn) div 2"
      have m: "mn \<le> mid" "mid \<le> mx" "nat mid < ga_len ga" "mx + mn < 2 ^ 31"
        using True less.prems(1,2) assms(2) by (auto simp: mid_def)
      have get: "ga_at ga (nat mid) = Some (ga_contents ga ! nat mid)" using contents_nth [OF assms(1) m(3)] by (simp add: ga_at_def)
      show ?thesis
        using True m get less.hyps [of mx "mid + 1"] less.hyps [of "mid - 1" mn] less.prems
        by (auto simp: find_binary_loop.simps [of compare key ga mn mx] Let_def simp flip: mid_def)
    qed
  qed
  from this [of 0 "int (ga_len ga) - 1"] show ?thesis by (simp add: find_binary_def)
qed

lemma insert_binary_inserts:
  assumes "ga_wf ga" "ga_len ga < 2 ^ 30" "k \<le> ga_len ga"
    and "\<not> (ga_on_C_heap ga \<and> ga_len ga = ga_max ga \<and> k < ga_len ga)"
  shows "succeeds (insert_binary dflt ga k x) (holds ga (take k (ga_contents ga) @ x # drop k (ga_contents ga)))"
proof (cases "k = ga_len ga")
  case True
  then show ?thesis using ga_append_spec [OF assms(1,2), of dflt x] assms(1)
    by (auto simp: insert_binary_def succeeds_iff)
next
  case False
  define xs where "xs = ga_contents ga"
  have lx: "length xs = ga_len ga" "k < ga_len ga" using assms(1,3) False by (simp_all add: xs_def)
  have ne: "xs \<noteq> []" using lx by auto
  have l: "array_get (ga_data ga) (ga_len ga - 1) = Some (last xs)"
    using contents_nth [OF assms(1), of "ga_len ga - 1"] lx ne by (simp add: xs_def last_conv_nth)
  have "ga_append dflt ga (Slot (ga_len ga - 1)) = ga_append dflt ga (Val (last xs))"
    using l assms(4) lx by (auto simp: ga_append_def Let_def)
  then obtain ga' where g: "ga_append dflt ga (Slot (ga_len ga - 1)) = Some (ga_len ga, ga')" "holds ga (xs @ [last xs]) ga'"
    using ga_append_spec [OF assms(1,2), of dflt "last xs"] by (auto simp: succeeds_iff xs_def)
  let ?n = "ga_len ga - 1"
  have w: "ga_wf ga'" "ga_contents ga' = xs @ [last xs]" using g(2) by (simp_all add: holds_def)
  have len': "ga_len ga' = Suc (ga_len ga)" using length_contents [OF w(1)] w(2) lx by simp
  have n: "Suc ?n = ga_len ga" using lx by simp
  have t: "take (ga_len ga) (ga_data ga') = xs"
    using w(2) len' lx by (metis append_eq_conv_conj ga_contents_def le_add2 min.absorb1 plus_1_eq_Suc take_take)
  have dl: "ga_len ga < length (ga_data ga')" using w(1) len' by (auto simp: ga_wf_def)
  then have "?n < length (ga_data ga')" by simp
  moreover have "k \<le> ?n" using lx by simp
  ultimately have "succeeds (shift_up (ga_data ga') k ?n \<bind> (\<lambda>d. array_put d k x)) (\<lambda>d. length d = length (ga_data ga')
      \<and> take (Suc ?n) d = take k (ga_data ga') @ x # drop k (take ?n (ga_data ga')) \<and> drop (Suc ?n) d = drop (Suc ?n) (ga_data ga'))"
    by (intro shift_up_put)
  then obtain d where
    d: "(shift_up (ga_data ga') k ?n \<bind> (\<lambda>d. array_put d k x)) = Some d" "length d = length (ga_data ga')"
    "take (ga_len ga) d = take k (ga_data ga') @ x # drop k (take ?n (ga_data ga'))" "drop (ga_len ga) d = drop (ga_len ga) (ga_data ga')"
    unfolding n by (elim succeedsE) blast
  have "d ! ga_len ga = ga_data ga' ! ga_len ga" using d(2,4) dl by (metis Cons_nth_drop_Suc list.inject)
  also have "\<dots> = ga_contents ga' ! ga_len ga" using len' by (simp add: ga_contents_def)
  finally have "d ! ga_len ga = last xs" using lx by (simp add: w(2) nth_append)
  then have "take (Suc (ga_len ga)) d = take (ga_len ga) d @ [last xs]" using d(2) dl by (simp add: take_Suc_conv_app_nth)
  moreover have "take k (ga_data ga') = take k xs" "take ?n (ga_data ga') = butlast xs"
    using lx unfolding t [symmetric] by (simp_all add: butlast_take)
  moreover have "drop k (butlast xs) @ [last xs] = drop k xs"
    using lx ne by (metis append_butlast_last_id drop_append diff_is_0_eq drop_0 length_butlast Suc_pred' Suc_leI le_simps(2) length_greater_0_conv One_nat_def)
  ultimately have "take (Suc (ga_len ga)) d = take k xs @ x # drop k xs" using d(3) by simp
  moreover have "insert_binary dflt ga k x = Some (ga'\<lparr>ga_data := d\<rparr>)"
    using d(1) g(1) False lx by (auto simp: insert_binary_def Let_def ga_at_put_def)
  ultimately show ?thesis
    unfolding xs_def [symmetric] using g(2) d(2) len' by (simp add: holds_def ga_wf_def ga_contents_def)
qed

lemma insert_binary_dangling:
  assumes "ga_len ga < 2 ^ 30" "ga_on_C_heap ga" "ga_len ga = ga_max ga" "k < ga_len ga"
  shows "insert_binary dflt ga k x = None"
proof -
  have "ga_append dflt ga (Slot i) = None" for i
    using assms by (cases "ga_grow dflt ga (ga_max ga)") (simp_all add: ga_append_def)
  then show ?thesis using assms by (simp add: insert_binary_def)
qed

section \<open>Sorted arrays\<close>

definition ordered_by :: "'a set \<Rightarrow> ('a \<Rightarrow> 'a \<Rightarrow> int) \<Rightarrow> 'a list \<Rightarrow> bool" where
  "ordered_by D compare xs \<longleftrightarrow> set xs \<subseteq> D \<and> sorted_wrt (\<lambda>x y. compare y x > 0) xs"

text \<open>
  The contract of the comparison function of \<^verbatim>\<open>find_insert_binary\<close>, on a set of elements: the sign is
  antisymmetric, transitive, and the same for elements that compare as equal.
\<close>

locale comparator =
  fixes D :: "'a set" and compare :: "'a \<Rightarrow> 'a \<Rightarrow> int"
  assumes swap: "x \<in> D \<Longrightarrow> y \<in> D \<Longrightarrow> compare y x < 0 \<longleftrightarrow> compare x y > 0"
    and trans: "x \<in> D \<Longrightarrow> y \<in> D \<Longrightarrow> z \<in> D \<Longrightarrow> compare x y > 0 \<Longrightarrow> compare y z > 0 \<Longrightarrow> compare x z > 0"
    and same: "x \<in> D \<Longrightarrow> y \<in> D \<Longrightarrow> z \<in> D \<Longrightarrow> compare x y = 0 \<Longrightarrow> compare x z > 0 \<longleftrightarrow> compare y z > 0"
begin

lemma ordered_bisected:
  assumes "ordered_by D compare xs" "key \<in> D"
  shows "bisected compare key xs"
  unfolding bisected_def
proof (intro allI impI)
  fix i j assume ij: "i < j" "j < length xs"
  then have D: "xs ! i \<in> D" "xs ! j \<in> D" and o: "compare (xs ! j) (xs ! i) > 0"
    using assms(1) nth_mem [of i xs] nth_mem [of j xs] by (auto simp: ordered_by_def sorted_wrt_iff_nth_less)
  have "compare key (xs ! i) > 0" if "compare key (xs ! j) \<ge> 0"
    using that trans [OF assms(2) D(2,1) _ o] same [OF assms(2) D(2,1)] o by (cases "compare key (xs ! j) = 0") auto
  moreover have "compare key (xs ! j) < 0" if "compare key (xs ! i) \<le> 0"
  proof (cases "compare key (xs ! i) = 0")
    case True
    then have "compare (xs ! i) key = 0" using swap [OF assms(2) D(1)] swap [OF D(1) assms(2)] by linarith
    moreover have "compare (xs ! j) key \<noteq> 0"
    proof
      assume e: "compare (xs ! j) key = 0"
      then have "compare key (xs ! i) > 0" using same [OF D(2) assms(2) D(1)] o by simp
      then show False using True by simp
    qed
    moreover have "\<not> compare (xs ! j) key < 0"
    proof
      assume "compare (xs ! j) key < 0"
      then have "compare key (xs ! j) > 0" using swap [OF assms(2) D(2)] by simp
      then have "compare (xs ! i) (xs ! j) > 0" using same [OF D(1) assms(2) D(2)] calculation by simp
      then have "compare (xs ! j) (xs ! i) < 0" using swap [OF D(1,2)] by simp
      then show False using o by simp
    qed
    ultimately show ?thesis using swap [OF D(2) assms(2)] by simp
  next
    case False
    then have "compare (xs ! i) key > 0" using that swap [OF D(1) assms(2)] by simp
    then have "compare (xs ! j) key > 0" using trans [OF D(2,1) assms(2) o] by simp
    then show ?thesis using swap [OF D(2) assms(2)] by simp
  qed
  ultimately show "(compare key (xs ! j) \<ge> 0 \<longrightarrow> compare key (xs ! i) > 0) \<and> (compare key (xs ! i) \<le> 0 \<longrightarrow> compare key (xs ! j) < 0)"
    by blast
qed

lemma insert_ordered:
  assumes "ordered_by D compare xs" "key \<in> D" "place_of compare key xs False k"
  shows "ordered_by D compare (take k xs @ key # drop k xs)"
proof -
  have xs: "sorted_wrt (\<lambda>x y. compare y x > 0) (take k xs @ drop k xs)" "set xs \<subseteq> D" using assms(1) by (simp_all add: ordered_by_def)
  have "compare key x > 0" if "x \<in> set (take k xs)" for x
    using that assms(3) by (auto simp: place_of_def in_set_conv_nth)
  moreover have "compare x key > 0" if "x \<in> set (drop k xs)" for x
  proof -
    obtain i where i: "k \<le> i" "i < length xs" "x = xs ! i" using \<open>x \<in> set (drop k xs)\<close>
      by (auto simp: in_set_conv_nth) (metis add.commute le_add2 less_diff_conv)
    then have "compare key x < 0" using assms(3) by (cases "i = k") (auto simp: place_of_def)
    moreover have "x \<in> D" using xs(2) i nth_mem [of i xs] by auto
    ultimately show ?thesis using swap [of x key] assms(2) by auto
  qed
  ultimately show ?thesis
    using xs assms(2) unfolding sorted_wrt_append by (auto simp: ordered_by_def sorted_wrt_append dest: in_set_takeD in_set_dropD)
qed

lemma find_insert_binary_sorted:
  assumes "ga_wf ga" "ga_len ga < 2 ^ 30" "ordered_by D compare (ga_contents ga)" "key \<in> D" "\<not> ga_on_C_heap ga"
  shows "succeeds (find_insert_binary compare dflt ga key) (\<lambda>(x, ga'). ga_wf ga' \<and> \<not> ga_on_C_heap ga'
     \<and> ordered_by D compare (ga_contents ga') \<and> ga_len ga' \<le> ga_len ga + 1 \<and> set (ga_contents ga') = insert x (set (ga_contents ga))
     \<and> compare key x = 0 \<and> (if \<exists>y \<in> set (ga_contents ga). compare key y = 0 then ga' = ga else x = key))"
proof -
  let ?xs = "ga_contents ga"
  obtain found k where fb: "find_binary compare ga key = Some (found, k)" and p: "place_of compare key ?xs found k"
    using find_binary_place [OF assms(1) _ ordered_bisected [OF assms(3,4)]] assms(2) by (auto simp: succeeds_iff)
  have lx: "length ?xs = ga_len ga" using assms(1) by simp
  show ?thesis
  proof (cases found)
    case True
    then have k: "k < ga_len ga" "compare key (?xs ! k) = 0" using p lx by (auto simp: place_of_def)
    then have "ga_at ga k = Some (?xs ! k)" "?xs ! k \<in> set ?xs" using contents_nth [OF assms(1)] lx by (auto simp: ga_at_def)
    moreover from this k have "\<exists>y \<in> set ?xs. compare key y = 0" by blast
    ultimately show ?thesis using True fb k assms by (auto simp: find_insert_binary_def)
  next
    case False
    then have k: "k \<le> ga_len ga" and ne: "\<And>i. i < ga_len ga \<Longrightarrow> compare key (?xs ! i) \<noteq> 0"
      using p lx by (auto simp: place_of_def) (metis less_irrefl linorder_neqE_nat)
    have no: "\<not> (\<exists>y \<in> set ?xs. compare key y = 0)" using ne lx by (auto simp: in_set_conv_nth)
    obtain ga' where ins: "insert_binary dflt ga k key = Some ga'" "holds ga (take k ?xs @ key # drop k ?xs) ga'"
      using insert_binary_inserts [OF assms(1,2) k, of dflt key] assms(5) by (auto simp: succeeds_iff)
    then have w: "ga_wf ga'" "ga_contents ga' = take k ?xs @ key # drop k ?xs" "\<not> ga_on_C_heap ga'"
      using assms(5) by (simp_all add: holds_def)
    have l: "ga_len ga' = ga_len ga + 1" using length_contents [OF w(1)] w(2) lx k by simp
    have "ga_contents ga' ! k = key" using w(2) lx k by (simp add: nth_append)
    then have "ga_at ga' k = Some key" using contents_nth [OF w(1), of k] l k by (simp add: ga_at_def)
    moreover have "set (ga_contents ga') = insert key (set ?xs)"
      unfolding w(2) using set_append [of "take k ?xs" "drop k ?xs"] by auto
    moreover have "ordered_by D compare (ga_contents ga')" using insert_ordered [OF assms(3,4)] p False w(2) by simp
    moreover have "compare key key = 0" using swap [OF assms(4,4)] by linarith
    ultimately show ?thesis using False fb ins(1) w l no by (simp add: find_insert_binary_def)
  qed
qed

end

section \<open>Properties\<close>

lemma ga_push_spec: "ga_wf ga \<Longrightarrow> ga_len ga < 2 ^ 30 \<Longrightarrow> succeeds (ga_push dflt ga x) (holds ga (ga_contents ga @ [x]))"
  using ga_append_spec [of ga dflt x] by (auto simp: ga_push_def succeeds_iff)

lemma ga_at_put_spec: "ga_wf ga \<Longrightarrow> i < ga_len ga \<Longrightarrow> succeeds (ga_at_put ga i x) (holds ga ((ga_contents ga)[i := x]))"
  by (simp add: ga_at_put_def holds_def ga_wf_def ga_contents_def array_put_def take_update_swap)

lemma ga_clear_spec: "ga_wf ga \<Longrightarrow> holds ga [] (ga_clear ga)"
  by (simp add: ga_clear_def holds_def ga_wf_def ga_contents_def)

lemma ga_trunc_to_spec: "ga_wf ga \<Longrightarrow> i \<le> ga_len ga \<Longrightarrow> holds ga (take i (ga_contents ga)) (ga_trunc_to ga i)"
  by (simp add: ga_trunc_to_def holds_def ga_wf_def ga_contents_def min_absorb1)

text \<open>
  C9: the operations that change a growable array are operations of a list on its contents, whatever
  the capacity: appending (also by \<^verbatim>\<open>push\<close> and when the element is missing), popping, storing at an index and behind
  the end, clearing and truncating, removing in order and out of order, inserting before a position, and
  appending another array.
\<close>

theorem growable_array_refines:
  assumes "ga_wf ga" "ga_len ga < 2 ^ 30"
  shows "succeeds (ga_append dflt ga (Val x)) (\<lambda>(i, ga'). i = ga_len ga \<and> holds ga (ga_contents ga @ [x]) ga')
    \<and> succeeds (ga_push dflt ga x) (holds ga (ga_contents ga @ [x]))
    \<and> succeeds (ga_append_if_missing dflt ga x) (\<lambda>(missed, ga'). missed = (x \<notin> set (ga_contents ga))
        \<and> holds ga (if x \<in> set (ga_contents ga) then ga_contents ga else ga_contents ga @ [x]) ga')
    \<and> (ga_len ga \<noteq> 0 \<longrightarrow> succeeds (ga_pop ga) (\<lambda>(y, ga'). y = last (ga_contents ga) \<and> holds ga (butlast (ga_contents ga)) ga'))
    \<and> (i < ga_len ga \<longrightarrow> succeeds (ga_at_put ga i x) (holds ga ((ga_contents ga)[i := x])))
    \<and> (i < 2 ^ 30 \<longrightarrow> succeeds (ga_at_put_grow dflt ga i x fill) (holds ga
        (if i < ga_len ga then (ga_contents ga)[i := x] else ga_contents ga @ replicate (i - ga_len ga) fill @ [x])))
    \<and> (i < 2 ^ 30 \<longrightarrow> succeeds (ga_at_grow dflt ga i fill) (\<lambda>(y, ga').
        let xs = ga_contents ga @ replicate (Suc i - ga_len ga) fill in y = xs ! i \<and> holds ga xs ga'))
    \<and> holds ga [] (ga_clear ga) \<and> (i \<le> ga_len ga \<longrightarrow> holds ga (take i (ga_contents ga)) (ga_trunc_to ga i))
    \<and> (i < ga_len ga \<longrightarrow> succeeds (ga_remove_at ga i) (holds ga (take i (ga_contents ga) @ drop (Suc i) (ga_contents ga)))
        \<and> succeeds (ga_delete_at ga i) (holds ga (butlast ((ga_contents ga)[i := last (ga_contents ga)]))))
    \<and> (x \<in> set (ga_contents ga) \<longrightarrow> succeeds (ga_remove ga x) (holds ga (remove1 x (ga_contents ga))))
    \<and> (i \<le> ga_len ga \<longrightarrow> succeeds (ga_insert_before dflt ga i x) (holds ga (take i (ga_contents ga) @ x # drop i (ga_contents ga))))
    \<and> (ga_wf l \<longrightarrow> ga_len ga + ga_len l \<le> 2 ^ 30 \<longrightarrow> succeeds (ga_appendAll dflt zero ga l) (holds ga (ga_contents ga @ ga_contents l)))"
  unfolding ga_at_put_grow_def
  by (intro conjI impI ga_append_spec ga_push_spec ga_append_if_missing_spec ga_pop_spec ga_at_put_spec raw_at_put_grow_spec
      ga_at_grow_spec ga_clear_spec ga_trunc_to_spec ga_remove_at_spec ga_delete_at_spec ga_remove_spec ga_insert_before_spec
      ga_appendAll_spec assms)

definition example_array :: "nat growable_array" where
  "example_array = \<lparr>ga_len = 3, ga_max = 4, ga_data = [5, 7, 9, 0], ga_on_C_heap = True\<rparr>"

theorem growable_array_refines_witness:
  "succeeds (ga_insert_before 0 example_array 1 6) (\<lambda>ga. ga_contents ga = [5, 6, 7, 9])
    \<and> succeeds (ga_remove example_array 7) (\<lambda>ga. ga_contents ga = [5, 9])
    \<and> succeeds (ga_at_put_grow 0 example_array 6 8 1) (\<lambda>ga. ga_contents ga = [5, 7, 9, 1, 1, 1, 8])
    \<and> succeeds (ga_at_put example_array 2 4) (\<lambda>ga. ga_contents ga = [5, 7, 4])"
proof -
  have e: "ga_wf example_array" "ga_len example_array < 2 ^ 30" "ga_contents example_array = [5, 7, 9]" "ga_len example_array = 3"
    by (simp_all add: ga_wf_def ga_contents_def example_array_def)
  note r = growable_array_refines [OF e(1,2), where dflt = 0]
  have "succeeds (ga_insert_before 0 example_array 1 6) (holds example_array [5, 6, 7, 9])"
    using r [where i = 1 and x = 6] e(3,4) by simp
  moreover have "succeeds (ga_remove example_array 7) (holds example_array [5, 9])" using r [where x = 7] e(3) by simp
  moreover have "succeeds (ga_at_put_grow 0 example_array 6 8 1) (holds example_array [5, 7, 9, 1, 1, 1, 8])"
  proof -
    have "replicate 3 (1 :: nat) = [1, 1, 1]" by (simp add: numeral_3_eq_3)
    then show ?thesis using r [where i = 6 and x = 8 and fill = 1] e(3,4) by simp
  qed
  moreover have "succeeds (ga_at_put example_array 2 4) (holds example_array [5, 7, 4])"
    using r [where i = 2 and x = 4] e(3,4) by simp
  ultimately show ?thesis by (auto simp: holds_def elim: succeeds_weaken)
qed

text \<open>
  C22: the operations that read a growable array see the list of its contents: an element, the first and
  the last one, emptiness, membership, and the first or the last position of an element or of one that
  satisfies a test, -1 when there is none.
\<close>

theorem growable_array_reads:
  assumes "ga_wf ga"
  shows "(i < ga_len ga \<longrightarrow> ga_at ga i = Some (ga_contents ga ! i))
    \<and> (ga_contents ga \<noteq> [] \<longrightarrow> ga_first ga = Some (hd (ga_contents ga)) \<and> ga_top ga = Some (last (ga_contents ga)))
    \<and> ga_is_empty ga = (ga_contents ga = []) \<and> ga_is_nonempty ga = (ga_contents ga \<noteq> [])
    \<and> ga_contains ga x = Some (x \<in> set (ga_contents ga))
    \<and> ga_find_if ga f = Some (first_position f (ga_contents ga)) \<and> ga_find ga x = Some (first_position (\<lambda>y. y = x) (ga_contents ga))
    \<and> ga_find_from_end_if ga f = Some (last_position f (ga_contents ga)) \<and> ga_find_from_end ga x = Some (last_position (\<lambda>y. y = x) (ga_contents ga))"
  using contents_nth [OF assms] length_contents [OF assms] ga_contains_spec [OF assms] ga_find_index [OF assms] ga_find_last [OF assms]
  by (auto simp: ga_at_def ga_first_def ga_top_def ga_is_empty_def ga_is_nonempty_def ga_find_eq ga_find_from_end_eq hd_conv_nth last_conv_nth)

theorem growable_array_reads_witness:
  "ga_find example_array 7 = Some 1 \<and> ga_find_from_end_if example_array odd = Some 2 \<and> ga_find example_array 6 = Some (- 1)
    \<and> ga_top example_array = Some 9"
proof -
  have e: "ga_wf example_array" "ga_contents example_array = [5, 7, 9]" by (simp_all add: ga_wf_def ga_contents_def example_array_def)
  show ?thesis
    using growable_array_reads [OF e(1), where x = 7 and f = odd] growable_array_reads [OF e(1), where x = 6 and f = odd]
    by (simp add: e(2) first_position_def last_position_def)
qed

text \<open>
  C23: \<^verbatim>\<open>find_binary\<close> ends on every array, sorted or not, without leaving it, and \<^verbatim>\<open>found\<close> is true only at an element
  equal to the key.  Where the key divides the array, as in a sorted one, the result is its place: everything
  before it compares as smaller and everything after it as larger, and \<^verbatim>\<open>found\<close> tells whether the
  element there is equal to the key.
\<close>

theorem find_binary_spec:
  assumes "ga_wf ga" "ga_len ga \<le> 2 ^ 30"
  shows "succeeds (find_binary compare ga key) (\<lambda>(found, k). k \<le> ga_len ga
    \<and> (found \<longrightarrow> k < ga_len ga \<and> compare key (ga_contents ga ! k) = 0)
    \<and> (bisected compare key (ga_contents ga) \<longrightarrow> place_of compare key (ga_contents ga) found k))"
proof -
  obtain found k where r: "find_binary compare ga key = Some (found, k)" "k \<le> ga_len ga"
    "found \<longrightarrow> k < ga_len ga \<and> compare key (ga_contents ga ! k) = 0"
    using find_binary_ends [OF assms, of compare key] by (auto simp: succeeds_iff simp del: bind_eq_Some)
  moreover have "place_of compare key (ga_contents ga) found k" if "bisected compare key (ga_contents ga)"
    using find_binary_place [OF assms that] r(1) by simp
  ultimately show ?thesis by simp
qed

theorem find_binary_spec_witness:
  "succeeds (find_binary (\<lambda>k x. int k - int x) example_array 8) (\<lambda>(found, k). \<not> found \<and> k = 2)"
proof -
  have e: "ga_wf example_array" "ga_len example_array \<le> 2 ^ 30" "bisected (\<lambda>k x. int k - int x) 8 (ga_contents example_array)"
    by (auto simp: ga_wf_def ga_contents_def example_array_def bisected_def less_Suc_eq numeral_3_eq_3)
  have p: "\<not> found \<and> k = 2" if "place_of (\<lambda>k x. int k - int x) 8 [5, 7, 9] found k" for found k
  proof -
    have "k \<le> 3" using that by (simp add: place_of_def)
    then consider "k = 0" | "k = 1" | "k = 2" | "k = 3" by linarith
    moreover have "2 < k \<longrightarrow> (9 :: int) < 8" using that by (auto simp: place_of_def dest!: spec [of _ 2])
    ultimately show ?thesis using that by cases (auto simp: place_of_def split: if_splits)
  qed
  show ?thesis
    by (rule succeeds_weaken [OF find_binary_spec [OF e(1,2)]]) (use p e(3) in \<open>auto simp: ga_contents_def example_array_def\<close>)
qed

text \<open>
  C28: \<^verbatim>\<open>insert_binary\<close> inserts at the given place, except when the array is full, lives on the
  C heap and the place is not its end: there it passes \<^verbatim>\<open>append\<close> a reference to its own last element,
  which \<^verbatim>\<open>grow\<close> has freed when it is read.
\<close>

theorem insert_binary_spec:
  assumes "ga_wf ga" "ga_len ga < 2 ^ 30" "k \<le> ga_len ga"
  shows "if ga_on_C_heap ga \<and> ga_len ga = ga_max ga \<and> k < ga_len ga then insert_binary dflt ga k x = None
    else succeeds (insert_binary dflt ga k x) (holds ga (take k (ga_contents ga) @ x # drop k (ga_contents ga)))"
  using insert_binary_inserts [OF assms] insert_binary_dangling [OF assms(2)] by auto

theorem insert_binary_spec_witness:
  "insert_binary 0 \<lparr>ga_len = 2, ga_max = 2, ga_data = [5, 9], ga_on_C_heap = True\<rparr> 1 (7 :: nat) = None
    \<and> succeeds (insert_binary 0 \<lparr>ga_len = 2, ga_max = 2, ga_data = [5, 9], ga_on_C_heap = False\<rparr> 1 (7 :: nat))
        (\<lambda>ga. ga_contents ga = [5, 7, 9])"
  using insert_binary_spec [of "\<lparr>ga_len = 2, ga_max = 2, ga_data = [5, 9], ga_on_C_heap = True\<rparr>" 1 0 "7 :: nat"]
    insert_binary_spec [of "\<lparr>ga_len = 2, ga_max = 2, ga_data = [5, 9], ga_on_C_heap = False\<rparr>" 1 0 "7 :: nat"]
  by (auto simp: ga_wf_def ga_contents_def holds_def elim: succeeds_weaken)

end
