(* ===== verification/Pc_Desc.thy ===== *)
theory Pc_Desc
  imports Hs_Prelude
begin

text \<open>
  \<^verbatim>\<open>code/pcDesc.hpp\<close> and the search of \<^verbatim>\<open>code/nmethod.cpp\<close> for the descriptor of a pc: a cache of the
  last four descriptors found, and behind it a search with steps of 4096, 256, 16 and 1.  The
  descriptors of an nmethod are a list; a \<^verbatim>\<open>PcDesc*\<close> is an index of it.
\<close>

section \<open>Descriptors\<close>

record pc_desc =
  pd_pc_offset :: int
  pd_scope_decode_offset :: nat
  pd_obj_decode_offset :: nat
  pd_flags :: jint

definition lower_offset_limit :: int where
  "lower_offset_limit = - 1"

definition upper_offset_limit :: int where
  "upper_offset_limit = 2 ^ 31 - 1"

definition PCDESC_reexecute :: jint where "PCDESC_reexecute = push_bit 0 1"
definition PCDESC_is_method_handle_invoke :: jint where "PCDESC_is_method_handle_invoke = push_bit 1 1"
definition PCDESC_return_oop :: jint where "PCDESC_return_oop = push_bit 2 1"
definition PCDESC_rethrow_exception :: jint where "PCDESC_rethrow_exception = push_bit 3 1"

lemmas pcdesc_masks = PCDESC_reexecute_def PCDESC_is_method_handle_invoke_def PCDESC_return_oop_def PCDESC_rethrow_exception_def

definition new_pc_desc :: "int \<Rightarrow> nat \<Rightarrow> nat \<Rightarrow> pc_desc" where
  "new_pc_desc pc_offset scope_decode_offset obj_decode_offset =
     \<lparr>pd_pc_offset = pc_offset, pd_scope_decode_offset = scope_decode_offset,
      pd_obj_decode_offset = obj_decode_offset, pd_flags = 0\<rparr>"

definition pd_set_flag :: "pc_desc \<Rightarrow> jint \<Rightarrow> bool \<Rightarrow> pc_desc" where
  "pd_set_flag pd msk z = pd\<lparr>pd_flags := (if z then pd_flags pd OR msk else pd_flags pd AND NOT msk)\<rparr>"

definition set_should_reexecute :: "pc_desc \<Rightarrow> bool \<Rightarrow> pc_desc" where
  "set_should_reexecute pd z = pd_set_flag pd PCDESC_reexecute z"

definition set_is_method_handle_invoke :: "pc_desc \<Rightarrow> bool \<Rightarrow> pc_desc" where
  "set_is_method_handle_invoke pd z = pd_set_flag pd PCDESC_is_method_handle_invoke z"

definition set_return_oop :: "pc_desc \<Rightarrow> bool \<Rightarrow> pc_desc" where
  "set_return_oop pd z = pd_set_flag pd PCDESC_return_oop z"

definition set_rethrow_exception :: "pc_desc \<Rightarrow> bool \<Rightarrow> pc_desc" where
  "set_rethrow_exception pd z = pd_set_flag pd PCDESC_rethrow_exception z"

definition should_reexecute :: "pc_desc \<Rightarrow> bool" where
  "should_reexecute pd \<longleftrightarrow> pd_flags pd AND PCDESC_reexecute \<noteq> 0"

definition is_method_handle_invoke :: "pc_desc \<Rightarrow> bool" where
  "is_method_handle_invoke pd \<longleftrightarrow> pd_flags pd AND PCDESC_is_method_handle_invoke \<noteq> 0"

definition return_oop :: "pc_desc \<Rightarrow> bool" where
  "return_oop pd \<longleftrightarrow> pd_flags pd AND PCDESC_return_oop \<noteq> 0"

definition rethrow_exception :: "pc_desc \<Rightarrow> bool" where
  "rethrow_exception pd \<longleftrightarrow> pd_flags pd AND PCDESC_rethrow_exception \<noteq> 0"

definition is_same_info :: "pc_desc \<Rightarrow> pc_desc \<Rightarrow> bool" where
  "is_same_info p q \<longleftrightarrow> pd_scope_decode_offset p = pd_scope_decode_offset q
     \<and> pd_obj_decode_offset p = pd_obj_decode_offset q \<and> pd_flags p = pd_flags q"

section \<open>The cache\<close>

type_synonym pc_desc_cache = "nat option list"

definition pc_cache_size :: nat where
  "pc_cache_size = 4"

text \<open>
  An approximate match also reads the descriptor before the given one.  For the first descriptor
  that is whatever lies in memory before the array; \<open>before\<close> stands for it.
\<close>

definition match_desc :: "int \<Rightarrow> pc_desc list \<Rightarrow> nat \<Rightarrow> int \<Rightarrow> bool \<Rightarrow> bool option" where
  "match_desc before pcs pc pc_offset approximate = do {
     pd \<leftarrow> array_get pcs pc;
     if \<not> approximate then Some (pd_pc_offset pd = pc_offset)
     else do {
       p \<leftarrow> (if pc = 0 then Some before else map_option pd_pc_offset (array_get pcs (pc - 1)));
       Some (p < pc_offset \<and> pc_offset \<le> pd_pc_offset pd)
     }
   }"

definition reset_to :: "pc_desc_cache \<Rightarrow> nat option \<Rightarrow> pc_desc_cache option" where
  "reset_to cache initial_pc_desc = (case initial_pc_desc of
     None \<Rightarrow> array_put cache 0 None
   | Some i \<Rightarrow> for_loop 0 pc_cache_size (\<lambda>k cache. array_put cache k (Some i)) cache)"

definition cache_find_pc_desc :: "int \<Rightarrow> pc_desc list \<Rightarrow> pc_desc_cache \<Rightarrow> int \<Rightarrow> bool \<Rightarrow> nat option option" where
  "cache_find_pc_desc before pcs cache pc_offset approximate = do {
     res \<leftarrow> array_get cache 0;
     (case res of
        None \<Rightarrow> Some None
      | Some i \<Rightarrow> do {
          found \<leftarrow> match_desc before pcs i pc_offset approximate;
          if found then Some (Some i)
          else do {
            r \<leftarrow> for_return 1 pc_cache_size (\<lambda>k _. do {
                res \<leftarrow> array_get cache k;
                j \<leftarrow> res;
                pd \<leftarrow> array_get pcs j;
                if pd_pc_offset pd < 0 then Some (Inl None)
                else do {
                  found \<leftarrow> match_desc before pcs j pc_offset approximate;
                  Some (if found then Inl (Some j) else Inr ())
                }
              }) ();
            Some (case r of Inl res \<Rightarrow> res | Inr _ \<Rightarrow> None)
          }
        })
   }"

definition add_pc_desc :: "pc_desc_cache \<Rightarrow> nat \<Rightarrow> pc_desc_cache option" where
  "add_pc_desc cache pc_desc = map_option fst (for_loop 0 pc_cache_size (\<lambda>i (cache, pc_desc). do {
     nxt \<leftarrow> array_get cache i;
     cache \<leftarrow> array_put cache i pc_desc;
     Some (cache, nxt)
   }) (cache, Some pc_desc))"

definition last_pc_desc :: "pc_desc_cache \<Rightarrow> nat option option" where
  "last_pc_desc cache = array_get cache 0"

section \<open>The search\<close>

datatype search_result = Not_found | Found nat | Bad_address

text \<open>The reference of the debug build: all descriptors but the first, one after the other.\<close>

definition linear_search :: "int \<Rightarrow> pc_desc list \<Rightarrow> int \<Rightarrow> bool \<Rightarrow> search_result option" where
  "linear_search before pcs pc_offset approximate = for_loop 1 (length pcs) (\<lambda>p res. do {
     m \<leftarrow> match_desc before pcs p pc_offset approximate;
     Some (if m then (if res = Not_found then Found p else Bad_address) else res)
   }) Not_found"

text \<open>The inner loop of the giant steps, for one step width; the loop only runs with a positive step.\<close>

function giant_steps :: "pc_desc list \<Rightarrow> int \<Rightarrow> nat \<Rightarrow> nat \<Rightarrow> nat \<Rightarrow> (nat \<times> nat) option" where
  "giant_steps pcs pc_offset step lower upper =
     (if 0 < step \<and> lower + step < upper
      then do {
        let mid = lower + step;
        pd \<leftarrow> array_get pcs mid;
        if pd_pc_offset pd < pc_offset then giant_steps pcs pc_offset step mid upper
        else Some (lower, mid)
      }
      else Some (lower, upper))"
  by pat_completeness auto
termination
  by (relation "measure (\<lambda>(pcs, off, step, lower, upper). upper - lower)") auto

declare giant_steps.simps [simp del]

function sneak_up :: "pc_desc list \<Rightarrow> int \<Rightarrow> nat \<Rightarrow> nat option" where
  "sneak_up pcs pc_offset lower =
     (if lower + 1 < length pcs
      then if pd_pc_offset (pcs ! (lower + 1)) < pc_offset then sneak_up pcs pc_offset (lower + 1)
           else Some (lower + 1)
      else None)"
  by pat_completeness auto
termination
  by (relation "measure (\<lambda>(pcs, off, lower). length pcs - lower)") auto

declare sneak_up.simps [simp del]

definition quasi_linear :: "pc_desc list \<Rightarrow> int \<Rightarrow> nat \<Rightarrow> nat \<Rightarrow> nat option" where
  "quasi_linear pcs pc_offset lower upper = do {
     (lower, upper) \<leftarrow> giant_steps pcs pc_offset 4096 lower upper;
     (lower, upper) \<leftarrow> giant_steps pcs pc_offset 256 lower upper;
     (lower, upper) \<leftarrow> giant_steps pcs pc_offset 16 lower upper;
     sneak_up pcs pc_offset lower
   }"

definition find_pc_desc_internal ::
    "int \<Rightarrow> pc_desc list \<Rightarrow> int \<Rightarrow> pc_desc_cache \<Rightarrow> int \<Rightarrow> bool \<Rightarrow> (nat option \<times> pc_desc_cache) option" where
  "find_pc_desc_internal before pcs base_address cache pc approximate =
     (if pc < base_address \<or> pc - base_address \<ge> upper_offset_limit then Some (None, cache)
      else do {
        let pc_offset = pc - base_address;
        res \<leftarrow> cache_find_pc_desc before pcs cache pc_offset approximate;
        if res \<noteq> None then Some (res, cache)
        else if length pcs \<le> 1 then Some (None, cache)
        else do {
          last \<leftarrow> last_pc_desc cache;
          mid \<leftarrow> last;
          pd \<leftarrow> array_get pcs mid;
          let (lower, upper) = (if pd_pc_offset pd < pc_offset then (mid, length pcs - 1) else (0, mid));
          upper \<leftarrow> quasi_linear pcs pc_offset lower upper;
          m \<leftarrow> match_desc before pcs upper pc_offset approximate;
          if m then do { cache \<leftarrow> add_pc_desc cache upper; Some (Some upper, cache) } else Some (None, cache)
        }
      })"

definition find_pc_desc ::
    "int \<Rightarrow> pc_desc list \<Rightarrow> int \<Rightarrow> pc_desc_cache \<Rightarrow> int \<Rightarrow> bool \<Rightarrow> (nat option \<times> pc_desc_cache) option" where
  "find_pc_desc before pcs code_begin cache pc approximate = do {
     desc \<leftarrow> last_pc_desc cache;
     hit \<leftarrow> (case desc of
        None \<Rightarrow> Some False
      | Some i \<Rightarrow> do { pd \<leftarrow> array_get pcs i; Some (pd_pc_offset pd = pc - code_begin) });
     if hit then Some (desc, cache)
     else find_pc_desc_internal before pcs code_begin cache pc approximate
   }"

definition pc_desc_at ::
    "int \<Rightarrow> pc_desc list \<Rightarrow> int \<Rightarrow> pc_desc_cache \<Rightarrow> int \<Rightarrow> (nat option \<times> pc_desc_cache) option" where
  "pc_desc_at before pcs code_begin cache pc = find_pc_desc before pcs code_begin cache pc False"

definition pc_desc_near ::
    "int \<Rightarrow> pc_desc list \<Rightarrow> int \<Rightarrow> pc_desc_cache \<Rightarrow> int \<Rightarrow> (nat option \<times> pc_desc_cache) option" where
  "pc_desc_near before pcs code_begin cache pc = find_pc_desc before pcs code_begin cache pc True"

section \<open>Flags\<close>

lemma flag_test: "(w :: jint) AND push_bit n 1 \<noteq> 0 \<longleftrightarrow> n < 32 \<and> bit w n"
  unfolding word_neq_0_bit bit_and_iff bit_push_bit_iff bit_1_iff by auto

lemma flag_set: "n < 32 \<Longrightarrow> bit (pd_flags (pd_set_flag pd (push_bit n 1) z)) k \<longleftrightarrow> (if k = n then z else bit (pd_flags pd) k)"
  by (auto simp: pd_set_flag_def bit_simps bit_imp_le_length dest: bit_imp_le_length)

lemmas flag_defs = should_reexecute_def is_method_handle_invoke_def return_oop_def rethrow_exception_def
  set_should_reexecute_def set_is_method_handle_invoke_def set_return_oop_def set_rethrow_exception_def

section \<open>The search is the linear search\<close>

text \<open>The descriptors of an nmethod: increasing offsets, a sentinel at -1 first.\<close>

definition pcs_ok :: "pc_desc list \<Rightarrow> bool" where
  "pcs_ok pcs \<longleftrightarrow> 2 \<le> length pcs \<and> pd_pc_offset (pcs ! 0) = lower_offset_limit
     \<and> sorted_wrt (\<lambda>p q. pd_pc_offset p < pd_pc_offset q) pcs"

definition cache_wf :: "pc_desc list \<Rightarrow> pc_desc_cache \<Rightarrow> bool" where
  "cache_wf pcs cache \<longleftrightarrow> length cache = pc_cache_size \<and> (\<forall>e \<in> set cache. \<exists>i. e = Some i \<and> i < length pcs)"

text \<open>The match at an index, as a predicate.\<close>

definition matches :: "pc_desc list \<Rightarrow> int \<Rightarrow> bool \<Rightarrow> nat \<Rightarrow> bool" where
  "matches pcs off approximate i \<longleftrightarrow> 0 < i \<and> i < length pcs
     \<and> (if approximate then pd_pc_offset (pcs ! (i - 1)) < off \<and> off \<le> pd_pc_offset (pcs ! i) else pd_pc_offset (pcs ! i) = off)"

lemma pcs_less: "pcs_ok pcs \<Longrightarrow> i < j \<Longrightarrow> j < length pcs \<Longrightarrow> pd_pc_offset (pcs ! i) < pd_pc_offset (pcs ! j)"
  by (simp add: pcs_ok_def sorted_wrt_iff_nth_less)

lemma match_desc_matches:
  assumes "pcs_ok pcs" "0 \<le> off" "i < length pcs"
  shows "match_desc before pcs i off approximate = Some (matches pcs off approximate i)"
  using assms by (auto simp: match_desc_def matches_def array_get_def pcs_ok_def lower_offset_limit_def)

lemma matches_unique:
  assumes "pcs_ok pcs" "matches pcs off approximate i" "matches pcs off approximate j"
  shows "i = j"
proof (rule ccontr)
  have False if m: "matches pcs off approximate i" "matches pcs off approximate j" and "i < j" for i j
  proof -
    have "i = j - 1 \<or> i < j - 1" "j - 1 < length pcs" using m \<open>i < j\<close> by (auto simp: matches_def)
    then have "pd_pc_offset (pcs ! i) \<le> pd_pc_offset (pcs ! (j - 1))"
      using pcs_less [OF assms(1), of i "j - 1"] by auto
    moreover have "pd_pc_offset (pcs ! i) < pd_pc_offset (pcs ! j)"
      using pcs_less [OF assms(1)] m \<open>i < j\<close> by (auto simp: matches_def)
    ultimately show False using m by (auto simp: matches_def split: if_splits)
  qed
  moreover assume "i \<noteq> j"
  ultimately show False using assms(2,3) by (metis linorder_neqE_nat)
qed

definition outcome :: "pc_desc list \<Rightarrow> int \<Rightarrow> bool \<Rightarrow> nat option \<Rightarrow> bool" where
  "outcome pcs off approximate r \<longleftrightarrow> (case r of
     None \<Rightarrow> \<not> (\<exists>i. matches pcs off approximate i)
   | Some i \<Rightarrow> matches pcs off approximate i)"

lemma linear_search_outcome:
  assumes "pcs_ok pcs" "0 \<le> off"
  shows "succeeds (linear_search before pcs off approximate) (\<lambda>r. case r of
    Not_found \<Rightarrow> outcome pcs off approximate None | Found i \<Rightarrow> outcome pcs off approximate (Some i) | Bad_address \<Rightarrow> False)"
proof -
  let ?m = "matches pcs off approximate"
  have "succeeds (linear_search before pcs off approximate) (\<lambda>r. case r of
    Not_found \<Rightarrow> \<forall>i < length pcs. \<not> ?m i | Found i \<Rightarrow> ?m i \<and> i < length pcs | Bad_address \<Rightarrow> False)"
    unfolding linear_search_def
  proof (rule for_loop_rule [where I = "\<lambda>k r. case r of Not_found \<Rightarrow> \<forall>i < k. \<not> ?m i | Found i \<Rightarrow> ?m i \<and> i < k | Bad_address \<Rightarrow> False"])
    fix k r assume "1 \<le> k" "k < length pcs" "case r of Not_found \<Rightarrow> \<forall>i < k. \<not> ?m i | Found i \<Rightarrow> ?m i \<and> i < k | Bad_address \<Rightarrow> False"
    then show "succeeds (match_desc before pcs k off approximate \<bind> (\<lambda>m. Some (if m then (if r = Not_found then Found k else Bad_address) else r)))
      (\<lambda>r. case r of Not_found \<Rightarrow> \<forall>i < Suc k. \<not> ?m i | Found i \<Rightarrow> ?m i \<and> i < Suc k | Bad_address \<Rightarrow> False)"
      using matches_unique [OF assms(1), of off approximate _ k]
      by (cases r) (auto simp: match_desc_matches [OF assms] less_Suc_eq)
  qed (use assms(1) in \<open>auto simp: pcs_ok_def matches_def\<close>)
  then show ?thesis
    by (rule succeeds_weaken) (auto simp: outcome_def matches_def split: search_result.splits)
qed

definition between :: "pc_desc list \<Rightarrow> int \<Rightarrow> nat \<Rightarrow> nat \<Rightarrow> bool" where
  "between pcs off lower upper \<longleftrightarrow> lower < upper \<and> upper < length pcs
     \<and> pd_pc_offset (pcs ! lower) < off \<and> off \<le> pd_pc_offset (pcs ! upper)"

lemma giant_steps_between:
  "between pcs off lower upper \<Longrightarrow> succeeds (giant_steps pcs off step lower upper) (\<lambda>(l, u). between pcs off l u)"
proof (induction pcs off step lower upper rule: giant_steps.induct)
  case (1 pcs off step lower upper)
  show ?case
  proof (cases "0 < step \<and> lower + step < upper")
    case True
    then have get: "array_get pcs (lower + step) = Some (pcs ! (lower + step))" using 1(2) by (simp add: between_def array_get_def)
    show ?thesis
    proof (cases "pd_pc_offset (pcs ! (lower + step)) < off")
      case True': True
      then have "between pcs off (lower + step) upper" using 1(2) True by (simp add: between_def)
      from 1(1) [OF True refl get True' this] show ?thesis using True True' get
        by (simp add: giant_steps.simps [of pcs off step lower upper])
    next
      case False
      then show ?thesis using True get 1(2) by (simp add: giant_steps.simps [of pcs off step lower upper] between_def)
    qed
  next
    case False
    then show ?thesis using 1(2) by (subst giant_steps.simps) auto
  qed
qed

lemma sneak_up_between:
  "between pcs off lower upper \<Longrightarrow> succeeds (sneak_up pcs off lower) (\<lambda>u. between pcs off (u - 1) u)"
proof (induction pcs off lower rule: sneak_up.induct)
  case (1 pcs off lower)
  have lt: "lower + 1 < length pcs" using 1(2) by (auto simp: between_def)
  show ?case
  proof (cases "pd_pc_offset (pcs ! (lower + 1)) < off")
    case True
    then have "lower + 1 \<noteq> upper" using 1(2) by (auto simp: between_def)
    then have "between pcs off (lower + 1) upper" using 1(2) True by (auto simp: between_def)
    from 1(1) [OF lt True this] show ?thesis using lt True by (simp add: sneak_up.simps [of pcs off lower])
  next
    case False
    then show ?thesis using lt 1(2) by (simp add: sneak_up.simps [of pcs off lower] between_def)
  qed
qed

lemma quasi_linear_between:
  assumes "between pcs off lower upper"
  shows "succeeds (quasi_linear pcs off lower upper) (\<lambda>u. between pcs off (u - 1) u)"
proof -
  have step: "succeeds (giant_steps pcs off step l u \<bind> (\<lambda>(l, u). f l u)) Q"
    if "between pcs off l u" "\<And>l u. between pcs off l u \<Longrightarrow> succeeds (f l u) Q" for step l u f Q
    using giant_steps_between [OF that(1), of step] that(2) by (auto simp: succeeds_iff)
  show ?thesis unfolding quasi_linear_def
    by (intro step sneak_up_between assms)
qed

lemma between_outcome:
  assumes "pcs_ok pcs" "between pcs off (u - 1) u"
  shows "outcome pcs off approximate (if matches pcs off approximate u then Some u else None)"
proof (cases "matches pcs off approximate u")
  case False
  then have a: "\<not> approximate" and ne: "pd_pc_offset (pcs ! u) \<noteq> off" using assms(2) by (auto simp: matches_def between_def split: if_splits)
  have "\<not> matches pcs off approximate i" for i
  proof
    assume "matches pcs off approximate i"
    then have i: "i < length pcs" "pd_pc_offset (pcs ! i) = off" using a by (auto simp: matches_def)
    have "\<not> i < u"
    proof
      assume "i < u"
      then have "i = u - 1 \<or> i < u - 1" "u - 1 < length pcs" using assms(2) by (auto simp: between_def)
      then have "pd_pc_offset (pcs ! i) \<le> pd_pc_offset (pcs ! (u - 1))" using pcs_less [OF assms(1), of i "u - 1"] by auto
      then show False using i assms(2) by (simp add: between_def)
    qed
    moreover have "\<not> u < i" using pcs_less [OF assms(1), of u i] i assms(2) by (auto simp: between_def)
    ultimately show False using ne i by (metis linorder_neqE_nat)
  qed
  then show ?thesis using False by (simp add: outcome_def)
qed (simp add: outcome_def)

lemma add_pc_desc_shifts: "length cache = pc_cache_size \<Longrightarrow> add_pc_desc cache p = Some (Some p # butlast cache)"
proof -
  assume "length cache = pc_cache_size"
  then obtain a b c d where "cache = [a, b, c, d]"
    by (auto simp: pc_cache_size_def numeral_eq_Suc length_Suc_conv)
  then show ?thesis
    by (simp add: add_pc_desc_def pc_cache_size_def loop_eval array_get_def array_put_def numeral_eq_Suc)
qed

lemma cache_wf_first:
  assumes "cache_wf pcs cache"
  obtains i where "last_pc_desc cache = Some (Some i)" "i < length pcs"
proof -
  have l: "0 < length cache" using assms by (simp add: cache_wf_def pc_cache_size_def)
  then obtain i where "cache ! 0 = Some i" "i < length pcs"
    using assms nth_mem [OF l] unfolding cache_wf_def by blast
  then show thesis using l by (intro that [of i]) (simp_all add: last_pc_desc_def array_get_def)
qed

lemma cache_find_outcome:
  assumes "pcs_ok pcs" "0 \<le> off" "cache_wf pcs cache"
  shows "succeeds (cache_find_pc_desc before pcs cache off approximate) (\<lambda>r. \<forall>i. r = Some i \<longrightarrow> matches pcs off approximate i)"
proof -
  have len: "length cache = 4" using assms(3) by (simp add: cache_wf_def pc_cache_size_def)
  have e: "\<exists>i. array_get cache k = Some (Some i) \<and> i < length pcs" if "k < 4" for k
    using assms(3) len that nth_mem [of k cache] by (auto simp: cache_wf_def array_get_def)
  obtain i where i: "array_get cache 0 = Some (Some i)" "i < length pcs" using e [of 0] by auto
  let ?body = "\<lambda>k (_ :: unit). array_get cache k \<bind> (\<lambda>res. res \<bind> (\<lambda>j. array_get pcs j \<bind> (\<lambda>pd.
      if pd_pc_offset pd < 0 then Some (Inl None)
      else match_desc before pcs j off approximate \<bind> (\<lambda>found. Some (if found then Inl (Some j) else Inr ())))))"
  have "succeeds (for_return 1 pc_cache_size ?body ()) (\<lambda>x. case x of Inl r \<Rightarrow> \<forall>i. r = Some i \<longrightarrow> matches pcs off approximate i | Inr _ \<Rightarrow> True)"
  proof (rule for_return_rule [where I = "\<lambda>_ _. True"])
    fix k :: nat and u assume "k < pc_cache_size"
    then obtain j where "array_get cache k = Some (Some j)" "j < length pcs" using e [of k] by (auto simp: pc_cache_size_def)
    then show "succeeds (?body k u) (\<lambda>x. case x of Inl r \<Rightarrow> \<forall>i. r = Some i \<longrightarrow> matches pcs off approximate i | Inr _ \<Rightarrow> True)"
      using match_desc_matches [OF assms(1,2)] by (simp add: array_get_def)
  qed (simp_all add: pc_cache_size_def)
  then obtain x where x: "for_return 1 pc_cache_size ?body () = Some x" "case x of Inl r \<Rightarrow> \<forall>i. r = Some i \<longrightarrow> matches pcs off approximate i | Inr _ \<Rightarrow> True"
    by (rule succeedsE)
  show ?thesis
    using x by (simp add: cache_find_pc_desc_def i(1) match_desc_matches [OF assms(1,2) i(2)] split: sum.splits)
qed

lemma find_pc_desc_internal_outcome:
  assumes "pcs_ok pcs" "cache_wf pcs cache" "base \<le> pc" "pc - base \<le> pd_pc_offset (last pcs)" "pc - base < upper_offset_limit"
  shows "succeeds (find_pc_desc_internal before pcs base cache pc approximate)
    (\<lambda>(r, cache'). outcome pcs (pc - base) approximate r \<and> cache_wf pcs cache')"
proof -
  let ?off = "pc - base"
  have off: "0 \<le> ?off" using assms(3) by simp
  obtain res where res: "cache_find_pc_desc before pcs cache ?off approximate = Some res" "\<forall>i. res = Some i \<longrightarrow> matches pcs ?off approximate i"
    using cache_find_outcome [OF assms(1) off assms(2)] by (rule succeedsE)
  show ?thesis
  proof (cases res)
    case (Some i)
    then show ?thesis using res assms by (simp add: find_pc_desc_internal_def outcome_def)
  next
    case None
    have n: "2 \<le> length pcs" "pcs \<noteq> []" using assms(1) by (auto simp: pcs_ok_def)
    have len: "length cache = 4" using assms(2) by (simp add: cache_wf_def pc_cache_size_def)
    obtain mid where mid: "last_pc_desc cache = Some (Some mid)" "mid < length pcs"
      by (rule cache_wf_first [OF assms(2)])
    define lu where "lu = (if pd_pc_offset (pcs ! mid) < ?off then (mid, length pcs - 1) else (0, mid))"
    have last: "last pcs = pcs ! (length pcs - 1)" using n by (simp add: last_conv_nth)
    have first: "pd_pc_offset (pcs ! 0) < ?off" using assms(1) off by (simp add: pcs_ok_def lower_offset_limit_def)
    have "between pcs ?off (fst lu) (snd lu)"
    proof (cases "pd_pc_offset (pcs ! mid) < ?off")
      case True
      then have "mid \<noteq> length pcs - 1" using assms(4) last by auto
      then show ?thesis using True mid(2) n assms(4) last by (auto simp: lu_def between_def)
    next
      case False
      then have "mid \<noteq> 0" using first by (cases "mid = 0") simp_all
      then show ?thesis using False mid(2) first by (auto simp: lu_def between_def)
    qed
    from quasi_linear_between [OF this] obtain u where u: "quasi_linear pcs ?off (fst lu) (snd lu) = Some u" "between pcs ?off (u - 1) u"
      by (rule succeedsE)
    have "match_desc before pcs u ?off approximate = Some (matches pcs ?off approximate u)"
      using match_desc_matches [OF assms(1) off] u(2) by (simp add: between_def)
    moreover have "cache_wf pcs (Some u # butlast cache)"
      using assms(2) u(2) by (auto simp: cache_wf_def between_def pc_cache_size_def dest: in_set_butlastD)
    moreover note between_outcome [OF assms(1) u(2), of approximate]
    ultimately show ?thesis
      using res(1) None assms(2,3,5) n mid u(1) add_pc_desc_shifts [of cache u] len
      by (cases lu) (simp add: find_pc_desc_internal_def Let_def array_get_def lu_def pc_cache_size_def split: if_splits)
  qed
qed

lemma find_pc_desc_outcome:
  assumes "pcs_ok pcs" "cache_wf pcs cache" "base \<le> pc" "pc - base \<le> pd_pc_offset (last pcs)" "pc - base < upper_offset_limit"
  shows "succeeds (find_pc_desc before pcs base cache pc approximate)
    (\<lambda>(r, cache'). outcome pcs (pc - base) approximate r \<and> cache_wf pcs cache')"
proof -
  obtain i where i: "last_pc_desc cache = Some (Some i)" "i < length pcs"
    by (rule cache_wf_first [OF assms(2)])
  show ?thesis
  proof (cases "pd_pc_offset (pcs ! i) = pc - base")
    case True
    then have "0 < i" using assms(1,3) by (cases i) (auto simp: pcs_ok_def lower_offset_limit_def)
    then have "matches pcs (pc - base) approximate i" using True i(2) pcs_less [OF assms(1), of "i - 1" i] by (auto simp: matches_def)
    then show ?thesis using True i assms(2) by (simp add: find_pc_desc_def array_get_def outcome_def)
  next
    case False
    then show ?thesis using find_pc_desc_internal_outcome [OF assms] i by (simp add: find_pc_desc_def array_get_def)
  qed
qed

section \<open>Properties\<close>

text \<open>
  C5: for a pc inside the nmethod, \<^verbatim>\<open>find_pc_desc\<close> ends and, whatever the four cached descriptors are,
  returns exactly what the linear search over all descriptors returns, which is unique; the cache
  stays well formed.
\<close>

theorem find_pc_desc_spec:
  assumes "pcs_ok pcs" "cache_wf pcs cache" "base \<le> pc" "pc - base \<le> pd_pc_offset (last pcs)" "pc - base < upper_offset_limit"
  shows "succeeds (find_pc_desc before pcs base cache pc approximate) (\<lambda>(r, cache'). cache_wf pcs cache'
    \<and> linear_search before pcs (pc - base) approximate = Some (case r of None \<Rightarrow> Not_found | Some i \<Rightarrow> Found i))"
proof -
  have off: "0 \<le> pc - base" using assms(3) by simp
  obtain s where s: "linear_search before pcs (pc - base) approximate = Some s" and o: "case s of
    Not_found \<Rightarrow> outcome pcs (pc - base) approximate None | Found i \<Rightarrow> outcome pcs (pc - base) approximate (Some i) | Bad_address \<Rightarrow> False"
    using linear_search_outcome [OF assms(1) off] by (rule succeedsE)
  have "s = (case r of None \<Rightarrow> Not_found | Some i \<Rightarrow> Found i)" if "outcome pcs (pc - base) approximate r" for r
    using that o matches_unique [OF assms(1), of "pc - base" approximate]
    by (cases s; cases r) (auto simp: outcome_def)
  then show ?thesis
    using s by (intro succeeds_weaken [OF find_pc_desc_outcome [OF assms]]) auto
qed

definition example_pcs :: "pc_desc list" where
  "example_pcs = map (\<lambda>o'. new_pc_desc o' 0 0) [- 1, 10, 20, 35, 50]"

theorem find_pc_desc_spec_witness:
  "succeeds (find_pc_desc 7 example_pcs 1000 [Some 3, Some 0, Some 0, Some 0] 1015 True) (\<lambda>(r, cache'). r = Some 2)"
proof -
  have e: "pcs_ok example_pcs" "cache_wf example_pcs [Some 3, Some 0, Some 0, Some 0]"
    by (auto simp: pcs_ok_def cache_wf_def example_pcs_def new_pc_desc_def lower_offset_limit_def pc_cache_size_def)
  have l: "linear_search 7 example_pcs (1015 - 1000) True = Some (Found 2)"
    by (simp add: linear_search_def example_pcs_def loop_eval match_desc_def array_get_def new_pc_desc_def)
  show ?thesis
    by (rule succeeds_weaken [OF find_pc_desc_spec [OF e, of 1000 1015 7 True]])
      (use l in \<open>auto simp: example_pcs_def new_pc_desc_def upper_offset_limit_def split: option.splits\<close>)
qed

end
