(* ===== verification/Debug_Info_Rec.thy ===== *)
theory Debug_Info_Rec
  imports Debug_Info Growable_Array Pc_Desc "HOL-Library.List_Lexorder" "HOL-Library.Product_Lexorder"
begin

text \<open>
  \<^verbatim>\<open>code/debugInfoRec.cpp\<close>: the recorder a compiler fills with the debug information of a method.  It
  appends scope values, monitors and scope descriptors to one stream and remembers every piece as
  a chunk; when a new piece repeats the bytes of an old one, the stream is reset and the old offset
  is used.  The two versions of \<^verbatim>\<open>find_sharable_decode_offset\<close>, with and without \<^verbatim>\<open>GRAAL\<close>, are chosen
  by the flag \<open>dir_graal\<close>.  Chunks do not change once they are constructed, so an array of pointers
  to chunks is an array of chunks that carry their address.
\<close>

section \<open>Chunks\<close>

record dir_chunk =
  ch_address :: nat
  ch_offset :: nat
  ch_length :: nat
  ch_hash :: jint

definition null_chunk :: dir_chunk where
  "null_chunk = \<lparr>ch_address = 0, ch_offset = 0, ch_length = 0, ch_hash = 0\<rparr>"

text \<open>The hash of the first six bytes at most.\<close>

definition chunk_hash :: "u1 list \<Rightarrow> nat \<Rightarrow> nat \<Rightarrow> juint option" where
  "chunk_hash buf offset len = do {
     r \<leftarrow> for_return 0 len (\<lambda>i hash.
       if i = 6 then Some (Inl hash)
       else do { b \<leftarrow> array_get buf (offset + i); Some (Inr (hash * 127 + ucast b)) }) 0;
     Some (case r of Inl hash \<Rightarrow> hash | Inr hash \<Rightarrow> hash)
   }"

text \<open>The sign of \<^verbatim>\<open>memcmp\<close>, on two runs of bytes of the same length.\<close>

fun memcmp :: "u1 list \<Rightarrow> u1 list \<Rightarrow> int" where
  "memcmp (x # xs) (y # ys) = (if x < y then - 1 else if y < x then 1 else memcmp xs ys)"
| "memcmp xs ys = 0"

definition run_of :: "u1 list \<Rightarrow> nat \<Rightarrow> nat \<Rightarrow> u1 list" where
  "run_of buf offset len = take len (drop offset buf)"

definition chunk_compare :: "u1 list \<Rightarrow> dir_chunk \<Rightarrow> dir_chunk \<Rightarrow> int" where
  "chunk_compare buf a b =
     (if sint (ch_hash b) > sint (ch_hash a) then 1
      else if sint (ch_hash b) < sint (ch_hash a) then - 1
      else if ch_length b > ch_length a then 1
      else if ch_length b < ch_length a then - 1
      else memcmp (run_of buf (ch_offset b) (ch_length a)) (run_of buf (ch_offset a) (ch_length a)))"

section \<open>The recorder\<close>

record debug_rec =
  dir_writer :: debug_writer
  dir_pcs :: "pc_desc list"
  dir_pcs_length :: nat
  dir_all_chunks :: "dir_chunk growable_array"
  dir_shared_chunks :: "dir_chunk growable_array"
  dir_next_chunk :: nat
  dir_prev_safepoint_pc :: int
  dir_recording_non_safepoints :: bool
  dir_graal :: bool

text \<open>The flag \<^verbatim>\<open>ShareDebugInfo\<close> and whether it has its default value.\<close>

record share_flags =
  share_is_default :: bool
  share_debug_info :: bool

definition dir_stream :: "debug_rec \<Rightarrow> write_stream" where
  "dir_stream dir = dw_stream (dir_writer dir)"

definition dir_set_position :: "debug_rec \<Rightarrow> nat \<Rightarrow> debug_rec" where
  "dir_set_position dir p = dir\<lparr>dir_writer := (dir_writer dir)\<lparr>dw_stream := (dir_stream dir)\<lparr>ws_position := p\<rparr>\<rparr>\<rparr>"

definition new_dir_chunk :: "debug_rec \<Rightarrow> nat \<Rightarrow> nat \<Rightarrow> (dir_chunk \<times> debug_rec) option" where
  "new_dir_chunk dir offset len = do {
     hash \<leftarrow> chunk_hash (ws_buffer (dir_stream dir)) offset len;
     Some (\<lparr>ch_address = dir_next_chunk dir, ch_offset = offset, ch_length = len, ch_hash = hash\<rparr>,
           dir\<lparr>dir_next_chunk := dir_next_chunk dir + 1\<rparr>)
   }"

text \<open>The loop of \<^verbatim>\<open>find_match\<close>, from the end of the array down to \<open>start\<close>.\<close>

fun find_match_loop :: "u1 list \<Rightarrow> dir_chunk \<Rightarrow> dir_chunk growable_array \<Rightarrow> nat \<Rightarrow> nat \<Rightarrow> dir_chunk option option" where
  "find_match_loop buf ns arr start 0 = Some None"
| "find_match_loop buf ns arr start (Suc i) =
     (if i \<ge> start
      then do {
        that \<leftarrow> ga_at arr i;
        if ch_hash ns = ch_hash that \<and> ch_length ns = ch_length that
           \<and> memcmp (run_of buf (ch_offset ns) (ch_length ns)) (run_of buf (ch_offset that) (ch_length ns)) = 0
        then Some (Some that)
        else find_match_loop buf ns arr start i
      }
      else Some None)"

definition find_match :: "u1 list \<Rightarrow> dir_chunk \<Rightarrow> dir_chunk growable_array \<Rightarrow> nat \<Rightarrow> dir_chunk option option" where
  "find_match buf ns arr start_index = find_match_loop buf ns arr start_index (ga_len arr)"

definition serialized_null :: nat where
  "serialized_null = 0"

definition MAX_RECENT :: nat where
  "MAX_RECENT = 50"

definition sharing_disabled :: "share_flags \<Rightarrow> debug_rec \<Rightarrow> bool" where
  "sharing_disabled flags dir =
     (if share_is_default flags then \<not> share_debug_info flags \<and> \<not> dir_recording_non_safepoints dir
      else \<not> share_debug_info flags)"

definition find_sharable_decode_offset :: "share_flags \<Rightarrow> debug_rec \<Rightarrow> nat \<Rightarrow> (nat \<times> debug_rec) option" where
  "find_sharable_decode_offset flags dir stream_offset =
     (if sharing_disabled flags dir then Some (serialized_null, dir)
      else do {
        let stream_length = ws_position (dir_stream dir) - stream_offset;
        let buf = ws_buffer (dir_stream dir);
        (ns, dir) \<leftarrow> new_dir_chunk dir stream_offset stream_length;
        if dir_graal dir
        then do {
          (m, arr) \<leftarrow> find_insert_binary (chunk_compare buf) null_chunk (dir_all_chunks dir) ns;
          let dir = dir\<lparr>dir_all_chunks := arr\<rparr>;
          if ch_address m \<noteq> ch_address ns
          then Some (ch_offset m, dir\<lparr>dir_next_chunk := ch_address ns\<rparr>)
          else Some (serialized_null, dir)
        }
        else do {
          ms \<leftarrow> find_match buf ns (dir_shared_chunks dir) 0;
          (case ms of
             Some m \<Rightarrow> Some (ch_offset m, dir\<lparr>dir_next_chunk := ch_address ns\<rparr>)
           | None \<Rightarrow> do {
               let start_index = ga_len (dir_all_chunks dir) - MAX_RECENT;
               ms \<leftarrow> find_match buf ns (dir_all_chunks dir) start_index;
               (case ms of
                  Some m \<Rightarrow> do {
                    (_, arr) \<leftarrow> ga_append null_chunk (dir_shared_chunks dir) (Val m);
                    Some (ch_offset m, dir\<lparr>dir_shared_chunks := arr, dir_next_chunk := ch_address ns\<rparr>)
                  }
                | None \<Rightarrow> do {
                    (_, arr) \<leftarrow> ga_append null_chunk (dir_all_chunks dir) (Val ns);
                    Some (serialized_null, dir\<lparr>dir_all_chunks := arr\<rparr>)
                  })
             })
        }
      })"

section \<open>Serialization\<close>

text \<open>What the three users of the sharing do with a piece that starts at \<open>result\<close>.\<close>

definition share_piece :: "share_flags \<Rightarrow> debug_rec \<Rightarrow> nat \<Rightarrow> (nat \<times> debug_rec) option" where
  "share_piece flags dir result = do {
     (shared_result, dir) \<leftarrow> find_sharable_decode_offset flags dir result;
     if shared_result \<noteq> serialized_null then Some (shared_result, dir_set_position dir result)
     else Some (result, dir)
   }"

fun write_monitors :: "write_env \<Rightarrow> debug_writer \<Rightarrow> monitor_value list \<Rightarrow> debug_writer option" where
  "write_monitors env st [] = Some st"
| "write_monitors env st (m # ms) = do { st \<leftarrow> monitor_write_on env st m; write_monitors env st ms }"

definition serialize_monitor_values ::
    "share_flags \<Rightarrow> write_env \<Rightarrow> debug_rec \<Rightarrow> monitor_value list option \<Rightarrow> (nat \<times> debug_rec) option" where
  "serialize_monitor_values flags env dir monitors = (case monitors of
     None \<Rightarrow> Some (serialized_null, dir)
   | Some ms \<Rightarrow>
       if ms = [] then Some (serialized_null, dir)
       else do {
         let result = ws_position (dir_stream dir);
         st \<leftarrow> dw_write_int env (dir_writer dir) (of_nat (length ms));
         st \<leftarrow> write_monitors env st ms;
         share_piece flags (dir\<lparr>dir_writer := st\<rparr>) result
       })"

definition serialize_scope_values ::
    "share_flags \<Rightarrow> write_env \<Rightarrow> debug_rec \<Rightarrow> scope_value list option \<Rightarrow> (nat \<times> debug_rec) option" where
  "serialize_scope_values flags env dir values' = (case values' of
     None \<Rightarrow> Some (serialized_null, dir)
   | Some vs \<Rightarrow>
       if vs = [] then Some (serialized_null, dir)
       else do {
         let result = ws_position (dir_stream dir);
         st \<leftarrow> dw_write_int env (dir_writer dir) (of_nat (length vs));
         st \<leftarrow> write_values env st vs;
         share_piece flags (dir\<lparr>dir_writer := st\<rparr>) result
       })"

definition create_scope_values ::
    "share_flags \<Rightarrow> write_env \<Rightarrow> debug_rec \<Rightarrow> scope_value list option \<Rightarrow> (nat \<times> debug_rec) option" where
  "create_scope_values flags env dir values' = serialize_scope_values flags env dir values'"

definition create_monitor_values ::
    "share_flags \<Rightarrow> write_env \<Rightarrow> debug_rec \<Rightarrow> monitor_value list option \<Rightarrow> (nat \<times> debug_rec) option" where
  "create_monitor_values flags env dir monitors = serialize_monitor_values flags env dir monitors"

section \<open>Program counters\<close>

definition last_pc :: "debug_rec \<Rightarrow> pc_desc option" where
  "last_pc dir = (if dir_pcs_length dir > 0 then array_get (dir_pcs dir) (dir_pcs_length dir - 1) else None)"

definition prev_pc :: "debug_rec \<Rightarrow> pc_desc option" where
  "prev_pc dir = (if dir_pcs_length dir > 1 then array_get (dir_pcs dir) (dir_pcs_length dir - 2) else None)"

definition set_last_pc :: "debug_rec \<Rightarrow> pc_desc \<Rightarrow> debug_rec option" where
  "set_last_pc dir pd = do { pcs \<leftarrow> array_put (dir_pcs dir) (dir_pcs_length dir - 1) pd; Some (dir\<lparr>dir_pcs := pcs\<rparr>) }"

text \<open>\<open>fresh_pcs\<close> stands for the contents of newly allocated descriptors.\<close>

definition add_new_pc_offset :: "(nat \<Rightarrow> pc_desc list) \<Rightarrow> debug_rec \<Rightarrow> int \<Rightarrow> debug_rec option" where
  "add_new_pc_offset fresh_pcs dir pc_offset = do {
     dir \<leftarrow> (if dir_pcs_length dir = length (dir_pcs dir)
       then do {
         let new_pcs = fresh_pcs (length (dir_pcs dir) * 2);
         new_pcs \<leftarrow> for_loop 0 (dir_pcs_length dir) (\<lambda>index new_pcs. do {
           pd \<leftarrow> array_get (dir_pcs dir) index;
           array_put new_pcs index pd
         }) new_pcs;
         Some (dir\<lparr>dir_pcs := new_pcs\<rparr>)
       }
       else Some dir);
     pcs \<leftarrow> array_put (dir_pcs dir) (dir_pcs_length dir) (new_pc_desc pc_offset serialized_null serialized_null);
     Some (dir\<lparr>dir_pcs := pcs, dir_pcs_length := dir_pcs_length dir + 1\<rparr>)
   }"

definition new_debug_rec ::
    "(nat \<Rightarrow> pc_desc list) \<Rightarrow> write_env \<Rightarrow> oop_recorder \<Rightarrow> (nat \<rightharpoonup> object_value) \<Rightarrow> bool \<Rightarrow> bool \<Rightarrow> debug_rec option" where
  "new_debug_rec fresh_pcs env recorder objs recording graal = do {
     let ws = new_write_stream (fst env) (10 * 1024);
     ws \<leftarrow> write_byte (fst env) ws 0xFF;
     let dir = \<lparr>dir_writer = \<lparr>dw_stream = ws, dw_recorder = recorder, dw_objs = objs\<rparr>,
       dir_pcs = fresh_pcs 100, dir_pcs_length = 0,
       dir_all_chunks = new_growable_array null_chunk 300 False,
       dir_shared_chunks = new_growable_array null_chunk 30 False,
       dir_next_chunk = 0, dir_prev_safepoint_pc = lower_offset_limit,
       dir_recording_non_safepoints = recording, dir_graal = graal\<rparr>;
     add_new_pc_offset fresh_pcs dir lower_offset_limit
   }"

text \<open>The oop maps belong to another component; the entry for the pc is what remains here.\<close>

definition add_safepoint :: "(nat \<Rightarrow> pc_desc list) \<Rightarrow> debug_rec \<Rightarrow> int \<Rightarrow> debug_rec option" where
  "add_safepoint fresh_pcs dir pc_offset = add_new_pc_offset fresh_pcs dir pc_offset"

definition add_non_safepoint :: "(nat \<Rightarrow> pc_desc list) \<Rightarrow> debug_rec \<Rightarrow> int \<Rightarrow> debug_rec option" where
  "add_non_safepoint fresh_pcs dir pc_offset = add_new_pc_offset fresh_pcs dir pc_offset"

record scope_flags =
  sf_reexecute :: bool
  sf_rethrow_exception :: bool
  sf_is_method_handle_invoke :: bool
  sf_return_oop :: bool

definition describe_scope ::
    "share_flags \<Rightarrow> write_env \<Rightarrow> debug_rec \<Rightarrow> handle \<Rightarrow> jint \<Rightarrow> scope_flags \<Rightarrow> nat \<Rightarrow> nat \<Rightarrow> nat \<Rightarrow> debug_rec option" where
  "describe_scope flags env dir method_enc bci sf locals expressions monitors = do {
     last_pd \<leftarrow> last_pc dir;
     let sender_stream_offset = pd_scope_decode_offset last_pd;
     let stream_offset = ws_position (dir_stream dir);
     let last_pd = last_pd\<lparr>pd_scope_decode_offset := stream_offset\<rparr>;
     let last_pd = set_should_reexecute last_pd (sf_reexecute sf);
     let last_pd = set_rethrow_exception last_pd (sf_rethrow_exception sf);
     let last_pd = set_is_method_handle_invoke last_pd (sf_is_method_handle_invoke sf);
     let last_pd = set_return_oop last_pd (sf_return_oop sf);
     dir \<leftarrow> set_last_pc dir last_pd;
     st \<leftarrow> dw_write_int env (dir_writer dir) (of_nat sender_stream_offset);
     st \<leftarrow> dw_write_metadata env st method_enc;
     st \<leftarrow> write_bci env st bci;
     st \<leftarrow> dw_write_int env st (of_nat locals);
     st \<leftarrow> dw_write_int env st (of_nat expressions);
     st \<leftarrow> dw_write_int env st (of_nat monitors);
     (shared_stream_offset, dir) \<leftarrow> find_sharable_decode_offset flags (dir\<lparr>dir_writer := st\<rparr>) stream_offset;
     if shared_stream_offset \<noteq> serialized_null
     then do {
       let dir = dir_set_position dir stream_offset;
       last_pd \<leftarrow> last_pc dir;
       set_last_pc dir (last_pd\<lparr>pd_scope_decode_offset := shared_stream_offset\<rparr>)
     }
     else Some dir
   }"

fun clear_visited :: "(nat \<rightharpoonup> object_value) \<Rightarrow> scope_value list \<Rightarrow> (nat \<rightharpoonup> object_value) option" where
  "clear_visited objs [] = Some objs"
| "clear_visited objs (ObjectRef p # vs) = do {
     objs \<leftarrow> clear_visited objs vs;
     ov \<leftarrow> objs p;
     Some (objs(p \<mapsto> ov_set_visited ov False))
   }"
| "clear_visited objs (v # vs) = None"

definition dump_object_pool ::
    "share_flags \<Rightarrow> write_env \<Rightarrow> debug_rec \<Rightarrow> scope_value list option \<Rightarrow> debug_rec option" where
  "dump_object_pool flags env dir objects = do {
     last_pd \<leftarrow> last_pc dir;
     objs \<leftarrow> (case objects of None \<Rightarrow> Some (dw_objs (dir_writer dir)) | Some vs \<Rightarrow> clear_visited (dw_objs (dir_writer dir)) vs);
     (offset, dir) \<leftarrow> serialize_scope_values flags env (dir\<lparr>dir_writer := (dir_writer dir)\<lparr>dw_objs := objs\<rparr>\<rparr>) objects;
     set_last_pc dir (last_pd\<lparr>pd_obj_decode_offset := offset\<rparr>)
   }"

definition end_scopes :: "debug_rec \<Rightarrow> int \<Rightarrow> bool \<Rightarrow> debug_rec option" where
  "end_scopes dir pc_offset is_safepoint = do {
     dir \<leftarrow> (if dir_pcs_length dir \<ge> 2 \<and> dir_recording_non_safepoints dir
       then do {
         last \<leftarrow> last_pc dir;
         prev \<leftarrow> prev_pc dir;
         if dir_prev_safepoint_pc dir < pd_pc_offset prev \<and> is_same_info prev last
         then do {
           pcs \<leftarrow> array_put (dir_pcs dir) (dir_pcs_length dir - 2) (prev\<lparr>pd_pc_offset := pc_offset\<rparr>);
           Some (dir\<lparr>dir_pcs := pcs, dir_pcs_length := dir_pcs_length dir - 1\<rparr>)
         }
         else Some dir
       }
       else Some dir);
     Some (if is_safepoint then dir\<lparr>dir_prev_safepoint_pc := pc_offset\<rparr> else dir)
   }"

definition data_size :: "debug_rec \<Rightarrow> nat" where
  "data_size dir = ws_position (dir_stream dir)"

text \<open>\<^verbatim>\<open>sizeof(PcDesc)\<close> is 16.\<close>

definition pcs_size :: "(nat \<Rightarrow> pc_desc list) \<Rightarrow> debug_rec \<Rightarrow> (nat \<times> debug_rec) option" where
  "pcs_size fresh_pcs dir = do {
     pd \<leftarrow> last_pc dir;
     dir \<leftarrow> (if pd_pc_offset pd \<noteq> upper_offset_limit then add_new_pc_offset fresh_pcs dir upper_offset_limit else Some dir);
     Some (dir_pcs_length dir * 16, dir)
   }"

section \<open>The order of the chunks\<close>

lemma memcmp_lex:
  "length xs = length ys \<Longrightarrow> (memcmp xs ys < 0 \<longleftrightarrow> xs < ys) \<and> (memcmp xs ys = 0 \<longleftrightarrow> xs = ys) \<and> (memcmp xs ys > 0 \<longleftrightarrow> ys < xs)"
  by (induction xs ys rule: list_induct2) auto

definition chunk_key :: "u1 list \<Rightarrow> dir_chunk \<Rightarrow> int \<times> nat \<times> u1 list" where
  "chunk_key buf c = (sint (ch_hash c), ch_length c, run_of buf (ch_offset c) (ch_length c))"

lemma chunk_compare_key:
  assumes "ch_offset a + ch_length a \<le> length buf" "ch_offset b + ch_length b \<le> length buf"
  shows "chunk_compare buf a b > 0 \<longleftrightarrow> chunk_key buf a < chunk_key buf b"
    "chunk_compare buf a b < 0 \<longleftrightarrow> chunk_key buf b < chunk_key buf a"
proof -
  have "ch_length a = ch_length b \<Longrightarrow> length (run_of buf (ch_offset b) (ch_length a)) = length (run_of buf (ch_offset a) (ch_length a))"
    using assms by (simp add: run_of_def)
  note m = memcmp_lex [OF this]
  consider "sint (ch_hash b) > sint (ch_hash a)" | "sint (ch_hash b) < sint (ch_hash a)"
    | "sint (ch_hash b) = sint (ch_hash a)" "ch_length b > ch_length a" | "sint (ch_hash b) = sint (ch_hash a)" "ch_length b < ch_length a"
    | "sint (ch_hash b) = sint (ch_hash a)" "ch_length a = ch_length b" by linarith
  then have "(chunk_compare buf a b > 0 \<longleftrightarrow> chunk_key buf a < chunk_key buf b)
      \<and> (chunk_compare buf a b < 0 \<longleftrightarrow> chunk_key buf b < chunk_key buf a)"
  proof cases
    case 5
    then show ?thesis using m [OF 5(2)] by (simp add: chunk_compare_def chunk_key_def less_prod_simp)
  qed (simp_all add: chunk_compare_def chunk_key_def less_prod_simp)
  then show "chunk_compare buf a b > 0 \<longleftrightarrow> chunk_key buf a < chunk_key buf b"
    "chunk_compare buf a b < 0 \<longleftrightarrow> chunk_key buf b < chunk_key buf a" by blast+
qed

interpretation chunk_cmp: comparator "{c. ch_offset c + ch_length c \<le> length buf}" "chunk_compare buf" for buf
proof (unfold_locales; unfold mem_Collect_eq)
  fix x y z :: dir_chunk and buf :: "u1 list"
  assume x: "ch_offset x + ch_length x \<le> length buf" and y: "ch_offset y + ch_length y \<le> length buf"
  note xy = chunk_compare_key [OF x y] and yx = chunk_compare_key [OF y x]
  show "chunk_compare buf y x < 0 \<longleftrightarrow> chunk_compare buf x y > 0" by (simp only: xy yx)
  assume z: "ch_offset z + ch_length z \<le> length buf"
  note xz = chunk_compare_key [OF x z] and yz = chunk_compare_key [OF y z]
  show "chunk_compare buf x y > 0 \<Longrightarrow> chunk_compare buf y z > 0 \<Longrightarrow> chunk_compare buf x z > 0"
    unfolding xy yz xz by (rule less_trans)
  assume "chunk_compare buf x y = 0"
  then have "chunk_key buf x = chunk_key buf y" using xy by (intro order.antisym) (simp_all add: not_less [symmetric])
  then show "chunk_compare buf x z > 0 \<longleftrightarrow> chunk_compare buf y z > 0" unfolding xz yz by simp
qed

lemma chunk_compare_0:
  assumes "ch_offset a + ch_length a \<le> length buf" "ch_offset b + ch_length b \<le> length buf" "chunk_compare buf a b = 0"
  shows "ch_length a = ch_length b \<and> run_of buf (ch_offset a) (ch_length a) = run_of buf (ch_offset b) (ch_length b)"
proof -
  have "chunk_key buf a = chunk_key buf b" using chunk_compare_key [OF assms(1,2)] assms(3)
    by (intro order.antisym) (simp_all add: not_less [symmetric])
  then show ?thesis by (auto simp: chunk_key_def)
qed

lemma ordered_by_mono:
  assumes "ordered_by D cmp xs" "D \<subseteq> D'" "\<And>x y. x \<in> set xs \<Longrightarrow> y \<in> set xs \<Longrightarrow> cmp x y = cmp' x y"
  shows "ordered_by D' cmp' xs"
  using assms unfolding ordered_by_def by (auto elim!: sorted_wrt_mono_rel [rotated])

section \<open>The invariant of the chunks\<close>

definition chunk_ok :: "u1 list \<Rightarrow> dir_chunk \<Rightarrow> bool" where
  "chunk_ok bs c \<longleftrightarrow> 0 < ch_offset c \<and> ch_offset c + ch_length c \<le> length bs"

definition chunks_ok :: "u1 list \<Rightarrow> debug_rec \<Rightarrow> bool" where
  "chunks_ok bs dir \<longleftrightarrow> ga_wf (dir_all_chunks dir) \<and> ga_wf (dir_shared_chunks dir)
     \<and> \<not> ga_on_C_heap (dir_all_chunks dir) \<and> \<not> ga_on_C_heap (dir_shared_chunks dir)
     \<and> (\<forall>c \<in> set (ga_contents (dir_all_chunks dir)). chunk_ok bs c \<and> ch_address c < dir_next_chunk dir)
     \<and> (\<forall>c \<in> set (ga_contents (dir_shared_chunks dir)). chunk_ok bs c)
     \<and> (dir_graal dir \<longrightarrow> ordered_by {c. ch_offset c + ch_length c \<le> length bs} (chunk_compare bs) (ga_contents (dir_all_chunks dir)))"

definition chunk_room :: "debug_rec \<Rightarrow> bool" where
  "chunk_room dir \<longleftrightarrow> ga_len (dir_all_chunks dir) < 2 ^ 30 \<and> ga_len (dir_shared_chunks dir) < 2 ^ 30"

lemma run_of_append: "off + len \<le> length bs \<Longrightarrow> run_of (bs @ cs) off len = run_of bs off len"
  by (simp add: run_of_def)

lemma chunk_compare_append:
  "chunk_ok bs a \<Longrightarrow> chunk_ok bs b \<Longrightarrow> chunk_compare (bs @ cs) a b = chunk_compare bs a b"
  by (auto simp: chunk_compare_def chunk_ok_def run_of_append)

lemma chunk_ok_append: "chunk_ok bs c \<Longrightarrow> chunk_ok (bs @ cs) c"
  by (simp add: chunk_ok_def)

lemma ordered_append:
  assumes "ordered_by {c. ch_offset c + ch_length c \<le> length bs} (chunk_compare bs) xs" "\<forall>c \<in> set xs. chunk_ok bs c"
  shows "ordered_by {c. ch_offset c + ch_length c \<le> length (bs @ cs)} (chunk_compare (bs @ cs)) xs"
proof (rule ordered_by_mono [OF assms(1)])
  fix x y assume "x \<in> set xs" "y \<in> set xs"
  then show "chunk_compare bs x y = chunk_compare (bs @ cs) x y" using assms(2) by (simp add: chunk_compare_append)
qed auto

lemma ordered_shrink:
  assumes "ordered_by {c. ch_offset c + ch_length c \<le> length (bs @ cs)} (chunk_compare (bs @ cs)) xs" "\<forall>c \<in> set xs. chunk_ok bs c"
  shows "ordered_by {c. ch_offset c + ch_length c \<le> length bs} (chunk_compare bs) xs"
  using assms chunk_compare_append unfolding ordered_by_def chunk_ok_def
  by (auto elim!: sorted_wrt_mono_rel [rotated])

lemma chunks_ok_append: "chunks_ok bs dir \<Longrightarrow> chunks_ok (bs @ cs) dir"
  using ordered_append [of bs "ga_contents (dir_all_chunks dir)" cs] by (simp add: chunks_ok_def chunk_ok_append)

section \<open>Sharing is sound\<close>

lemma chunk_hash_succeeds:
  assumes "offset + len \<le> length buf"
  shows "\<exists>hash. chunk_hash buf offset len = Some hash"
proof -
  have "succeeds (for_return 0 len (\<lambda>i hash. if i = 6 then Some (Inl hash)
       else array_get buf (offset + i) \<bind> (\<lambda>b. Some (Inr (hash * 127 + ucast b)))) (0 :: juint))
     (\<lambda>x. case x of Inl r \<Rightarrow> True | Inr s' \<Rightarrow> True)"
    by (rule for_return_rule [where I = "\<lambda>_ _. True"]) (use assms in \<open>auto simp: array_get_def\<close>)
  then show ?thesis unfolding chunk_hash_def by (auto simp: succeeds_iff)
qed

lemma find_match_loop_spec:
  assumes "ga_wf arr" "\<forall>c \<in> set (ga_contents arr). ch_offset c + ch_length c \<le> length buf" "ch_offset ns + ch_length ns \<le> length buf"
  shows "n \<le> ga_len arr \<Longrightarrow> succeeds (find_match_loop buf ns arr start n) (\<lambda>r. \<forall>m. r = Some m \<longrightarrow> m \<in> set (ga_contents arr)
    \<and> ch_length m = ch_length ns \<and> run_of buf (ch_offset m) (ch_length m) = run_of buf (ch_offset ns) (ch_length ns))"
proof (induction n)
  case (Suc i)
  define m where "m = ga_contents arr ! i"
  have get: "ga_at arr i = Some m" using contents_nth [OF assms(1), of i] Suc.prems by (simp add: ga_at_def m_def)
  have mem: "m \<in> set (ga_contents arr)" using length_contents [OF assms(1)] Suc.prems by (simp add: m_def)
  then have l: "ch_length ns = ch_length m \<Longrightarrow> length (run_of buf (ch_offset ns) (ch_length ns)) = length (run_of buf (ch_offset m) (ch_length ns))"
    using assms(2,3) by (auto simp: run_of_def)
  show ?case
  proof (cases "ch_hash ns = ch_hash m \<and> ch_length ns = ch_length m
      \<and> memcmp (run_of buf (ch_offset ns) (ch_length ns)) (run_of buf (ch_offset m) (ch_length ns)) = 0")
    case True
    then have "run_of buf (ch_offset m) (ch_length m) = run_of buf (ch_offset ns) (ch_length ns)"
      using memcmp_lex [OF l] by auto
    moreover have "find_match_loop buf ns arr start (Suc i) = (if i \<ge> start then Some (Some m) else Some None)"
      using True get by (elim conjE) simp
    ultimately show ?thesis using True mem by auto
  next
    case False
    have "succeeds (if P then Some (Some m) else find_match_loop buf ns arr start i) Q = (if P then Q (Some m) else succeeds (find_match_loop buf ns arr start i) Q)" for P Q
      by simp
    then show ?thesis using False get Suc.IH Suc.prems by auto
  qed
qed simp

definition same_pcs :: "debug_rec \<Rightarrow> debug_rec \<Rightarrow> bool" where
  "same_pcs dir dir' \<longleftrightarrow> dir_pcs dir' = dir_pcs dir \<and> dir_pcs_length dir' = dir_pcs_length dir
     \<and> dir_prev_safepoint_pc dir' = dir_prev_safepoint_pc dir
     \<and> dir_recording_non_safepoints dir' = dir_recording_non_safepoints dir \<and> dir_graal dir' = dir_graal dir"

definition only_chunks :: "debug_rec \<Rightarrow> debug_rec \<Rightarrow> bool" where
  "only_chunks dir dir' \<longleftrightarrow> dir_writer dir' = dir_writer dir \<and> same_pcs dir dir'"

definition repeated :: "u1 list \<Rightarrow> u1 list \<Rightarrow> nat \<Rightarrow> bool" where
  "repeated c0 piece r \<longleftrightarrow> 0 < r \<and> r + length piece \<le> length c0 \<and> run_of c0 r (length piece) = piece"

lemma chunk_repeats:
  assumes "chunk_ok c0 m" "ch_length m = length piece" "run_of ((c0 @ piece) @ rest) (ch_offset m) (ch_length m) = run_of ((c0 @ piece) @ rest) (length c0) (length piece)"
  shows "repeated c0 piece (ch_offset m)"
  using assms by (simp add: repeated_def chunk_ok_def run_of_def)

lemma find_sharable_graal:
  assumes "ws_buffer (dir_stream dir) = (c0 @ piece) @ rest" "ws_position (dir_stream dir) = length (c0 @ piece)"
    "c0 \<noteq> []" "chunks_ok c0 dir" "chunk_room dir" "dir_graal dir" "\<not> sharing_disabled flags dir"
  shows "succeeds (find_sharable_decode_offset flags dir (length c0)) (\<lambda>(r, dir'). only_chunks dir dir'
    \<and> (if r = serialized_null then chunks_ok (c0 @ piece) dir' else chunks_ok c0 dir' \<and> repeated c0 piece r))"
proof -
  let ?buf = "(c0 @ piece) @ rest" and ?all = "dir_all_chunks dir"
  obtain hash where hash: "chunk_hash ?buf (length c0) (length piece) = Some hash" using chunk_hash_succeeds [of "length c0" "length piece" ?buf] by auto
  define ns where "ns = \<lparr>ch_address = dir_next_chunk dir, ch_offset = length c0, ch_length = length piece, ch_hash = hash\<rparr>"
  have eq: "find_sharable_decode_offset flags dir (length c0) = find_insert_binary (chunk_compare ?buf) null_chunk ?all ns \<bind> (\<lambda>(m, arr).
      if ch_address m \<noteq> ch_address ns then Some (ch_offset m, dir\<lparr>dir_all_chunks := arr, dir_next_chunk := ch_address ns\<rparr>)
      else Some (serialized_null, dir\<lparr>dir_next_chunk := dir_next_chunk dir + 1, dir_all_chunks := arr\<rparr>))"
    using assms(1,2,6,7) hash by (simp add: find_sharable_decode_offset_def new_dir_chunk_def Let_def ns_def split_def cong: if_cong)
  have c: "ga_wf ?all" "\<not> ga_on_C_heap ?all" "\<And>c. c \<in> set (ga_contents ?all) \<Longrightarrow> chunk_ok c0 c \<and> ch_address c < dir_next_chunk dir"
    "ordered_by {c. ch_offset c + ch_length c \<le> length c0} (chunk_compare c0) (ga_contents ?all)"
    using assms(4,6) by (auto simp: chunks_ok_def)
  have o: "ordered_by {c. ch_offset c + ch_length c \<le> length ?buf} (chunk_compare ?buf) (ga_contents ?all)"
    using ordered_append [OF c(4), of "piece @ rest"] c(3) by simp
  have nsD: "ns \<in> {c. ch_offset c + ch_length c \<le> length ?buf}" by (simp add: ns_def)
  have room: "ga_len ?all < 2 ^ 30" using assms(5) by (simp add: chunk_room_def)
  obtain m arr where f: "find_insert_binary (chunk_compare ?buf) null_chunk ?all ns = Some (m, arr)"
    and w: "ga_wf arr" "\<not> ga_on_C_heap arr" "ordered_by {c. ch_offset c + ch_length c \<le> length ?buf} (chunk_compare ?buf) (ga_contents arr)"
    "set (ga_contents arr) = insert m (set (ga_contents ?all))" "chunk_compare ?buf ns m = 0"
    "if \<exists>y \<in> set (ga_contents ?all). chunk_compare ?buf ns y = 0 then arr = ?all else m = ns"
    using chunk_cmp.find_insert_binary_sorted [OF c(1) room o nsD c(2), of null_chunk] by (auto simp: succeeds_iff)
  show ?thesis
  proof (cases "\<exists>y \<in> set (ga_contents ?all). chunk_compare ?buf ns y = 0")
    case True
    then have arr: "arr = ?all" and mem: "m \<in> set (ga_contents ?all)" using w(4,6) by auto
    have mok: "chunk_ok c0 m" "ch_address m \<noteq> ch_address ns" using c(3) [OF mem] by (auto simp: ns_def)
    then have "ch_offset m + ch_length m \<le> length ?buf" by (simp add: chunk_ok_def)
    from chunk_compare_0 [OF _ this w(5)] have "repeated c0 piece (ch_offset m)"
      using nsD mok(1) by (intro chunk_repeats [where rest = rest]) (auto simp: ns_def)
    moreover have "chunks_ok c0 (dir\<lparr>dir_next_chunk := ch_address ns\<rparr>)" using assms(4) by (simp add: chunks_ok_def ns_def)
    ultimately show ?thesis
      unfolding eq f using mok(2) arr by (simp add: only_chunks_def same_pcs_def repeated_def serialized_null_def)
  next
    case False
    then have m: "m = ns" using w(6) by simp
    have ok: "chunk_ok (c0 @ piece) x" if "x \<in> set (ga_contents arr)" for x
    proof (cases "x = ns")
      case True
      then show ?thesis using assms(3) by (simp add: ns_def chunk_ok_def)
    qed (use that w(4) m c(3) chunk_ok_append in auto)
    have "ordered_by {c. ch_offset c + ch_length c \<le> length (c0 @ piece)} (chunk_compare (c0 @ piece)) (ga_contents arr)"
      by (rule ordered_shrink [OF w(3)]) (use ok in blast)
    moreover have "ch_address x < Suc (dir_next_chunk dir)" if "x \<in> set (ga_contents arr)" for x
      using that w(4) m c(3) by (auto simp: ns_def less_Suc_eq)
    ultimately have "chunks_ok (c0 @ piece) (dir\<lparr>dir_next_chunk := Suc (dir_next_chunk dir), dir_all_chunks := arr\<rparr>)"
      using assms(4) w(1,2) ok chunk_ok_append by (auto simp: chunks_ok_def)
    then show ?thesis
      unfolding eq f using m by (simp add: only_chunks_def same_pcs_def serialized_null_def)
  qed
qed

lemma find_sharable_server:
  assumes "ws_buffer (dir_stream dir) = (c0 @ piece) @ rest" "ws_position (dir_stream dir) = length (c0 @ piece)"
    "c0 \<noteq> []" "chunks_ok c0 dir" "chunk_room dir" "\<not> dir_graal dir" "\<not> sharing_disabled flags dir"
  shows "succeeds (find_sharable_decode_offset flags dir (length c0)) (\<lambda>(r, dir'). only_chunks dir dir'
    \<and> (if r = serialized_null then chunks_ok (c0 @ piece) dir' else chunks_ok c0 dir' \<and> repeated c0 piece r))"
proof -
  let ?buf = "(c0 @ piece) @ rest" and ?all = "dir_all_chunks dir" and ?shared = "dir_shared_chunks dir"
  obtain hash where hash: "chunk_hash ?buf (length c0) (length piece) = Some hash" using chunk_hash_succeeds [of "length c0" "length piece" ?buf] by auto
  define ns where "ns = \<lparr>ch_address = dir_next_chunk dir, ch_offset = length c0, ch_length = length piece, ch_hash = hash\<rparr>"
  let ?start = "ga_len ?all - MAX_RECENT"
  have eq: "find_sharable_decode_offset flags dir (length c0) = find_match ?buf ns ?shared 0 \<bind> (\<lambda>ms. case ms of
      Some m \<Rightarrow> Some (ch_offset m, dir\<lparr>dir_next_chunk := ch_address ns\<rparr>)
    | None \<Rightarrow> find_match ?buf ns ?all ?start \<bind> (\<lambda>ms. case ms of
        Some m \<Rightarrow> ga_append null_chunk ?shared (Val m) \<bind> (\<lambda>(i, arr). Some (ch_offset m, dir\<lparr>dir_next_chunk := ch_address ns, dir_shared_chunks := arr\<rparr>))
      | None \<Rightarrow> ga_append null_chunk ?all (Val ns) \<bind> (\<lambda>(i, arr).
          Some (serialized_null, dir\<lparr>dir_next_chunk := dir_next_chunk dir + 1, dir_all_chunks := arr\<rparr>))))"
    using assms(1,2,6,7) hash
    by (simp add: find_sharable_decode_offset_def new_dir_chunk_def Let_def ns_def split_def cong: if_cong option.case_cong)
  have c: "ga_wf ?all" "ga_wf ?shared" "\<not> ga_on_C_heap ?all" "\<not> ga_on_C_heap ?shared"
    "\<And>c. c \<in> set (ga_contents ?all) \<Longrightarrow> chunk_ok c0 c \<and> ch_address c < dir_next_chunk dir" "\<And>c. c \<in> set (ga_contents ?shared) \<Longrightarrow> chunk_ok c0 c"
    using assms(4) by (auto simp: chunks_ok_def)
  have room: "ga_len ?all < 2 ^ 30" "ga_len ?shared < 2 ^ 30" using assms(5) by (simp_all add: chunk_room_def)
  have nsb: "ch_offset ns + ch_length ns \<le> length ?buf" by (simp add: ns_def)
  have look: "succeeds (find_match ?buf ns arr start) (\<lambda>r. \<forall>m. r = Some m \<longrightarrow> m \<in> set (ga_contents arr) \<and> repeated c0 piece (ch_offset m))"
    if "ga_wf arr" "\<And>c. c \<in> set (ga_contents arr) \<Longrightarrow> chunk_ok c0 c" for arr start
  proof -
    have "\<forall>c \<in> set (ga_contents arr). ch_offset c + ch_length c \<le> length ?buf" using that(2) by (fastforce simp: chunk_ok_def)
    from find_match_loop_spec [OF that(1) this nsb order_refl, of start] show ?thesis
      unfolding find_match_def
      by (rule succeeds_weaken) (auto simp: ns_def intro!: chunk_repeats [where rest = rest] that(2))
  qed
  obtain ms where ms: "find_match ?buf ns ?shared 0 = Some ms" "\<forall>m. ms = Some m \<longrightarrow> m \<in> set (ga_contents ?shared) \<and> repeated c0 piece (ch_offset m)"
    using look [OF c(2,6), of 0] by (rule succeedsE)
  obtain ma where ma: "find_match ?buf ns ?all ?start = Some ma" "\<forall>m. ma = Some m \<longrightarrow> m \<in> set (ga_contents ?all) \<and> repeated c0 piece (ch_offset m)"
    using look [OF c(1), of ?start] c(5) by (auto elim: succeedsE)
  have addr: "ch_address ns = dir_next_chunk dir" by (simp add: ns_def)
  consider m where "ms = Some m" | m where "ms = None" "ma = Some m" | "ms = None" "ma = None" by (cases ms; cases ma) auto
  then show ?thesis
  proof cases
    case 1
    have "find_sharable_decode_offset flags dir (length c0) = Some (ch_offset m, dir\<lparr>dir_next_chunk := ch_address ns\<rparr>)"
      by (simp only: eq ms(1) 1 option.case Option.bind.simps)
    then show ?thesis using ms(2) assms(4) 1
      by (simp add: addr only_chunks_def same_pcs_def repeated_def serialized_null_def chunks_ok_def)
  next
    case 2
    obtain arr where arr: "ga_append null_chunk ?shared (Val m) = Some (ga_len ?shared, arr)" "holds ?shared (ga_contents ?shared @ [m]) arr"
      using ga_append_spec [OF c(2) room(2), of null_chunk m] by (auto simp: succeeds_iff)
    have "repeated c0 piece (ch_offset m)" "chunk_ok c0 m" using ma(2) 2 c(5) by auto
    moreover have "find_sharable_decode_offset flags dir (length c0) =
        Some (ch_offset m, dir\<lparr>dir_next_chunk := ch_address ns, dir_shared_chunks := arr\<rparr>)"
      by (simp only: eq ms(1) 2 ma(1) arr(1) option.case Option.bind.simps prod.case)
    ultimately show ?thesis using arr(2) assms(4)
      by (simp add: addr only_chunks_def same_pcs_def repeated_def serialized_null_def chunks_ok_def holds_def)
  next
    case 3
    obtain arr where arr: "ga_append null_chunk ?all (Val ns) = Some (ga_len ?all, arr)" "holds ?all (ga_contents ?all @ [ns]) arr"
      using ga_append_spec [OF c(1) room(1), of null_chunk ns] by (auto simp: succeeds_iff)
    have "chunk_ok (c0 @ piece) ns" "ch_address ns < Suc (dir_next_chunk dir)" using assms(3) by (simp_all add: chunk_ok_def ns_def)
    moreover have "find_sharable_decode_offset flags dir (length c0) =
        Some (serialized_null, dir\<lparr>dir_next_chunk := dir_next_chunk dir + 1, dir_all_chunks := arr\<rparr>)"
      by (simp only: eq ms(1) 3 ma(1) arr(1) option.case Option.bind.simps prod.case)
    ultimately show ?thesis using arr(2) assms(4,6) chunk_ok_append
      by (auto simp: only_chunks_def same_pcs_def serialized_null_def chunks_ok_def holds_def less_Suc_eq)
  qed
qed

lemma find_sharable_sound:
  assumes "ws_buffer (dir_stream dir) = (c0 @ piece) @ rest" "ws_position (dir_stream dir) = length (c0 @ piece)"
    "c0 \<noteq> []" "chunks_ok c0 dir" "chunk_room dir"
  shows "succeeds (find_sharable_decode_offset flags dir (length c0)) (\<lambda>(r, dir'). only_chunks dir dir'
    \<and> (if r = serialized_null then chunks_ok (c0 @ piece) dir' else chunks_ok c0 dir' \<and> repeated c0 piece r))"
proof (cases "sharing_disabled flags dir")
  case True
  then show ?thesis using chunks_ok_append [OF assms(4)] by (simp add: find_sharable_decode_offset_def only_chunks_def same_pcs_def)
next
  case False
  then show ?thesis using find_sharable_graal [OF assms] find_sharable_server [OF assms] by blast
qed

text \<open>After a piece was written and possibly shared: the bytes of the piece stand at the returned offset.\<close>

definition only_stream :: "debug_rec \<Rightarrow> debug_rec \<Rightarrow> bool" where
  "only_stream dir dir' \<longleftrightarrow> dw_recorder (dir_writer dir') = dw_recorder (dir_writer dir)
     \<and> dw_objs (dir_writer dir') = dw_objs (dir_writer dir) \<and> same_pcs dir dir'"

definition stored_at :: "u1 list \<Rightarrow> u1 list \<Rightarrow> nat \<Rightarrow> bool" where
  "stored_at bs piece r \<longleftrightarrow> 0 < r \<and> r + length piece \<le> length bs \<and> run_of bs r (length piece) = piece"

lemma buffer_split: "ws_wf ws \<Longrightarrow> ws_buffer ws = content ws @ drop (ws_position ws) (ws_buffer ws) \<and> ws_position ws = length (content ws)"
  by (simp add: content_def ws_wf_def)

lemma share_piece_sound:
  assumes "ws_wf (dir_stream dir)" "content (dir_stream dir) = c0 @ piece" "c0 \<noteq> []" "chunks_ok c0 dir" "chunk_room dir"
  shows "succeeds (share_piece flags dir (length c0)) (\<lambda>(r, dir'). only_stream dir dir' \<and> ws_wf (dir_stream dir')
    \<and> (content (dir_stream dir') = c0 \<or> content (dir_stream dir') = c0 @ piece)
    \<and> chunks_ok (content (dir_stream dir')) dir' \<and> stored_at (content (dir_stream dir')) piece r)"
proof -
  let ?ws = "dir_stream dir"
  have b: "ws_buffer ?ws = (c0 @ piece) @ drop (ws_position ?ws) (ws_buffer ?ws)" "ws_position ?ws = length (c0 @ piece)"
    unfolding assms(2) [symmetric] using buffer_split [OF assms(1)] by blast+
  obtain r dir' where r: "find_sharable_decode_offset flags dir (length c0) = Some (r, dir')" "only_chunks dir dir'"
    "if r = serialized_null then chunks_ok (c0 @ piece) dir' else chunks_ok c0 dir' \<and> repeated c0 piece r"
    using find_sharable_sound [OF b assms(3-5), of flags] by (auto simp: succeeds_iff)
  have w: "dir_stream dir' = ?ws" "dir_writer dir' = dir_writer dir" using r(2) by (auto simp: only_chunks_def dir_stream_def)
  show ?thesis
  proof (cases "r = serialized_null")
    case True
    have "stored_at (c0 @ piece) piece (length c0)" using assms(3) by (simp add: stored_at_def run_of_def)
    then show ?thesis using True r w assms(1,2)
      by (simp add: share_piece_def only_stream_def only_chunks_def dir_stream_def)
  next
    case False
    let ?dir = "dir_set_position dir' (length c0)"
    have s: "dir_stream ?dir = ?ws\<lparr>ws_position := length c0\<rparr>" using w by (simp add: dir_set_position_def dir_stream_def)
    have "ws_wf (dir_stream ?dir)" using b(2) assms(1) unfolding s by (simp add: ws_wf_def)
    moreover have "take (length c0) (ws_buffer ?ws) = c0" by (subst b(1)) simp
    then have "content (dir_stream ?dir) = c0" unfolding s by (simp add: content_def)
    moreover have "chunks_ok c0 ?dir" using r(3) False by (simp add: chunks_ok_def dir_set_position_def)
    moreover have "stored_at c0 piece r" using r(3) False by (simp add: stored_at_def repeated_def)
    moreover have "only_stream dir ?dir" using r(2) w s by (simp add: only_stream_def only_chunks_def dir_set_position_def same_pcs_def)
    ultimately show ?thesis using r(1) False by (simp add: share_piece_def)
  qed
qed

section \<open>The invariant of the recorder\<close>

definition dir_inv :: "handle \<Rightarrow> (nat \<rightharpoonup> object_value) \<Rightarrow> nat list \<Rightarrow> debug_rec \<Rightarrow> bool" where
  "dir_inv n objs ps dir \<longleftrightarrow> writer_at n objs ps (dir_writer dir) \<and> vr_inv n (or_metadata (dw_recorder (dir_writer dir)))
     \<and> content (dir_stream dir) \<noteq> [] \<and> chunks_ok (content (dir_stream dir)) dir
     \<and> 0 < dir_pcs_length dir \<and> dir_pcs_length dir \<le> length (dir_pcs dir)"

text \<open>The stream only grows and the recorded handles keep their indices.\<close>

definition dir_grows :: "debug_rec \<Rightarrow> debug_rec \<Rightarrow> bool" where
  "dir_grows dir dir' \<longleftrightarrow> (\<exists>bs. content (dir_stream dir') = content (dir_stream dir) @ bs)
     \<and> (\<forall>i h. or_oop_at (dw_recorder (dir_writer dir)) i = Some h \<longrightarrow> or_oop_at (dw_recorder (dir_writer dir')) i = Some h)
     \<and> (\<forall>i h. or_metadata_at (dw_recorder (dir_writer dir)) i = Some h \<longrightarrow> or_metadata_at (dw_recorder (dir_writer dir')) i = Some h)"

lemma dir_grows_refl: "dir_grows dir dir"
  by (simp add: dir_grows_def)

lemma dir_grows_trans: "dir_grows a b \<Longrightarrow> dir_grows b c \<Longrightarrow> dir_grows a c"
  by (auto simp: dir_grows_def)

lemma stored_at_grows: "stored_at bs piece r \<Longrightarrow> stored_at (bs @ cs) piece r"
  by (simp add: stored_at_def run_of_append)

lemma stored_at_bytes: "stored_at bs piece r \<Longrightarrow> take (length bs) data = bs \<Longrightarrow> at_bytes \<lparr>rs_buffer = data, rs_position = r\<rparr> piece"
proof -
  assume s: "stored_at bs piece r" and t: "take (length bs) data = bs"
  have "data = bs @ drop (length bs) data" using t append_take_drop_id [of "length bs" data] by simp
  moreover have "run_of (bs @ drop (length bs) data) r (length piece) = piece" "r + length piece \<le> length bs"
    using s by (simp_all add: stored_at_def run_of_append)
  ultimately show ?thesis unfolding at_bytes_def run_of_def by (metis le_add1 length_append order_trans read_stream.select_convs)
qed

text \<open>
  The common end of the operations that write a piece: \<open>st\<close> is the writer after the bytes \<open>piece\<close>
  were appended.
\<close>

lemma share_written:
  assumes "dir_inv n objs ps dir" "chunk_room dir" "writer_at n objs ps' st" "vr_inv n (or_metadata (dw_recorder st))"
    "appends (dir_stream dir) piece (dw_stream st)"
    "\<And>i h. or_oop_at (dw_recorder (dir_writer dir)) i = Some h \<Longrightarrow> or_oop_at (dw_recorder st) i = Some h"
    "\<And>i h. or_metadata_at (dw_recorder (dir_writer dir)) i = Some h \<Longrightarrow> or_metadata_at (dw_recorder st) i = Some h"
  shows "succeeds (share_piece flags (dir\<lparr>dir_writer := st\<rparr>) (ws_position (dir_stream dir))) (\<lambda>(r, dir').
    dir_inv n objs ps' dir' \<and> dir_grows dir dir' \<and> same_pcs dir dir' \<and> dw_recorder (dir_writer dir') = dw_recorder st
    \<and> stored_at (content (dir_stream dir')) piece r)"
proof -
  let ?dir = "dir\<lparr>dir_writer := st\<rparr>" and ?c = "content (dir_stream dir)"
  have i: "ws_wf (dir_stream dir)" "?c \<noteq> []" "chunks_ok ?c dir" using assms(1) by (simp_all add: dir_inv_def writer_at_def dir_stream_def)
  have p: "ws_position (dir_stream dir) = length ?c" using buffer_split [OF i(1)] by simp
  have s: "dir_stream ?dir = dw_stream st" by (simp add: dir_stream_def)
  have "ws_wf (dir_stream ?dir)" "content (dir_stream ?dir) = ?c @ piece" using assms(5) by (simp_all add: s appends_def)
  moreover have "chunks_ok ?c ?dir" "chunk_room ?dir" using i(3) assms(2) by (simp_all add: chunks_ok_def chunk_room_def)
  ultimately have "succeeds (share_piece flags ?dir (length ?c)) (\<lambda>(r, dir'). only_stream ?dir dir' \<and> ws_wf (dir_stream dir')
    \<and> (content (dir_stream dir') = ?c \<or> content (dir_stream dir') = ?c @ piece)
    \<and> chunks_ok (content (dir_stream dir')) dir' \<and> stored_at (content (dir_stream dir')) piece r)"
    using i(2) by (intro share_piece_sound)
  then show ?thesis unfolding p
  proof (rule succeeds_weaken, clarify)
    fix r dir'
    assume o: "only_stream ?dir dir'" and w: "ws_wf (dir_stream dir')"
      and c: "content (dir_stream dir') = ?c \<or> content (dir_stream dir') = ?c @ piece"
      and k: "chunks_ok (content (dir_stream dir')) dir'" and st: "stored_at (content (dir_stream dir')) piece r"
    have "writer_at n objs ps' (dir_writer dir')"
      using o w assms(3) by (simp add: writer_at_def only_stream_def dir_stream_def)
    then have "dir_inv n objs ps' dir'"
      using o c k i(2) assms(1,4) by (auto simp: dir_inv_def only_stream_def same_pcs_def)
    moreover have "dir_grows dir dir'" using c o assms(6,7) by (auto simp: dir_grows_def only_stream_def)
    ultimately show "dir_inv n objs ps' dir' \<and> dir_grows dir dir' \<and> same_pcs dir dir' \<and> dw_recorder (dir_writer dir') = dw_recorder st
      \<and> stored_at (content (dir_stream dir')) piece r"
      using o st by (simp add: only_stream_def same_pcs_def)
  qed
qed

lemma reads_back_cong: "dw_recorder st = dw_recorder st' \<Longrightarrow> reads_back objs ps qs vs bs st = reads_back objs ps qs vs bs st'"
  by (simp add: reads_back_def agrees_def)

lemma serialize_scope_values_sound:
  assumes "allocates (fst env)" "graph_ok (snd env) objs" "dir_inv (snd env) objs ps dir" "chunk_room dir"
    "distinct ps" "set ps \<subseteq> dom objs" "vs \<noteq> []" "\<forall>v \<in> set vs. sv_ok (snd env) objs v"
  shows "succeeds (serialize_scope_values flags env dir (Some vs)) (\<lambda>(r, dir'). \<exists>qs bs.
    dir_inv (snd env) objs (ps @ qs) dir' \<and> dir_grows dir dir' \<and> same_pcs dir dir' \<and> distinct (ps @ qs) \<and> set qs \<subseteq> dom objs
    \<and> (\<forall>p. ObjectRef p \<in> set vs \<longrightarrow> p \<in> set (ps @ qs)) \<and> refers_into objs qs (ps @ qs)
    \<and> stored_at (content (dir_stream dir')) (unsigned5 (of_nat (length vs)) @ bs) r \<and> reads_back objs ps qs vs bs (dir_writer dir'))"
proof -
  have w: "writer_at (snd env) objs ps (dir_writer dir)" "vr_inv (snd env) (or_metadata (dw_recorder (dir_writer dir)))"
    using assms(3) by (simp_all add: dir_inv_def)
  obtain ws where ws: "dw_write_int env (dir_writer dir) (of_nat (length vs)) = Some ((dir_writer dir)\<lparr>dw_stream := ws\<rparr>)"
    "appends (dw_stream (dir_writer dir)) (unsigned5 (of_nat (length vs))) ws"
    "writer_at (snd env) objs ps ((dir_writer dir)\<lparr>dw_stream := ws\<rparr>)" "keeps_oops (dir_writer dir) ((dir_writer dir)\<lparr>dw_stream := ws\<rparr>)"
    by (rule dw_write_int_appends [OF assms(1) w(1)])
  obtain st qs bs where st: "write_values env ((dir_writer dir)\<lparr>dw_stream := ws\<rparr>) vs = Some st" "writer_at (snd env) objs (ps @ qs) st"
    "distinct (ps @ qs)" "set qs \<subseteq> dom objs" "appends ws bs (dw_stream st)" "keeps_oops ((dir_writer dir)\<lparr>dw_stream := ws\<rparr>) st"
    "\<forall>p. ObjectRef p \<in> set vs \<longrightarrow> p \<in> set (ps @ qs)" "refers_into objs qs (ps @ qs)" "reads_back objs ps qs vs bs st"
    using round_trip_all [OF assms(1,2,5,6,8), unfolded round_trip_def, rule_format, OF ws(3)]
    by (elim exE conjE) (rule that; simp)
  have k: "keeps_oops (dir_writer dir) st" by (rule keeps_oops_trans [OF ws(4) st(6)])
  have "appends (dir_stream dir) (unsigned5 (of_nat (length vs)) @ bs) (dw_stream st)"
    unfolding dir_stream_def by (rule appends_trans [OF ws(2) st(5)])
  from share_written [OF assms(3,4) st(2) _ this, of flags] w(2) k
  have "succeeds (share_piece flags (dir\<lparr>dir_writer := st\<rparr>) (ws_position (dir_stream dir))) (\<lambda>(r, dir').
    dir_inv (snd env) objs (ps @ qs) dir' \<and> dir_grows dir dir' \<and> same_pcs dir dir' \<and> dw_recorder (dir_writer dir') = dw_recorder st
    \<and> stored_at (content (dir_stream dir')) (unsigned5 (of_nat (length vs)) @ bs) r)"
    by (simp add: keeps_oops_def or_metadata_at_def)
  moreover have "serialize_scope_values flags env dir (Some vs) = share_piece flags (dir\<lparr>dir_writer := st\<rparr>) (ws_position (dir_stream dir))"
    using assms(7) ws(1) st(1) by (simp add: serialize_scope_values_def Let_def)
  moreover have "reads_back objs ps qs vs bs w" if "dw_recorder w = dw_recorder st" for w
    using st(9) reads_back_cong [OF that] by simp
  ultimately show ?thesis
    using st(3,4,7,8) by (simp only:) (elim succeeds_weaken, clarify, blast)
qed

section \<open>Monitors\<close>

fun read_monitors :: "(jint \<Rightarrow> handle option) \<Rightarrow> nat \<Rightarrow> debug_reader \<Rightarrow> (monitor_value list \<times> debug_reader) option" where
  "read_monitors oop_at 0 rd = Some ([], rd)"
| "read_monitors oop_at (Suc n) rd = do {
     (m, rd) \<leftarrow> monitor_read_from oop_at rd;
     (ms, rd) \<leftarrow> read_monitors oop_at n rd;
     Some (m # ms, rd)
   }"

definition reread_monitor :: "nat list \<Rightarrow> monitor_value \<Rightarrow> monitor_value" where
  "reread_monitor ps m = m\<lparr>mv_owner := reread ps (mv_owner m)\<rparr>"

definition monitors_back :: "(nat \<rightharpoonup> object_value) \<Rightarrow> nat list \<Rightarrow> monitor_value list \<Rightarrow> u1 list \<Rightarrow> debug_writer \<Rightarrow> bool" where
  "monitors_back objs ps ms bs st \<longleftrightarrow> (\<forall>oop_at rd.
     at_bytes (dr_stream rd) bs \<longrightarrow> agrees oop_at st \<longrightarrow> pool_matches objs ps (dr_pool rd) \<longrightarrow>
     read_monitors oop_at (length ms) rd = Some (map (reread_monitor ps) ms, forward rd (length bs) (dr_pool rd)))"

lemma monitor_trip:
  assumes "allocates (fst env)" "leaf_trip env objs ps (mv_owner m)" "writer_at (snd env) objs ps st"
  shows "\<exists>st' bs. monitor_write_on env st m = Some st' \<and> writer_at (snd env) objs ps st' \<and> appends (dw_stream st) bs (dw_stream st')
    \<and> keeps_oops st st' \<and> monitors_back objs ps [m] bs st'"
proof -
  let ?e = "if mv_eliminated m then 1 else 0 :: u1"
  obtain ws where ws: "dw_write_int env st (mv_basic_lock m) = Some (st\<lparr>dw_stream := ws\<rparr>)" "appends (dw_stream st) (unsigned5 (mv_basic_lock m)) ws"
    "writer_at (snd env) objs ps (st\<lparr>dw_stream := ws\<rparr>)" "keeps_oops st (st\<lparr>dw_stream := ws\<rparr>)"
    by (rule dw_write_int_appends [OF assms(1,3)])
  obtain st1 bs where st1: "write_values env (st\<lparr>dw_stream := ws\<rparr>) [mv_owner m] = Some st1" "writer_at (snd env) objs ps st1"
    "appends ws bs (dw_stream st1)" "keeps_oops (st\<lparr>dw_stream := ws\<rparr>) st1"
    and rd: "\<forall>oop_at rd. at_bytes (dr_stream rd) bs \<longrightarrow> agrees oop_at st1 \<longrightarrow> pool_matches objs ps (dr_pool rd) \<longrightarrow>
          read_values oop_at (Suc 0) rd = Some ([reread ps (mv_owner m)], forward rd (length bs) (dr_pool rd))"
    using assms(2) [unfolded leaf_trip_def, rule_format, OF ws(3)] by (elim exE conjE) (rule that; simp)
  have "ws_wf (dw_stream st1)" using st1(2) by (simp add: writer_at_def)
  from byte_codec.write_enc [OF assms(1) this, of ?e] obtain ws2 where
    ws2: "ws_write (fst env) (dw_stream st1) ?e = Some ws2" "appends (dw_stream st1) [?e] ws2" by (rule succeedsE)
  let ?st = "st1\<lparr>dw_stream := ws2\<rparr>" and ?bs = "unsigned5 (mv_basic_lock m) @ bs @ [?e]"
  have "monitor_write_on env st m = Some ?st" using ws(1) st1(1) ws2(1) by (simp add: monitor_write_on_def write_on_def write_bool_def)
  moreover have "writer_at (snd env) objs ps ?st" using st1(2) ws2(2) by (simp add: writer_at_def appends_wf)
  moreover have "appends (dw_stream st) ?bs (dw_stream ?st)" using appends_trans [OF ws(2) appends_trans [OF st1(3) ws2(2)]] by simp
  moreover have "keeps_oops st ?st" using keeps_oops_trans [OF ws(4) st1(4)] by (simp add: keeps_oops_def)
  moreover have "monitors_back objs ps [m] ?bs ?st"
    unfolding monitors_back_def
  proof (intro allI impI)
    fix oop_at and r :: debug_reader
    assume b: "at_bytes (dr_stream r) ?bs" and a: "agrees oop_at ?st" and p: "pool_matches objs ps (dr_pool r)"
    have at: "at_bytes (dr_stream r) (unsigned5 (mv_basic_lock m))" "at_bytes (advance (dr_stream r) (length (unsigned5 (mv_basic_lock m)))) bs"
      "at_bytes (advance (dr_stream r) (length (unsigned5 (mv_basic_lock m)) + length bs)) [?e]"
      using b by (simp_all add: at_bytes_append)
    have "agrees oop_at st1" using a by (simp add: agrees_def)
    with rd at(2) p have "read_values oop_at (Suc 0) (forward r (length (unsigned5 (mv_basic_lock m))) (dr_pool r)) =
      Some ([reread ps (mv_owner m)], forward r (length (unsigned5 (mv_basic_lock m)) + length bs) (dr_pool r))" by simp
    then show "read_monitors oop_at (length [m]) r = Some (map (reread_monitor ps) [m], forward r (length ?bs) (dr_pool r))"
      using dr_read_int_bytes [OF at(1)] byte_codec.read_enc [OF at(3)]
      by (simp add: monitor_read_from_def read_from_def read_bool_def reread_monitor_def forward_def add.assoc)
  qed
  ultimately show ?thesis by blast
qed

lemma monitors_back_Cons:
  assumes "monitors_back objs ps [m] bs st" "monitors_back objs ps ms cs st'" "keeps_oops st st'"
  shows "monitors_back objs ps (m # ms) (bs @ cs) st'"
  unfolding monitors_back_def
proof (intro allI impI)
  fix oop_at and r :: debug_reader
  assume b: "at_bytes (dr_stream r) (bs @ cs)" and a: "agrees oop_at st'" and p: "pool_matches objs ps (dr_pool r)"
  have "read_monitors oop_at (length [m]) r = Some (map (reread_monitor ps) [m], forward r (length bs) (dr_pool r))"
    using assms(1) keeps_agrees [OF assms(3) a] b p by (simp add: monitors_back_def at_bytes_append)
  moreover have "read_monitors oop_at (length ms) (forward r (length bs) (dr_pool r)) =
      Some (map (reread_monitor ps) ms, forward r (length bs + length cs) (dr_pool r))"
    using assms(2) a b p by (simp add: monitors_back_def at_bytes_append)
  ultimately show "read_monitors oop_at (length (m # ms)) r = Some (map (reread_monitor ps) (m # ms), forward r (length (bs @ cs)) (dr_pool r))"
    by auto
qed

lemma write_monitors_trip:
  assumes "allocates (fst env)" "\<forall>m \<in> set ms. leaf_trip env objs ps (mv_owner m)"
  shows "writer_at (snd env) objs ps st \<Longrightarrow> \<exists>st' bs. write_monitors env st ms = Some st' \<and> writer_at (snd env) objs ps st'
    \<and> appends (dw_stream st) bs (dw_stream st') \<and> keeps_oops st st' \<and> monitors_back objs ps ms bs st'"
  using assms(2)
proof (induction ms arbitrary: st)
  case Nil
  then show ?case
    by (intro exI [of _ st] exI [of _ "[]"]) (simp add: writer_at_def appends_def keeps_oops_def monitors_back_def forward_0)
next
  case (Cons m ms)
  obtain st1 bs where 1: "monitor_write_on env st m = Some st1" "writer_at (snd env) objs ps st1" "appends (dw_stream st) bs (dw_stream st1)"
    "keeps_oops st st1" "monitors_back objs ps [m] bs st1"
    using monitor_trip [OF assms(1) _ Cons.prems(1), of m] Cons.prems(2) by auto
  obtain st2 cs where 2: "write_monitors env st1 ms = Some st2" "writer_at (snd env) objs ps st2" "appends (dw_stream st1) cs (dw_stream st2)"
    "keeps_oops st1 st2" "monitors_back objs ps ms cs st2"
    using Cons.IH [OF 1(2)] Cons.prems(2) by auto
  show ?case
    using 1 2 appends_trans [OF 1(3) 2(3)] keeps_oops_trans [OF 1(4) 2(4)] monitors_back_Cons [OF 1(5) 2(5,4)]
    by (intro exI [of _ st2] exI [of _ "bs @ cs"]) simp
qed

lemma serialize_monitor_values_sound:
  assumes "allocates (fst env)" "graph_ok (snd env) objs" "dir_inv (snd env) objs ps dir" "chunk_room dir"
    "distinct ps" "ms \<noteq> []" "\<forall>m \<in> set ms. sv_known (snd env) objs ps (mv_owner m)"
  shows "succeeds (serialize_monitor_values flags env dir (Some ms)) (\<lambda>(r, dir'). \<exists>bs.
    dir_inv (snd env) objs ps dir' \<and> dir_grows dir dir' \<and> same_pcs dir dir'
    \<and> stored_at (content (dir_stream dir')) (unsigned5 (of_nat (length ms)) @ bs) r \<and> monitors_back objs ps ms bs (dir_writer dir'))"
proof -
  have w: "writer_at (snd env) objs ps (dir_writer dir)" "vr_inv (snd env) (or_metadata (dw_recorder (dir_writer dir)))"
    using assms(3) by (simp_all add: dir_inv_def)
  obtain ws where ws: "dw_write_int env (dir_writer dir) (of_nat (length ms)) = Some ((dir_writer dir)\<lparr>dw_stream := ws\<rparr>)"
    "appends (dw_stream (dir_writer dir)) (unsigned5 (of_nat (length ms))) ws"
    "writer_at (snd env) objs ps ((dir_writer dir)\<lparr>dw_stream := ws\<rparr>)" "keeps_oops (dir_writer dir) ((dir_writer dir)\<lparr>dw_stream := ws\<rparr>)"
    by (rule dw_write_int_appends [OF assms(1) w(1)])
  have "\<forall>m \<in> set ms. leaf_trip env objs ps (mv_owner m)" using leaf_trip_known [OF assms(1,5,2)] assms(7) by blast
  from write_monitors_trip [OF assms(1) this ws(3)] obtain st bs where
    st: "write_monitors env ((dir_writer dir)\<lparr>dw_stream := ws\<rparr>) ms = Some st" "writer_at (snd env) objs ps st"
    "appends ws bs (dw_stream st)" "keeps_oops ((dir_writer dir)\<lparr>dw_stream := ws\<rparr>) st" "monitors_back objs ps ms bs st"
    by (elim exE conjE) (rule that; simp)
  have k: "keeps_oops (dir_writer dir) st" by (rule keeps_oops_trans [OF ws(4) st(4)])
  have "appends (dir_stream dir) (unsigned5 (of_nat (length ms)) @ bs) (dw_stream st)"
    unfolding dir_stream_def by (rule appends_trans [OF ws(2) st(3)])
  from share_written [OF assms(3,4) st(2) _ this, of flags] w(2) k
  have "succeeds (share_piece flags (dir\<lparr>dir_writer := st\<rparr>) (ws_position (dir_stream dir))) (\<lambda>(r, dir').
    dir_inv (snd env) objs ps dir' \<and> dir_grows dir dir' \<and> same_pcs dir dir' \<and> dw_recorder (dir_writer dir') = dw_recorder st
    \<and> stored_at (content (dir_stream dir')) (unsigned5 (of_nat (length ms)) @ bs) r)"
    by (simp add: keeps_oops_def or_metadata_at_def)
  moreover have "serialize_monitor_values flags env dir (Some ms) = share_piece flags (dir\<lparr>dir_writer := st\<rparr>) (ws_position (dir_stream dir))"
    using assms(6) ws(1) st(1) by (simp add: serialize_monitor_values_def Let_def)
  moreover have "monitors_back objs ps ms bs w" if "dw_recorder w = dw_recorder st" for w
    using st(5) that by (simp add: monitors_back_def agrees_def)
  ultimately show ?thesis
    by (simp only:) (elim succeeds_weaken, clarify, blast)
qed

section \<open>Scopes\<close>

definition header_bytes :: "nat \<Rightarrow> nat \<Rightarrow> jint \<Rightarrow> nat \<Rightarrow> nat \<Rightarrow> nat \<Rightarrow> u1 list" where
  "header_bytes sender mi bci locals expressions monitors =
     unsigned5 (of_nat sender) @ unsigned5 (of_nat mi) @ unsigned5 (bci - InvocationEntryBci)
     @ unsigned5 (of_nat locals) @ unsigned5 (of_nat expressions) @ unsigned5 (of_nat monitors)"

lemma dw_write_metadata_appends:
  assumes "allocates (fst env)" "writer_at (snd env) objs ps st" "vr_inv (snd env) (or_metadata (dw_recorder st))"
    "h = 0 \<or> is_real (snd env) h"
  obtains st' mi where "dw_write_metadata env st h = Some st'" "writer_at (snd env) objs ps st'"
    "vr_inv (snd env) (or_metadata (dw_recorder st'))" "appends (dw_stream st) (unsigned5 (of_nat mi)) (dw_stream st')"
    "or_metadata_at (dw_recorder st') mi = Some h" "or_oops (dw_recorder st') = or_oops (dw_recorder st)"
    "\<And>i k. or_metadata_at (dw_recorder st) i = Some k \<Longrightarrow> or_metadata_at (dw_recorder st') i = Some k"
proof -
  obtain i v where v: "vr_find_index (snd env) (or_metadata (dw_recorder st)) h = Some (i, v)" "vr_inv (snd env) v" "vr_at v i = Some h"
    using vr_index_table.find_at [OF assms(3,4)] by (auto simp: succeeds_iff)
  let ?st1 = "st\<lparr>dw_recorder := (dw_recorder st)\<lparr>or_metadata := v\<rparr>\<rparr>"
  have "writer_at (snd env) objs ps ?st1" using assms(2) by (simp add: writer_at_def)
  then obtain ws where ws: "dw_write_int env ?st1 (of_nat i) = Some (?st1\<lparr>dw_stream := ws\<rparr>)"
    "appends (dw_stream st) (unsigned5 (of_nat i)) ws" "writer_at (snd env) objs ps (?st1\<lparr>dw_stream := ws\<rparr>)"
    by (rule dw_write_int_appends [OF assms(1), where v = "of_nat i"]) simp
  show thesis
  proof (rule that [of "?st1\<lparr>dw_stream := ws\<rparr>" i])
    show "or_metadata_at (dw_recorder (?st1\<lparr>dw_stream := ws\<rparr>)) j = Some k" if "or_metadata_at (dw_recorder st) j = Some k" for j k
      using vr_index_table.find_keeps [OF assms(3,4) v(1)] that by (simp add: or_metadata_at_def)
  qed (use v ws in \<open>simp_all add: dw_write_metadata_def or_find_metadata_index_def or_metadata_at_def\<close>)
qed

lemma write_header:
  assumes "allocates (fst env)" "writer_at (snd env) objs ps st" "vr_inv (snd env) (or_metadata (dw_recorder st))"
    "h = 0 \<or> is_real (snd env) h"
  obtains st' mi where "(dw_write_int env st (of_nat sender) \<bind> (\<lambda>st. dw_write_metadata env st h \<bind> (\<lambda>st. write_bci env st bci \<bind> (\<lambda>st.
      dw_write_int env st (of_nat l) \<bind> (\<lambda>st. dw_write_int env st (of_nat e) \<bind> (\<lambda>st. dw_write_int env st (of_nat m))))))) = Some st'"
    "writer_at (snd env) objs ps st'" "vr_inv (snd env) (or_metadata (dw_recorder st'))"
    "appends (dw_stream st) (header_bytes sender mi bci l e m) (dw_stream st')"
    "or_metadata_at (dw_recorder st') mi = Some h" "or_oops (dw_recorder st') = or_oops (dw_recorder st)"
    "\<forall>i k. or_metadata_at (dw_recorder st) i = Some k \<longrightarrow> or_metadata_at (dw_recorder st') i = Some k"
proof -
  obtain w1 where 1: "dw_write_int env st (of_nat sender) = Some (st\<lparr>dw_stream := w1\<rparr>)" "appends (dw_stream st) (unsigned5 (of_nat sender)) w1"
    "writer_at (snd env) objs ps (st\<lparr>dw_stream := w1\<rparr>)" by (rule dw_write_int_appends [OF assms(1,2)])
  obtain s2 mi where 2: "dw_write_metadata env (st\<lparr>dw_stream := w1\<rparr>) h = Some s2" "writer_at (snd env) objs ps s2"
    "vr_inv (snd env) (or_metadata (dw_recorder s2))" "appends w1 (unsigned5 (of_nat mi)) (dw_stream s2)"
    "or_metadata_at (dw_recorder s2) mi = Some h" "or_oops (dw_recorder s2) = or_oops (dw_recorder st)"
    "\<And>i k. or_metadata_at (dw_recorder st) i = Some k \<Longrightarrow> or_metadata_at (dw_recorder s2) i = Some k"
    by (rule dw_write_metadata_appends [OF assms(1) 1(3) _ assms(4)]) (use assms(3) in simp_all)
  obtain w3 where 3: "dw_write_int env s2 (bci - InvocationEntryBci) = Some (s2\<lparr>dw_stream := w3\<rparr>)"
    "appends (dw_stream s2) (unsigned5 (bci - InvocationEntryBci)) w3" "writer_at (snd env) objs ps (s2\<lparr>dw_stream := w3\<rparr>)"
    by (rule dw_write_int_appends [OF assms(1) 2(2)])
  obtain w4 where 4: "dw_write_int env (s2\<lparr>dw_stream := w3\<rparr>) (of_nat l) = Some (s2\<lparr>dw_stream := w4\<rparr>)"
    "appends w3 (unsigned5 (of_nat l)) w4" "writer_at (snd env) objs ps (s2\<lparr>dw_stream := w4\<rparr>)"
    by (rule dw_write_int_appends [OF assms(1) 3(3), where v = "of_nat l"]) simp
  obtain w5 where 5: "dw_write_int env (s2\<lparr>dw_stream := w4\<rparr>) (of_nat e) = Some (s2\<lparr>dw_stream := w5\<rparr>)"
    "appends w4 (unsigned5 (of_nat e)) w5" "writer_at (snd env) objs ps (s2\<lparr>dw_stream := w5\<rparr>)"
    by (rule dw_write_int_appends [OF assms(1) 4(3), where v = "of_nat e"]) simp
  obtain w6 where 6: "dw_write_int env (s2\<lparr>dw_stream := w5\<rparr>) (of_nat m) = Some (s2\<lparr>dw_stream := w6\<rparr>)"
    "appends w5 (unsigned5 (of_nat m)) w6" "writer_at (snd env) objs ps (s2\<lparr>dw_stream := w6\<rparr>)"
    by (rule dw_write_int_appends [OF assms(1) 5(3), where v = "of_nat m"]) simp
  have "appends (dw_stream st) (header_bytes sender mi bci l e m) w6" unfolding header_bytes_def
    by (rule appends_trans [OF 1(2) appends_trans [OF 2(4) appends_trans [OF 3(2) appends_trans [OF 4(2) appends_trans [OF 5(2) 6(2)]]]]])
  then show thesis
    by (intro that [of "s2\<lparr>dw_stream := w6\<rparr>" mi]) (use 1 2 3 4 5 6 in \<open>simp_all add: write_bci_def\<close>)
qed

lemma set_last_pc_sets:
  assumes "0 < dir_pcs_length dir" "dir_pcs_length dir \<le> length (dir_pcs dir)"
  shows "set_last_pc dir pd = Some (dir\<lparr>dir_pcs := (dir_pcs dir)[dir_pcs_length dir - 1 := pd]\<rparr>)"
    "last_pc (dir\<lparr>dir_pcs := (dir_pcs dir)[dir_pcs_length dir - 1 := pd]\<rparr>) = Some pd"
  using assms by (auto simp: set_last_pc_def last_pc_def array_put_def array_get_def)

lemma only_pcs_inv:
  "length pcs = length (dir_pcs dir) \<Longrightarrow> dir_inv n objs ps (dir\<lparr>dir_pcs := pcs\<rparr>) = dir_inv n objs ps dir"
  by (simp add: dir_inv_def dir_stream_def chunks_ok_def)

lemma find_sharable_same_pcs: "find_sharable_decode_offset flags dir off = Some (s, dir') \<Longrightarrow> same_pcs dir dir'"
  by (auto simp: find_sharable_decode_offset_def new_dir_chunk_def same_pcs_def Let_def split: if_splits option.splits)

text \<open>The end of \<^verbatim>\<open>describe_scope\<close> is the common sharing step, followed by storing the offset.\<close>

lemma describe_end:
  assumes "0 < dir_pcs_length dir" "dir_pcs_length dir \<le> length (dir_pcs dir)" "last_pc dir = Some pd" "pd_scope_decode_offset pd = off"
  shows "(find_sharable_decode_offset flags dir off \<bind> (\<lambda>(s, dir). if s \<noteq> serialized_null
      then let dir = dir_set_position dir off in last_pc dir \<bind> (\<lambda>pd. set_last_pc dir (pd\<lparr>pd_scope_decode_offset := s\<rparr>))
      else Some dir))
    = share_piece flags dir off \<bind> (\<lambda>(r, dir). last_pc dir \<bind> (\<lambda>pd. set_last_pc dir (pd\<lparr>pd_scope_decode_offset := r\<rparr>)))"
proof (cases "find_sharable_decode_offset flags dir off")
  case None
  then show ?thesis by (simp add: share_piece_def)
next
  case (Some x)
  obtain s dir' where x: "x = (s, dir')" by (cases x)
  have p: "dir_pcs dir' = dir_pcs dir" "dir_pcs_length dir' = dir_pcs_length dir" using find_sharable_same_pcs [of flags dir off s dir'] Some x by (simp_all add: same_pcs_def)
  have l: "last_pc dir' = Some pd" using assms(1,3) by (simp add: last_pc_def p)
  have u: "(dir_pcs dir)[dir_pcs_length dir - 1 := pd] = dir_pcs dir"
    using assms(1-3) by (auto simp: last_pc_def array_get_def split: if_splits)
  have "pd\<lparr>pd_scope_decode_offset := off\<rparr> = pd" using assms(4) by (cases pd) simp
  then have "set_last_pc dir' (pd\<lparr>pd_scope_decode_offset := off\<rparr>) = Some (dir'\<lparr>dir_pcs := dir_pcs dir'\<rparr>)"
    using set_last_pc_sets(1) [of dir' pd] assms(1,2) by (simp only: p u)
  also have "dir'\<lparr>dir_pcs := dir_pcs dir'\<rparr> = dir'" by simp
  finally have "set_last_pc dir' (pd\<lparr>pd_scope_decode_offset := off\<rparr>) = Some dir'" .
  then show ?thesis using l by (simp add: Some x share_piece_def Let_def)
qed

definition shows_flags :: "pc_desc \<Rightarrow> scope_flags \<Rightarrow> bool" where
  "shows_flags pd sf \<longleftrightarrow> should_reexecute pd = sf_reexecute sf \<and> rethrow_exception pd = sf_rethrow_exception sf
     \<and> is_method_handle_invoke pd = sf_is_method_handle_invoke sf \<and> return_oop pd = sf_return_oop sf"

definition flagged :: "pc_desc \<Rightarrow> scope_flags \<Rightarrow> pc_desc" where
  "flagged pd sf = set_return_oop (set_is_method_handle_invoke (set_rethrow_exception
     (set_should_reexecute pd (sf_reexecute sf)) (sf_rethrow_exception sf)) (sf_is_method_handle_invoke sf)) (sf_return_oop sf)"

lemma flagged_shows: "shows_flags (flagged pd sf) sf"
  unfolding shows_flags_def flagged_def flag_defs pcdesc_masks flag_test
  by (simp only: flag_set) simp

lemma flagged_fields [simp]:
  "pd_pc_offset (flagged pd sf) = pd_pc_offset pd" "pd_scope_decode_offset (flagged pd sf) = pd_scope_decode_offset pd"
  "pd_obj_decode_offset (flagged pd sf) = pd_obj_decode_offset pd"
  by (simp_all add: flagged_def flag_defs pd_set_flag_def)

lemma shows_flags_scope [simp]: "shows_flags (pd\<lparr>pd_scope_decode_offset := x\<rparr>) sf = shows_flags pd sf"
  by (simp add: shows_flags_def should_reexecute_def rethrow_exception_def is_method_handle_invoke_def return_oop_def)

text \<open>The descriptors before the last one are untouched.\<close>

definition keeps_pcs :: "debug_rec \<Rightarrow> debug_rec \<Rightarrow> bool" where
  "keeps_pcs dir dir' \<longleftrightarrow> dir_pcs_length dir' = dir_pcs_length dir
     \<and> take (dir_pcs_length dir - 1) (dir_pcs dir') = take (dir_pcs_length dir - 1) (dir_pcs dir)
     \<and> dir_prev_safepoint_pc dir' = dir_prev_safepoint_pc dir
     \<and> dir_recording_non_safepoints dir' = dir_recording_non_safepoints dir"

lemma describe_scope_sound:
  assumes "allocates (fst env)" "dir_inv (snd env) objs ps dir" "chunk_room dir" "last_pc dir = Some pd"
    "h = 0 \<or> is_real (snd env) h"
  shows "succeeds (describe_scope flags env dir h bci sf l e m) (\<lambda>dir'. \<exists>mi pd'. dir_inv (snd env) objs ps dir' \<and> dir_grows dir dir'
    \<and> keeps_pcs dir dir' \<and> last_pc dir' = Some pd' \<and> pd_pc_offset pd' = pd_pc_offset pd
    \<and> pd_obj_decode_offset pd' = pd_obj_decode_offset pd \<and> shows_flags pd' sf
    \<and> or_metadata_at (dw_recorder (dir_writer dir')) mi = Some h
    \<and> stored_at (content (dir_stream dir')) (header_bytes (pd_scope_decode_offset pd) mi bci l e m) (pd_scope_decode_offset pd'))"
proof -
  let ?off = "ws_position (dir_stream dir)" and ?k = "dir_pcs_length dir - 1"
  let ?pd1 = "flagged (pd\<lparr>pd_scope_decode_offset := ?off\<rparr>) sf"
  let ?dir1 = "dir\<lparr>dir_pcs := (dir_pcs dir)[?k := ?pd1]\<rparr>"
  have len: "0 < dir_pcs_length dir" "dir_pcs_length dir \<le> length (dir_pcs dir)" using assms(2) by (simp_all add: dir_inv_def)
  have w: "writer_at (snd env) objs ps (dir_writer dir)" "vr_inv (snd env) (or_metadata (dw_recorder (dir_writer dir)))"
    using assms(2) by (simp_all add: dir_inv_def)
  have inv1: "dir_inv (snd env) objs ps ?dir1" "chunk_room ?dir1" "dir_stream ?dir1 = dir_stream dir"
    using assms(2,3) by (simp_all add: only_pcs_inv chunk_room_def dir_stream_def)
  obtain st mi where st: "(dw_write_int env (dir_writer dir) (of_nat (pd_scope_decode_offset pd)) \<bind> (\<lambda>st. dw_write_metadata env st h \<bind> (\<lambda>st. write_bci env st bci \<bind> (\<lambda>st.
      dw_write_int env st (of_nat l) \<bind> (\<lambda>st. dw_write_int env st (of_nat e) \<bind> (\<lambda>st. dw_write_int env st (of_nat m))))))) = Some st"
    "writer_at (snd env) objs ps st" "vr_inv (snd env) (or_metadata (dw_recorder st))"
    "appends (dw_stream (dir_writer dir)) (header_bytes (pd_scope_decode_offset pd) mi bci l e m) (dw_stream st)"
    "or_metadata_at (dw_recorder st) mi = Some h" "or_oops (dw_recorder st) = or_oops (dw_recorder (dir_writer dir))"
    "\<forall>i k. or_metadata_at (dw_recorder (dir_writer dir)) i = Some k \<longrightarrow> or_metadata_at (dw_recorder st) i = Some k"
    by (rule write_header [OF assms(1) w assms(5), where sender = "pd_scope_decode_offset pd" and bci = bci and l = l and e = e and m = m])
  let ?dir2 = "?dir1\<lparr>dir_writer := st\<rparr>" and ?piece = "header_bytes (pd_scope_decode_offset pd) mi bci l e m"
  have app: "appends (dir_stream ?dir1) ?piece (dw_stream st)" using st(4) inv1(3) by (simp add: dir_stream_def)
  obtain r dir' where r: "share_piece flags ?dir2 ?off = Some (r, dir')"
    and d': "dir_inv (snd env) objs ps dir'" "dir_grows ?dir1 dir'" "same_pcs ?dir1 dir'" "dw_recorder (dir_writer dir') = dw_recorder st"
      "stored_at (content (dir_stream dir')) ?piece r"
    using share_written [OF inv1(1,2) st(2,3) app, of flags] st(6,7) inv1(3)
    by (auto simp: succeeds_iff or_oop_at_def)
  have p: "dir_pcs dir' = (dir_pcs dir)[?k := ?pd1]" "dir_pcs_length dir' = dir_pcs_length dir" using d'(3) by (simp_all add: same_pcs_def)
  have l': "last_pc dir' = Some ?pd1" using set_last_pc_sets(2) [OF len, of ?pd1] len(1) by (simp add: last_pc_def p)
  let ?pd' = "?pd1\<lparr>pd_scope_decode_offset := r\<rparr>"
  let ?dir' = "dir'\<lparr>dir_pcs := (dir_pcs dir')[?k := ?pd']\<rparr>"
  have s': "set_last_pc dir' ?pd' = Some ?dir'" "last_pc ?dir' = Some ?pd'"
    using set_last_pc_sets [of dir' ?pd'] len p by simp_all
  let ?rest = "\<lambda>dir. find_sharable_decode_offset flags dir ?off \<bind> (\<lambda>(s, dir). if s \<noteq> serialized_null
      then let dir = dir_set_position dir ?off in last_pc dir \<bind> (\<lambda>pd. set_last_pc dir (pd\<lparr>pd_scope_decode_offset := s\<rparr>))
      else Some dir)"
  have "describe_scope flags env dir h bci sf l e m = (dw_write_int env (dir_writer dir) (of_nat (pd_scope_decode_offset pd)) \<bind> (\<lambda>st. dw_write_metadata env st h \<bind> (\<lambda>st. write_bci env st bci \<bind> (\<lambda>st.
      dw_write_int env st (of_nat l) \<bind> (\<lambda>st. dw_write_int env st (of_nat e) \<bind> (\<lambda>st. dw_write_int env st (of_nat m))))))) \<bind> (\<lambda>st. ?rest (?dir1\<lparr>dir_writer := st\<rparr>))"
    by (simp add: describe_scope_def Let_def assms(4) set_last_pc_sets(1) [OF len] flagged_def Option.bind_assoc)
  also have "\<dots> = ?rest ?dir2" unfolding st(1) by simp
  also have "\<dots> = share_piece flags ?dir2 ?off \<bind> (\<lambda>(r, dir). last_pc dir \<bind> (\<lambda>pd. set_last_pc dir (pd\<lparr>pd_scope_decode_offset := r\<rparr>)))"
    by (rule describe_end [where pd = ?pd1]) (use len set_last_pc_sets(2) [OF len, of ?pd1] in \<open>simp_all add: last_pc_def\<close>)
  finally have "describe_scope flags env dir h bci sf l e m = share_piece flags ?dir2 ?off \<bind>
      (\<lambda>(r, dir). last_pc dir \<bind> (\<lambda>pd. set_last_pc dir (pd\<lparr>pd_scope_decode_offset := r\<rparr>)))" .
  then have "describe_scope flags env dir h bci sf l e m = Some ?dir'" using r l' s'(1) by simp
  moreover have "dir_inv (snd env) objs ps ?dir'" using d'(1) by (simp add: only_pcs_inv)
  moreover have "dir_grows dir ?dir'" using d'(2) inv1(3) by (simp add: dir_grows_def dir_stream_def)
  moreover have "keeps_pcs dir ?dir'" using d'(3) p by (simp add: keeps_pcs_def same_pcs_def)
  moreover have "dir_stream ?dir' = dir_stream dir'" by (simp add: dir_stream_def)
  ultimately show ?thesis
    using s'(2) st(5) d'(4,5) flagged_shows [of "pd\<lparr>pd_scope_decode_offset := ?off\<rparr>" sf] by (auto intro!: exI [of _ mi])
qed

section \<open>The table of descriptors\<close>

definition live_pcs :: "debug_rec \<Rightarrow> pc_desc list" where
  "live_pcs dir = take (dir_pcs_length dir) (dir_pcs dir)"

definition pcs_inv :: "debug_rec \<Rightarrow> bool" where
  "pcs_inv dir \<longleftrightarrow> dir_pcs_length dir \<le> length (dir_pcs dir) \<and> live_pcs dir \<noteq> []
     \<and> pd_pc_offset (hd (live_pcs dir)) = lower_offset_limit
     \<and> sorted_wrt (\<lambda>p q. pd_pc_offset p < pd_pc_offset q) (live_pcs dir) \<and> lower_offset_limit \<le> dir_prev_safepoint_pc dir"

lemma copy_array:
  assumes "n \<le> length xs" "n \<le> length ys"
  shows "for_loop 0 n (\<lambda>i ys. array_get xs i \<bind> (\<lambda>x. array_put ys i x)) ys = Some (take n xs @ drop n ys)"
proof -
  have "succeeds (for_loop 0 n (\<lambda>i ys. array_get xs i \<bind> (\<lambda>x. array_put ys i x)) ys) (\<lambda>zs. zs = take n xs @ drop n ys)"
  proof (rule for_loop_rule [where I = "\<lambda>k zs. zs = take k xs @ drop k ys"])
    fix k zs assume k: "0 \<le> k" "k < n" and zs: "zs = take k xs @ drop k ys"
    have "drop k ys = ys ! k # drop (Suc k) ys" using k assms(2) by (simp add: Cons_nth_drop_Suc)
    then show "succeeds (array_get xs k \<bind> (\<lambda>x. array_put zs k x)) (\<lambda>zs. zs = take (Suc k) xs @ drop (Suc k) ys)"
      using k assms by (simp add: vcg zs list_update_append take_Suc_conv_app_nth)
  qed simp_all
  then show ?thesis by (auto simp: succeeds_iff)
qed

lemma add_new_pc_offset_appends:
  assumes "\<And>k. length (fresh_pcs k) = k" "dir_pcs_length dir \<le> length (dir_pcs dir)" "dir_pcs dir \<noteq> []"
  shows "succeeds (add_new_pc_offset fresh_pcs dir pc) (\<lambda>dir'. (\<exists>pcs. dir' = dir\<lparr>dir_pcs := pcs, dir_pcs_length := dir_pcs_length dir + 1\<rparr>)
    \<and> dir_pcs_length dir' \<le> length (dir_pcs dir') \<and> live_pcs dir' = live_pcs dir @ [new_pc_desc pc 0 0])"
proof (cases "dir_pcs_length dir = length (dir_pcs dir)")
  case True
  have "0 < length (dir_pcs dir)" using assms(3) by simp
  then have l: "length (dir_pcs dir) < length (fresh_pcs (length (dir_pcs dir) * 2))" by (simp add: assms(1))
  let ?pcs = "dir_pcs dir @ drop (length (dir_pcs dir)) (fresh_pcs (length (dir_pcs dir) * 2))"
  have "add_new_pc_offset fresh_pcs dir pc = Some (dir\<lparr>dir_pcs := ?pcs[length (dir_pcs dir) := new_pc_desc pc 0 0], dir_pcs_length := Suc (length (dir_pcs dir))\<rparr>)"
  proof -
    have "array_put ?pcs (length (dir_pcs dir)) x = Some (?pcs[length (dir_pcs dir) := x])" for x using l by (simp add: array_put_def)
    then show ?thesis using True l copy_array [of "length (dir_pcs dir)" "dir_pcs dir" "fresh_pcs (length (dir_pcs dir) * 2)"]
      by (simp add: add_new_pc_offset_def Let_def serialized_null_def)
  qed
  moreover have "take (Suc (length (dir_pcs dir))) (?pcs[length (dir_pcs dir) := new_pc_desc pc 0 0]) = dir_pcs dir @ [new_pc_desc pc 0 0]"
    using l by (simp add: take_Suc_conv_app_nth nth_append)
  ultimately show ?thesis using True l by (auto simp: live_pcs_def)
next
  case False
  then have "dir_pcs_length dir < length (dir_pcs dir)" using assms(2) by simp
  then show ?thesis using False
    by (auto simp: add_new_pc_offset_def array_put_def live_pcs_def serialized_null_def take_Suc_conv_app_nth)
qed

lemma add_new_pc_offset_inv:
  assumes "\<And>k. length (fresh_pcs k) = k" "pcs_inv dir" "pd_pc_offset (last (live_pcs dir)) < pc"
  shows "succeeds (add_new_pc_offset fresh_pcs dir pc) pcs_inv"
proof -
  have "dir_pcs dir \<noteq> []" using assms(2) by (auto simp: pcs_inv_def live_pcs_def)
  have lt: "pd_pc_offset p < pc" if "p \<in> set (live_pcs dir)" for p
  proof -
    obtain xs where xs: "live_pcs dir = xs @ [last (live_pcs dir)]" using assms(2) by (metis append_butlast_last_id pcs_inv_def)
    have "sorted_wrt (\<lambda>p q. pd_pc_offset p < pd_pc_offset q) (xs @ [last (live_pcs dir)])" using assms(2) xs by (simp add: pcs_inv_def)
    then show ?thesis using that assms(3) xs by (metis Un_iff list.set_intros(1) less_trans set_ConsD set_append sorted_wrt_append empty_iff list.set(1))
  qed
  have l: "dir_pcs_length dir \<le> length (dir_pcs dir)" using assms(2) by (simp add: pcs_inv_def)
  show ?thesis
    by (rule succeeds_weaken [OF add_new_pc_offset_appends [OF assms(1) l \<open>dir_pcs dir \<noteq> []\<close>, of pc]])
      (use assms(2) lt in \<open>auto simp: pcs_inv_def sorted_wrt_append new_pc_desc_def\<close>)
qed

text \<open>Coalescing replaces the last two descriptors, which carry the same information, by one.\<close>

definition same_near :: "pc_desc list \<Rightarrow> pc_desc list \<Rightarrow> bool" where
  "same_near pcs pcs' \<longleftrightarrow> (\<forall>off i. matches pcs off True i \<longrightarrow> (\<exists>j. matches pcs' off True j \<and> is_same_info (pcs ! i) (pcs' ! j)))"

definition same_exact :: "pc_desc list \<Rightarrow> pc_desc list \<Rightarrow> int \<Rightarrow> bool" where
  "same_exact pcs pcs' off \<longleftrightarrow> (\<forall>i. matches pcs off False i \<longrightarrow> (\<exists>j. matches pcs' off False j \<and> is_same_info (pcs ! i) (pcs' ! j)))"

lemma same_refl: "same_near pcs pcs" "same_exact pcs pcs off"
  by (auto simp: same_near_def same_exact_def is_same_info_def)

lemma coalesce_same:
  fixes p q :: pc_desc
  assumes "xs \<noteq> []" "is_same_info p q" "pd_pc_offset (last xs) < pd_pc_offset p" "pd_pc_offset p < pd_pc_offset q"
  shows "same_near (xs @ [p, q]) (xs @ [p\<lparr>pd_pc_offset := pd_pc_offset q\<rparr>])"
    "off \<noteq> pd_pc_offset p \<Longrightarrow> same_exact (xs @ [p, q]) (xs @ [p\<lparr>pd_pc_offset := pd_pc_offset q\<rparr>]) off"
proof -
  let ?p' = "p\<lparr>pd_pc_offset := pd_pc_offset q\<rparr>"
  let ?n = "length xs"
  have info: "is_same_info p ?p'" "is_same_info q ?p'" "is_same_info x x" for x :: pc_desc using assms(2) by (auto simp: is_same_info_def)
  have last: "(xs @ zs) ! (?n - 1) = last xs" for zs using assms(1) by (simp add: nth_append last_conv_nth)
  have low: "(xs @ zs) ! k = xs ! k" if "k < ?n" for k zs using that by (simp add: nth_append)
  show "same_near (xs @ [p, q]) (xs @ [?p'])"
    unfolding same_near_def
  proof (intro allI impI)
    fix off i assume m: "matches (xs @ [p, q]) off True i"
    then have i: "0 < i" "i < ?n \<or> i = ?n \<or> i = Suc ?n" by (auto simp: matches_def)
    from i(2) consider "i < ?n" | "i = ?n" | "i = Suc ?n" by blast
    then show "\<exists>j. matches (xs @ [?p']) off True j \<and> is_same_info ((xs @ [p, q]) ! i) ((xs @ [?p']) ! j)"
    proof cases
      case 1
      then have "i - 1 < ?n" by simp
      then show ?thesis using m 1 info(3) low by (intro exI [of _ i]) (simp add: matches_def)
    next
      case 2
      then show ?thesis using m assms(3,4) i(1) info(1) last by (intro exI [of _ ?n]) (simp add: matches_def)
    next
      case 3
      then have "pd_pc_offset p < off" "off \<le> pd_pc_offset q" using m by (simp_all add: matches_def nth_append)
      then show ?thesis using assms(1,3) info(2) last 3 by (intro exI [of _ ?n]) (simp add: matches_def nth_append)
    qed
  qed
  assume off: "off \<noteq> pd_pc_offset p"
  show "same_exact (xs @ [p, q]) (xs @ [?p']) off"
    unfolding same_exact_def
  proof (intro allI impI)
    fix i assume m: "matches (xs @ [p, q]) off False i"
    then have i: "0 < i" "i < ?n \<or> i = ?n \<or> i = Suc ?n" by (auto simp: matches_def)
    have "i \<noteq> ?n" using m off by (auto simp: matches_def)
    then consider "i < ?n" | "i = Suc ?n" using i(2) by blast
    then show "\<exists>j. matches (xs @ [?p']) off False j \<and> is_same_info ((xs @ [p, q]) ! i) ((xs @ [?p']) ! j)"
    proof cases
      case 1
      then show ?thesis using m info(3) low by (intro exI [of _ i]) (simp add: matches_def)
    next
      case 2
      then show ?thesis using m assms(1) info(2) by (intro exI [of _ ?n]) (simp add: matches_def nth_append)
    qed
  qed
qed

lemma end_scopes_same:
  assumes "pcs_inv dir" "pd_pc_offset (last (live_pcs dir)) = pc"
  shows "succeeds (end_scopes dir pc is_safepoint) (\<lambda>dir'. pcs_inv dir' \<and> pd_pc_offset (last (live_pcs dir')) = pc
    \<and> same_near (live_pcs dir) (live_pcs dir')
    \<and> (\<forall>off. off \<le> dir_prev_safepoint_pc dir \<or> off = pc \<longrightarrow> same_exact (live_pcs dir) (live_pcs dir') off))"
proof -
  let ?n = "dir_pcs_length dir" and ?pcs = "dir_pcs dir"
  have inv: "?n \<le> length ?pcs" "live_pcs dir \<noteq> []" "sorted_wrt (\<lambda>p q. pd_pc_offset p < pd_pc_offset q) (live_pcs dir)"
    "pd_pc_offset (hd (live_pcs dir)) = lower_offset_limit" "lower_offset_limit \<le> dir_prev_safepoint_pc dir"
    using assms(1) by (simp_all add: pcs_inv_def)
  have "lower_offset_limit \<le> pc"
    using inv(2-4) assms(2) by (cases "live_pcs dir") (auto split: if_splits dest: last_in_set intro: less_imp_le)
  have safe: "pcs_inv (if is_safepoint then d\<lparr>dir_prev_safepoint_pc := pc\<rparr> else d) = pcs_inv d" if "pcs_inv d" for d
    using that \<open>lower_offset_limit \<le> pc\<close> by (simp add: pcs_inv_def live_pcs_def)
  have live: "live_pcs (if is_safepoint then d\<lparr>dir_prev_safepoint_pc := pc\<rparr> else d) = live_pcs d" for d
    by (simp add: live_pcs_def)
  show ?thesis
  proof (cases "2 \<le> ?n \<and> dir_recording_non_safepoints dir")
    case True
    let ?p = "?pcs ! (?n - 2)" and ?q = "?pcs ! (?n - 1)" and ?xs = "take (?n - 2) ?pcs"
    have get: "last_pc dir = Some ?q" "prev_pc dir = Some ?p" using True inv(1) by (auto simp: last_pc_def prev_pc_def array_get_def)
    obtain k where k: "?n = Suc (Suc k)" using True by (metis add_2_eq_Suc le_Suc_ex)
    have split: "live_pcs dir = ?xs @ [?p, ?q]"
      unfolding live_pcs_def using inv(1) by (simp add: k take_Suc_conv_app_nth)
    have q: "pd_pc_offset ?q = pc" using assms(2) split by simp
    show ?thesis
    proof (cases "dir_prev_safepoint_pc dir < pd_pc_offset ?p \<and> is_same_info ?p ?q")
      case coal: True
      let ?p' = "?p\<lparr>pd_pc_offset := pc\<rparr>"
      let ?dir = "dir\<lparr>dir_pcs := ?pcs[?n - 2 := ?p'], dir_pcs_length := ?n - 1\<rparr>"
      have e: "end_scopes dir pc is_safepoint = Some (if is_safepoint then ?dir\<lparr>dir_prev_safepoint_pc := pc\<rparr> else ?dir)"
      proof -
        have "?n - 2 < length ?pcs" using inv(1) k by simp
        then show ?thesis using True coal get by (simp add: end_scopes_def array_put_def)
      qed
      have l': "live_pcs ?dir = ?xs @ [?p']" using inv(1) by (simp add: k live_pcs_def take_Suc_conv_app_nth)
      have ne: "?xs \<noteq> []" using coal inv(4,5) split by (cases ?xs) auto
      have s: "pd_pc_offset (last ?xs) < pd_pc_offset ?p" "pd_pc_offset ?p < pd_pc_offset ?q"
        "sorted_wrt (\<lambda>p q. pd_pc_offset p < pd_pc_offset q) ?xs" "\<And>x. x \<in> set ?xs \<Longrightarrow> pd_pc_offset x < pd_pc_offset ?q"
        using inv(3) ne unfolding split by (auto simp: sorted_wrt_append)
      have "pcs_inv ?dir"
        unfolding pcs_inv_def l' using s ne inv split q by (auto simp: sorted_wrt_append)
      moreover have "same_near (live_pcs dir) (live_pcs ?dir)" "off \<noteq> pd_pc_offset ?p \<Longrightarrow> same_exact (live_pcs dir) (live_pcs ?dir) off" for off
        using coalesce_same [OF ne _ s(1,2)] coal unfolding split l' q by blast+
      moreover have "pd_pc_offset (last (live_pcs ?dir)) = pc" unfolding l' by simp
      moreover have "off \<noteq> pd_pc_offset ?p" if "off \<le> dir_prev_safepoint_pc dir \<or> off = pc" for off using that coal s(2) q by auto
      ultimately show ?thesis unfolding e succeeds_Some live by (simp only: safe) blast
    next
      case False
      then have "end_scopes dir pc is_safepoint = Some (if is_safepoint then dir\<lparr>dir_prev_safepoint_pc := pc\<rparr> else dir)"
        using True get by (auto simp: end_scopes_def)
      then show ?thesis using assms by (simp add: live safe same_refl)
    qed
  next
    case False
    then have "end_scopes dir pc is_safepoint = Some (if is_safepoint then dir\<lparr>dir_prev_safepoint_pc := pc\<rparr> else dir)"
      by (auto simp: end_scopes_def)
    then show ?thesis using assms by (simp add: live safe same_refl)
  qed
qed

end
