(* ===== verification/Recorder_Table.thy ===== *)
theory Recorder_Table
  imports Debug_Info_Rec
begin

text \<open>
  The table of descriptors that the recorder of \<^verbatim>\<open>code/debugInfoRec.cpp\<close> builds, over every
  sequence of calls: a step relation with the assertions of the code as guards, the invariant that
  every step keeps, and what the coalescing of \<^verbatim>\<open>end_scopes\<close> leaves of the lookups.
\<close>

section \<open>Steps\<close>

text \<open>
  The guards are the assertions: \<^verbatim>\<open>add_new_pc_offset\<close> wants a greater offset than the last one, which is
  an \<^verbatim>\<open>int\<close>, and \<^verbatim>\<open>end_scopes\<close> is called for the offset of the last descriptor.
\<close>

inductive recorder_step :: "(nat \<Rightarrow> pc_desc list) \<Rightarrow> share_flags \<Rightarrow> write_env \<Rightarrow> debug_rec \<Rightarrow> debug_rec \<Rightarrow> bool"
  for fresh_pcs flags env where
  step_safepoint: "last_pc dir = Some pd \<Longrightarrow> pd_pc_offset pd < pc \<Longrightarrow> pc \<le> upper_offset_limit \<Longrightarrow>
    add_safepoint fresh_pcs dir pc = Some dir' \<Longrightarrow> recorder_step fresh_pcs flags env dir dir'"
| step_non_safepoint: "last_pc dir = Some pd \<Longrightarrow> pd_pc_offset pd < pc \<Longrightarrow> pc \<le> upper_offset_limit \<Longrightarrow>
    add_non_safepoint fresh_pcs dir pc = Some dir' \<Longrightarrow> recorder_step fresh_pcs flags env dir dir'"
| step_pool: "dump_object_pool flags env dir objects = Some dir' \<Longrightarrow> recorder_step fresh_pcs flags env dir dir'"
| step_values: "create_scope_values flags env dir vs = Some (r, dir') \<Longrightarrow> recorder_step fresh_pcs flags env dir dir'"
| step_monitors: "create_monitor_values flags env dir ms = Some (r, dir') \<Longrightarrow> recorder_step fresh_pcs flags env dir dir'"
| step_scope: "describe_scope flags env dir h bci sf l e m = Some dir' \<Longrightarrow> recorder_step fresh_pcs flags env dir dir'"
| step_end: "last_pc dir = Some pd \<Longrightarrow> end_scopes dir (pd_pc_offset pd) is_safepoint = Some dir' \<Longrightarrow>
    recorder_step fresh_pcs flags env dir dir'"
| step_size: "pcs_size fresh_pcs dir = Some (k, dir') \<Longrightarrow> recorder_step fresh_pcs flags env dir dir'"

section \<open>The invariant\<close>

definition table_inv :: "debug_rec \<Rightarrow> bool" where
  "table_inv dir \<longleftrightarrow> pcs_inv dir \<and> pd_pc_offset (last (live_pcs dir)) \<le> upper_offset_limit"

lemma table_inv_same: "same_pcs dir dir' \<Longrightarrow> table_inv dir' = table_inv dir"
  by (auto simp: table_inv_def pcs_inv_def same_pcs_def live_pcs_def)

lemma last_pc_live: "pcs_inv dir \<Longrightarrow> last_pc dir = Some (last (live_pcs dir))"
  by (cases "dir_pcs_length dir")
    (auto simp: pcs_inv_def last_pc_def live_pcs_def array_get_def last_conv_nth)

lemma set_last_pc_table:
  assumes "table_inv dir" "last_pc dir = Some pd" "pd_pc_offset pd' = pd_pc_offset pd" "set_last_pc dir pd' = Some dir'"
  shows "table_inv dir'"
proof -
  let ?xs = "butlast (live_pcs dir)"
  have inv: "pcs_inv dir" "live_pcs dir \<noteq> []" "0 < dir_pcs_length dir" "dir_pcs_length dir \<le> length (dir_pcs dir)"
    using assms(1) by (auto simp: table_inv_def pcs_inv_def live_pcs_def)
  have pd: "pd = last (live_pcs dir)" using last_pc_live [OF inv(1)] assms(2) by simp
  have e: "dir' = dir\<lparr>dir_pcs := (dir_pcs dir)[dir_pcs_length dir - 1 := pd']\<rparr>"
    using assms(4) set_last_pc_sets(1) [OF inv(3,4), of pd'] by simp
  have l: "live_pcs dir = ?xs @ [pd]" using inv(2) by (simp add: pd)
  have "live_pcs dir' = (live_pcs dir)[length (live_pcs dir) - 1 := pd']"
    using inv(4) by (simp add: e live_pcs_def take_update_swap)
  also have "\<dots> = ?xs @ [pd']" by (subst (1 2) l) (simp add: list_update_append)
  finally have l': "live_pcs dir' = ?xs @ [pd']" .
  have "sorted_wrt (\<lambda>p q. pd_pc_offset p < pd_pc_offset q) (?xs @ [pd])" "pd_pc_offset (hd (?xs @ [pd])) = lower_offset_limit"
    using inv(1) l by (simp_all add: pcs_inv_def)
  moreover have "dir_pcs_length dir' = dir_pcs_length dir" "length (dir_pcs dir') = length (dir_pcs dir)"
    "dir_prev_safepoint_pc dir' = dir_prev_safepoint_pc dir" by (simp_all add: e)
  moreover have "pd_pc_offset (last (live_pcs dir)) \<le> upper_offset_limit" "lower_offset_limit \<le> dir_prev_safepoint_pc dir"
    using assms(1) by (simp_all add: table_inv_def pcs_inv_def)
  ultimately show ?thesis using inv(4) assms(3)
    unfolding table_inv_def pcs_inv_def l' by (cases ?xs) (auto simp: sorted_wrt_append pd)
qed

lemma share_piece_same_pcs: "share_piece flags dir off = Some (r, dir') \<Longrightarrow> same_pcs dir dir'"
  by (auto simp: share_piece_def dir_set_position_def same_pcs_def split: if_splits dest!: find_sharable_same_pcs)

lemma serialize_same_pcs:
  "serialize_scope_values flags env dir vs = Some (r, dir') \<Longrightarrow> same_pcs dir dir'"
  "serialize_monitor_values flags env dir ms = Some (r, dir') \<Longrightarrow> same_pcs dir dir'"
  by (auto simp: serialize_scope_values_def serialize_monitor_values_def same_pcs_def Let_def
      split: option.splits if_splits dest!: share_piece_same_pcs)

lemma dump_object_pool_table:
  assumes "table_inv dir" "dump_object_pool flags env dir objects = Some dir'"
  shows "table_inv dir'"
proof -
  obtain objs where o: "(case objects of None \<Rightarrow> Some (dw_objs (dir_writer dir)) | Some vs \<Rightarrow> clear_visited (dw_objs (dir_writer dir)) vs) = Some objs"
    using assms(2) by (cases "case objects of None \<Rightarrow> Some (dw_objs (dir_writer dir)) | Some vs \<Rightarrow> clear_visited (dw_objs (dir_writer dir)) vs")
      (auto simp: dump_object_pool_def Option.bind_eq_Some_conv)
  obtain pd dir1 offset where p: "last_pc dir = Some pd"
      "serialize_scope_values flags env (dir\<lparr>dir_writer := (dir_writer dir)\<lparr>dw_objs := objs\<rparr>\<rparr>) objects = Some (offset, dir1)"
      "set_last_pc dir1 (pd\<lparr>pd_obj_decode_offset := offset\<rparr>) = Some dir'"
    using assms(2) unfolding dump_object_pool_def o by auto
  have "same_pcs dir dir1" using serialize_same_pcs(1) [OF p(2)] by (simp add: same_pcs_def)
  moreover from this have "last_pc dir1 = last_pc dir" by (simp add: same_pcs_def last_pc_def)
  ultimately show ?thesis using set_last_pc_table [OF _ _ _ p(3), of pd] assms(1) p(1) by (simp add: table_inv_same)
qed

lemma describe_scope_table:
  assumes "table_inv dir" "describe_scope flags env dir h bci sf l e m = Some dir'"
  shows "table_inv dir'"
proof -
  obtain pd where pd: "last_pc dir = Some pd" using assms(2) by (cases "last_pc dir") (auto simp: describe_scope_def)
  let ?pd = "flagged (pd\<lparr>pd_scope_decode_offset := ws_position (dir_stream dir)\<rparr>) sf"
  obtain d1 st s d2 where d: "set_last_pc dir ?pd = Some d1"
      "find_sharable_decode_offset flags (d1\<lparr>dir_writer := st\<rparr>) (ws_position (dir_stream dir)) = Some (s, d2)"
      "(if s \<noteq> serialized_null then let d = dir_set_position d2 (ws_position (dir_stream dir)) in last_pc d \<bind> (\<lambda>pd. set_last_pc d (pd\<lparr>pd_scope_decode_offset := s\<rparr>))
        else Some d2) = Some dir'"
    using assms(2) by (auto simp: describe_scope_def pd Let_def flagged_def)
  have 1: "table_inv d1" by (rule set_last_pc_table [OF assms(1) pd _ d(1)]) simp
  have 2: "table_inv d2" using find_sharable_same_pcs [OF d(2)] 1 table_inv_same [of d1 d2] by (simp add: same_pcs_def)
  let ?d = "dir_set_position d2 (ws_position (dir_stream dir))"
  have 3: "table_inv ?d" using 2 table_inv_same [of d2 ?d] by (simp add: same_pcs_def dir_set_position_def)
  show ?thesis
  proof (cases "s = serialized_null")
    case False
    then obtain q where q: "last_pc ?d = Some q" "set_last_pc ?d (q\<lparr>pd_scope_decode_offset := s\<rparr>) = Some dir'"
      using d(3) by (auto simp: Let_def)
    show ?thesis by (rule set_last_pc_table [OF 3 q(1) _ q(2)]) simp
  qed (use d(3) 2 in simp)
qed

lemma add_new_pc_offset_table:
  assumes "\<And>k. length (fresh_pcs k) = k" "table_inv dir" "last_pc dir = Some pd" "pd_pc_offset pd < pc" "pc \<le> upper_offset_limit"
    "add_new_pc_offset fresh_pcs dir pc = Some dir'"
  shows "table_inv dir'"
proof -
  have inv: "pcs_inv dir" "dir_pcs_length dir \<le> length (dir_pcs dir)" "dir_pcs dir \<noteq> []"
    using assms(2) by (auto simp: table_inv_def pcs_inv_def live_pcs_def)
  have "pcs_inv dir'" using add_new_pc_offset_inv [OF assms(1) inv(1), of pc] assms(3,4,6) last_pc_live [OF inv(1)] by simp
  moreover have "live_pcs dir' = live_pcs dir @ [new_pc_desc pc 0 0]"
    using add_new_pc_offset_appends [OF assms(1) inv(2,3), of pc] assms(6) by simp
  ultimately show ?thesis using assms(5) by (simp add: table_inv_def new_pc_desc_def)
qed

lemma recorder_step_table:
  assumes "recorder_step fresh_pcs flags env dir dir'" "\<And>k. length (fresh_pcs k) = k" "table_inv dir"
  shows "table_inv dir'"
  using assms(1)
proof cases
  case (step_safepoint pd pc)
  then show ?thesis using add_new_pc_offset_table [OF assms(2,3)] by (simp add: add_safepoint_def)
next
  case (step_non_safepoint pd pc)
  then show ?thesis using add_new_pc_offset_table [OF assms(2,3)] by (simp add: add_non_safepoint_def)
next
  case (step_end pd is_safepoint)
  have inv: "pcs_inv dir" using assms(3) by (simp add: table_inv_def)
  then have "pd = last (live_pcs dir)" using last_pc_live step_end(1) by simp
  then show ?thesis using end_scopes_same [OF inv, of "pd_pc_offset pd" is_safepoint] step_end(2) assms(3)
    by (simp add: table_inv_def)
next
  case (step_size k)
  obtain pd where pd: "last_pc dir = Some pd" using step_size by (cases "last_pc dir") (auto simp: pcs_size_def)
  have le: "pd_pc_offset pd \<le> upper_offset_limit" using pd last_pc_live [of dir] assms(3) by (simp add: table_inv_def)
  show ?thesis
  proof (cases "pd_pc_offset pd = upper_offset_limit")
    case False
    then have "add_new_pc_offset fresh_pcs dir upper_offset_limit = Some dir'" using step_size pd by (auto simp: pcs_size_def)
    from add_new_pc_offset_table [OF assms(2,3) pd _ _ this] show ?thesis using False le by simp
  qed (use step_size pd assms(3) in \<open>simp add: pcs_size_def\<close>)
next
  case (step_values vs r)
  then show ?thesis using table_inv_same [OF serialize_same_pcs(1)] assms(3) by (simp add: create_scope_values_def)
next
  case (step_monitors ms r)
  then show ?thesis using table_inv_same [OF serialize_same_pcs(2)] assms(3) by (simp add: create_monitor_values_def)
qed (use assms(3) in \<open>blast intro: dump_object_pool_table describe_scope_table\<close>)+

lemma new_debug_rec_table:
  assumes "\<And>k. length (fresh_pcs k) = k" "new_debug_rec fresh_pcs env recorder objs recording graal = Some dir"
  shows "table_inv dir \<and> live_pcs dir = [new_pc_desc lower_offset_limit 0 0]"
proof -
  obtain ws where "add_new_pc_offset fresh_pcs \<lparr>dir_writer = \<lparr>dw_stream = ws, dw_recorder = recorder, dw_objs = objs\<rparr>,
       dir_pcs = fresh_pcs 100, dir_pcs_length = 0,
       dir_all_chunks = new_growable_array null_chunk 300 False,
       dir_shared_chunks = new_growable_array null_chunk 30 False,
       dir_next_chunk = 0, dir_prev_safepoint_pc = lower_offset_limit,
       dir_recording_non_safepoints = recording, dir_graal = graal\<rparr> lower_offset_limit = Some dir" (is "add_new_pc_offset _ ?d _ = _")
    using assms(2) by (auto simp: new_debug_rec_def Let_def)
  moreover have "dir_pcs ?d \<noteq> []" using assms(1) [of 100] by auto
  ultimately have d: "(\<exists>pcs. dir = ?d\<lparr>dir_pcs := pcs, dir_pcs_length := dir_pcs_length ?d + 1\<rparr>)
      \<and> dir_pcs_length dir \<le> length (dir_pcs dir) \<and> live_pcs dir = live_pcs ?d @ [new_pc_desc lower_offset_limit 0 0]"
    using add_new_pc_offset_appends [OF assms(1), of ?d lower_offset_limit] by simp
  then have "live_pcs dir = [new_pc_desc lower_offset_limit 0 0]" by (simp add: live_pcs_def)
  then show ?thesis using d by (auto simp: table_inv_def pcs_inv_def new_pc_desc_def upper_offset_limit_def lower_offset_limit_def)
qed


lemma new_debug_rec_inv:
  assumes "allocates (fst env)" "\<And>k. length (fresh_pcs k) = k" "vr_inv (snd env) (or_oops recorder)" "vr_inv (snd env) (or_metadata recorder)"
  shows "succeeds (new_debug_rec fresh_pcs env recorder (mark_visited objs ps) recording graal) (dir_inv (snd env) objs ps)"
proof -
  have wf: "ws_wf (new_write_stream (fst env) (10 * 1024))" "content (new_write_stream (fst env) (10 * 1024)) = []"
    using assms(1) by (simp_all add: ws_wf_def new_write_stream_def allocates_def content_def)
  obtain ws where ws: "write_byte (fst env) (new_write_stream (fst env) (10 * 1024)) 0xFF = Some ws" "ws_wf ws" "content ws = [0xFF]"
    using ws_write_appends [OF assms(1) wf(1), of "0xFF"] wf(2) by (auto simp: write_byte_def succeeds_iff appends_def)
  let ?d = "\<lparr>dir_writer = \<lparr>dw_stream = ws, dw_recorder = recorder, dw_objs = mark_visited objs ps\<rparr>,
       dir_pcs = fresh_pcs 100, dir_pcs_length = 0,
       dir_all_chunks = new_growable_array null_chunk 300 False,
       dir_shared_chunks = new_growable_array null_chunk 30 False,
       dir_next_chunk = 0, dir_prev_safepoint_pc = lower_offset_limit,
       dir_recording_non_safepoints = recording, dir_graal = graal\<rparr>"
  have "dir_pcs ?d \<noteq> []" using assms(2) [of 100] by auto
  then obtain pcs where p: "add_new_pc_offset fresh_pcs ?d lower_offset_limit = Some (?d\<lparr>dir_pcs := pcs, dir_pcs_length := 1\<rparr>)" "1 \<le> length pcs"
    using add_new_pc_offset_appends [OF assms(2), of ?d lower_offset_limit] by (auto simp: succeeds_iff)
  have "chunks_ok [0xFF] (?d\<lparr>dir_pcs := pcs, dir_pcs_length := 1\<rparr>)"
    by (simp add: chunks_ok_def ga_wf_def new_growable_array_def ga_contents_def ordered_by_def)
  then show ?thesis using ws p assms(3,4)
    by (simp add: new_debug_rec_def Let_def dir_inv_def writer_at_def dir_stream_def)
qed


section \<open>Properties\<close>

lemma table_ready:
  assumes "\<And>k. length (fresh_pcs k) = k" "table_inv dir"
  shows "succeeds (pcs_size fresh_pcs dir) (\<lambda>(size, dir'). size = 16 * length (live_pcs dir') \<and> pcs_ok (live_pcs dir')
    \<and> pd_pc_offset (last (live_pcs dir')) = upper_offset_limit)"
proof -
  have inv: "pcs_inv dir" "dir_pcs_length dir \<le> length (dir_pcs dir)" "dir_pcs dir \<noteq> []" "live_pcs dir \<noteq> []"
    using assms(2) by (auto simp: table_inv_def pcs_inv_def live_pcs_def)
  have ok: "pcs_ok (live_pcs d)" if "pcs_inv d" "pd_pc_offset (last (live_pcs d)) = upper_offset_limit" for d
  proof -
    have "live_pcs d \<noteq> []" "pd_pc_offset (hd (live_pcs d)) = lower_offset_limit" using that(1) by (simp_all add: pcs_inv_def)
    then obtain p ps where l: "live_pcs d = p # ps" "pd_pc_offset p = lower_offset_limit" by (cases "live_pcs d") auto
    then have "ps \<noteq> []" using that(2) by (auto simp: lower_offset_limit_def upper_offset_limit_def)
    then have "2 \<le> length (live_pcs d)" by (cases ps) (simp_all add: l)
    then show ?thesis using that(1) l by (simp add: pcs_ok_def pcs_inv_def)
  qed
  let ?pd = "last (live_pcs dir)"
  have len: "length (live_pcs d) = dir_pcs_length d" if "dir_pcs_length d \<le> length (dir_pcs d)" for d
    using that by (simp add: live_pcs_def)
  show ?thesis
  proof (cases "pd_pc_offset ?pd = upper_offset_limit")
    case True
    then show ?thesis using ok inv last_pc_live [OF inv(1)] len by (simp add: pcs_size_def)
  next
    case False
    obtain dir' where d: "add_new_pc_offset fresh_pcs dir upper_offset_limit = Some dir'"
        "dir_pcs_length dir' \<le> length (dir_pcs dir')" "live_pcs dir' = live_pcs dir @ [new_pc_desc upper_offset_limit 0 0]"
      using add_new_pc_offset_appends [OF assms(1) inv(2,3), of upper_offset_limit] by (auto simp: succeeds_iff)
    have "pd_pc_offset ?pd < upper_offset_limit" using False assms(2) by (simp add: table_inv_def)
    then have "pcs_inv dir'" using add_new_pc_offset_inv [OF assms(1) inv(1), of upper_offset_limit] d(1) by simp
    moreover have "pd_pc_offset (last (live_pcs dir')) = upper_offset_limit" by (simp add: d(3) new_pc_desc_def)
    ultimately show ?thesis using ok [of dir'] len [OF d(2)] d(1) last_pc_live [OF inv(1)] False by (simp add: pcs_size_def)
  qed
qed

text \<open>
  C17: whatever calls a compiler makes, in any order that respects the assertions, the live
  descriptors of the recorder begin with the sentinel -1 and have strictly increasing offsets within
  the capacity of the table; the final size query succeeds, adds the upper sentinel when it is
  missing, and leaves a table on which the search of the nmethod is correct.
\<close>

theorem recorder_table_invariant:
  assumes "\<And>k. length (fresh_pcs k) = k" "new_debug_rec fresh_pcs env recorder objs recording graal = Some dir0"
    and "(recorder_step fresh_pcs flags env)\<^sup>*\<^sup>* dir0 dir"
  shows "dir_pcs_length dir \<le> length (dir_pcs dir) \<and> pd_pc_offset (hd (live_pcs dir)) = lower_offset_limit
    \<and> sorted_wrt (\<lambda>p q. pd_pc_offset p < pd_pc_offset q) (live_pcs dir)
    \<and> succeeds (pcs_size fresh_pcs dir) (\<lambda>(size, dir'). size = 16 * length (live_pcs dir') \<and> pcs_ok (live_pcs dir')
        \<and> pd_pc_offset (last (live_pcs dir')) = upper_offset_limit)"
proof -
  have "table_inv dir" using assms(3)
  proof (induction rule: rtranclp_induct)
    case base
    then show ?case using new_debug_rec_table [OF assms(1,2)] by blast
  next
    case (step d d')
    then show ?case using recorder_step_table [OF _ assms(1)] by blast
  qed
  then show ?thesis using table_ready [OF assms(1)] by (simp add: table_inv_def pcs_inv_def)
qed

abbreviation blank_pcs :: "nat \<Rightarrow> pc_desc list" where
  "blank_pcs k \<equiv> replicate k (new_pc_desc 0 0 0)"

abbreviation zero_env :: write_env where
  "zero_env \<equiv> (\<lambda>n. replicate n 0, 0xffff)"

theorem recorder_table_invariant_witness:
  "succeeds (new_debug_rec blank_pcs zero_env (new_oop_recorder True) Map.empty True True \<bind> (\<lambda>dir. add_safepoint blank_pcs dir 5))
    (\<lambda>dir. sorted_wrt (\<lambda>p q. pd_pc_offset p < pd_pc_offset q) (live_pcs dir)
      \<and> succeeds (pcs_size blank_pcs dir) (\<lambda>(size, dir'). pcs_ok (live_pcs dir')))"
proof -
  have len: "length (blank_pcs k) = k" for k by simp
  obtain d0 where d0: "new_debug_rec blank_pcs zero_env (new_oop_recorder True) Map.empty True True = Some d0"
    using new_debug_rec_inv [of zero_env blank_pcs "new_oop_recorder True" Map.empty "[]" True True] new_value_recorder_inv
    by (auto simp: succeeds_iff allocates_def new_oop_recorder_def mark_visited_def [abs_def])
  have t: "table_inv d0" "live_pcs d0 = [new_pc_desc lower_offset_limit 0 0]" using new_debug_rec_table [OF len d0] by blast+
  then have "pcs_inv d0" by (simp add: table_inv_def)
  from last_pc_live [OF this] have "last_pc d0 = Some (new_pc_desc lower_offset_limit 0 0)" by (simp add: t(2))
  moreover obtain d1 where d1: "add_safepoint blank_pcs d0 5 = Some d1"
    using add_new_pc_offset_inv [OF len \<open>pcs_inv d0\<close>, of 5] by (auto simp: succeeds_iff add_safepoint_def t(2) new_pc_desc_def lower_offset_limit_def)
  ultimately have "recorder_step blank_pcs flags zero_env d0 d1" for flags
    by (intro step_safepoint [where pc = 5 and pd = "new_pc_desc lower_offset_limit 0 0"]) (simp_all add: new_pc_desc_def lower_offset_limit_def upper_offset_limit_def)
  then have "(recorder_step blank_pcs flags zero_env)\<^sup>*\<^sup>* d0 d1" for flags by (rule r_into_rtranclp)
  from recorder_table_invariant [OF len d0 this] have "sorted_wrt (\<lambda>p q. pd_pc_offset p < pd_pc_offset q) (live_pcs d1)"
    "succeeds (pcs_size blank_pcs d1) (\<lambda>(size, dir'). pcs_ok (live_pcs dir'))"
    by (auto elim!: succeeds_weaken)
  then show ?thesis using d0 d1 by simp
qed

text \<open>
  C3: ending the scopes of a pc may drop the previous descriptor when it carries the same
  information as the last one.  Afterwards every approximate lookup finds a descriptor with the same
  information as before, and so does every exact lookup at a safepoint or at the pc itself; only the
  exact offset of the dropped descriptor, which is not a safepoint, is lost.
\<close>

theorem end_scopes_keeps_lookups:
  assumes "pcs_inv dir" "pd_pc_offset (last (live_pcs dir)) = pc"
  shows "succeeds (end_scopes dir pc is_safepoint) (\<lambda>dir'. pcs_inv dir' \<and> pd_pc_offset (last (live_pcs dir')) = pc
    \<and> (\<forall>off i. matches (live_pcs dir) off True i \<longrightarrow>
         (\<exists>j. matches (live_pcs dir') off True j \<and> is_same_info (live_pcs dir ! i) (live_pcs dir' ! j)))
    \<and> (\<forall>off. off \<le> dir_prev_safepoint_pc dir \<or> off = pc \<longrightarrow> same_exact (live_pcs dir) (live_pcs dir') off))"
  using end_scopes_same [OF assms, of is_safepoint] unfolding same_near_def .

definition example_table :: debug_rec where
  "example_table = \<lparr>dir_writer = \<lparr>dw_stream = new_write_stream (fst zero_env) 1, dw_recorder = new_oop_recorder True, dw_objs = Map.empty\<rparr>,
     dir_pcs = [new_pc_desc (- 1) 0 0, new_pc_desc 4 9 0, new_pc_desc 8 9 0], dir_pcs_length = 3,
     dir_all_chunks = new_growable_array null_chunk 1 False, dir_shared_chunks = new_growable_array null_chunk 1 False,
     dir_next_chunk = 0, dir_prev_safepoint_pc = 2, dir_recording_non_safepoints = True, dir_graal = True\<rparr>"

theorem end_scopes_keeps_lookups_witness:
  "succeeds (end_scopes example_table 8 True) (\<lambda>dir'. live_pcs dir' = [new_pc_desc (- 1) 0 0, new_pc_desc 8 9 0]
    \<and> (\<exists>j. matches (live_pcs dir') 3 True j \<and> is_same_info (new_pc_desc 4 9 0) (live_pcs dir' ! j)))"
proof -
  have l: "live_pcs example_table = [new_pc_desc (- 1) 0 0, new_pc_desc 4 9 0, new_pc_desc 8 9 0]"
    by (simp add: live_pcs_def example_table_def)
  have "pcs_inv example_table" "pd_pc_offset (last (live_pcs example_table)) = 8"
    unfolding pcs_inv_def l by (simp_all add: new_pc_desc_def lower_offset_limit_def example_table_def)
  note s = end_scopes_keeps_lookups [OF this, of True]
  have "succeeds (end_scopes example_table 8 True) (\<lambda>dir'. live_pcs dir' = [new_pc_desc (- 1) 0 0, new_pc_desc 8 9 0])"
    by (simp add: end_scopes_def example_table_def last_pc_def prev_pc_def array_get_def array_put_def live_pcs_def is_same_info_def new_pc_desc_def)
  moreover have "matches (live_pcs example_table) 3 True 1" by (simp add: matches_def l new_pc_desc_def)
  ultimately show ?thesis using s l by (fastforce simp: succeeds_iff)
qed

end
