(* ===== verification/Scope_Desc.thy ===== *)
theory Scope_Desc
  imports Debug_Info_Rec
begin

text \<open>
  \<^verbatim>\<open>code/scopeDesc.cpp\<close> and the parts of \<^verbatim>\<open>code/nmethod.cpp\<close> that keep the debug information of a compiled
  method: the copies made when the nmethod is built, and the scope descriptors decoded from them.
  The end of the theory composes both sides: what a compiler recorded is what a stack walker reads.

  The oops of an nmethod are named by their handles.  A null object pool is \<^const>\<open>None\<close>; reading an object
  into it stops the model.
\<close>

section \<open>The debug information of an nmethod\<close>

record nmethod =
  nm_method :: handle
  nm_code_begin :: int
  nm_content_size :: int
  nm_scopes_data :: "u1 list"
  nm_scopes_pcs :: "pc_desc list"
  nm_oops :: "handle list"
  nm_metadata :: "handle list"
  nm_has_method_handle_invokes :: bool
  nm_pc_desc_cache :: pc_desc_cache

definition nm_oop_at :: "nmethod \<Rightarrow> jint \<Rightarrow> handle option" where
  "nm_oop_at nm index = (if index = 0 then Some 0 else array_get (nm_oops nm) (unat index - 1))"

definition nm_metadata_at :: "nmethod \<Rightarrow> jint \<Rightarrow> handle option" where
  "nm_metadata_at nm index = (if index = 0 then Some 0 else array_get (nm_metadata nm) (unat index - 1))"

text \<open>The copy of the metadata table of the recorder.\<close>

definition copy_values :: "nmethod \<Rightarrow> handle list \<Rightarrow> nmethod option" where
  "copy_values nm arr = do {
     dest \<leftarrow> for_loop 0 (length arr) (\<lambda>index dest. do { h \<leftarrow> array_get arr index; array_put dest index h }) (nm_metadata nm);
     Some (nm\<lparr>nm_metadata := dest\<rparr>)
   }"

definition copy_scopes_data :: "nmethod \<Rightarrow> u1 list \<Rightarrow> nat \<Rightarrow> nmethod option" where
  "copy_scopes_data nm buffer sz = do {
     dest \<leftarrow> for_loop 0 sz (\<lambda>i dest. do { b \<leftarrow> array_get buffer i; array_put dest i b }) (nm_scopes_data nm);
     Some (nm\<lparr>nm_scopes_data := dest\<rparr>)
   }"

text \<open>The final sentinel is moved down to the end of the code; a gap after it is filled with copies.\<close>

definition copy_scopes_pcs :: "nmethod \<Rightarrow> pc_desc list \<Rightarrow> nat \<Rightarrow> nmethod option" where
  "copy_scopes_pcs nm pcs cnt = do {
     r \<leftarrow> for_return 0 cnt (\<lambda>i _. do {
       pd \<leftarrow> array_get pcs i;
       Some (if is_method_handle_invoke pd then Inl True else Inr ()) }) ();
     let nm = (case r of Inl _ \<Rightarrow> nm\<lparr>nm_has_method_handle_invokes := True\<rparr> | Inr _ \<Rightarrow> nm);
     dest \<leftarrow> for_loop 0 cnt (\<lambda>i dest. do { pd \<leftarrow> array_get pcs i; array_put dest i pd }) (nm_scopes_pcs nm);
     last \<leftarrow> (if cnt = 0 then None else array_get dest (cnt - 1));
     dest \<leftarrow> array_put dest (cnt - 1) (last\<lparr>pd_pc_offset := nm_content_size nm + 1\<rparr>);
     dest \<leftarrow> for_loop (cnt - 1) (length dest - 1) (\<lambda>i dest. do { pd \<leftarrow> array_get dest i; array_put dest (i + 1) pd }) dest;
     Some (nm\<lparr>nm_scopes_pcs := dest\<rparr>)
   }"

section \<open>Scope descriptors\<close>

record scope_desc =
  sd_method :: handle
  sd_bci :: jint
  sd_reexecute :: bool
  sd_rethrow_exception :: bool
  sd_return_oop :: bool
  sd_decode_offset :: jint
  sd_sender_decode_offset :: jint
  sd_locals_decode_offset :: jint
  sd_expressions_decode_offset :: jint
  sd_monitors_decode_offset :: jint
  sd_objects :: "object_value list option"
  sd_code :: nmethod

definition new_debug_reader :: "nmethod \<Rightarrow> jint \<Rightarrow> object_value list option \<Rightarrow> debug_reader" where
  "new_debug_reader code offset obj_pool =
     \<lparr>dr_stream = \<lparr>rs_buffer = nm_scopes_data code, rs_position = unat offset\<rparr>,
      dr_pool = (case obj_pool of None \<Rightarrow> [] | Some pool \<Rightarrow> pool)\<rparr>"

definition decode_object_values :: "nmethod \<Rightarrow> jint \<Rightarrow> object_value list option option" where
  "decode_object_values code decode_offset =
     (if decode_offset = of_nat serialized_null then Some None
      else do {
        (len, stream) \<leftarrow> dr_read_int (new_debug_reader code decode_offset (Some []));
        (_, stream) \<leftarrow> read_values (nm_oop_at code) (nat (sint len)) stream;
        Some (Some (dr_pool stream))
      })"

definition stream_at :: "scope_desc \<Rightarrow> jint \<Rightarrow> debug_reader" where
  "stream_at sd decode_offset = new_debug_reader (sd_code sd) decode_offset (sd_objects sd)"

definition decode_body :: "scope_desc \<Rightarrow> scope_desc option" where
  "decode_body sd =
     (if sd_decode_offset sd = of_nat serialized_null
      then Some (sd\<lparr>sd_sender_decode_offset := of_nat serialized_null, sd_method := nm_method (sd_code sd),
             sd_bci := InvocationEntryBci, sd_locals_decode_offset := of_nat serialized_null,
             sd_expressions_decode_offset := of_nat serialized_null, sd_monitors_decode_offset := of_nat serialized_null\<rparr>)
      else do {
        let stream = stream_at sd (sd_decode_offset sd);
        (sender, stream) \<leftarrow> dr_read_int stream;
        (mth, stream) \<leftarrow> read_method (nm_metadata_at (sd_code sd)) stream;
        (bci, stream) \<leftarrow> read_bci stream;
        (locals, stream) \<leftarrow> dr_read_int stream;
        (expressions, stream) \<leftarrow> dr_read_int stream;
        (monitors, stream) \<leftarrow> dr_read_int stream;
        Some (sd\<lparr>sd_sender_decode_offset := sender, sd_method := mth, sd_bci := bci, sd_locals_decode_offset := locals,
               sd_expressions_decode_offset := expressions, sd_monitors_decode_offset := monitors\<rparr>)
      })"

definition new_scope_desc :: "nmethod \<Rightarrow> jint \<Rightarrow> jint \<Rightarrow> bool \<Rightarrow> bool \<Rightarrow> bool \<Rightarrow> scope_desc option" where
  "new_scope_desc code decode_offset obj_decode_offset reexecute rethrow_exc ret_oop = do {
     objects \<leftarrow> decode_object_values code obj_decode_offset;
     decode_body \<lparr>sd_method = 0, sd_bci = 0, sd_reexecute = reexecute, sd_rethrow_exception = rethrow_exc, sd_return_oop = ret_oop,
       sd_decode_offset = decode_offset, sd_sender_decode_offset = 0, sd_locals_decode_offset = 0,
       sd_expressions_decode_offset = 0, sd_monitors_decode_offset = 0, sd_objects = objects, sd_code = code\<rparr>
   }"

definition new_scope_desc_no_objects :: "nmethod \<Rightarrow> jint \<Rightarrow> bool \<Rightarrow> bool \<Rightarrow> bool \<Rightarrow> scope_desc option" where
  "new_scope_desc_no_objects code decode_offset reexecute rethrow_exc ret_oop =
     new_scope_desc code decode_offset (of_nat serialized_null) reexecute rethrow_exc ret_oop"

definition sender_scope_desc :: "scope_desc \<Rightarrow> scope_desc option" where
  "sender_scope_desc parent =
     decode_body (parent\<lparr>sd_decode_offset := sd_sender_decode_offset parent, sd_reexecute := False,
       sd_rethrow_exception := False, sd_return_oop := False\<rparr>)"

text \<open>Reading through the stream may append objects to the pool that the descriptor holds.\<close>

definition keep_pool :: "scope_desc \<Rightarrow> debug_reader \<Rightarrow> scope_desc option" where
  "keep_pool sd stream = (case sd_objects sd of
     None \<Rightarrow> if dr_pool stream = [] then Some sd else None
   | Some _ \<Rightarrow> Some (sd\<lparr>sd_objects := Some (dr_pool stream)\<rparr>))"

definition decode_scope_values :: "scope_desc \<Rightarrow> jint \<Rightarrow> (scope_value list option \<times> scope_desc) option" where
  "decode_scope_values sd decode_offset =
     (if decode_offset = of_nat serialized_null then Some (None, sd)
      else do {
        (len, stream) \<leftarrow> dr_read_int (stream_at sd decode_offset);
        (result, stream) \<leftarrow> read_values (nm_oop_at (sd_code sd)) (nat (sint len)) stream;
        sd \<leftarrow> keep_pool sd stream;
        Some (Some result, sd)
      })"

definition decode_monitor_values :: "scope_desc \<Rightarrow> jint \<Rightarrow> (monitor_value list option \<times> scope_desc) option" where
  "decode_monitor_values sd decode_offset =
     (if decode_offset = of_nat serialized_null then Some (None, sd)
      else do {
        (len, stream) \<leftarrow> dr_read_int (stream_at sd decode_offset);
        (result, stream) \<leftarrow> read_monitors (nm_oop_at (sd_code sd)) (nat (sint len)) stream;
        sd \<leftarrow> keep_pool sd stream;
        Some (Some result, sd)
      })"

definition sd_locals :: "scope_desc \<Rightarrow> (scope_value list option \<times> scope_desc) option" where
  "sd_locals sd = decode_scope_values sd (sd_locals_decode_offset sd)"

definition sd_expressions :: "scope_desc \<Rightarrow> (scope_value list option \<times> scope_desc) option" where
  "sd_expressions sd = decode_scope_values sd (sd_expressions_decode_offset sd)"

definition sd_monitors :: "scope_desc \<Rightarrow> (monitor_value list option \<times> scope_desc) option" where
  "sd_monitors sd = decode_monitor_values sd (sd_monitors_decode_offset sd)"

definition is_top :: "scope_desc \<Rightarrow> bool" where
  "is_top sd \<longleftrightarrow> sd_sender_decode_offset sd = of_nat serialized_null"

definition sd_sender :: "scope_desc \<Rightarrow> scope_desc option option" where
  "sd_sender sd = (if is_top sd then Some None else map_option Some (sender_scope_desc sd))"

definition scope_desc_of :: "nmethod \<Rightarrow> pc_desc \<Rightarrow> scope_desc option" where
  "scope_desc_of nm pd = new_scope_desc nm (of_nat (pd_scope_decode_offset pd)) (of_nat (pd_obj_decode_offset pd))
     (should_reexecute pd) (rethrow_exception pd) (return_oop pd)"

text \<open>A missing descriptor is a failed guarantee.\<close>

definition scope_desc_at :: "int \<Rightarrow> nmethod \<Rightarrow> int \<Rightarrow> (scope_desc \<times> nmethod) option" where
  "scope_desc_at before nm pc = do {
     (r, cache) \<leftarrow> pc_desc_at before (nm_scopes_pcs nm) (nm_code_begin nm) (nm_pc_desc_cache nm) pc;
     i \<leftarrow> r;
     pd \<leftarrow> array_get (nm_scopes_pcs nm) i;
     let nm = nm\<lparr>nm_pc_desc_cache := cache\<rparr>;
     sd \<leftarrow> scope_desc_of nm pd;
     Some (sd, nm)
   }"

text \<open>The method and the bci alone.\<close>

definition simple_scope_desc :: "int \<Rightarrow> nmethod \<Rightarrow> int \<Rightarrow> (handle \<times> jint) option" where
  "simple_scope_desc before nm pc = do {
     (r, cache) \<leftarrow> pc_desc_at before (nm_scopes_pcs nm) (nm_code_begin nm) (nm_pc_desc_cache nm) pc;
     i \<leftarrow> r;
     pd \<leftarrow> array_get (nm_scopes_pcs nm) i;
     let buffer = new_debug_reader nm (of_nat (pd_scope_decode_offset pd)) None;
     (ignore_sender, buffer) \<leftarrow> dr_read_int buffer;
     (mth, buffer) \<leftarrow> read_method (nm_metadata_at nm) buffer;
     (bci, buffer) \<leftarrow> read_bci buffer;
     Some (mth, bci)
   }"

section \<open>The number of chunks\<close>

definition chunks_len :: "debug_rec \<Rightarrow> nat" where
  "chunks_len dir = ga_len (dir_all_chunks dir) + ga_len (dir_shared_chunks dir)"

lemma chunks_len_room: "chunks_len dir < 2 ^ 30 \<Longrightarrow> chunk_room dir"
  unfolding chunks_len_def chunk_room_def by linarith

lemma ga_append_len: "ga_append dflt ga e = Some (i, ga') \<Longrightarrow> ga_len ga' = Suc (ga_len ga)"
  by (auto simp: ga_append_def ga_grow_def Let_def split: if_splits elem_ref.splits option.splits)

lemma insert_binary_len:
  assumes "insert_binary dflt ga k e = Some ga'"
  shows "ga_len ga' = Suc (ga_len ga)"
proof (cases "ga_len ga = k")
  case True
  then show ?thesis using assms by (auto simp: insert_binary_def Let_def dest: ga_append_len)
next
  case False
  then obtain i g d where "ga_append dflt ga (Slot (ga_len ga - 1)) = Some (i, g)" "ga_at_put (g\<lparr>ga_data := d\<rparr>) k e = Some ga'"
    using assms by (auto simp: insert_binary_def Let_def split: if_splits)
  then show ?thesis using ga_append_len by (auto simp: ga_at_put_def split: if_splits)
qed

lemma find_insert_binary_len: "find_insert_binary cmp dflt ga e = Some (m, ga') \<Longrightarrow> ga_len ga' \<le> Suc (ga_len ga)"
  unfolding find_insert_binary_def by (auto split: if_splits dest: insert_binary_len)

lemma find_sharable_len: "find_sharable_decode_offset flags dir off = Some (s, dir') \<Longrightarrow> chunks_len dir' \<le> Suc (chunks_len dir)"
  by (auto simp: find_sharable_decode_offset_def new_dir_chunk_def chunks_len_def Let_def split: if_splits option.splits
      dest!: ga_append_len find_insert_binary_len)

lemma share_piece_len:
  assumes "share_piece flags dir off = Some (s, dir')"
  shows "chunks_len dir' \<le> Suc (chunks_len dir)"
proof -
  obtain t d where d: "find_sharable_decode_offset flags dir off = Some (t, d)" "dir' = dir_set_position d off \<or> dir' = d"
    using assms by (auto simp: share_piece_def split: if_splits)
  have "chunks_len (dir_set_position d off) = chunks_len d" by (simp add: chunks_len_def dir_set_position_def)
  then show ?thesis using find_sharable_len [OF d(1)] d(2) by auto
qed

lemma serialize_len:
  "serialize_scope_values flags env dir vs = Some (r, dir') \<Longrightarrow> chunks_len dir' \<le> Suc (chunks_len dir)"
  "serialize_monitor_values flags env dir ms = Some (r, dir') \<Longrightarrow> chunks_len dir' \<le> Suc (chunks_len dir)"
proof -
  have w: "chunks_len (dir\<lparr>dir_writer := st\<rparr>) = chunks_len dir" for st by (simp add: chunks_len_def)
  show "serialize_scope_values flags env dir vs = Some (r, dir') \<Longrightarrow> chunks_len dir' \<le> Suc (chunks_len dir)"
    "serialize_monitor_values flags env dir ms = Some (r, dir') \<Longrightarrow> chunks_len dir' \<le> Suc (chunks_len dir)"
    unfolding serialize_scope_values_def serialize_monitor_values_def
    by (auto simp: w Let_def split: option.splits if_splits dest!: share_piece_len)
qed

section \<open>What is stored is decoded\<close>

definition nonempty :: "'a list option \<Rightarrow> 'a list option" where
  "nonempty xs = (if xs = Some [] then None else xs)"

text \<open>The nmethod holds what the recorder holds: its bytes and its tables, or more.\<close>

definition nm_holds :: "nmethod \<Rightarrow> debug_rec \<Rightarrow> bool" where
  "nm_holds nm dir \<longleftrightarrow> length (nm_scopes_data nm) < 2 ^ 31
     \<and> take (length (content (dir_stream dir))) (nm_scopes_data nm) = content (dir_stream dir)
     \<and> agrees (nm_oop_at nm) (dir_writer dir)
     \<and> (\<forall>i h. or_metadata_at (dw_recorder (dir_writer dir)) i = Some h \<longrightarrow> nm_metadata_at nm (of_nat i) = Some h)"

definition the_default :: "'a list option \<Rightarrow> 'a list" where
  "the_default xs = (case xs of None \<Rightarrow> [] | Some ys \<Rightarrow> ys)"

lemma the_default_Some [simp]: "the_default (Some ys) = ys"
  by (simp add: the_default_def)

lemma nm_holds_grows:
  assumes "nm_holds nm dir'" "dir_grows dir dir'"
  shows "nm_holds nm dir"
proof -
  obtain bs where bs: "content (dir_stream dir') = content (dir_stream dir) @ bs" using assms(2) by (auto simp: dir_grows_def)
  have "take (length (content (dir_stream dir))) (take (length (content (dir_stream dir'))) (nm_scopes_data nm)) = content (dir_stream dir)"
    using assms(1) bs by (simp add: nm_holds_def)
  then show ?thesis using assms bs by (simp add: nm_holds_def dir_grows_def agrees_def min_def)
qed

definition pool_of :: "scope_desc \<Rightarrow> object_value list" where
  "pool_of sd = (case sd_objects sd of None \<Rightarrow> [] | Some pool \<Rightarrow> pool)"

lemma keep_pool_same: "dr_pool rd = pool_of sd \<Longrightarrow> keep_pool sd rd = Some sd"
  by (simp add: keep_pool_def pool_of_def split: option.splits)

lemma stored_offset:
  assumes "stored_at (content (dir_stream dir)) piece r" "nm_holds nm dir"
  shows "(of_nat r :: jint) \<noteq> of_nat serialized_null" "unat (of_nat r :: jint) = r"
    "at_bytes \<lparr>rs_buffer = nm_scopes_data nm, rs_position = r\<rparr> piece"
proof -
  have "length (content (dir_stream dir)) \<le> length (nm_scopes_data nm)"
    using assms(2) by (auto simp: nm_holds_def dest: arg_cong [of _ _ length])
  then have "r < 2 ^ 32" "0 < r" using assms by (auto simp: stored_at_def nm_holds_def)
  then show u: "unat (of_nat r :: jint) = r" by (simp add: unat_of_nat)
  show "(of_nat r :: jint) \<noteq> of_nat serialized_null" using u \<open>0 < r\<close> by (auto simp: serialized_null_def)
  show "at_bytes \<lparr>rs_buffer = nm_scopes_data nm, rs_position = r\<rparr> piece"
    using assms by (intro stored_at_bytes) (auto simp: nm_holds_def)
qed

lemma jint_length: "n < 2 ^ 31 \<Longrightarrow> nat (sint (of_nat n :: jint)) = n"
  by (simp add: signed_of_nat signed_take_bit_int_eq_self)

definition values_stored :: "(nat \<rightharpoonup> object_value) \<Rightarrow> nat list \<Rightarrow> scope_value list option \<Rightarrow> nat \<Rightarrow> debug_rec \<Rightarrow> bool" where
  "values_stored objs ps vs r dir \<longleftrightarrow> (case nonempty vs of
     None \<Rightarrow> r = serialized_null
   | Some xs \<Rightarrow> length xs < 2 ^ 31 \<and> (\<exists>bs. stored_at (content (dir_stream dir)) (unsigned5 (of_nat (length xs)) @ bs) r
       \<and> reads_back objs ps [] xs bs (dir_writer dir)))"

definition monitors_stored :: "(nat \<rightharpoonup> object_value) \<Rightarrow> nat list \<Rightarrow> monitor_value list option \<Rightarrow> nat \<Rightarrow> debug_rec \<Rightarrow> bool" where
  "monitors_stored objs ps ms r dir \<longleftrightarrow> (case nonempty ms of
     None \<Rightarrow> r = serialized_null
   | Some xs \<Rightarrow> length xs < 2 ^ 31 \<and> (\<exists>bs. stored_at (content (dir_stream dir)) (unsigned5 (of_nat (length xs)) @ bs) r
       \<and> monitors_back objs ps xs bs (dir_writer dir)))"

lemma values_decoded:
  assumes "values_stored objs ps vs r dir" "nm_holds nm dir" "sd_code sd = nm" "pool_matches objs ps (pool_of sd)"
  shows "decode_scope_values sd (of_nat r) = Some (map_option (map (reread ps)) (nonempty vs), sd)"
proof (cases "nonempty vs")
  case None
  then show ?thesis using assms(1) by (simp add: values_stored_def decode_scope_values_def)
next
  case (Some xs)
  then obtain bs where bs: "length xs < 2 ^ 31" "stored_at (content (dir_stream dir)) (unsigned5 (of_nat (length xs)) @ bs) r"
    "reads_back objs ps [] xs bs (dir_writer dir)" using assms(1) by (auto simp: values_stored_def)
  note o = stored_offset [OF bs(2) assms(2)]
  let ?rd = "stream_at sd (of_nat r)"
  have rd: "dr_stream ?rd = \<lparr>rs_buffer = nm_scopes_data nm, rs_position = r\<rparr>" "dr_pool ?rd = pool_of sd"
    using o(2) assms(3) by (simp_all add: stream_at_def new_debug_reader_def pool_of_def)
  have at: "at_bytes (dr_stream ?rd) (unsigned5 (of_nat (length xs)))"
    "at_bytes (advance (dr_stream ?rd) (length (unsigned5 (of_nat (length xs) :: jint)))) bs"
    using o(3) unfolding rd at_bytes_append by blast+
  let ?rd1 = "forward ?rd (length (unsigned5 (of_nat (length xs) :: jint))) (pool_of sd)"
  have 1: "dr_read_int ?rd = Some (of_nat (length xs), ?rd1)" using dr_read_int_bytes [OF at(1)] rd(2) by simp
  obtain pool where 2: "read_values (nm_oop_at nm) (length xs) ?rd1 = Some (map (reread ps) xs, forward ?rd1 (length bs) pool)"
    "pool_matches objs ps pool" "take (length ps) pool = pool_of sd"
    using bs(3) [unfolded reads_back_def, rule_format, of ?rd1 "nm_oop_at nm"] at(2) assms(2,4)
    by (auto simp: nm_holds_def)
  have "pool = pool_of sd" using 2(2,3) by (simp add: pool_matches_def)
  then have "keep_pool sd (forward ?rd1 (length bs) pool) = Some sd" by (intro keep_pool_same) simp
  then show ?thesis using 1 2(1) o(1) assms(3) Some
    by (simp add: decode_scope_values_def jint_length [OF bs(1)] del: forward_simps)
qed

lemma monitors_decoded:
  assumes "monitors_stored objs ps ms r dir" "nm_holds nm dir" "sd_code sd = nm" "pool_matches objs ps (pool_of sd)"
  shows "decode_monitor_values sd (of_nat r) = Some (map_option (map (reread_monitor ps)) (nonempty ms), sd)"
proof (cases "nonempty ms")
  case None
  then show ?thesis using assms(1) by (simp add: monitors_stored_def decode_monitor_values_def)
next
  case (Some xs)
  then obtain bs where bs: "length xs < 2 ^ 31" "stored_at (content (dir_stream dir)) (unsigned5 (of_nat (length xs)) @ bs) r"
    "monitors_back objs ps xs bs (dir_writer dir)" using assms(1) by (auto simp: monitors_stored_def)
  note o = stored_offset [OF bs(2) assms(2)]
  let ?rd = "stream_at sd (of_nat r)"
  have rd: "dr_stream ?rd = \<lparr>rs_buffer = nm_scopes_data nm, rs_position = r\<rparr>" "dr_pool ?rd = pool_of sd"
    using o(2) assms(3) by (simp_all add: stream_at_def new_debug_reader_def pool_of_def)
  have at: "at_bytes (dr_stream ?rd) (unsigned5 (of_nat (length xs)))"
    "at_bytes (advance (dr_stream ?rd) (length (unsigned5 (of_nat (length xs) :: jint)))) bs"
    using o(3) unfolding rd at_bytes_append by blast+
  let ?rd1 = "forward ?rd (length (unsigned5 (of_nat (length xs) :: jint))) (pool_of sd)"
  have 1: "dr_read_int ?rd = Some (of_nat (length xs), ?rd1)" using dr_read_int_bytes [OF at(1)] rd(2) by simp
  have 2: "read_monitors (nm_oop_at nm) (length xs) ?rd1 = Some (map (reread_monitor ps) xs, forward ?rd1 (length bs) (pool_of sd))"
    using bs(3) [unfolded monitors_back_def, rule_format, of ?rd1 "nm_oop_at nm"] at(2) assms(2,4)
    by (auto simp: nm_holds_def)
  have "keep_pool sd (forward ?rd1 (length bs) (pool_of sd)) = Some sd" by (intro keep_pool_same) simp
  then show ?thesis using 1 2 o(1) assms(3) Some
    by (simp add: decode_monitor_values_def jint_length [OF bs(1)] del: forward_simps)
qed


lemma values_stored_grows:
  assumes "values_stored objs ps vs r dir" "dir_grows dir dir'"
  shows "values_stored objs ps vs r dir'"
proof -
  have "reads_back objs ps [] xs bs (dir_writer dir')" if "reads_back objs ps [] xs bs (dir_writer dir)" for xs bs
    using that assms(2) unfolding reads_back_def by (auto simp: dir_grows_def agrees_def)
  then show ?thesis using assms stored_at_grows
    by (fastforce simp: values_stored_def dir_grows_def split: option.splits)
qed

lemma monitors_stored_grows:
  assumes "monitors_stored objs ps ms r dir" "dir_grows dir dir'"
  shows "monitors_stored objs ps ms r dir'"
proof -
  have "monitors_back objs ps xs bs (dir_writer dir')" if "monitors_back objs ps xs bs (dir_writer dir)" for xs bs
    using that assms(2) unfolding monitors_back_def by (auto simp: dir_grows_def agrees_def)
  then show ?thesis using assms stored_at_grows
    by (fastforce simp: monitors_stored_def dir_grows_def split: option.splits)
qed

text \<open>The header of a scope.\<close>

lemma read_forward:
  "at_bytes (advance (dr_stream rd) k) (unsigned5 v) \<Longrightarrow> dr_read_int (forward rd k pool) = Some (v, forward rd (k + length (unsigned5 v)) pool)"
  using dr_read_int_bytes [of "forward rd k pool" v] by simp

lemma header_decoded:
  assumes "stored_at (content (dir_stream dir)) (header_bytes sender mi bci l e m) r" "nm_holds nm dir"
    "or_metadata_at (dw_recorder (dir_writer dir)) mi = Some h" "sd_code sd = nm" "sd_decode_offset sd = of_nat r"
  shows "decode_body sd = Some (sd\<lparr>sd_sender_decode_offset := of_nat sender, sd_method := h, sd_bci := bci,
    sd_locals_decode_offset := of_nat l, sd_expressions_decode_offset := of_nat e, sd_monitors_decode_offset := of_nat m\<rparr>)"
proof -
  note o = stored_offset [OF assms(1,2)]
  let ?rd = "stream_at sd (of_nat r)"
  have rd: "dr_stream ?rd = \<lparr>rs_buffer = nm_scopes_data nm, rs_position = r\<rparr>"
    using o(2) assms(4) by (simp add: stream_at_def new_debug_reader_def)
  have mh: "nm_metadata_at nm (of_nat mi) = Some h" using assms(2,3) by (simp add: nm_holds_def)
  note at = o(3) [folded rd, unfolded header_bytes_def at_bytes_append advance_advance]
  let ?f = "\<lambda>k. forward ?rd k (dr_pool ?rd)" and ?n = "\<lambda>v :: jint. length (unsigned5 v)"
  have "dr_read_int ?rd = Some (of_nat sender, ?f (?n (of_nat sender)))" using at by (intro dr_read_int_bytes) blast
  moreover have "dr_read_int (?f (?n (of_nat sender))) = Some (of_nat mi, ?f (?n (of_nat sender) + ?n (of_nat mi)))"
    using at by (intro read_forward) blast
  moreover have "dr_read_int (?f (?n (of_nat sender) + ?n (of_nat mi))) = Some (bci - InvocationEntryBci,
      ?f (?n (of_nat sender) + ?n (of_nat mi) + ?n (bci - InvocationEntryBci)))" using at by (intro read_forward) blast
  moreover have "dr_read_int (?f (?n (of_nat sender) + ?n (of_nat mi) + ?n (bci - InvocationEntryBci))) = Some (of_nat l,
      ?f (?n (of_nat sender) + ?n (of_nat mi) + ?n (bci - InvocationEntryBci) + ?n (of_nat l)))" using at by (intro read_forward) blast
  moreover have "dr_read_int (?f (?n (of_nat sender) + ?n (of_nat mi) + ?n (bci - InvocationEntryBci) + ?n (of_nat l))) = Some (of_nat e,
      ?f (?n (of_nat sender) + ?n (of_nat mi) + ?n (bci - InvocationEntryBci) + ?n (of_nat l) + ?n (of_nat e)))" using at by (intro read_forward) blast
  moreover have "\<exists>k. dr_read_int (?f (?n (of_nat sender) + ?n (of_nat mi) + ?n (bci - InvocationEntryBci) + ?n (of_nat l) + ?n (of_nat e)))
      = Some (of_nat m, ?f k)" by (rule exI, rule read_forward) (use at in blast)
  ultimately show ?thesis using o(1) mh assms(4,5)
    by (auto simp: decode_body_def Let_def read_method_def read_bci_def)
qed

section \<open>The object pool\<close>

lemma clear_visited_all:
  "set os \<subseteq> dom m \<Longrightarrow> clear_visited m (map ObjectRef os)
    = Some (\<lambda>p. if p \<in> set os then map_option (\<lambda>ov. ov\<lparr>ov_visited := False\<rparr>) (m p) else m p)"
  by (induction os) (auto simp: ov_set_visited_def fun_eq_iff)

lemma clear_visited_mark:
  assumes "dom objs = set os"
  shows "clear_visited (mark_visited objs ps) (map ObjectRef os) = Some (mark_visited objs [])"
proof -
  have "set os \<subseteq> dom (mark_visited objs ps)" using assms by (auto simp: mark_visited_def dom_def)
  moreover have "objs p = None" if "p \<notin> set os" for p using that assms by blast
  ultimately show ?thesis by (subst clear_visited_all) (auto simp: mark_visited_def fun_eq_iff option.map_comp comp_def)
qed

definition pool_stored :: "(nat \<rightharpoonup> object_value) \<Rightarrow> nat list \<Rightarrow> nat list \<Rightarrow> nat \<Rightarrow> debug_rec \<Rightarrow> bool" where
  "pool_stored objs order os r dir \<longleftrightarrow> set order = set os \<and> (if os = [] then r = serialized_null \<and> order = []
     else length os < 2 ^ 31 \<and> (\<exists>bs. stored_at (content (dir_stream dir)) (unsigned5 (of_nat (length os)) @ bs) r
       \<and> reads_back objs [] order (map ObjectRef os) bs (dir_writer dir)))"

lemma pool_stored_grows:
  assumes "pool_stored objs order os r dir" "dir_grows dir dir'"
  shows "pool_stored objs order os r dir'"
proof -
  have "reads_back objs [] order (map ObjectRef os) bs (dir_writer dir')" if "reads_back objs [] order (map ObjectRef os) bs (dir_writer dir)" for bs
    using that assms(2) unfolding reads_back_def by (auto simp: dir_grows_def agrees_def)
  then show ?thesis using assms stored_at_grows by (fastforce simp: pool_stored_def dir_grows_def)
qed

lemma pool_decoded:
  assumes "pool_stored objs order os r dir" "nm_holds nm dir"
  obtains pool where "decode_object_values nm (of_nat r) = Some (nonempty (Some pool))" "pool_matches objs order pool"
    "map Some pool = map (\<lambda>p. map_option (reread_object order) (objs p)) order" "pool = [] \<longleftrightarrow> os = []"
proof (cases "os = []")
  case True
  then show ?thesis using assms(1) that [of "[]"] by (simp add: pool_stored_def decode_object_values_def nonempty_def pool_matches_def)
next
  case False
  then obtain bs where bs: "length os < 2 ^ 31" "stored_at (content (dir_stream dir)) (unsigned5 (of_nat (length os)) @ bs) r"
    "reads_back objs [] order (map ObjectRef os) bs (dir_writer dir)" "set order = set os" using assms(1) by (auto simp: pool_stored_def)
  note o = stored_offset [OF bs(2) assms(2)]
  let ?rd = "new_debug_reader nm (of_nat r) (Some [])"
  have rd: "dr_stream ?rd = \<lparr>rs_buffer = nm_scopes_data nm, rs_position = r\<rparr>" "dr_pool ?rd = []"
    using o(2) by (simp_all add: new_debug_reader_def)
  have at: "at_bytes (dr_stream ?rd) (unsigned5 (of_nat (length os)))"
    "at_bytes (advance (dr_stream ?rd) (length (unsigned5 (of_nat (length os) :: jint)))) bs"
    using o(3) unfolding rd at_bytes_append by blast+
  let ?rd1 = "forward ?rd (length (unsigned5 (of_nat (length os) :: jint))) []"
  have 1: "dr_read_int ?rd = Some (of_nat (length os), ?rd1)" using dr_read_int_bytes [OF at(1)] rd(2) by simp
  obtain pool where 2: "read_values (nm_oop_at nm) (length os) ?rd1 = Some (map (reread order) (map ObjectRef os), forward ?rd1 (length bs) pool)"
    "pool_matches objs order pool"
    "\<forall>k < length order. Some (pool ! k) = map_option (reread_object order) (objs (order ! k))"
    using bs(3) [unfolded reads_back_def, rule_format, of ?rd1 "nm_oop_at nm"] at(2) assms(2)
    by (auto simp: nm_holds_def pool_matches_def)
  have len: "length pool = length order" using 2(2) by (simp add: pool_matches_def)
  then have ne: "pool \<noteq> []" using bs(4) False by auto
  have "map Some pool = map (\<lambda>p. map_option (reread_object order) (objs p)) order"
    using 2(3) len by (intro nth_equalityI) auto
  moreover have "decode_object_values nm (of_nat r) = Some (nonempty (Some pool))"
    using 1 2(1) o(1) ne by (simp add: decode_object_values_def jint_length [OF bs(1)] nonempty_def del: map_map forward_simps) simp
  ultimately show ?thesis using 2(2) ne False by (intro that) simp_all
qed


section \<open>Recording\<close>

lemma create_scope_values_stored:
  assumes "allocates (fst env)" "graph_ok (snd env) objs" "dir_inv (snd env) objs ps dir" "chunks_len dir < 2 ^ 30"
    "distinct ps" "dom objs = set ps" "length (the_default vs) < 2 ^ 31" "\<forall>v \<in> set (the_default vs). sv_ok (snd env) objs v"
  shows "succeeds (create_scope_values flags env dir vs) (\<lambda>(r, dir'). dir_inv (snd env) objs ps dir' \<and> dir_grows dir dir' \<and> same_pcs dir dir'
    \<and> chunks_len dir' \<le> Suc (chunks_len dir) \<and> values_stored objs ps vs r dir')"
proof (cases "nonempty vs")
  case None
  then show ?thesis using assms(3)
    by (auto simp: create_scope_values_def serialize_scope_values_def values_stored_def nonempty_def dir_grows_refl same_pcs_def split: if_splits option.splits)
next
  case (Some xs)
  then have vs: "vs = Some xs" "xs \<noteq> []" by (auto simp: nonempty_def split: if_splits)
  from serialize_scope_values_sound [OF assms(1-3) chunks_len_room [OF assms(4)] assms(5) _ vs(2), of flags] assms(6,8)
  obtain r dir' qs bs where s: "serialize_scope_values flags env dir (Some xs) = Some (r, dir')"
    "dir_inv (snd env) objs (ps @ qs) dir'" "dir_grows dir dir'" "same_pcs dir dir'" "distinct (ps @ qs)" "set qs \<subseteq> dom objs"
    "stored_at (content (dir_stream dir')) (unsigned5 (of_nat (length xs)) @ bs) r" "reads_back objs ps qs xs bs (dir_writer dir')"
    by (auto simp: succeeds_iff vs)
  have "set qs \<inter> set ps = {}" using s(5) by auto
  then have "set qs = {}" using s(6) assms(6) by (simp add: Int_absorb2)
  then have "qs = []" by simp
  then show ?thesis using s vs Some assms(7) serialize_len(1) [OF s(1)]
    by (auto simp: create_scope_values_def values_stored_def)
qed


lemma create_monitor_values_stored:
  assumes "allocates (fst env)" "graph_ok (snd env) objs" "dir_inv (snd env) objs ps dir" "chunks_len dir < 2 ^ 30"
    "distinct ps" "dom objs = set ps" "length (the_default ms) < 2 ^ 31" "\<forall>m \<in> set (the_default ms). sv_ok (snd env) objs (mv_owner m)"
  shows "succeeds (create_monitor_values flags env dir ms) (\<lambda>(r, dir'). dir_inv (snd env) objs ps dir' \<and> dir_grows dir dir' \<and> same_pcs dir dir'
    \<and> chunks_len dir' \<le> Suc (chunks_len dir) \<and> monitors_stored objs ps ms r dir')"
proof (cases "nonempty ms")
  case None
  then show ?thesis using assms(3)
    by (auto simp: create_monitor_values_def serialize_monitor_values_def monitors_stored_def nonempty_def dir_grows_refl same_pcs_def split: if_splits option.splits)
next
  case (Some xs)
  then have ms: "ms = Some xs" "xs \<noteq> []" by (auto simp: nonempty_def split: if_splits)
  have "\<forall>m \<in> set xs. sv_known (snd env) objs ps (mv_owner m)"
    using assms(6,8) ms(1) by (auto simp: sv_known_def sv_ok_def)
  from serialize_monitor_values_sound [OF assms(1-3) chunks_len_room [OF assms(4)] assms(5) ms(2) this, of flags]
  obtain r dir' bs where s: "serialize_monitor_values flags env dir (Some xs) = Some (r, dir')"
    "dir_inv (snd env) objs ps dir'" "dir_grows dir dir'" "same_pcs dir dir'"
    "stored_at (content (dir_stream dir')) (unsigned5 (of_nat (length xs)) @ bs) r" "monitors_back objs ps xs bs (dir_writer dir')"
    by (auto simp: succeeds_iff)
  show ?thesis using s ms Some assms(7) serialize_len(2) [OF s(1)]
    by (auto simp: create_monitor_values_def monitors_stored_def)
qed

lemma same_pcs_last: "same_pcs dir dir' \<Longrightarrow> last_pc dir' = last_pc dir"
  by (simp add: same_pcs_def last_pc_def)

lemma dump_object_pool_stored:
  assumes "allocates (fst env)" "graph_ok (snd env) objs" "dir_inv (snd env) objs ps dir" "chunks_len dir < 2 ^ 30"
    "dom objs = set os" "length os < 2 ^ 31" "last_pc dir = Some pd"
  shows "succeeds (dump_object_pool flags env dir (Some (map ObjectRef os))) (\<lambda>dir'. \<exists>order pd'. dir_inv (snd env) objs order dir'
    \<and> dir_grows dir dir' \<and> chunks_len dir' \<le> Suc (chunks_len dir) \<and> distinct order \<and> dom objs = set order
    \<and> last_pc dir' = Some pd' \<and> pd_scope_decode_offset pd' = pd_scope_decode_offset pd
    \<and> pool_stored objs order os (pd_obj_decode_offset pd') dir')"
proof -
  let ?dir = "dir\<lparr>dir_writer := (dir_writer dir)\<lparr>dw_objs := mark_visited objs []\<rparr>\<rparr>"
  have inv: "dir_inv (snd env) objs [] ?dir" "dw_objs (dir_writer dir) = mark_visited objs ps"
    using assms(3) by (simp_all add: dir_inv_def writer_at_def dir_stream_def chunks_ok_def)
  have len: "chunks_len ?dir = chunks_len dir" by (simp add: chunks_len_def)
  have g: "dir_grows dir ?dir" by (simp add: dir_grows_def dir_stream_def)
  obtain r d order where d: "serialize_scope_values flags env ?dir (Some (map ObjectRef os)) = Some (r, d)" "dir_inv (snd env) objs order d"
    "dir_grows ?dir d" "same_pcs ?dir d" "distinct order" "dom objs = set order" "pool_stored objs order os r d"
  proof (cases "os = []")
    case True
    then show ?thesis using inv(1) assms(5) by (intro that [of serialized_null ?dir "[]"])
      (simp_all add: serialize_scope_values_def dir_grows_refl same_pcs_def pool_stored_def)
  next
    case False
    have room: "chunk_room ?dir" using assms(4) len chunks_len_room [of ?dir] by simp
    obtain r d qs bs where s: "serialize_scope_values flags env ?dir (Some (map ObjectRef os)) = Some (r, d)" "dir_inv (snd env) objs qs d"
      "dir_grows ?dir d" "same_pcs ?dir d" "distinct qs" "set qs \<subseteq> dom objs" "\<forall>p. ObjectRef p \<in> set (map ObjectRef os) \<longrightarrow> p \<in> set qs"
      "stored_at (content (dir_stream d)) (unsigned5 (of_nat (length os)) @ bs) r" "reads_back objs [] qs (map ObjectRef os) bs (dir_writer d)"
      using serialize_scope_values_sound [OF assms(1,2) inv(1) room, of "map ObjectRef os" flags] False assms(5)
      by (auto simp: succeeds_iff sv_ok_def)
    have "set qs = set os" using s(6,7) assms(5) by auto
    then show ?thesis using s False assms(5,6) by (intro that [of r d qs]) (auto simp: pool_stored_def)
  qed
  let ?pd = "pd\<lparr>pd_obj_decode_offset := r\<rparr>" and ?d = "d\<lparr>dir_pcs := (dir_pcs d)[dir_pcs_length d - 1 := pd\<lparr>pd_obj_decode_offset := r\<rparr>]\<rparr>"
  have "0 < dir_pcs_length d" "dir_pcs_length d \<le> length (dir_pcs d)" using d(2) by (simp_all add: dir_inv_def)
  note s = set_last_pc_sets [OF this, of ?pd]
  have "dump_object_pool flags env dir (Some (map ObjectRef os)) = Some ?d"
    using d(1) s(1) assms(7) clear_visited_mark [OF assms(5), of ps] by (simp add: dump_object_pool_def inv(2))
  moreover have "dir_grows dir ?d" using dir_grows_trans [OF g d(3)] by (simp add: dir_grows_def dir_stream_def)
  moreover have "dir_inv (snd env) objs order ?d" using d(2) by (simp add: only_pcs_inv)
  moreover have "chunks_len ?d \<le> Suc (chunks_len dir)" using serialize_len(1) [OF d(1)] by (simp add: chunks_len_def)
  moreover have "pool_stored objs order os r ?d" using d(7) by (cases "os = []") (auto simp: pool_stored_def dir_stream_def)
  ultimately show ?thesis using s(2) d(5,6) by auto
qed

section \<open>Recorded and decoded\<close>

text \<open>The calls a compiler makes for one scope with its pool of objects.\<close>

definition record_scope ::
    "share_flags \<Rightarrow> write_env \<Rightarrow> debug_rec \<Rightarrow> nat list \<Rightarrow> scope_value list option \<Rightarrow> scope_value list option
      \<Rightarrow> monitor_value list option \<Rightarrow> handle \<Rightarrow> jint \<Rightarrow> scope_flags \<Rightarrow> debug_rec option" where
  "record_scope flags env dir os locals expressions monitors h bci sf = do {
     dir \<leftarrow> dump_object_pool flags env dir (Some (map ObjectRef os));
     (l, dir) \<leftarrow> create_scope_values flags env dir locals;
     (e, dir) \<leftarrow> create_scope_values flags env dir expressions;
     (m, dir) \<leftarrow> create_monitor_values flags env dir monitors;
     describe_scope flags env dir h bci sf l e m
   }"

lemma record_scope_stored:
  assumes "allocates (fst env)" "graph_ok (snd env) objs" "dir_inv (snd env) objs ps dir" "chunks_len dir + 4 < 2 ^ 30"
    and "dom objs = set os" "length os < 2 ^ 31" "last_pc dir = Some pd" "h = 0 \<or> is_real (snd env) h"
    and "length (the_default locals) < 2 ^ 31" "\<forall>v \<in> set (the_default locals). sv_ok (snd env) objs v"
    and "length (the_default expressions) < 2 ^ 31" "\<forall>v \<in> set (the_default expressions). sv_ok (snd env) objs v"
    and "length (the_default monitors) < 2 ^ 31" "\<forall>m \<in> set (the_default monitors). sv_ok (snd env) objs (mv_owner m)"
  shows "succeeds (record_scope flags env dir os locals expressions monitors h bci sf) (\<lambda>dir'. \<exists>order pd' mi l e m.
    dir_inv (snd env) objs order dir' \<and> dir_grows dir dir' \<and> distinct order \<and> set order = set os \<and> last_pc dir' = Some pd' \<and> shows_flags pd' sf
    \<and> or_metadata_at (dw_recorder (dir_writer dir')) mi = Some h
    \<and> stored_at (content (dir_stream dir')) (header_bytes (pd_scope_decode_offset pd) mi bci l e m) (pd_scope_decode_offset pd')
    \<and> pool_stored objs order os (pd_obj_decode_offset pd') dir' \<and> values_stored objs order locals l dir'
    \<and> values_stored objs order expressions e dir' \<and> monitors_stored objs order monitors m dir')"
proof -
  have c0: "chunks_len dir < 2 ^ 30" using assms(4) by simp
  obtain d1 order pd1 where 1: "dump_object_pool flags env dir (Some (map ObjectRef os)) = Some d1" "dir_inv (snd env) objs order d1"
    "dir_grows dir d1" "chunks_len d1 \<le> Suc (chunks_len dir)" "distinct order" "dom objs = set order" "last_pc d1 = Some pd1"
    "pd_scope_decode_offset pd1 = pd_scope_decode_offset pd" "pool_stored objs order os (pd_obj_decode_offset pd1) d1"
    using dump_object_pool_stored [OF assms(1-3) c0 assms(5-7), of flags] by (auto simp: succeeds_iff)
  have c1: "chunks_len d1 < 2 ^ 30" using 1(4) assms(4) by simp
  obtain l d2 where 2: "create_scope_values flags env d1 locals = Some (l, d2)" "dir_inv (snd env) objs order d2" "dir_grows d1 d2" "same_pcs d1 d2"
    "chunks_len d2 \<le> Suc (chunks_len d1)" "values_stored objs order locals l d2"
    using create_scope_values_stored [OF assms(1,2) 1(2) c1 1(5,6) assms(9,10), of flags] by (auto simp: succeeds_iff)
  have c2: "chunks_len d2 < 2 ^ 30" using 1(4) 2(5) assms(4) by simp
  obtain e d3 where 3: "create_scope_values flags env d2 expressions = Some (e, d3)" "dir_inv (snd env) objs order d3" "dir_grows d2 d3" "same_pcs d2 d3"
    "chunks_len d3 \<le> Suc (chunks_len d2)" "values_stored objs order expressions e d3"
    using create_scope_values_stored [OF assms(1,2) 2(2) c2 1(5,6) assms(11,12), of flags] by (auto simp: succeeds_iff)
  have c3: "chunks_len d3 < 2 ^ 30" using 1(4) 2(5) 3(5) assms(4) by simp
  obtain m d4 where 4: "create_monitor_values flags env d3 monitors = Some (m, d4)" "dir_inv (snd env) objs order d4" "dir_grows d3 d4" "same_pcs d3 d4"
    "chunks_len d4 \<le> Suc (chunks_len d3)" "monitors_stored objs order monitors m d4"
    using create_monitor_values_stored [OF assms(1,2) 3(2) c3 1(5,6) assms(13,14), of flags] by (auto simp: succeeds_iff)
  have c4: "chunks_len d4 < 2 ^ 30" using 1(4) 2(5) 3(5) 4(5) assms(4) by simp
  have "last_pc d4 = Some pd1" using same_pcs_last [OF 2(4)] same_pcs_last [OF 3(4)] same_pcs_last [OF 4(4)] 1(7) by simp
  then obtain d5 mi pd' where 5: "describe_scope flags env d4 h bci sf l e m = Some d5" "dir_inv (snd env) objs order d5" "dir_grows d4 d5"
    "last_pc d5 = Some pd'" "pd_obj_decode_offset pd' = pd_obj_decode_offset pd1" "shows_flags pd' sf"
    "or_metadata_at (dw_recorder (dir_writer d5)) mi = Some h"
    "stored_at (content (dir_stream d5)) (header_bytes (pd_scope_decode_offset pd1) mi bci l e m) (pd_scope_decode_offset pd')"
    using describe_scope_sound [OF assms(1) 4(2) chunks_len_room [OF c4] _ assms(8), of pd1 flags bci sf l e m] by (auto simp: succeeds_iff)
  have g4: "dir_grows d3 d5" by (rule dir_grows_trans [OF 4(3) 5(3)])
  have g3: "dir_grows d2 d5" by (rule dir_grows_trans [OF 3(3) g4])
  have g2: "dir_grows d1 d5" by (rule dir_grows_trans [OF 2(3) g3])
  have g1: "dir_grows dir d5" by (rule dir_grows_trans [OF 1(3) g2])
  have "values_stored objs order locals l d5" "values_stored objs order expressions e d5" "monitors_stored objs order monitors m d5"
    "pool_stored objs order os (pd_obj_decode_offset pd') d5"
    using values_stored_grows [OF 2(6) g3] values_stored_grows [OF 3(6) g4] monitors_stored_grows [OF 4(6) 5(3)]
      pool_stored_grows [OF 1(9) g2] 5(5) by simp_all
  moreover have "record_scope flags env dir os locals expressions monitors h bci sf = Some d5"
    using 1(1) 2(1) 3(1) 4(1) 5(1) by (simp add: record_scope_def)
  moreover have "set order = set os" using assms(5) 1(6) by simp
  ultimately show ?thesis using 5(2,4,6,7,8) 1(5,8) g1 unfolding succeeds_iff by (intro exI conjI) (assumption | simp)+
qed


definition decodes_to ::
    "(nat \<rightharpoonup> object_value) \<Rightarrow> nat list \<Rightarrow> scope_value list option \<Rightarrow> scope_value list option \<Rightarrow> monitor_value list option
      \<Rightarrow> handle \<Rightarrow> jint \<Rightarrow> scope_flags \<Rightarrow> jint \<Rightarrow> scope_desc \<Rightarrow> bool" where
  "decodes_to objs order locals expressions monitors h bci sf sender sd \<longleftrightarrow>
     sd_method sd = h \<and> sd_bci sd = bci \<and> sd_sender_decode_offset sd = sender
     \<and> sd_reexecute sd = sf_reexecute sf \<and> sd_rethrow_exception sd = sf_rethrow_exception sf \<and> sd_return_oop sd = sf_return_oop sf
     \<and> map Some (pool_of sd) = map (\<lambda>p. map_option (reread_object order) (objs p)) order
     \<and> sd_locals sd = Some (map_option (map (reread order)) (nonempty locals), sd)
     \<and> sd_expressions sd = Some (map_option (map (reread order)) (nonempty expressions), sd)
     \<and> sd_monitors sd = Some (map_option (map (reread_monitor order)) (nonempty monitors), sd)"

lemma stored_decodes:
  assumes "nm_holds nm dir" "shows_flags pd' sf" "or_metadata_at (dw_recorder (dir_writer dir)) mi = Some h"
    "stored_at (content (dir_stream dir)) (header_bytes sender mi bci l e m) (pd_scope_decode_offset pd')"
    "pool_stored objs order os (pd_obj_decode_offset pd') dir" "values_stored objs order locals l dir"
    "values_stored objs order expressions e dir" "monitors_stored objs order monitors m dir"
  shows "succeeds (scope_desc_of nm pd') (decodes_to objs order locals expressions monitors h bci sf (of_nat sender))"
proof -
  obtain pool where pool: "decode_object_values nm (of_nat (pd_obj_decode_offset pd')) = Some (nonempty (Some pool))" "pool_matches objs order pool"
    "map Some pool = map (\<lambda>p. map_option (reread_object order) (objs p)) order" by (rule pool_decoded [OF assms(5,1)])
  let ?init = "\<lparr>sd_method = 0, sd_bci = 0, sd_reexecute = should_reexecute pd', sd_rethrow_exception = rethrow_exception pd', sd_return_oop = return_oop pd',
       sd_decode_offset = of_nat (pd_scope_decode_offset pd'), sd_sender_decode_offset = 0, sd_locals_decode_offset = 0,
       sd_expressions_decode_offset = 0, sd_monitors_decode_offset = 0, sd_objects = nonempty (Some pool), sd_code = nm\<rparr>"
  let ?sd = "?init\<lparr>sd_sender_decode_offset := of_nat sender, sd_method := h, sd_bci := bci,
    sd_locals_decode_offset := of_nat l, sd_expressions_decode_offset := of_nat e, sd_monitors_decode_offset := of_nat m\<rparr>"
  have "decode_body ?init = Some ?sd" by (rule header_decoded [OF assms(4,1,3)]) simp_all
  then have "scope_desc_of nm pd' = Some ?sd" by (simp add: scope_desc_of_def new_scope_desc_def pool(1))
  moreover have p: "pool_of ?sd = pool" by (simp add: pool_of_def nonempty_def)
  have m: "sd_code ?sd = nm" "pool_matches objs order (pool_of ?sd)" using p pool(2) by simp_all
  have "sd_locals ?sd = Some (map_option (map (reread order)) (nonempty locals), ?sd)"
    using values_decoded [OF assms(6,1) m] by (simp add: sd_locals_def)
  moreover have "sd_expressions ?sd = Some (map_option (map (reread order)) (nonempty expressions), ?sd)"
    using values_decoded [OF assms(7,1) m] by (simp add: sd_expressions_def)
  moreover have "sd_monitors ?sd = Some (map_option (map (reread_monitor order)) (nonempty monitors), ?sd)"
    using monitors_decoded [OF assms(8,1) m] by (simp add: sd_monitors_def)
  ultimately show ?thesis using assms(2) pool(3) p by (simp add: decodes_to_def shows_flags_def)
qed

section \<open>Properties\<close>

text \<open>
  C2: a compiler records a scope: the pool of scalar-replaced objects, the locals, the expression
  stack, the monitors and the header, each possibly shared with an older piece of the stream.  All
  calls succeed, and from any nmethod that holds the recorded bytes and tables, also together with
  whatever is recorded later, the scope descriptor is decoded with the same method, bci, flags, caller
  offset, objects, locals, expressions and monitors; an empty list is decoded as none.
\<close>

theorem scope_roundtrip:
  assumes "allocates (fst env)" "graph_ok (snd env) objs" "dir_inv (snd env) objs ps dir" "chunks_len dir + 4 < 2 ^ 30"
    and "dom objs = set os" "length os < 2 ^ 31" "last_pc dir = Some pd" "h = 0 \<or> is_real (snd env) h"
    and "length (the_default locals) < 2 ^ 31" "\<forall>v \<in> set (the_default locals). sv_ok (snd env) objs v"
    and "length (the_default expressions) < 2 ^ 31" "\<forall>v \<in> set (the_default expressions). sv_ok (snd env) objs v"
    and "length (the_default monitors) < 2 ^ 31" "\<forall>m \<in> set (the_default monitors). sv_ok (snd env) objs (mv_owner m)"
  shows "succeeds (record_scope flags env dir os locals expressions monitors h bci sf) (\<lambda>dir'. \<exists>order pd'.
    dir_inv (snd env) objs order dir' \<and> distinct order \<and> set order = set os \<and> last_pc dir' = Some pd'
    \<and> (\<forall>nm later. dir_grows dir' later \<and> nm_holds nm later \<longrightarrow>
         succeeds (scope_desc_of nm pd') (decodes_to objs order locals expressions monitors h bci sf (of_nat (pd_scope_decode_offset pd)))))"
  by (rule succeeds_weaken [OF record_scope_stored [OF assms, of flags bci sf]])
    (elim exE conjE, intro exI conjI allI impI; (assumption | (elim conjE, rule stored_decodes [OF nm_holds_grows]; assumption)))


section \<open>The table of an nmethod\<close>

lemma copy_scopes_pcs_eq:
  assumes "cnt = length (nm_scopes_pcs nm)" "cnt \<le> length pcs" "0 < cnt"
  shows "\<exists>mh. copy_scopes_pcs nm pcs cnt = Some (nm\<lparr>nm_has_method_handle_invokes := mh,
      nm_scopes_pcs := take (cnt - 1) pcs @ [(pcs ! (cnt - 1))\<lparr>pd_pc_offset := nm_content_size nm + 1\<rparr>]\<rparr>)
    \<and> (mh \<longleftrightarrow> nm_has_method_handle_invokes nm \<or> (\<exists>pd \<in> set (take cnt pcs). is_method_handle_invoke pd))"
proof -
  let ?search = "for_return 0 cnt (\<lambda>i _. array_get pcs i \<bind> (\<lambda>pd. Some (if is_method_handle_invoke pd then Inl True else Inr ()))) ()"
  have mem: "pcs ! k \<in> set (take cnt pcs)" if "k < cnt" for k
    using that assms(2) nth_mem [of k "take cnt pcs"] by simp
  have "succeeds ?search (\<lambda>r. case r of Inl b \<Rightarrow> b \<and> (\<exists>pd \<in> set (take cnt pcs). is_method_handle_invoke pd)
      | Inr _ \<Rightarrow> \<forall>i < cnt. \<not> is_method_handle_invoke (pcs ! i))"
    by (rule for_return_rule [where I = "\<lambda>k _. \<forall>i < k. \<not> is_method_handle_invoke (pcs ! i)"])
      (use assms(2) mem in \<open>auto simp: array_get_def less_Suc_eq\<close>)
  then obtain r where r: "?search = Some r" and mh: "case r of Inl b \<Rightarrow> b \<and> (\<exists>pd \<in> set (take cnt pcs). is_method_handle_invoke pd)
      | Inr _ \<Rightarrow> \<forall>i < cnt. \<not> is_method_handle_invoke (pcs ! i)" by (rule succeedsE)
  let ?nm = "case r of Inl _ \<Rightarrow> nm\<lparr>nm_has_method_handle_invokes := True\<rparr> | Inr _ \<Rightarrow> nm"
  have nm: "nm_scopes_pcs ?nm = nm_scopes_pcs nm" "nm_content_size ?nm = nm_content_size nm" by (simp_all split: sum.splits)
  have copy: "for_loop 0 cnt (\<lambda>i dest. array_get pcs i \<bind> array_put dest i) (nm_scopes_pcs nm) = Some (take cnt pcs)"
    using copy_array [of cnt pcs "nm_scopes_pcs nm"] assms(1,2) by simp
  have put: "(take cnt pcs)[cnt - 1 := x] = take (cnt - 1) pcs @ [x]" for x
    using assms(2,3) by (cases cnt) (simp_all add: take_Suc_conv_app_nth list_update_append)
  have "copy_scopes_pcs nm pcs cnt = Some (?nm\<lparr>nm_scopes_pcs := take (cnt - 1) pcs @ [(pcs ! (cnt - 1))\<lparr>pd_pc_offset := nm_content_size nm + 1\<rparr>]\<rparr>)"
  proof -
    have "array_get (take cnt pcs) (cnt - 1) = Some (pcs ! (cnt - 1))" using assms(2,3) by (simp add: array_get_def)
    moreover have "array_put (take cnt pcs) (cnt - 1) x = Some (take (cnt - 1) pcs @ [x])" for x
      unfolding put [symmetric] using assms(2,3) by (simp add: array_put_def)
    moreover have "for_loop (cnt - 1) (length (take (cnt - 1) pcs @ [x]) - 1) f z = Some z" for x f and z :: "pc_desc list"
      using assms(2) by (simp add: for_loop.simps)
    ultimately show ?thesis unfolding copy_scopes_pcs_def r using copy assms(3) by (simp add: nm Let_def)
  qed
  moreover have "?nm = nm\<lparr>nm_has_method_handle_invokes := (nm_has_method_handle_invokes nm \<or> (\<exists>pd \<in> set (take cnt pcs). is_method_handle_invoke pd))\<rparr>"
  proof (cases r)
    case (Inr u)
    then have "\<not> (\<exists>pd \<in> set (take cnt pcs). is_method_handle_invoke pd)" using mh assms(2) by (auto simp: in_set_conv_nth)
    then show ?thesis using Inr by simp
  qed (use mh in auto)
  ultimately show ?thesis by auto
qed

lemma copied_table_ok:
  assumes "pcs_ok pcs" "cnt = length pcs" "\<forall>i < cnt - 1. pd_pc_offset (pcs ! i) \<le> c"
  shows "pcs_ok (take (cnt - 1) pcs @ [(pcs ! (cnt - 1))\<lparr>pd_pc_offset := c + 1\<rparr>])"
  using assms by (auto simp: pcs_ok_def nth_append sorted_wrt_append sorted_wrt_take in_set_conv_nth)

text \<open>
  C24: when the table of a recorder, with its sentinels, is copied into an nmethod of the right
  size, the table is again in order below the moved upper sentinel, method handle call sites are
  noted, and with any valid state of the descriptor cache the scope of a recorded pc is decoded from
  the very descriptor that was recorded for it.
\<close>

theorem scope_desc_at_recorded:
  assumes "pcs_ok pcs" "cnt = length pcs" "length (nm_scopes_pcs nm) = cnt"
    and "\<forall>i < cnt - 1. pd_pc_offset (pcs ! i) \<le> nm_content_size nm" "nm_content_size nm < upper_offset_limit - 1"
  shows "succeeds (copy_scopes_pcs nm pcs cnt) (\<lambda>nm'. pcs_ok (nm_scopes_pcs nm')
    \<and> (nm_has_method_handle_invokes nm' \<longleftrightarrow> nm_has_method_handle_invokes nm \<or> (\<exists>pd \<in> set pcs. is_method_handle_invoke pd))
    \<and> (\<forall>i cache before. 0 < i \<and> i < cnt - 1 \<and> cache_wf (nm_scopes_pcs nm') cache \<longrightarrow>
        (\<exists>cache'. cache_wf (nm_scopes_pcs nm') cache'
          \<and> scope_desc_at before (nm'\<lparr>nm_pc_desc_cache := cache\<rparr>) (nm_code_begin nm + pd_pc_offset (pcs ! i))
            = map_option (\<lambda>sd. (sd, nm'\<lparr>nm_pc_desc_cache := cache'\<rparr>)) (scope_desc_of (nm'\<lparr>nm_pc_desc_cache := cache'\<rparr>) (pcs ! i)))))"
proof -
  have c: "2 \<le> cnt" using assms(1,2) by (simp add: pcs_ok_def)
  let ?pcs = "take (cnt - 1) pcs @ [(pcs ! (cnt - 1))\<lparr>pd_pc_offset := nm_content_size nm + 1\<rparr>]"
  obtain nm' where nm': "copy_scopes_pcs nm pcs cnt = Some nm'" "nm_scopes_pcs nm' = ?pcs" "nm_code_begin nm' = nm_code_begin nm"
    "nm_has_method_handle_invokes nm' \<longleftrightarrow> nm_has_method_handle_invokes nm \<or> (\<exists>pd \<in> set pcs. is_method_handle_invoke pd)"
  proof -
    have "cnt = length (nm_scopes_pcs nm)" "cnt \<le> length pcs" "0 < cnt" using assms(2,3) c by auto
    from copy_scopes_pcs_eq [OF this] obtain mh where mh: "copy_scopes_pcs nm pcs cnt = Some (nm\<lparr>nm_has_method_handle_invokes := mh, nm_scopes_pcs := ?pcs\<rparr>)"
      "mh \<longleftrightarrow> nm_has_method_handle_invokes nm \<or> (\<exists>pd \<in> set (take cnt pcs). is_method_handle_invoke pd)" by blast
    show ?thesis by (rule that [OF mh(1)]) (simp_all add: mh(2) assms(2))
  qed
  note ok = copied_table_ok [OF assms(1,2,4)]
  have "\<exists>cache'. cache_wf ?pcs cache' \<and> scope_desc_at before (nm'\<lparr>nm_pc_desc_cache := cache\<rparr>) (nm_code_begin nm + pd_pc_offset (pcs ! i))
      = map_option (\<lambda>sd. (sd, nm'\<lparr>nm_pc_desc_cache := cache'\<rparr>)) (scope_desc_of (nm'\<lparr>nm_pc_desc_cache := cache'\<rparr>) (pcs ! i))"
    if i: "0 < i" "i < cnt - 1" and cache: "cache_wf ?pcs cache" for i cache before
  proof -
    let ?off = "pd_pc_offset (pcs ! i)"
    have "pd_pc_offset (pcs ! 0) < ?off" using pcs_less [OF assms(1) i(1)] i(2) assms(2) by simp
    then have off: "0 \<le> ?off" "?off \<le> nm_content_size nm" using assms(1,4) i(2) by (simp_all add: pcs_ok_def lower_offset_limit_def)
    obtain r cache' where f: "find_pc_desc before ?pcs (nm_code_begin nm) cache (nm_code_begin nm + ?off) False = Some (r, cache')"
        "cache_wf ?pcs cache'" "outcome ?pcs ?off False r"
      using find_pc_desc_outcome [OF ok cache, of "nm_code_begin nm" "nm_code_begin nm + ?off" before False] off assms(5)
      by (auto simp: succeeds_iff)
    have m: "matches ?pcs ?off False i" using i assms(2) by (simp add: matches_def nth_append)
    then have "r = Some i" using f(3) matches_unique [OF ok m] by (cases r) (auto simp: outcome_def)
    then have "scope_desc_at before (nm'\<lparr>nm_pc_desc_cache := cache\<rparr>) (nm_code_begin nm + ?off)
      = scope_desc_of (nm'\<lparr>nm_pc_desc_cache := cache'\<rparr>) (pcs ! i) \<bind> (\<lambda>sd. Some (sd, nm'\<lparr>nm_pc_desc_cache := cache'\<rparr>))"
      using f(1) nm'(2,3) i assms(2) by (simp add: scope_desc_at_def pc_desc_at_def array_get_def nth_append Let_def)
    then show ?thesis using f(2) by (intro exI [of _ cache']) (cases "scope_desc_of (nm'\<lparr>nm_pc_desc_cache := cache'\<rparr>) (pcs ! i)"; simp)
  qed
  then show ?thesis using nm' ok by auto
qed


definition example_rec :: debug_rec where
  "example_rec = \<lparr>dir_writer = \<lparr>dw_stream = \<lparr>ws_buffer = replicate 64 1, ws_position = 1, ws_size = 64\<rparr>,
       dw_recorder = new_oop_recorder True, dw_objs = example_objs\<rparr>,
     dir_pcs = [new_pc_desc (- 1) 0 0, new_pc_desc 4 0 0], dir_pcs_length = 2,
     dir_all_chunks = new_growable_array null_chunk 8 False, dir_shared_chunks = new_growable_array null_chunk 8 False,
     dir_next_chunk = 0, dir_prev_safepoint_pc = - 1, dir_recording_non_safepoints = True, dir_graal = True\<rparr>"

lemma write_values_pair: "write_values env st (v # w # vs) = write_values env st [v] \<bind> (\<lambda>st. write_values env st (w # vs))"
  by (rule write_values_Cons)

lemma write_values_int: "write_values env st [ConstantIntValue i] = write_simple env st (ConstantIntValue i)"
  by (subst write_values.simps) simp

abbreviation example_flags :: scope_flags where
  "example_flags \<equiv> \<lparr>sf_reexecute = True, sf_rethrow_exception = False, sf_is_method_handle_invoke = False, sf_return_oop = False\<rparr>"

abbreviation example_recorded :: "debug_rec option" where
  "example_recorded \<equiv> record_scope \<lparr>share_is_default = True, share_debug_info = True\<rparr> (\<lambda>n. replicate n 0, 0xffff) example_rec [7, 9]
     (Some [ConstantIntValue 5, ObjectRef 7]) (Some []) None 0x2000 3 example_flags"

lemma example_recorded_tables:
  "map_option (\<lambda>dir. (length (content (dir_stream dir)), vr_handles (or_oops (dw_recorder (dir_writer dir))),
      vr_handles (or_metadata (dw_recorder (dir_writer dir))))) example_recorded = Some (27, Some [0x1000], Some [0x2000])"
  by ((simp only: write_values_pair write_values_int write_values_ref write_values_oop)?, code_simp)+

definition example_nmethod :: "u1 list \<Rightarrow> nmethod" where
  "example_nmethod data = \<lparr>nm_method = 0x2000, nm_code_begin = 0, nm_content_size = 100, nm_scopes_data = data, nm_scopes_pcs = [],
     nm_oops = [0x1000], nm_metadata = [0x2000], nm_has_method_handle_invokes = False, nm_pc_desc_cache = []\<rparr>"

lemma example_nmethod_holds:
  assumes "example_recorded = Some dir"
  shows "nm_holds (example_nmethod (content (dir_stream dir))) dir"
proof -
  have t: "length (content (dir_stream dir)) = 27" "vr_handles (or_oops (dw_recorder (dir_writer dir))) = Some [0x1000]"
    "vr_handles (or_metadata (dw_recorder (dir_writer dir))) = Some [0x2000]"
    using example_recorded_tables unfolding assms by simp_all
  have two: "i = 0 \<and> h = 0 \<or> i = 1 \<and> h = x" if "vr_at vr i = Some h" "vr_handles vr = Some [x]" for vr i h x
    using that by (auto simp: vr_at_def array_get_def first_index_def le_Suc_eq split: if_splits)
  have "nm_oop_at (example_nmethod bs) (of_nat i) = Some h" if "or_oop_at (dw_recorder (dir_writer dir)) i = Some h" for i h bs
    using two [OF that [unfolded or_oop_at_def] t(2)] by (auto simp: nm_oop_at_def example_nmethod_def array_get_def)
  moreover have "nm_metadata_at (example_nmethod bs) (of_nat i) = Some h" if "or_metadata_at (dw_recorder (dir_writer dir)) i = Some h" for i h bs
    using two [OF that [unfolded or_metadata_at_def] t(3)] by (auto simp: nm_metadata_at_def example_nmethod_def array_get_def)
  moreover have "nm_scopes_data (example_nmethod bs) = bs" for bs by (simp add: example_nmethod_def)
  ultimately show ?thesis using t(1) by (simp add: nm_holds_def agrees_def)
qed

lemma example_rec_inv: "dir_inv 0xffff example_objs [] example_rec"
proof -
  have "mark_visited example_objs [] = example_objs" by (rule mark_Nil) (auto simp: example_objs_def split: if_splits)
  then show ?thesis using new_value_recorder_inv
    by (simp add: dir_inv_def example_rec_def writer_at_def ws_wf_def new_oop_recorder_def dir_stream_def content_def chunks_ok_def
        ga_wf_def new_growable_array_def ga_contents_def ordered_by_def)
qed

theorem scope_roundtrip_witness:
  "\<exists>dir nm order pd'. example_recorded = Some dir \<and> nm_holds nm dir \<and> last_pc dir = Some pd' \<and> set order = {7, 9}
    \<and> succeeds (scope_desc_of nm pd') (\<lambda>sd. sd_method sd = 0x2000 \<and> sd_bci sd = 3 \<and> sd_reexecute sd \<and> is_top sd
        \<and> sd_locals sd = Some (Some [ConstantIntValue 5, ObjectRef (pos_of order 7)], sd) \<and> sd_monitors sd = Some (None, sd))"
proof -
  let ?env = "(\<lambda>n. replicate n 0, 0xffff) :: write_env"
  have d: "dom example_objs = set [7, 9]" by (simp add: example_objs_def insert_commute)
  have c: "chunks_len example_rec = 0" by (simp add: chunks_len_def example_rec_def new_growable_array_def)
  have l: "last_pc example_rec = Some (new_pc_desc 4 0 0)" by (simp add: example_rec_def last_pc_def array_get_def)
  have "succeeds example_recorded (\<lambda>dir'. \<exists>order pd'. dir_inv (snd ?env) example_objs order dir' \<and> distinct order \<and> set order = set [7, 9] \<and> last_pc dir' = Some pd'
    \<and> (\<forall>nm later. dir_grows dir' later \<and> nm_holds nm later \<longrightarrow> succeeds (scope_desc_of nm pd') (decodes_to example_objs order
          (Some [ConstantIntValue 5, ObjectRef 7]) (Some []) None 0x2000 3 example_flags (of_nat (pd_scope_decode_offset (new_pc_desc 4 0 0))))))"
    by (rule scope_roundtrip [where ps = "[]", OF _ _ _ _ d _ l])
      (simp_all add: example_graph_ok example_rec_inv allocates_def is_real_def sv_ok_def the_default_def d c)
  then obtain dir order pd' where d: "example_recorded = Some dir" "set order = {7, 9}" "last_pc dir = Some pd'"
    and s: "\<forall>nm later. dir_grows dir later \<and> nm_holds nm later \<longrightarrow> succeeds (scope_desc_of nm pd') (decodes_to example_objs order
          (Some [ConstantIntValue 5, ObjectRef 7]) (Some []) None 0x2000 3 example_flags (of_nat (pd_scope_decode_offset (new_pc_desc 4 0 0))))"
    by (elim succeedsE exE conjE) (rule that; simp)
  have h: "nm_holds (example_nmethod (content (dir_stream dir))) dir" by (rule example_nmethod_holds [OF d(1)])
  then have "succeeds (scope_desc_of (example_nmethod (content (dir_stream dir))) pd') (decodes_to example_objs order
          (Some [ConstantIntValue 5, ObjectRef 7]) (Some []) None 0x2000 3 example_flags (of_nat (pd_scope_decode_offset (new_pc_desc 4 0 0))))"
    using s dir_grows_refl by blast
  then have "succeeds (scope_desc_of (example_nmethod (content (dir_stream dir))) pd') (\<lambda>sd. sd_method sd = 0x2000 \<and> sd_bci sd = 3 \<and> sd_reexecute sd \<and> is_top sd
        \<and> sd_locals sd = Some (Some [ConstantIntValue 5, ObjectRef (pos_of order 7)], sd) \<and> sd_monitors sd = Some (None, sd))"
    by (rule succeeds_weaken) (simp add: decodes_to_def nonempty_def is_top_def serialized_null_def new_pc_desc_def)
  then show ?thesis using d h by blast
qed

definition table_nmethod :: nmethod where
  "table_nmethod = (example_nmethod [])\<lparr>nm_scopes_pcs := replicate 3 (new_pc_desc 0 0 0)\<rparr>"

theorem scope_desc_at_recorded_witness:
  "succeeds (copy_scopes_pcs table_nmethod [new_pc_desc (- 1) 0 0, new_pc_desc 4 0 0, new_pc_desc upper_offset_limit 0 0] 3)
    (\<lambda>nm'. pcs_ok (nm_scopes_pcs nm') \<and> (\<exists>nm sd. scope_desc_at 0 (nm'\<lparr>nm_pc_desc_cache := replicate 4 (Some 0)\<rparr>) 4 = Some (sd, nm)
      \<and> sd_method sd = 0x2000))"
proof -
  let ?pcs = "[new_pc_desc (- 1) 0 0, new_pc_desc 4 0 0, new_pc_desc upper_offset_limit 0 0]"
  have ok: "pcs_ok ?pcs" by (simp add: pcs_ok_def new_pc_desc_def lower_offset_limit_def upper_offset_limit_def)
  have le: "\<forall>i < 3 - 1. pd_pc_offset (?pcs ! i) \<le> nm_content_size table_nmethod"
    by (auto simp: less_2_cases_iff new_pc_desc_def table_nmethod_def example_nmethod_def)
  have main: "succeeds (copy_scopes_pcs table_nmethod ?pcs 3) (\<lambda>nm'. pcs_ok (nm_scopes_pcs nm')
    \<and> (nm_has_method_handle_invokes nm' \<longleftrightarrow> nm_has_method_handle_invokes table_nmethod \<or> (\<exists>pd \<in> set ?pcs. is_method_handle_invoke pd))
    \<and> (\<forall>i cache before. 0 < i \<and> i < 3 - 1 \<and> cache_wf (nm_scopes_pcs nm') cache \<longrightarrow>
        (\<exists>cache'. cache_wf (nm_scopes_pcs nm') cache'
          \<and> scope_desc_at before (nm'\<lparr>nm_pc_desc_cache := cache\<rparr>) (nm_code_begin table_nmethod + pd_pc_offset (?pcs ! i))
            = map_option (\<lambda>sd. (sd, nm'\<lparr>nm_pc_desc_cache := cache'\<rparr>)) (scope_desc_of (nm'\<lparr>nm_pc_desc_cache := cache'\<rparr>) (?pcs ! i)))))"
    by (rule scope_desc_at_recorded [OF ok _ _ le]) (simp_all add: table_nmethod_def example_nmethod_def upper_offset_limit_def)
  have "succeeds (copy_scopes_pcs table_nmethod ?pcs 3) (\<lambda>nm'. length (nm_scopes_pcs nm') = 3 \<and> nm_method nm' = 0x2000)"
  proof -
    have "3 = length (nm_scopes_pcs table_nmethod)" "3 \<le> length ?pcs" "0 < (3 :: nat)" by (simp_all add: table_nmethod_def)
    from copy_scopes_pcs_eq [OF this] show ?thesis by (auto simp: table_nmethod_def example_nmethod_def)
  qed
  then obtain nm' where nm': "copy_scopes_pcs table_nmethod ?pcs 3 = Some nm'" "length (nm_scopes_pcs nm') = 3" "nm_method nm' = 0x2000"
    by (elim succeedsE conjE)
  note m = main [unfolded nm'(1) succeeds_Some]
  have "cache_wf (nm_scopes_pcs nm') (replicate 4 (Some 0))" using nm'(2) by (simp add: cache_wf_def pc_cache_size_def)
  with m [THEN conjunct2, THEN conjunct2, rule_format, of 1 "replicate 4 (Some 0)" 0] obtain cache' where
    "scope_desc_at 0 (nm'\<lparr>nm_pc_desc_cache := replicate 4 (Some 0)\<rparr>) 4
      = map_option (\<lambda>sd. (sd, nm'\<lparr>nm_pc_desc_cache := cache'\<rparr>)) (scope_desc_of (nm'\<lparr>nm_pc_desc_cache := cache'\<rparr>) (new_pc_desc 4 0 0))"
    by (auto simp: table_nmethod_def example_nmethod_def new_pc_desc_def)
  then show ?thesis using nm'(3) m [THEN conjunct1] unfolding nm'(1)
    by (auto simp: scope_desc_of_def new_scope_desc_def decode_object_values_def decode_body_def serialized_null_def new_pc_desc_def)
qed

end
