(* ===== verification/Task_Queue.thy ===== *)
theory Task_Queue
  imports Hs_Prelude
begin

unbundle bit_operations_syntax

text \<open>
  \<^verbatim>\<open>utilities/taskqueue.hpp\<close>: the double-ended queue of a work-stealing collector, an array of \<open>N = 2\<^sup>k\<close>
  slots (\<^verbatim>\<open>TASKQUEUE_SIZE\<close> is \<open>2\<^sup>1\<^sup>7\<close>) used as a ring, with the overflow stack of \<^verbatim>\<open>OverflowTaskQueue\<close>.
  Indices and tags are 32 bits wide, as on LP64.  The two fields of an age share one word, so
  comparing ages compares both.  This theory has the operations as one thread runs them, without
  interference; the interleaved steps are in the theory of parallel stealing.
\<close>

section \<open>Indices\<close>

type_synonym uint = "32 word"

record age =
  age_top :: uint
  age_tag :: uint

definition MOD_N_MASK :: "nat \<Rightarrow> uint" where
  "MOD_N_MASK k = 2 ^ k - 1"

definition increment_index :: "nat \<Rightarrow> uint \<Rightarrow> uint" where
  "increment_index k ind = (ind + 1) AND MOD_N_MASK k"

definition decrement_index :: "nat \<Rightarrow> uint \<Rightarrow> uint" where
  "decrement_index k ind = (ind - 1) AND MOD_N_MASK k"

definition dirty_size :: "nat \<Rightarrow> uint \<Rightarrow> uint \<Rightarrow> uint" where
  "dirty_size k bt tp = (bt - tp) AND MOD_N_MASK k"

definition size_of :: "nat \<Rightarrow> uint \<Rightarrow> uint \<Rightarrow> uint" where
  "size_of k bt tp = (let sz = dirty_size k bt tp in if sz = 2 ^ k - 1 then 0 else sz)"

definition age_increment :: "nat \<Rightarrow> age \<Rightarrow> age" where
  "age_increment k a = (let t = increment_index k (age_top a)
     in \<lparr>age_top = t, age_tag = (if t = 0 then age_tag a + 1 else age_tag a)\<rparr>)"

definition max_elems :: "nat \<Rightarrow> uint" where
  "max_elems k = 2 ^ k - 2"

section \<open>The queue\<close>

record 'e task_queue =
  tq_bottom :: uint
  tq_age :: age
  tq_elems :: "'e list"

definition new_task_queue :: "'e list \<Rightarrow> 'e task_queue" where
  "new_task_queue elems = \<lparr>tq_bottom = 0, tq_age = \<lparr>age_top = 0, age_tag = 0\<rparr>, tq_elems = elems\<rparr>"

definition tq_peek :: "'e task_queue \<Rightarrow> bool" where
  "tq_peek q \<longleftrightarrow> tq_bottom q \<noteq> age_top (tq_age q)"

definition tq_size :: "nat \<Rightarrow> 'e task_queue \<Rightarrow> uint" where
  "tq_size k q = size_of k (tq_bottom q) (age_top (tq_age q))"

definition tq_dirty_size :: "nat \<Rightarrow> 'e task_queue \<Rightarrow> uint" where
  "tq_dirty_size k q = dirty_size k (tq_bottom q) (age_top (tq_age q))"

definition tq_is_empty :: "nat \<Rightarrow> 'e task_queue \<Rightarrow> bool" where
  "tq_is_empty k q \<longleftrightarrow> tq_size k q = 0"

definition tq_set_empty :: "'e task_queue \<Rightarrow> 'e task_queue" where
  "tq_set_empty q = q\<lparr>tq_bottom := 0, tq_age := \<lparr>age_top = 0, age_tag = 0\<rparr>\<rparr>"

definition tq_store :: "nat \<Rightarrow> 'e task_queue \<Rightarrow> uint \<Rightarrow> 'e \<Rightarrow> 'e task_queue option" where
  "tq_store k q localBot t = do {
     elems \<leftarrow> array_put (tq_elems q) (unat localBot) t;
     Some (q\<lparr>tq_elems := elems, tq_bottom := increment_index k localBot\<rparr>)
   }"

definition push_slow :: "nat \<Rightarrow> 'e task_queue \<Rightarrow> 'e \<Rightarrow> uint \<Rightarrow> (bool \<times> 'e task_queue) option" where
  "push_slow k q t dirty_n_elems =
     (if dirty_n_elems = 2 ^ k - 1
      then do { q \<leftarrow> tq_store k q (tq_bottom q) t; Some (True, q) }
      else Some (False, q))"

definition tq_push :: "nat \<Rightarrow> 'e task_queue \<Rightarrow> 'e \<Rightarrow> (bool \<times> 'e task_queue) option" where
  "tq_push k q t = (
     let localBot = tq_bottom q;
         tp = age_top (tq_age q);
         dirty_n_elems = dirty_size k localBot tp
     in if dirty_n_elems < max_elems k
        then do { q \<leftarrow> tq_store k q localBot t; Some (True, q) }
        else push_slow k q t dirty_n_elems)"

text \<open>Without interference the compare-and-exchange succeeds.\<close>

definition pop_local_slow :: "'e task_queue \<Rightarrow> uint \<Rightarrow> age \<Rightarrow> bool \<times> 'e task_queue" where
  "pop_local_slow q localBot oldAge = (
     let newAge = \<lparr>age_top = localBot, age_tag = age_tag oldAge + 1\<rparr>
     in if localBot = age_top oldAge \<and> tq_age q = oldAge then (True, q\<lparr>tq_age := newAge\<rparr>)
        else (False, q\<lparr>tq_age := newAge\<rparr>))"

definition pop_local :: "nat \<Rightarrow> 'e task_queue \<Rightarrow> ('e option \<times> 'e task_queue) option" where
  "pop_local k q = (
     let localBot = tq_bottom q;
         dirty_n_elems = dirty_size k localBot (age_top (tq_age q))
     in if dirty_n_elems = 0 then Some (None, q)
        else do {
          let localBot = decrement_index k localBot;
          let q = q\<lparr>tq_bottom := localBot\<rparr>;
          t \<leftarrow> array_get (tq_elems q) (unat localBot);
          if size_of k localBot (age_top (tq_age q)) > 0 then Some (Some t, q)
          else (case pop_local_slow q localBot (tq_age q) of (b, q) \<Rightarrow> Some (if b then Some t else None, q))
        })"

definition pop_global :: "nat \<Rightarrow> 'e task_queue \<Rightarrow> ('e option \<times> 'e task_queue) option" where
  "pop_global k q = (
     let oldAge = tq_age q;
         localBot = tq_bottom q;
         n_elems = size_of k localBot (age_top oldAge)
     in if n_elems = 0 then Some (None, q)
        else do {
          t \<leftarrow> array_get (tq_elems q) (unat (age_top oldAge));
          Some (Some t, q\<lparr>tq_age := age_increment k oldAge\<rparr>)
        })"

text \<open>The closure of \<^verbatim>\<open>oops_do\<close> may replace each element.\<close>

definition oops_do :: "nat \<Rightarrow> ('e \<Rightarrow> 'e) \<Rightarrow> 'e task_queue \<Rightarrow> 'e task_queue option" where
  "oops_do k f q = do {
     let iters = tq_size k q;
     (_, q) \<leftarrow> for_loop 0 (unat iters) (\<lambda>i (index, q). do {
       let index = decrement_index k index;
       t \<leftarrow> array_get (tq_elems q) (unat index);
       elems \<leftarrow> array_put (tq_elems q) (unat index) (f t);
       Some (index, q\<lparr>tq_elems := elems\<rparr>)
     }) (tq_bottom q, q);
     Some q
   }"

section \<open>The overflow stack\<close>

record 'e overflow_queue =
  oq_queue :: "'e task_queue"
  oq_overflow :: "'e list"

definition oq_push :: "nat \<Rightarrow> 'e overflow_queue \<Rightarrow> 'e \<Rightarrow> (bool \<times> 'e overflow_queue) option" where
  "oq_push k oq t = do {
     (pushed, q) \<leftarrow> tq_push k (oq_queue oq) t;
     if \<not> pushed then Some (True, oq\<lparr>oq_queue := q, oq_overflow := t # oq_overflow oq\<rparr>)
     else Some (True, oq\<lparr>oq_queue := q\<rparr>)
   }"

definition oq_overflow_empty :: "'e overflow_queue \<Rightarrow> bool" where
  "oq_overflow_empty oq \<longleftrightarrow> oq_overflow oq = []"

definition oq_pop_overflow :: "'e overflow_queue \<Rightarrow> 'e option \<times> 'e overflow_queue" where
  "oq_pop_overflow oq = (if oq_overflow_empty oq then (None, oq)
     else (Some (hd (oq_overflow oq)), oq\<lparr>oq_overflow := tl (oq_overflow oq)\<rparr>))"

definition oq_is_empty :: "nat \<Rightarrow> 'e overflow_queue \<Rightarrow> bool" where
  "oq_is_empty k oq \<longleftrightarrow> tq_is_empty k (oq_queue oq) \<and> oq_overflow_empty oq"

section \<open>Tasks\<close>

text \<open>A pointer to an oop or to a narrow oop, told apart by the lowest bit; and a part of an object array.\<close>

type_synonym star_task = uintptr

definition COMPRESSED_OOP_MASK :: uintptr where
  "COMPRESSED_OOP_MASK = 1"

definition star_task_narrow :: "uintptr \<Rightarrow> star_task" where
  "star_task_narrow p = p OR COMPRESSED_OOP_MASK"

definition star_task_oop :: "uintptr \<Rightarrow> star_task" where
  "star_task_oop p = p"

definition star_as_oop :: "star_task \<Rightarrow> uintptr" where
  "star_as_oop t = t"

definition star_as_narrow :: "star_task \<Rightarrow> uintptr" where
  "star_as_narrow t = t AND NOT COMPRESSED_OOP_MASK"

definition is_narrow :: "star_task \<Rightarrow> bool" where
  "is_narrow t \<longleftrightarrow> t AND COMPRESSED_OOP_MASK \<noteq> 0"

record 'o obj_array_task =
  oat_obj :: 'o
  oat_index :: jint

definition new_obj_array_task :: "'o \<Rightarrow> uintptr \<Rightarrow> 'o obj_array_task" where
  "new_obj_array_task o' idx = \<lparr>oat_obj = o', oat_index = ucast idx\<rparr>"

lemma star_task_roundtrip:
  assumes "p AND COMPRESSED_OOP_MASK = 0"
  shows "is_narrow (star_task_narrow p) \<and> star_as_narrow (star_task_narrow p) = p
    \<and> \<not> is_narrow (star_task_oop p) \<and> star_as_oop (star_task_oop p) = p"
proof -
  have m: "bit COMPRESSED_OOP_MASK n \<longleftrightarrow> n = 0" for n by (simp add: COMPRESSED_OOP_MASK_def bit_1_iff)
  have tag: "t AND COMPRESSED_OOP_MASK = 0 \<longleftrightarrow> \<not> bit t 0" for t
  proof -
    have "t AND COMPRESSED_OOP_MASK = 0 \<longleftrightarrow> (\<forall>n. \<not> bit (t AND COMPRESSED_OOP_MASK) n)" by (auto intro!: bit_eqI)
    then show ?thesis unfolding bit_and_iff m by blast
  qed
  have "star_as_narrow (star_task_narrow p) = p"
    by (rule bit_eqI, unfold star_as_narrow_def star_task_narrow_def bit_and_iff bit_or_iff bit_not_iff m)
      (use assms tag in \<open>auto simp: bit_imp_possible_bit intro!: Nat.gr0I\<close>)
  moreover have "bit (star_task_narrow p) 0" unfolding star_task_narrow_def bit_or_iff m by simp
  ultimately show ?thesis using assms by (simp add: is_narrow_def tag star_task_oop_def star_as_oop_def)
qed

section \<open>Index arithmetic\<close>

text \<open>The ring has between four slots and \<open>2\<^sup>3\<^sup>1\<close>.\<close>

definition ring :: "nat \<Rightarrow> bool" where
  "ring k \<longleftrightarrow> 2 \<le> k \<and> k \<le> 31"

lemma ring_size: "ring k \<Longrightarrow> 4 \<le> (2 :: nat) ^ k \<and> (2 :: nat) ^ k \<le> 2 ^ 31"
  using power_increasing [of 2 k "2 :: nat"] power_increasing [of k 31 "2 :: nat"] by (simp add: ring_def)

lemma ring_last: "ring k \<Longrightarrow> (2 :: nat) ^ k - 2 < 2 ^ k - 1"
  using ring_size [of k] by linarith

lemma unat_and_mask: "unat ((w :: uint) AND MOD_N_MASK k) = unat w mod 2 ^ k"
  unfolding MOD_N_MASK_def mask_eq_exp_minus_1 [symmetric] take_bit_eq_mask [symmetric]
  by (simp only: unsigned_take_bit_eq) (simp add: take_bit_eq_mod)

lemma word_mod: "ring k \<Longrightarrow> n mod 2 ^ 32 mod 2 ^ k = n mod (2 :: nat) ^ k"
  by (rule mod_mod_cancel, rule le_imp_power_dvd) (simp add: ring_def)

lemma unat_increment: "ring k \<Longrightarrow> unat (increment_index k w) = (unat w + 1) mod 2 ^ k"
  by (simp add: increment_index_def unat_and_mask unat_word_ariths word_mod [simplified])

lemma unat_dirty:
  assumes "ring k" "unat t \<le> 2 ^ k"
  shows "unat (dirty_size k b t) = (unat b + 2 ^ k - unat t) mod 2 ^ k"
proof -
  have "unat (b - t) = (unat b + (2 ^ 32 - unat t)) mod 2 ^ 32"
    using unat_sub_if_size [of b t] unat_bound [of b] unat_bound [of t] by (simp add: mod_if word_size)
  then have "unat (b - t) mod 2 ^ k = (unat b + (2 ^ 32 - unat t)) mod 2 ^ k" using word_mod [OF assms(1)] by simp
  also obtain d where d: "(2 :: nat) ^ 32 = 2 ^ k * d" "1 \<le> d"
    using assms(1) by (intro that [of "2 ^ (32 - k)"]) (simp_all add: ring_def flip: power_add)
  then obtain e where e: "d = Suc e" by (cases d) auto
  have "unat b + (2 ^ 32 - unat t) = unat b + 2 ^ k - unat t + 2 ^ k * e" using assms(2) d(1) e by simp
  finally show ?thesis by (simp add: dirty_size_def unat_and_mask)
qed

lemma unat_decrement:
  assumes "ring k"
  shows "unat (decrement_index k w) = (unat w + 2 ^ k - 1) mod 2 ^ k"
  using unat_dirty [OF assms, of 1 w] ring_size [OF assms] by (simp add: decrement_index_def dirty_size_def)

lemma index_bounds:
  assumes "ring k"
  shows "unat (increment_index k w) < 2 ^ k" "unat (decrement_index k w) < 2 ^ k" "unat (dirty_size k b t) < 2 ^ k"
  using assms by (simp_all add: unat_increment unat_decrement dirty_size_def unat_and_mask)

lemma unat_last: "ring k \<Longrightarrow> unat (2 ^ k - 1 :: uint) = 2 ^ k - 1" "ring k \<Longrightarrow> unat (max_elems k) = 2 ^ k - 2"
proof -
  assume k: "ring k"
  have "unat (2 ^ k :: uint) = 2 ^ k" using k unat_of_nat_small [of "2 ^ k", where 'a = 32] ring_size [OF k] by simp
  then show "unat (2 ^ k - 1 :: uint) = 2 ^ k - 1" "unat (max_elems k) = 2 ^ k - 2"
    using ring_size [OF k] unat_sub [of 1 "2 ^ k :: uint"] unat_sub [of 2 "2 ^ k :: uint"]
    by (simp_all add: max_elems_def word_le_nat_alt)
qed

lemma unat_size_of:
  assumes "ring k"
  shows "unat (size_of k b t) = (if unat (dirty_size k b t) = 2 ^ k - 1 then 0 else unat (dirty_size k b t))"
  using unat_last(1) [OF assms] by (simp add: size_of_def Let_def word_unat_eq_iff)


lemma ring_distance:
  assumes "b < (N :: nat)" "t < N" "n < N"
  shows "(b + N - t) mod N = n \<longleftrightarrow> b = (t + n) mod N"
  using assms by (cases "t \<le> b"; cases "t + n < N") (auto simp: mod_if)

section \<open>The elements of the ring\<close>

definition ring_contents :: "nat \<Rightarrow> 'e list \<Rightarrow> nat \<Rightarrow> nat \<Rightarrow> 'e list" where
  "ring_contents k elems t n = map (\<lambda>i. elems ! ((t + i) mod 2 ^ k)) [0..<n]"

lemma ring_contents_length [simp]: "length (ring_contents k elems t n) = n"
  by (simp add: ring_contents_def)

lemma ring_contents_0 [simp]: "ring_contents k elems t 0 = []"
  by (simp add: ring_contents_def)

lemma ring_contents_snoc: "ring_contents k elems t (Suc n) = ring_contents k elems t n @ [elems ! ((t + n) mod 2 ^ k)]"
  by (simp add: ring_contents_def)

lemma ring_contents_Cons: "ring_contents k elems t (Suc n) = elems ! (t mod 2 ^ k) # ring_contents k elems ((t + 1) mod 2 ^ k) n"
proof -
  have "(t + Suc i) mod 2 ^ k = ((t + 1) mod 2 ^ k + i) mod 2 ^ k" for i by (simp add: mod_add_left_eq)
  then show ?thesis by (simp add: ring_contents_def upt_conv_Cons map_Suc_upt [symmetric] del: upt_Suc)
qed

lemma ring_slots_distinct:
  assumes "i < j" "j < (N :: nat)"
  shows "(t + j) mod N \<noteq> (t + i) mod N"
proof
  assume "(t + j) mod N = (t + i) mod N"
  then have "N dvd t + j - (t + i)" using assms(1) by (subst mod_eq_dvd_iff_nat [symmetric]) simp_all
  then show False using assms by (auto dest: dvd_imp_le)
qed

lemma ring_contents_update:
  assumes "n \<le> j" "j < 2 ^ k"
  shows "ring_contents k (elems[(t + j) mod 2 ^ k := x]) t n = ring_contents k elems t n"
  using ring_slots_distinct [of _ j "2 ^ k" t] assms by (simp add: ring_contents_def)

lemma ring_contents_push:
  assumes "n < 2 ^ k" "length elems = 2 ^ k"
  shows "ring_contents k (elems[(t + n) mod 2 ^ k := x]) t (Suc n) = ring_contents k elems t n @ [x]"
  using assms by (simp add: ring_contents_snoc ring_contents_update)


text \<open>Steps around the ring, for a bottom that stands \<open>n\<close> slots after the top \<open>t\<close>.\<close>

lemma increment_slot: "ring k \<Longrightarrow> unat b = (t + n) mod 2 ^ k \<Longrightarrow> unat (increment_index k b) = (t + Suc n) mod 2 ^ k"
  by (simp add: unat_increment mod_simps)

lemma decrement_slot:
  assumes "ring k" "unat b = (t + Suc n) mod 2 ^ k"
  shows "unat (decrement_index k b) = (t + n) mod 2 ^ k"
proof -
  have "unat (decrement_index k b) = ((t + Suc n) mod 2 ^ k + (2 ^ k - 1)) mod 2 ^ k"
    unfolding unat_decrement [OF assms(1)] assms(2) by (subst Nat.add_diff_assoc) simp_all
  also have "\<dots> = (t + Suc n + (2 ^ k - 1)) mod 2 ^ k" by (rule mod_add_left_eq)
  also have "t + Suc n + (2 ^ k - 1) = t + n + 2 ^ k" by simp
  finally show ?thesis by simp
qed

lemma dirty_slot:
  assumes "ring k" "unat tp < 2 ^ k" "n < 2 ^ k" "unat b = (unat tp + n) mod 2 ^ k"
  shows "unat (dirty_size k b tp) = n"
proof -
  have "unat b < 2 ^ k" by (simp add: assms(4))
  then show ?thesis using assms ring_distance [of "unat b" "2 ^ k" "unat tp" n] by (simp add: unat_dirty)
qed

lemma word_less_unat: "(v :: uint) < w \<longleftrightarrow> unat v < unat w" "v = w \<longleftrightarrow> unat v = unat w"
  by (simp_all add: word_less_nat_alt word_unat_eq_iff)

section \<open>One thread\<close>

definition tq_len :: "nat \<Rightarrow> 'e task_queue \<Rightarrow> nat" where
  "tq_len k q = unat (tq_dirty_size k q)"

definition tq_wf :: "nat \<Rightarrow> 'e task_queue \<Rightarrow> bool" where
  "tq_wf k q \<longleftrightarrow> ring k \<and> length (tq_elems q) = 2 ^ k \<and> unat (age_top (tq_age q)) < 2 ^ k \<and> tq_len k q \<le> 2 ^ k - 2
     \<and> unat (tq_bottom q) = (unat (age_top (tq_age q)) + tq_len k q) mod 2 ^ k"

definition tq_contents :: "nat \<Rightarrow> 'e task_queue \<Rightarrow> 'e list" where
  "tq_contents k q = ring_contents k (tq_elems q) (unat (age_top (tq_age q))) (tq_len k q)"

lemma tq_wfI:
  assumes "ring k" "length (tq_elems q) = 2 ^ k" "unat (age_top (tq_age q)) < 2 ^ k" "n \<le> 2 ^ k - 2"
    "unat (tq_bottom q) = (unat (age_top (tq_age q)) + n) mod 2 ^ k"
  shows "tq_wf k q \<and> tq_len k q = n"
proof -
  have "n < 2 ^ k" using assms(4) ring_size [OF assms(1)] by linarith
  then have "tq_len k q = n" using dirty_slot [OF assms(1,3) _ assms(5)] by (simp add: tq_len_def tq_dirty_size_def)
  then show ?thesis using assms by (simp add: tq_wf_def)
qed

lemma new_task_queue_wf: "ring k \<Longrightarrow> length elems = 2 ^ k \<Longrightarrow> tq_wf k (new_task_queue elems) \<and> tq_contents k (new_task_queue elems) = []"
  using tq_wfI [of k "new_task_queue elems" 0] by (simp add: new_task_queue_def tq_contents_def)

lemma tq_store_spec:
  assumes "tq_wf k q" "tq_len k q < 2 ^ k - 2"
  shows "succeeds (tq_store k q (tq_bottom q) x) (\<lambda>q'. tq_wf k q' \<and> tq_contents k q' = tq_contents k q @ [x])"
proof -
  let ?t = "unat (age_top (tq_age q))" and ?n = "tq_len k q"
  have k: "ring k" "length (tq_elems q) = 2 ^ k" "?t < 2 ^ k" and b: "unat (tq_bottom q) = (?t + ?n) mod 2 ^ k"
    using assms(1) by (simp_all add: tq_wf_def)
  let ?q = "q\<lparr>tq_elems := (tq_elems q)[(?t + ?n) mod 2 ^ k := x], tq_bottom := increment_index k (tq_bottom q)\<rparr>"
  have "tq_wf k ?q \<and> tq_len k ?q = Suc ?n"
    by (rule tq_wfI) (use k b assms(2) increment_slot [OF k(1) b] in simp_all)
  moreover have "tq_store k q (tq_bottom q) x = Some ?q" using k(2) b by (simp add: tq_store_def array_put_def)
  ultimately show ?thesis using k assms(2) by (simp add: tq_contents_def ring_contents_push)
qed

lemma tq_push_spec:
  assumes "tq_wf k q"
  shows "succeeds (tq_push k q x) (\<lambda>(pushed, q'). tq_wf k q' \<and> pushed = (length (tq_contents k q) < 2 ^ k - 2)
    \<and> tq_contents k q' = (if pushed then tq_contents k q @ [x] else tq_contents k q))"
proof -
  have k: "ring k" and n: "tq_len k q \<le> 2 ^ k - 2" using assms by (simp_all add: tq_wf_def)
  have d: "unat (dirty_size k (tq_bottom q) (age_top (tq_age q))) = tq_len k q" by (simp add: tq_len_def tq_dirty_size_def)
  have l: "length (tq_contents k q) = tq_len k q" by (simp add: tq_contents_def)
  show ?thesis
  proof (cases "tq_len k q < 2 ^ k - 2")
    case True
    then show ?thesis using tq_store_spec [OF assms True, of x]
      by (auto simp: tq_push_def word_less_unat d unat_last [OF k] l vcg elim: succeeds_weaken)
  next
    case False
    moreover have "2 ^ k - 2 \<noteq> (2 :: nat) ^ k - 1" using ring_last [OF k] by linarith
    ultimately show ?thesis using assms n
      by (simp add: tq_push_def push_slow_def word_less_unat d unat_last [OF k] l)
  qed
qed

lemma pop_local_spec:
  assumes "tq_wf k q"
  shows "succeeds (pop_local k q) (\<lambda>(r, q'). tq_wf k q' \<and> (case r of
    None \<Rightarrow> tq_contents k q = [] \<and> q' = q | Some x \<Rightarrow> tq_contents k q = tq_contents k q' @ [x]))"
proof -
  let ?t = "unat (age_top (tq_age q))"
  have k: "ring k" "length (tq_elems q) = 2 ^ k" "?t < 2 ^ k" and b: "unat (tq_bottom q) = (?t + tq_len k q) mod 2 ^ k"
    and n: "tq_len k q \<le> 2 ^ k - 2" using assms by (simp_all add: tq_wf_def)
  have d: "unat (dirty_size k (tq_bottom q) (age_top (tq_age q))) = tq_len k q" by (simp add: tq_len_def tq_dirty_size_def)
  show ?thesis
  proof (cases "tq_len k q")
    case 0
    then show ?thesis using assms d by (simp add: pop_local_def word_less_unat tq_contents_def)
  next
    case (Suc m)
    let ?b = "decrement_index k (tq_bottom q)"
    have b': "unat ?b = (?t + m) mod 2 ^ k" using decrement_slot [OF k(1)] b Suc by simp
    have m: "m < 2 ^ k" using Suc n by simp
    then have d': "unat (dirty_size k ?b (age_top (tq_age q))) = m" by (rule dirty_slot [OF k(1,3) _ b'])
    have s: "size_of k ?b (age_top (tq_age q)) > 0 \<longleftrightarrow> 0 < m"
      using unat_size_of [OF k(1), of ?b "age_top (tq_age q)"] Suc n ring_size [OF k(1)] by (auto simp: word_less_unat d')
    have get: "array_get (tq_elems q) (unat ?b) = Some (tq_elems q ! ((?t + m) mod 2 ^ k))" using k(2) by (simp add: b' array_get_def)
    have ne: "dirty_size k (tq_bottom q) (age_top (tq_age q)) \<noteq> 0" using d Suc by auto
    show ?thesis
    proof (cases "0 < m")
      case True
      let ?q = "q\<lparr>tq_bottom := ?b\<rparr>"
      have "tq_wf k ?q \<and> tq_len k ?q = m" by (rule tq_wfI) (use k b' Suc n in simp_all)
      then show ?thesis using True s get ne Suc by (simp add: pop_local_def tq_contents_def ring_contents_snoc)
    next
      case False
      let ?q = "q\<lparr>tq_bottom := ?b, tq_age := \<lparr>age_top = ?b, age_tag = age_tag (tq_age q) + 1\<rparr>\<rparr>"
      have "tq_wf k ?q \<and> tq_len k ?q = 0" by (rule tq_wfI) (use k b' in simp_all)
      moreover have "?b = age_top (tq_age q)" using False b' k(3) by (simp add: word_less_unat)
      ultimately show ?thesis using False s get ne Suc k(3)
        by (simp add: pop_local_def pop_local_slow_def Let_def tq_contents_def ring_contents_snoc)
    qed
  qed
qed

lemma pop_global_spec:
  assumes "tq_wf k q"
  shows "succeeds (pop_global k q) (\<lambda>(r, q'). tq_wf k q' \<and> (case r of
    None \<Rightarrow> tq_contents k q = [] \<and> q' = q | Some x \<Rightarrow> tq_contents k q = x # tq_contents k q'))"
proof -
  let ?t = "unat (age_top (tq_age q))"
  have k: "ring k" "length (tq_elems q) = 2 ^ k" "?t < 2 ^ k" and b: "unat (tq_bottom q) = (?t + tq_len k q) mod 2 ^ k"
    and n: "tq_len k q \<le> 2 ^ k - 2" using assms by (simp_all add: tq_wf_def)
  have d: "unat (dirty_size k (tq_bottom q) (age_top (tq_age q))) = tq_len k q" by (simp add: tq_len_def tq_dirty_size_def)
  have "tq_len k q \<noteq> 2 ^ k - 1" using n ring_last [OF k(1)] by linarith
  then have s: "size_of k (tq_bottom q) (age_top (tq_age q)) = 0 \<longleftrightarrow> tq_len k q = 0"
    using unat_size_of [OF k(1)] by (simp add: word_less_unat d)
  show ?thesis
  proof (cases "tq_len k q")
    case 0
    then show ?thesis using assms s by (simp add: pop_global_def tq_contents_def)
  next
    case (Suc m)
    let ?q = "q\<lparr>tq_age := age_increment k (tq_age q)\<rparr>"
    have t: "unat (age_top (age_increment k (tq_age q))) = (?t + 1) mod 2 ^ k" by (simp add: age_increment_def Let_def unat_increment k(1))
    have "tq_wf k ?q \<and> tq_len k ?q = m"
      by (rule tq_wfI) (use k b Suc n t in \<open>simp_all add: mod_simps\<close>)
    then show ?thesis using s k(2,3) Suc t by (simp add: pop_global_def Let_def array_get_def tq_contents_def ring_contents_Cons)
  qed
qed


lemma ring_contents_list_update:
  assumes "j < n" "n \<le> 2 ^ k" "length elems = 2 ^ k"
  shows "ring_contents k (elems[(t + j) mod 2 ^ k := x]) t n = (ring_contents k elems t n)[j := x]"
proof (rule nth_equalityI)
  fix i assume "i < length (ring_contents k (elems[(t + j) mod 2 ^ k := x]) t n)"
  then have i: "i < n" by simp
  have "(t + j) mod 2 ^ k \<noteq> (t + i) mod 2 ^ k" if "i \<noteq> j"
    using that ring_slots_distinct [of i j "2 ^ k" t] ring_slots_distinct [of j i "2 ^ k" t] i assms by (cases "i < j") auto
  then show "ring_contents k (elems[(t + j) mod 2 ^ k := x]) t n ! i = (ring_contents k elems t n)[j := x] ! i"
    using i assms by (cases "i = j") (simp_all add: ring_contents_def)
qed simp

lemma map_from_end: "m < length c \<Longrightarrow> (take (Suc m) c @ map f (drop (Suc m) c))[m := f (c ! m)] = take m c @ map f (drop m c)"
  by (simp add: take_Suc_conv_app_nth list_update_append Cons_nth_drop_Suc [symmetric] min_def)

lemma oops_do_spec:
  assumes "tq_wf k q"
  shows "succeeds (oops_do k f q) (\<lambda>q'. tq_wf k q' \<and> tq_contents k q' = map f (tq_contents k q))"
proof -
  let ?t = "unat (age_top (tq_age q))" and ?c = "tq_contents k q" and ?n = "tq_len k q"
  have k: "ring k" "length (tq_elems q) = 2 ^ k" "?t < 2 ^ k" and b: "unat (tq_bottom q) = (?t + ?n) mod 2 ^ k"
    and n: "?n \<le> 2 ^ k - 2" using assms by (simp_all add: tq_wf_def)
  have d: "unat (dirty_size k (tq_bottom q) (age_top (tq_age q))) = ?n" by (simp add: tq_len_def tq_dirty_size_def)
  have iters: "unat (tq_size k q) = ?n"
    using unat_size_of [OF k(1), of "tq_bottom q" "age_top (tq_age q)"] n ring_last [OF k(1)] by (simp add: tq_size_def d)
  let ?I = "\<lambda>i (index :: uint, q'). unat index = (?t + (?n - i)) mod 2 ^ k \<and> (\<exists>es. q' = q\<lparr>tq_elems := es\<rparr> \<and> length es = 2 ^ k
      \<and> ring_contents k es ?t ?n = take (?n - i) ?c @ map f (drop (?n - i) ?c))"
  let ?body = "\<lambda>i (index, q). let index = decrement_index k index in array_get (tq_elems q) (unat index) \<bind> (\<lambda>t.
       array_put (tq_elems q) (unat index) (f t) \<bind> (\<lambda>elems. Some (index, q\<lparr>tq_elems := elems\<rparr>)))"
  have "succeeds (for_loop 0 ?n ?body (tq_bottom q, q)) (?I ?n)"
  proof (rule for_loop_rule [where I = ?I])
    show "?I 0 (tq_bottom q, q)" using b k(2) by (auto simp: tq_contents_def intro!: exI [of _ "tq_elems q"])
    fix i st assume i: "0 \<le> i" "i < ?n" and I: "?I i st"
    obtain index :: uint and es where st: "st = (index, q\<lparr>tq_elems := es\<rparr>)" and ix: "unat index = (?t + (?n - i)) mod 2 ^ k"
      and es: "length es = 2 ^ k" "ring_contents k es ?t ?n = take (?n - i) ?c @ map f (drop (?n - i) ?c)"
      using I by (cases st) auto
    obtain m where m: "?n - i = Suc m" "?n - Suc i = m" "m < ?n" using i by (metis Suc_diff_Suc diff_less less_imp_Suc_add zero_less_Suc diff_Suc_less less_Suc_eq_0_disj)
    have ix': "unat (decrement_index k index) = (?t + m) mod 2 ^ k" using decrement_slot [OF k(1)] ix m(1) by simp
    have c: "length ?c = ?n" by (simp add: tq_contents_def)
    have "es ! ((?t + m) mod 2 ^ k) = ring_contents k es ?t ?n ! m" using m(3) by (simp add: ring_contents_def)
    also have "\<dots> = ?c ! m" unfolding es(2) m(1) using m(3) c by (simp add: nth_append)
    finally have e: "es ! ((?t + m) mod 2 ^ k) = ?c ! m" .
    have "ring_contents k (es[(?t + m) mod 2 ^ k := f (?c ! m)]) ?t ?n = (ring_contents k es ?t ?n)[m := f (?c ! m)]"
      by (rule ring_contents_list_update) (use m(3) n es(1) in simp_all)
    also have "\<dots> = take m ?c @ map f (drop m ?c)" unfolding es(2) m(1) using m(3) c by (intro map_from_end) simp
    finally show "succeeds (?body i st) (?I (Suc i))"
      unfolding st using es(1) ix' e m(2) by (auto simp: Let_def array_get_def array_put_def)
  qed simp_all
  then obtain index :: uint and es where l: "for_loop 0 ?n ?body (tq_bottom q, q) = Some (index, q\<lparr>tq_elems := es\<rparr>)" "length es = 2 ^ k"
      "ring_contents k es ?t ?n = map f ?c" by (auto simp: succeeds_iff)
  have "tq_wf k (q\<lparr>tq_elems := es\<rparr>) \<and> tq_len k (q\<lparr>tq_elems := es\<rparr>) = ?n" by (rule tq_wfI) (use k b n l(2) in simp_all)
  then show ?thesis using l(1,3) by (simp add: oops_do_def iters tq_contents_def)
qed

text \<open>
  C32: without interference the queue is a double-ended queue.  A push appends its element unless
  the \<^verbatim>\<open>N - 2\<close> usable slots are taken, and then the overflow stack takes it, so a push on the
  overflow queue never fails; \<^verbatim>\<open>pop_local\<close> gives the newest element, \<^verbatim>\<open>pop_global\<close> the oldest,
  \<^verbatim>\<open>pop_overflow\<close> the newest overflowed one, \<^verbatim>\<open>is_empty\<close> tells whether both parts are empty, and
  \<^verbatim>\<open>oops_do\<close> visits every element of the queue once.
\<close>

theorem task_queue_one_thread:
  assumes "tq_wf k (oq_queue oq)"
  shows "succeeds (oq_push k oq x) (\<lambda>(r, oq'). r \<and> tq_wf k (oq_queue oq')
      \<and> (if length (tq_contents k (oq_queue oq)) < 2 ^ k - 2
         then tq_contents k (oq_queue oq') = tq_contents k (oq_queue oq) @ [x] \<and> oq_overflow oq' = oq_overflow oq
         else tq_contents k (oq_queue oq') = tq_contents k (oq_queue oq) \<and> oq_overflow oq' = x # oq_overflow oq))
    \<and> succeeds (pop_local k (oq_queue oq)) (\<lambda>(r, q'). tq_wf k q' \<and> (case r of
        None \<Rightarrow> tq_contents k (oq_queue oq) = [] \<and> q' = oq_queue oq | Some y \<Rightarrow> tq_contents k (oq_queue oq) = tq_contents k q' @ [y]))
    \<and> succeeds (pop_global k (oq_queue oq)) (\<lambda>(r, q'). tq_wf k q' \<and> (case r of
        None \<Rightarrow> tq_contents k (oq_queue oq) = [] \<and> q' = oq_queue oq | Some y \<Rightarrow> tq_contents k (oq_queue oq) = y # tq_contents k q'))
    \<and> (case oq_pop_overflow oq of (r, oq') \<Rightarrow> oq_queue oq' = oq_queue oq
        \<and> oq_overflow oq = (case r of None \<Rightarrow> [] | Some y \<Rightarrow> y # oq_overflow oq'))
    \<and> (oq_is_empty k oq \<longleftrightarrow> tq_contents k (oq_queue oq) = [] \<and> oq_overflow oq = [])
    \<and> succeeds (oops_do k f (oq_queue oq)) (\<lambda>q'. tq_wf k q' \<and> tq_contents k q' = map f (tq_contents k (oq_queue oq)))"
proof (intro conjI)
  let ?q = "oq_queue oq"
  show "succeeds (oq_push k oq x) (\<lambda>(r, oq'). r \<and> tq_wf k (oq_queue oq')
      \<and> (if length (tq_contents k ?q) < 2 ^ k - 2
         then tq_contents k (oq_queue oq') = tq_contents k ?q @ [x] \<and> oq_overflow oq' = oq_overflow oq
         else tq_contents k (oq_queue oq') = tq_contents k ?q \<and> oq_overflow oq' = x # oq_overflow oq))"
  proof -
    obtain q' where "tq_push k ?q x = Some (length (tq_contents k ?q) < 2 ^ k - 2, q')" "tq_wf k q'"
      "tq_contents k q' = (if length (tq_contents k ?q) < 2 ^ k - 2 then tq_contents k ?q @ [x] else tq_contents k ?q)"
      using tq_push_spec [OF assms, of x] by (auto simp: succeeds_iff)
    then show ?thesis by (simp add: oq_push_def)
  qed
  have k: "ring k" and n: "tq_len k ?q \<le> 2 ^ k - 2" using assms by (simp_all add: tq_wf_def)
  have "unat (tq_size k ?q) = tq_len k ?q"
    using unat_size_of [OF k, of "tq_bottom ?q" "age_top (tq_age ?q)"] n ring_last [OF k]
    by (simp add: tq_size_def tq_len_def tq_dirty_size_def)
  then have "tq_is_empty k ?q \<longleftrightarrow> tq_contents k ?q = []"
    by (simp add: tq_is_empty_def word_less_unat tq_contents_def flip: length_0_conv)
  then show "oq_is_empty k oq \<longleftrightarrow> tq_contents k ?q = [] \<and> oq_overflow oq = []"
    by (simp add: oq_is_empty_def oq_overflow_empty_def)
  show "case oq_pop_overflow oq of (r, oq') \<Rightarrow> oq_queue oq' = ?q \<and> oq_overflow oq = (case r of None \<Rightarrow> [] | Some y \<Rightarrow> y # oq_overflow oq')"
    by (simp add: oq_pop_overflow_def oq_overflow_empty_def)
qed (fact pop_local_spec [OF assms] pop_global_spec [OF assms] oops_do_spec [OF assms])+

theorem task_queue_one_thread_witness:
  "\<exists>oq. tq_wf 2 (oq_queue oq) \<and> tq_contents 2 (oq_queue oq) = [7, 8 :: nat]
    \<and> succeeds (oq_push 2 oq 9) (\<lambda>(r, oq'). r \<and> tq_contents 2 (oq_queue oq') = [7, 8] \<and> oq_overflow oq' = [9])
    \<and> succeeds (pop_local 2 (oq_queue oq)) (\<lambda>(r, q'). r = Some 8)"
proof -
  let ?oq = "\<lparr>oq_queue = \<lparr>tq_bottom = 1, tq_age = \<lparr>age_top = 3, age_tag = 5\<rparr>, tq_elems = [8, 0, 0, 7 :: nat]\<rparr>, oq_overflow = []\<rparr>"
  have wf: "tq_wf 2 (oq_queue ?oq) \<and> tq_len 2 (oq_queue ?oq) = 2" by (rule tq_wfI) (simp_all add: ring_def)
  then have c: "tq_contents 2 (oq_queue ?oq) = [7, 8]" by (simp add: tq_contents_def ring_contents_def upt_rec)
  show ?thesis using task_queue_one_thread [OF wf [THEN conjunct1], of 9 id] wf c
    by (intro exI [of _ ?oq]) (auto elim!: succeeds_weaken split: option.splits)
qed

end
