(* ===== verification/Task_Queue_Par.thy ===== *)
theory Task_Queue_Par
  imports Task_Queue
begin

text \<open>
  The task queue of \<^verbatim>\<open>utilities/taskqueue.hpp\<close> under stealing: the owner of the queue runs
  \<^verbatim>\<open>push\<close> and \<^verbatim>\<open>pop_local\<close>, any number of thieves run \<^verbatim>\<open>pop_global\<close>, and every access to
  \<^verbatim>\<open>_bottom\<close>, \<^verbatim>\<open>_age\<close> or \<^verbatim>\<open>_elems\<close> is one atomic step, in the order of the source.  The fences of the
  source are there to give this order on every processor.  The linearization of an operation is its
  last step, which carries the event.
\<close>

section \<open>Steps\<close>

text \<open>Where the owner stands, with the local variables it still needs.\<close>

datatype 'e owner_pc =
    O_idle
  | O_push 'e uint
  | O_push_slow 'e
  | O_store 'e uint
  | O_bottom 'e uint
  | O_pop uint
  | O_dec uint
  | O_elem uint
  | O_top uint 'e
  | O_age uint 'e
  | O_cas uint 'e age
  | O_set uint age

datatype 'e thief_pc =
    T_idle
  | T_age age
  | T_elem age
  | T_cas age 'e

record 'e tq_state =
  ts_queue :: "'e task_queue"
  ts_owner :: "'e owner_pc"
  ts_thief :: "nat \<Rightarrow> 'e thief_pc"

datatype 'e tq_event = Tau | Pushed 'e | Push_full | Popped 'e | Pop_empty | Stole nat 'e

definition initial_state :: "'e list \<Rightarrow> 'e tq_state" where
  "initial_state elems = \<lparr>ts_queue = new_task_queue elems, ts_owner = O_idle, ts_thief = (\<lambda>_. T_idle)\<rparr>"

definition new_age :: "uint \<Rightarrow> age \<Rightarrow> age" where
  "new_age localBot oldAge = \<lparr>age_top = localBot, age_tag = age_tag oldAge + 1\<rparr>"

inductive tq_step :: "nat \<Rightarrow> 'e tq_state \<Rightarrow> 'e tq_event \<Rightarrow> 'e tq_state \<Rightarrow> bool" for k where
  push_start: "ts_owner s = O_idle \<Longrightarrow> tq_step k s Tau (s\<lparr>ts_owner := O_push x (tq_bottom (ts_queue s))\<rparr>)"
| push_room: "ts_owner s = O_push x b \<Longrightarrow> dirty_size k b (age_top (tq_age (ts_queue s))) < max_elems k \<Longrightarrow>
    tq_step k s Tau (s\<lparr>ts_owner := O_store x b\<rparr>)"
| push_to_slow: "ts_owner s = O_push x b \<Longrightarrow> \<not> dirty_size k b (age_top (tq_age (ts_queue s))) < max_elems k \<Longrightarrow>
    dirty_size k b (age_top (tq_age (ts_queue s))) = 2 ^ k - 1 \<Longrightarrow> tq_step k s Tau (s\<lparr>ts_owner := O_push_slow x\<rparr>)"
| push_slow_bottom: "ts_owner s = O_push_slow x \<Longrightarrow> tq_step k s Tau (s\<lparr>ts_owner := O_store x (tq_bottom (ts_queue s))\<rparr>)"
| push_full: "ts_owner s = O_push x b \<Longrightarrow> \<not> dirty_size k b (age_top (tq_age (ts_queue s))) < max_elems k \<Longrightarrow>
    dirty_size k b (age_top (tq_age (ts_queue s))) \<noteq> 2 ^ k - 1 \<Longrightarrow> tq_step k s Push_full (s\<lparr>ts_owner := O_idle\<rparr>)"
| push_store: "ts_owner s = O_store x b \<Longrightarrow> array_put (tq_elems (ts_queue s)) (unat b) x = Some es \<Longrightarrow>
    tq_step k s Tau (s\<lparr>ts_queue := (ts_queue s)\<lparr>tq_elems := es\<rparr>, ts_owner := O_bottom x b\<rparr>)"
| push_bottom: "ts_owner s = O_bottom x b \<Longrightarrow>
    tq_step k s (Pushed x) (s\<lparr>ts_queue := (ts_queue s)\<lparr>tq_bottom := increment_index k b\<rparr>, ts_owner := O_idle\<rparr>)"
| pop_start: "ts_owner s = O_idle \<Longrightarrow> tq_step k s Tau (s\<lparr>ts_owner := O_pop (tq_bottom (ts_queue s))\<rparr>)"
| pop_none: "ts_owner s = O_pop b \<Longrightarrow> dirty_size k b (age_top (tq_age (ts_queue s))) = 0 \<Longrightarrow>
    tq_step k s Pop_empty (s\<lparr>ts_owner := O_idle\<rparr>)"
| pop_some: "ts_owner s = O_pop b \<Longrightarrow> dirty_size k b (age_top (tq_age (ts_queue s))) \<noteq> 0 \<Longrightarrow>
    tq_step k s Tau (s\<lparr>ts_owner := O_dec (decrement_index k b)\<rparr>)"
| pop_bottom: "ts_owner s = O_dec b \<Longrightarrow>
    tq_step k s Tau (s\<lparr>ts_queue := (ts_queue s)\<lparr>tq_bottom := b\<rparr>, ts_owner := O_elem b\<rparr>)"
| pop_elem: "ts_owner s = O_elem b \<Longrightarrow> array_get (tq_elems (ts_queue s)) (unat b) = Some x \<Longrightarrow>
    tq_step k s Tau (s\<lparr>ts_owner := O_top b x\<rparr>)"
| pop_fast: "ts_owner s = O_top b x \<Longrightarrow> size_of k b (age_top (tq_age (ts_queue s))) > 0 \<Longrightarrow>
    tq_step k s (Popped x) (s\<lparr>ts_owner := O_idle\<rparr>)"
| pop_to_slow: "ts_owner s = O_top b x \<Longrightarrow> \<not> size_of k b (age_top (tq_age (ts_queue s))) > 0 \<Longrightarrow>
    tq_step k s Tau (s\<lparr>ts_owner := O_age b x\<rparr>)"
| pop_age: "ts_owner s = O_age b x \<Longrightarrow> a = tq_age (ts_queue s) \<Longrightarrow>
    tq_step k s Tau (s\<lparr>ts_owner := (if b = age_top a then O_cas b x a else O_set b a)\<rparr>)"
| pop_win: "ts_owner s = O_cas b x a \<Longrightarrow> tq_age (ts_queue s) = a \<Longrightarrow>
    tq_step k s (Popped x) (s\<lparr>ts_queue := (ts_queue s)\<lparr>tq_age := new_age b a\<rparr>, ts_owner := O_idle\<rparr>)"
| pop_lose: "ts_owner s = O_cas b x a \<Longrightarrow> tq_age (ts_queue s) \<noteq> a \<Longrightarrow> tq_step k s Tau (s\<lparr>ts_owner := O_set b a\<rparr>)"
| pop_set: "ts_owner s = O_set b a \<Longrightarrow>
    tq_step k s Pop_empty (s\<lparr>ts_queue := (ts_queue s)\<lparr>tq_age := new_age b a\<rparr>, ts_owner := O_idle\<rparr>)"
| steal_start: "ts_thief s i = T_idle \<Longrightarrow>
    tq_step k s Tau (s\<lparr>ts_thief := (ts_thief s)(i := T_age (tq_age (ts_queue s)))\<rparr>)"
| steal_none: "ts_thief s i = T_age a \<Longrightarrow> size_of k (tq_bottom (ts_queue s)) (age_top a) = 0 \<Longrightarrow>
    tq_step k s Tau (s\<lparr>ts_thief := (ts_thief s)(i := T_idle)\<rparr>)"
| steal_some: "ts_thief s i = T_age a \<Longrightarrow> size_of k (tq_bottom (ts_queue s)) (age_top a) \<noteq> 0 \<Longrightarrow>
    tq_step k s Tau (s\<lparr>ts_thief := (ts_thief s)(i := T_elem a)\<rparr>)"
| steal_elem: "ts_thief s i = T_elem a \<Longrightarrow> array_get (tq_elems (ts_queue s)) (unat (age_top a)) = Some x \<Longrightarrow>
    tq_step k s Tau (s\<lparr>ts_thief := (ts_thief s)(i := T_cas a x)\<rparr>)"
| steal_win: "ts_thief s i = T_cas a x \<Longrightarrow> tq_age (ts_queue s) = a \<Longrightarrow>
    tq_step k s (Stole i x) (s\<lparr>ts_queue := (ts_queue s)\<lparr>tq_age := age_increment k a\<rparr>, ts_thief := (ts_thief s)(i := T_idle)\<rparr>)"
| steal_lose: "ts_thief s i = T_cas a x \<Longrightarrow> tq_age (ts_queue s) \<noteq> a \<Longrightarrow>
    tq_step k s Tau (s\<lparr>ts_thief := (ts_thief s)(i := T_idle)\<rparr>)"

section \<open>The abstract queue\<close>

text \<open>While the owner is inside \<^verbatim>\<open>pop_local\<close>, behind its store to \<^verbatim>\<open>_bottom\<close>, the element is not yet decided.\<close>

fun popping :: "'e owner_pc \<Rightarrow> bool" where
  "popping (O_elem b) = True"
| "popping (O_top b x) = True"
| "popping (O_age b x) = True"
| "popping (O_cas b x a) = True"
| "popping (O_set b a) = True"
| "popping _ = False"

definition end_index :: "nat \<Rightarrow> 'e tq_state \<Rightarrow> uint" where
  "end_index k s = (if popping (ts_owner s) then increment_index k (tq_bottom (ts_queue s)) else tq_bottom (ts_queue s))"

definition par_len :: "nat \<Rightarrow> 'e tq_state \<Rightarrow> nat" where
  "par_len k s = unat (dirty_size k (end_index k s) (age_top (tq_age (ts_queue s))))"

definition par_contents :: "nat \<Rightarrow> 'e tq_state \<Rightarrow> 'e list" where
  "par_contents k s = ring_contents k (tq_elems (ts_queue s)) (unat (age_top (tq_age (ts_queue s)))) (par_len k s)"

fun deque_step :: "nat \<Rightarrow> 'e list \<Rightarrow> 'e tq_event \<Rightarrow> 'e list \<Rightarrow> bool" where
  "deque_step k q Tau q' \<longleftrightarrow> q' = q"
| "deque_step k q (Pushed x) q' \<longleftrightarrow> q' = q @ [x] \<and> length q < 2 ^ k - 2"
| "deque_step k q Push_full q' \<longleftrightarrow> q' = q \<and> length q = 2 ^ k - 2"
| "deque_step k q (Popped x) q' \<longleftrightarrow> q = q' @ [x]"
| "deque_step k q Pop_empty q' \<longleftrightarrow> q = [] \<and> q' = []"
| "deque_step k q (Stole i x) q' \<longleftrightarrow> q = x # q'"

section \<open>The invariant\<close>

text \<open>The 64 bits of an age, as a number; every change of the age increases it.\<close>

definition age_val :: "age \<Rightarrow> nat" where
  "age_val a = unat (age_tag a) * 2 ^ 32 + unat (age_top a)"

definition shape :: "nat \<Rightarrow> 'e tq_state \<Rightarrow> nat \<Rightarrow> bool" where
  "shape k s n \<longleftrightarrow> ring k \<and> length (tq_elems (ts_queue s)) = 2 ^ k \<and> unat (age_top (tq_age (ts_queue s))) < 2 ^ k \<and> n \<le> 2 ^ k - 2
     \<and> unat (tq_bottom (ts_queue s)) < 2 ^ k \<and> unat (end_index k s) = (unat (age_top (tq_age (ts_queue s))) + n) mod 2 ^ k"

fun owner_ok :: "nat \<Rightarrow> 'e task_queue \<Rightarrow> nat \<Rightarrow> 'e owner_pc \<Rightarrow> bool" where
  "owner_ok k q n O_idle = True"
| "owner_ok k q n (O_push x b) = (b = tq_bottom q)"
| "owner_ok k q n (O_push_slow x) = False"
| "owner_ok k q n (O_store x b) = (b = tq_bottom q \<and> n < 2 ^ k - 2)"
| "owner_ok k q n (O_bottom x b) = (b = tq_bottom q \<and> n < 2 ^ k - 2 \<and> tq_elems q ! unat b = x)"
| "owner_ok k q n (O_pop b) = (b = tq_bottom q)"
| "owner_ok k q n (O_dec b) = (b = decrement_index k (tq_bottom q))"
| "owner_ok k q n (O_elem b) = (b = tq_bottom q)"
| "owner_ok k q n (O_top b x) = (b = tq_bottom q \<and> tq_elems q ! unat b = x)"
| "owner_ok k q n (O_age b x) = (b = tq_bottom q \<and> tq_elems q ! unat b = x \<and> n \<le> 1)"
| "owner_ok k q n (O_cas b x a) = (b = tq_bottom q \<and> tq_elems q ! unat b = x \<and> b = age_top a
     \<and> unat (age_tag a) \<le> unat (age_tag (tq_age q)) \<and> (tq_age q = a \<and> n = 1 \<or> tq_age q = age_increment k a \<and> n = 0))"
| "owner_ok k q n (O_set b a) = (b = tq_bottom q \<and> n = 0
     \<and> unat (age_tag a) \<le> unat (age_tag (tq_age q)) \<and> (tq_age q = a \<or> b = age_top a \<and> tq_age q = age_increment k a))"

fun thief_ok :: "'e task_queue \<Rightarrow> nat \<Rightarrow> 'e thief_pc \<Rightarrow> bool" where
  "thief_ok q n T_idle = True"
| "thief_ok q n (T_age a) = (age_val a \<le> age_val (tq_age q) \<and> unat (age_top a) < length (tq_elems q))"
| "thief_ok q n (T_elem a) = (age_val a \<le> age_val (tq_age q) \<and> unat (age_top a) < length (tq_elems q) \<and> (tq_age q = a \<longrightarrow> 1 \<le> n))"
| "thief_ok q n (T_cas a x) = (age_val a \<le> age_val (tq_age q) \<and> (tq_age q = a \<longrightarrow> 1 \<le> n \<and> tq_elems q ! unat (age_top a) = x))"

definition par_inv :: "nat \<Rightarrow> nat \<Rightarrow> 'e tq_state \<Rightarrow> nat \<Rightarrow> bool" where
  "par_inv k m s n \<longleftrightarrow> shape k s n \<and> unat (age_tag (tq_age (ts_queue s))) \<le> m \<and> owner_ok k (ts_queue s) n (ts_owner s)
     \<and> (\<forall>i. thief_ok (ts_queue s) n (ts_thief s i))"

lemma shape_len:
  assumes "shape k s n"
  shows "par_len k s = n"
proof -
  have "n < 2 ^ k" using assms ring_size [of k] by (auto simp: shape_def)
  then show ?thesis using assms by (auto simp: shape_def par_len_def intro!: dirty_slot)
qed

lemma age_val_inj: "age_val a = age_val b \<longleftrightarrow> a = b"
proof
  assume e: "age_val a = age_val b"
  have "unat (age_top a) < 2 ^ 32" "unat (age_top b) < 2 ^ 32" using unat_bound [where 'a = 32] by simp_all
  then have "unat (age_tag a) = unat (age_tag b)" "unat (age_top a) = unat (age_top b)"
    using arg_cong [OF e, of "\<lambda>v. v div 2 ^ 32"] arg_cong [OF e, of "\<lambda>v. v mod 2 ^ 32"] by (simp_all add: age_val_def)
  then show "a = b" by (simp add: word_unat_eq_iff)
qed simp

text \<open>A thief is not disturbed by a step that moves the age on, or that leaves the head of the queue.\<close>

lemma thief_ok_later:
  assumes "thief_ok q n pc" "length (tq_elems q') = length (tq_elems q)"
    and "age_val (tq_age q) < age_val (tq_age q') \<or> tq_age q' = tq_age q
      \<and> (1 \<le> n \<longrightarrow> 1 \<le> n' \<and> tq_elems q' ! unat (age_top (tq_age q)) = tq_elems q ! unat (age_top (tq_age q)))"
  shows "thief_ok q' n' pc"
  using assms by (cases pc) auto

lemma new_age_later:
  assumes "unat (age_tag a) + 1 < 2 ^ 32"
  shows "age_val a < age_val (new_age b a)" "unat (age_tag (new_age b a)) = unat (age_tag a) + 1"
proof -
  show t: "unat (age_tag (new_age b a)) = unat (age_tag a) + 1" using assms by (simp add: new_age_def unat_word_ariths)
  have "unat (age_top a) < 2 ^ 32" using unat_bound [where 'a = 32] by simp
  then show "age_val a < age_val (new_age b a)" unfolding age_val_def t by simp
qed

lemma age_increment_later:
  assumes "ring k" "unat (age_tag a) + 1 < 2 ^ 32" "unat (age_top a) < 2 ^ k"
  shows "age_val a < age_val (age_increment k a)" "unat (age_tag (age_increment k a)) \<le> unat (age_tag a) + 1"
    "unat (age_top (age_increment k a)) = (unat (age_top a) + 1) mod 2 ^ k"
proof -
  let ?t = "increment_index k (age_top a)"
  have t: "unat ?t = (unat (age_top a) + 1) mod 2 ^ k" by (rule unat_increment [OF assms(1)])
  have g: "unat (age_tag a + 1) = unat (age_tag a) + 1" using assms(2) by (simp add: unat_word_ariths)
  show "unat (age_top (age_increment k a)) = (unat (age_top a) + 1) mod 2 ^ k" by (simp add: age_increment_def Let_def t)
  show "unat (age_tag (age_increment k a)) \<le> unat (age_tag a) + 1" using g by (simp add: age_increment_def Let_def)
  show "age_val a < age_val (age_increment k a)"
  proof (cases "?t = 0")
    case True
    have "unat (age_top a) < 2 ^ 32" using unat_bound [where 'a = 32] by simp
    then show ?thesis using True g by (simp add: age_val_def age_increment_def Let_def)
  next
    case False
    then have "unat ?t = unat (age_top a) + 1" using t assms(3) by (simp add: word_less_unat mod_if split: if_splits)
    then show ?thesis using False by (simp add: age_val_def age_increment_def Let_def)
  qed
qed


lemma set_age_later:
  assumes "ring k" "unat (age_tag a) + 1 < 2 ^ 32" "unat (age_top a) < 2 ^ k" "c = a \<or> b = age_top a \<and> c = age_increment k a"
  shows "age_val c < age_val (new_age b a)"
proof (cases "c = a")
  case True
  then show ?thesis using new_age_later(1) [OF assms(2)] by simp
next
  case False
  then have c: "b = age_top a" "c = age_increment k a" using assms(4) by blast+
  let ?t = "increment_index k (age_top a)"
  show ?thesis
  proof (cases "?t = 0")
    case True
    have "(unat (age_top a) + 1) mod 2 ^ k = 0" using True unat_increment [OF assms(1), of "age_top a"] by simp
    then have "0 < unat (age_top a)" using ring_size [OF assms(1)] by (cases "unat (age_top a)") auto
    then show ?thesis using True by (simp add: c age_val_def age_increment_def new_age_def Let_def)
  next
    case False
    have "unat ?t < 2 ^ 32" using unat_bound [where 'a = 32] by simp
    then show ?thesis using False new_age_later(2) [OF assms(2), of b] by (simp add: c age_val_def age_increment_def Let_def)
  qed
qed

section \<open>Every step keeps the invariant\<close>

lemma owner_moves:
  assumes "par_inv k m s n" "popping pc = popping (ts_owner s)" "owner_ok k (ts_queue s) n pc"
  shows "par_inv k (Suc m) (s\<lparr>ts_owner := pc\<rparr>) n" "par_contents k (s\<lparr>ts_owner := pc\<rparr>) = par_contents k s"
  using assms by (auto simp: par_inv_def shape_def end_index_def par_contents_def par_len_def)

lemma thief_moves:
  assumes "par_inv k m s n" "thief_ok (ts_queue s) n pc"
  shows "par_inv k (Suc m) (s\<lparr>ts_thief := (ts_thief s)(i := pc)\<rparr>) n" "par_contents k (s\<lparr>ts_thief := (ts_thief s)(i := pc)\<rparr>) = par_contents k s"
  using assms by (auto simp: par_inv_def shape_def end_index_def par_contents_def par_len_def)

text \<open>The general step: the queue and the owner change.\<close>

lemma queue_moves:
  assumes inv: "par_inv k m s n" and sh: "shape k s' n'" and ow: "owner_ok k (ts_queue s') n' (ts_owner s')"
    and tg: "unat (age_tag (tq_age (ts_queue s'))) \<le> Suc m"
    and th: "\<And>i. ts_thief s' i = ts_thief s i \<or> ts_thief s' i = T_idle"
    and later: "age_val (tq_age (ts_queue s)) < age_val (tq_age (ts_queue s')) \<or> tq_age (ts_queue s') = tq_age (ts_queue s)
      \<and> (1 \<le> n \<longrightarrow> 1 \<le> n' \<and> tq_elems (ts_queue s') ! unat (age_top (tq_age (ts_queue s))) = tq_elems (ts_queue s) ! unat (age_top (tq_age (ts_queue s))))"
  shows "par_inv k (Suc m) s' n'"
proof -
  have "thief_ok (ts_queue s') n' (ts_thief s' i)" for i
    using th [of i] thief_ok_later [OF _ _ later, of "ts_thief s i"] inv sh by (auto simp: par_inv_def shape_def)
  then show ?thesis using sh ow tg by (simp add: par_inv_def)
qed

lemma inv_contents: "par_inv k m s n \<Longrightarrow> par_contents k s = ring_contents k (tq_elems (ts_queue s)) (unat (age_top (tq_age (ts_queue s)))) n"
  using shape_len [of k s n] by (simp add: par_inv_def par_contents_def)

lemma idle_dirty:
  assumes "par_inv k m s n" "\<not> popping (ts_owner s)"
  shows "unat (dirty_size k (tq_bottom (ts_queue s)) (age_top (tq_age (ts_queue s)))) = n"
  using shape_len [of k s n] assms by (simp add: par_inv_def par_len_def end_index_def)

lemma popping_bottom:
  assumes "ring k" "unat b < 2 ^ k" "unat (increment_index k b) = (t + n) mod 2 ^ k"
  shows "unat b = (t + (n + 2 ^ k - 1)) mod 2 ^ k"
proof -
  have "unat b = (unat b + 1 + (2 ^ k - 1)) mod 2 ^ k" using assms(2) by simp
  also have "\<dots> = ((unat b + 1) mod 2 ^ k + (2 ^ k - 1)) mod 2 ^ k" by (rule mod_add_left_eq [symmetric])
  also have "\<dots> = ((t + n) mod 2 ^ k + (2 ^ k - 1)) mod 2 ^ k" using assms(3) by (simp add: unat_increment [OF assms(1)])
  also have "\<dots> = (t + n + (2 ^ k - 1)) mod 2 ^ k" by (rule mod_add_left_eq)
  also have "t + n + (2 ^ k - 1) = t + (n + 2 ^ k - 1)" by (cases "2 ^ k :: nat") simp_all
  finally show ?thesis .
qed

lemma popping_dirty:
  assumes "par_inv k m s n" "popping (ts_owner s)"
  shows "unat (dirty_size k (tq_bottom (ts_queue s)) (age_top (tq_age (ts_queue s)))) = (if n = 0 then 2 ^ k - 1 else n - 1)"
    "0 < n \<Longrightarrow> unat (tq_bottom (ts_queue s)) = (unat (age_top (tq_age (ts_queue s))) + (n - 1)) mod 2 ^ k"
proof -
  let ?t = "unat (age_top (tq_age (ts_queue s)))" and ?b = "tq_bottom (ts_queue s)"
  have k: "ring k" "?t < 2 ^ k" "n \<le> 2 ^ k - 2" "unat ?b < 2 ^ k" and e: "unat (increment_index k ?b) = (?t + n) mod 2 ^ k"
    using assms by (simp_all add: par_inv_def shape_def end_index_def)
  have b: "unat ?b = (?t + (n + 2 ^ k - 1)) mod 2 ^ k" by (rule popping_bottom [OF k(1,4) e])
  have slot: "unat (dirty_size k ?b (age_top (tq_age (ts_queue s)))) = d" if "unat ?b = (?t + d) mod 2 ^ k" "d < 2 ^ k" for d
    by (rule dirty_slot [OF k(1,2) that(2,1)])
  have n: "unat ?b = (?t + j) mod 2 ^ k" if "n = Suc j" for j
  proof -
    have "?t + (n + 2 ^ k - 1) = ?t + j + 2 ^ k" using that by simp
    then show ?thesis unfolding b by (simp only: mod_add_self2)
  qed
  then show "0 < n \<Longrightarrow> unat ?b = (?t + (n - 1)) mod 2 ^ k" by (cases n) simp_all
  show "unat (dirty_size k ?b (age_top (tq_age (ts_queue s)))) = (if n = 0 then 2 ^ k - 1 else n - 1)"
  proof (cases n)
    case 0
    then show ?thesis using slot [of "2 ^ k - 1"] b by simp
  next
    case (Suc j)
    have "j < 2 ^ k" using Suc k(3) by linarith
    then show ?thesis using slot [OF n [OF Suc]] Suc by simp
  qed
qed

lemma popping_size:
  assumes "par_inv k m s n" "popping (ts_owner s)"
  shows "size_of k (tq_bottom (ts_queue s)) (age_top (tq_age (ts_queue s))) > 0 \<longleftrightarrow> 2 \<le> n"
proof -
  have k: "ring k" "n \<le> 2 ^ k - 2" using assms(1) by (simp_all add: par_inv_def shape_def)
  then show ?thesis using popping_dirty(1) [OF assms] ring_last [OF k(1)]
    by (auto simp: word_less_unat unat_size_of)
qed


lemma inv_ring:
  assumes "par_inv k m s n"
  shows "ring k" "length (tq_elems (ts_queue s)) = 2 ^ k" "unat (age_top (tq_age (ts_queue s))) < 2 ^ k" "n \<le> 2 ^ k - 2"
    "unat (tq_bottom (ts_queue s)) < 2 ^ k" "unat (end_index k s) = (unat (age_top (tq_age (ts_queue s))) + n) mod 2 ^ k"
    "unat (age_tag (tq_age (ts_queue s))) \<le> m" "owner_ok k (ts_queue s) n (ts_owner s)"
  using assms by (simp_all add: par_inv_def shape_def)

lemma step_push_store:
  assumes "par_inv k m s n" "ts_owner s = O_store x b" "array_put (tq_elems (ts_queue s)) (unat b) x = Some es"
  shows "let s' = s\<lparr>ts_queue := (ts_queue s)\<lparr>tq_elems := es\<rparr>, ts_owner := O_bottom x b\<rparr>
    in par_inv k (Suc m) s' n \<and> par_contents k s' = par_contents k s"
proof -
  note r = inv_ring [OF assms(1)]
  let ?t = "unat (age_top (tq_age (ts_queue s)))"
  let ?s = "s\<lparr>ts_queue := (ts_queue s)\<lparr>tq_elems := es\<rparr>, ts_owner := O_bottom x b\<rparr>"
  have b: "b = tq_bottom (ts_queue s)" "n < 2 ^ k - 2" using r(8) assms(2) by simp_all
  have u: "unat b = (?t + n) mod 2 ^ k" using r(6) assms(2) b(1) by (simp add: end_index_def)
  have es: "es = (tq_elems (ts_queue s))[(?t + n) mod 2 ^ k := x]" using assms(3) r(2) by (simp add: array_put_def u split: if_splits)
  have n: "n < 2 ^ k" using b(2) by linarith
  have ex: "es ! unat (tq_bottom (ts_queue s)) = x" using r(2) u b(1) by (simp add: es)
  have "shape k ?s n" using r assms(2) es by (simp add: shape_def end_index_def)
  moreover have "es ! ?t = tq_elems (ts_queue s) ! ?t" if "1 \<le> n"
    using ring_slots_distinct [of 0 n "2 ^ k" ?t] that n r(3) by (simp add: es)
  ultimately have "par_inv k (Suc m) ?s n"
    by (intro queue_moves [OF assms(1)]) (use b r(7) ex in simp_all)
  moreover have "par_contents k ?s = par_contents k s"
    unfolding inv_contents [OF \<open>par_inv k (Suc m) ?s n\<close>] inv_contents [OF assms(1)] using n by (simp add: es ring_contents_update)
  ultimately show ?thesis by (simp add: Let_def)
qed

lemma step_push_bottom:
  assumes "par_inv k m s n" "ts_owner s = O_bottom x b"
  shows "let s' = s\<lparr>ts_queue := (ts_queue s)\<lparr>tq_bottom := increment_index k b\<rparr>, ts_owner := O_idle\<rparr>
    in par_inv k (Suc m) s' (Suc n) \<and> deque_step k (par_contents k s) (Pushed x) (par_contents k s')"
proof -
  note r = inv_ring [OF assms(1)]
  let ?t = "unat (age_top (tq_age (ts_queue s)))"
  let ?s = "s\<lparr>ts_queue := (ts_queue s)\<lparr>tq_bottom := increment_index k b\<rparr>, ts_owner := O_idle\<rparr>"
  have b: "b = tq_bottom (ts_queue s)" "n < 2 ^ k - 2" "tq_elems (ts_queue s) ! unat b = x" using r(8) assms(2) by auto
  have u: "unat b = (?t + n) mod 2 ^ k" using r(6) assms(2) b(1) by (simp add: end_index_def)
  have "shape k ?s (Suc n)" using r b(2) increment_slot [OF r(1) u] by (simp add: shape_def end_index_def)
  then have i: "par_inv k (Suc m) ?s (Suc n)" by (intro queue_moves [OF assms(1)]) (use r(7) in simp_all)
  show ?thesis using i b(2,3) by (simp add: Let_def inv_contents [OF i] inv_contents [OF assms(1)] ring_contents_snoc u)
qed

lemma step_pop_bottom:
  assumes "par_inv k m s n" "ts_owner s = O_dec b"
  shows "let s' = s\<lparr>ts_queue := (ts_queue s)\<lparr>tq_bottom := b\<rparr>, ts_owner := O_elem b\<rparr>
    in par_inv k (Suc m) s' n \<and> par_contents k s' = par_contents k s"
proof -
  note r = inv_ring [OF assms(1)]
  let ?t = "unat (age_top (tq_age (ts_queue s)))"
  let ?s = "s\<lparr>ts_queue := (ts_queue s)\<lparr>tq_bottom := b\<rparr>, ts_owner := O_elem b\<rparr>"
  have b: "b = decrement_index k (tq_bottom (ts_queue s))" using r(8) assms(2) by simp
  have "unat b < 2 ^ k" by (simp add: b unat_decrement r(1))
  moreover have "unat (increment_index k b) = unat (tq_bottom (ts_queue s))"
  proof -
    have "unat (tq_bottom (ts_queue s)) + 2 ^ k - 1 + 1 = unat (tq_bottom (ts_queue s)) + 2 ^ k" by simp
    then show ?thesis using r(5) by (simp add: b unat_increment unat_decrement r(1) mod_Suc_eq)
  qed
  ultimately have "shape k ?s n" using r assms(2) by (simp add: shape_def end_index_def)
  then have i: "par_inv k (Suc m) ?s n" by (intro queue_moves [OF assms(1)]) (use r(7) in simp_all)
  show ?thesis using i by (simp add: Let_def inv_contents [OF i] inv_contents [OF assms(1)])
qed

lemma step_pop_fast:
  assumes "par_inv k m s n" "ts_owner s = O_top b x" "size_of k b (age_top (tq_age (ts_queue s))) > 0"
  shows "par_inv k (Suc m) (s\<lparr>ts_owner := O_idle\<rparr>) (n - 1) \<and> deque_step k (par_contents k s) (Popped x) (par_contents k (s\<lparr>ts_owner := O_idle\<rparr>))"
proof -
  note r = inv_ring [OF assms(1)]
  let ?s = "s\<lparr>ts_owner := O_idle\<rparr>"
  have b: "b = tq_bottom (ts_queue s)" "tq_elems (ts_queue s) ! unat b = x" using r(8) assms(2) by auto
  have p: "popping (ts_owner s)" by (simp add: assms(2))
  have n: "2 \<le> n" using popping_size [OF assms(1) p] assms(3) b(1) by simp
  have u: "unat b = (unat (age_top (tq_age (ts_queue s))) + (n - 1)) mod 2 ^ k" using popping_dirty(2) [OF assms(1) p] n b(1) by simp
  have "shape k ?s (n - 1)" using r u b(1) by (simp add: shape_def end_index_def)
  then have i: "par_inv k (Suc m) ?s (n - 1)" by (intro queue_moves [OF assms(1)]) (use r(7) n in simp_all)
  obtain j where j: "n = Suc j" using n by (cases n) auto
  show ?thesis using i b(2) u by (simp add: inv_contents [OF i] inv_contents [OF assms(1)] ring_contents_snoc j)
qed

lemma step_pop_win:
  assumes "par_inv k m s n" "m + 1 < 2 ^ 32" "ts_owner s = O_cas b x a" "tq_age (ts_queue s) = a"
  shows "let s' = s\<lparr>ts_queue := (ts_queue s)\<lparr>tq_age := new_age b a\<rparr>, ts_owner := O_idle\<rparr>
    in par_inv k (Suc m) s' 0 \<and> deque_step k (par_contents k s) (Popped x) (par_contents k s')"
proof -
  note r = inv_ring [OF assms(1)]
  let ?s = "s\<lparr>ts_queue := (ts_queue s)\<lparr>tq_age := new_age b a\<rparr>, ts_owner := O_idle\<rparr>"
  have tg: "unat (age_tag a) + 1 < 2 ^ 32" using r(7) assms(2,4) by simp
  have "age_increment k a \<noteq> a" using age_increment_later(1) [OF r(1) tg] r(3) assms(4) by auto
  then have b: "b = tq_bottom (ts_queue s)" "tq_elems (ts_queue s) ! unat b = x" "b = age_top a" "n = 1"
    using r(8) assms(3,4) by auto
  have "shape k ?s 0" using r b by (simp add: shape_def end_index_def new_age_def)
  then have i: "par_inv k (Suc m) ?s 0"
    by (intro queue_moves [OF assms(1)]) (use r(7) new_age_later [OF tg, of b] assms(4) in simp_all)
  have "par_contents k ?s = []" using inv_contents [OF i] by simp
  moreover have "par_contents k s = [x]" using inv_contents [OF assms(1)] b r(3) assms(4) by (simp add: ring_contents_snoc)
  ultimately show ?thesis using i by (simp add: Let_def)
qed

lemma step_pop_set:
  assumes "par_inv k m s n" "m + 1 < 2 ^ 32" "ts_owner s = O_set b a"
  shows "let s' = s\<lparr>ts_queue := (ts_queue s)\<lparr>tq_age := new_age b a\<rparr>, ts_owner := O_idle\<rparr>
    in par_inv k (Suc m) s' 0 \<and> deque_step k (par_contents k s) Pop_empty (par_contents k s')"
proof -
  note r = inv_ring [OF assms(1)]
  let ?s = "s\<lparr>ts_queue := (ts_queue s)\<lparr>tq_age := new_age b a\<rparr>, ts_owner := O_idle\<rparr>" and ?age = "tq_age (ts_queue s)"
  have b: "b = tq_bottom (ts_queue s)" "n = 0" "unat (age_tag a) \<le> unat (age_tag ?age)" "?age = a \<or> b = age_top a \<and> ?age = age_increment k a"
    using r(8) assms(3) by auto
  have tg: "unat (age_tag a) + 1 < 2 ^ 32" "unat (age_tag a) \<le> m" using r(7) assms(2) b(3) by simp_all
  have "unat (age_top a) < 2 ^ k" using b(1,4) r(3,5) by auto
  from set_age_later [OF r(1) tg(1) this b(4)] have "age_val ?age < age_val (new_age b a)" .
  moreover have "shape k ?s 0" using r b(1) by (simp add: shape_def end_index_def new_age_def)
  ultimately have i: "par_inv k (Suc m) ?s 0"
    by (intro queue_moves [OF assms(1)]) (use tg(2) new_age_later(2) [OF tg(1), of b] in simp_all)
  have "par_contents k ?s = []" "par_contents k s = []" using inv_contents [OF i] inv_contents [OF assms(1)] b(2) by simp_all
  then show ?thesis using i by (simp add: Let_def)
qed

lemma owner_ok_steal:
  assumes "owner_ok k q n pc" "1 \<le> n" "unat (age_tag (tq_age q)) \<le> unat (age_tag (age_increment k (tq_age q)))"
  shows "owner_ok k (q\<lparr>tq_age := age_increment k (tq_age q)\<rparr>) (n - 1) pc"
  using assms by (cases pc) auto

lemma step_steal:
  assumes "par_inv k m s n" "m + 1 < 2 ^ 32" "ts_thief s i = T_cas a x" "tq_age (ts_queue s) = a"
  shows "let s' = s\<lparr>ts_queue := (ts_queue s)\<lparr>tq_age := age_increment k a\<rparr>, ts_thief := (ts_thief s)(i := T_idle)\<rparr>
    in par_inv k (Suc m) s' (n - 1) \<and> deque_step k (par_contents k s) (Stole i x) (par_contents k s')"
proof -
  note r = inv_ring [OF assms(1)]
  let ?s = "s\<lparr>ts_queue := (ts_queue s)\<lparr>tq_age := age_increment k a\<rparr>, ts_thief := (ts_thief s)(i := T_idle)\<rparr>" and ?t = "unat (age_top a)"
  have "thief_ok (ts_queue s) n (ts_thief s i)" using assms(1) by (simp add: par_inv_def)
  then have n: "1 \<le> n" "tq_elems (ts_queue s) ! ?t = x" using assms(3,4) by simp_all
  have tg: "unat (age_tag a) + 1 < 2 ^ 32" "?t < 2 ^ k" using r(3,7) assms(2,4) by simp_all
  note later = age_increment_later [OF r(1) tg]
  have "unat (age_tag a) \<le> unat (age_tag (age_increment k a))"
    using tg(1) by (simp add: age_increment_def Let_def unat_word_ariths)
  then have o: "owner_ok k (ts_queue ?s) (n - 1) (ts_owner ?s)" using owner_ok_steal [OF r(8) n(1)] assms(4) by simp
  have "unat (end_index k s) = (?t + n) mod 2 ^ k" using r(6) assms(4) by simp
  also have "?t + n = ?t + 1 + (n - 1)" using n(1) by simp
  also have "(?t + 1 + (n - 1)) mod 2 ^ k = ((?t + 1) mod 2 ^ k + (n - 1)) mod 2 ^ k" by (rule mod_add_left_eq [symmetric])
  finally have "unat (end_index k ?s) = (unat (age_top (tq_age (ts_queue ?s))) + (n - 1)) mod 2 ^ k"
    using later(3) by (auto simp: end_index_def)
  then have "shape k ?s (n - 1)" using r later(3) by (simp add: shape_def)
  then have j: "par_inv k (Suc m) ?s (n - 1)"
    by (intro queue_moves [OF assms(1)]) (use o later r(7) assms(4) in auto)
  obtain l where l: "n = Suc l" using n(1) by (cases n) auto
  have "par_contents k s = x # par_contents k ?s"
    using inv_contents [OF assms(1)] inv_contents [OF j] n(2) tg(2) later(3) assms(4) by (simp add: l ring_contents_Cons)
  then show ?thesis using j by (simp add: Let_def)
qed


text \<open>The steps that only read.\<close>

lemma step_push_top:
  assumes "par_inv k m s n" "ts_owner s = O_push x b"
  shows "dirty_size k b (age_top (tq_age (ts_queue s))) < max_elems k \<longleftrightarrow> n < 2 ^ k - 2"
    "dirty_size k b (age_top (tq_age (ts_queue s))) \<noteq> 2 ^ k - 1"
proof -
  note r = inv_ring [OF assms(1)]
  have "b = tq_bottom (ts_queue s)" using r(8) assms(2) by simp
  then have d: "unat (dirty_size k b (age_top (tq_age (ts_queue s)))) = n" using idle_dirty [OF assms(1)] assms(2) by simp
  then show "dirty_size k b (age_top (tq_age (ts_queue s))) < max_elems k \<longleftrightarrow> n < 2 ^ k - 2"
    by (simp add: word_less_unat unat_last(2) [OF r(1)])
  show "dirty_size k b (age_top (tq_age (ts_queue s))) \<noteq> 2 ^ k - 1"
    using d r(4) ring_last [OF r(1)] unat_last(1) [OF r(1)] by (auto simp: word_less_unat)
qed

lemma step_pop_age:
  assumes "par_inv k m s n" "ts_owner s = O_age b x" "a = tq_age (ts_queue s)"
  shows "owner_ok k (ts_queue s) n (if b = age_top a then O_cas b x a else O_set b a)"
proof -
  note r = inv_ring [OF assms(1)]
  have p: "popping (ts_owner s)" by (simp add: assms(2))
  have b: "b = tq_bottom (ts_queue s)" "tq_elems (ts_queue s) ! unat b = x" "n \<le> 1" using r(8) assms(2) by auto
  have "n = 1" if "b = age_top a"
  proof (rule ccontr)
    assume "n \<noteq> 1"
    then have "unat (dirty_size k b b) = 2 ^ k - 1" using popping_dirty(1) [OF assms(1) p] b(1,3) that assms(3) by simp
    then show False using ring_size [OF r(1)] by (simp add: dirty_size_def)
  qed
  moreover have "n = 0" if "b \<noteq> age_top a"
    using popping_dirty(2) [OF assms(1) p] b(1,3) that assms(3) r(3) by (cases "n = 0") (auto simp: word_less_unat)
  ultimately show ?thesis using b assms(3) by auto
qed

lemma step_steal_bottom:
  assumes "par_inv k m s n" "ts_thief s i = T_age a" "size_of k (tq_bottom (ts_queue s)) (age_top a) \<noteq> 0"
  shows "thief_ok (ts_queue s) n (T_elem a)"
proof -
  have "thief_ok (ts_queue s) n (ts_thief s i)" using assms(1) by (simp add: par_inv_def)
  moreover have "1 \<le> n" if "tq_age (ts_queue s) = a"
  proof (cases "popping (ts_owner s)")
    case True
    then show ?thesis using popping_size [OF assms(1) True] assms(3) that by (simp add: word_neq_0_conv)
  next
    case False
    then show ?thesis using idle_dirty [OF assms(1) False] assms(3) that inv_ring(1) [OF assms(1)]
      by (cases "n = 0") (auto simp: word_less_unat unat_size_of split: if_splits)
  qed
  ultimately show ?thesis using assms(2) by simp
qed

lemma tq_step_inv:
  assumes "tq_step k s ev s'" "par_inv k m s n" "m + 1 < 2 ^ 32"
  shows "\<exists>n'. par_inv k (Suc m) s' n' \<and> deque_step k (par_contents k s) ev (par_contents k s')"
proof -
  note r = inv_ring [OF assms(2)]
  have o: "owner_ok k (ts_queue s) n pc \<Longrightarrow> ts_owner s = pc \<Longrightarrow> owner_ok k (ts_queue s) n (ts_owner s)" for pc by simp
  have th: "thief_ok (ts_queue s) n (ts_thief s i)" for i using assms(2) by (simp add: par_inv_def)
  have own: "\<exists>n'. par_inv k (Suc m) (s\<lparr>ts_owner := pc\<rparr>) n' \<and> par_contents k (s\<lparr>ts_owner := pc\<rparr>) = par_contents k s"
    if "popping pc = popping (ts_owner s)" "owner_ok k (ts_queue s) n pc" for pc
    using owner_moves [OF assms(2) that] by blast
  have thf: "\<exists>n'. par_inv k (Suc m) (s\<lparr>ts_thief := (ts_thief s)(i := pc)\<rparr>) n' \<and> par_contents k (s\<lparr>ts_thief := (ts_thief s)(i := pc)\<rparr>) = par_contents k s"
    if "thief_ok (ts_queue s) n pc" for i pc
    using thief_moves [OF assms(2) that] by blast
  have len: "length (par_contents k s) = n" by (simp add: inv_contents [OF assms(2)])
  show ?thesis using assms(1)
  proof cases
    case (push_start x)
    then show ?thesis using own [of "O_push x (tq_bottom (ts_queue s))"] by simp
  next
    case (push_room x b)
    then show ?thesis using own [of "O_store x b"] step_push_top(1) [OF assms(2) push_room(3)] r(8) by simp
  next
    case (push_to_slow x b)
    then show ?thesis using step_push_top(2) [OF assms(2) push_to_slow(3)] by simp
  next
    case (push_slow_bottom x)
    then show ?thesis using r(8) by simp
  next
    case (push_full x b)
    then show ?thesis using own [of O_idle] step_push_top(1) [OF assms(2) push_full(3)] r(4) len by auto
  next
    case (push_store x b es)
    then show ?thesis using step_push_store [OF assms(2) push_store(3,4)] by (auto simp: Let_def)
  next
    case (push_bottom x b)
    then show ?thesis using step_push_bottom [OF assms(2) push_bottom(3)] by (auto simp: Let_def)
  next
    case pop_start
    then show ?thesis using own [of "O_pop (tq_bottom (ts_queue s))"] by simp
  next
    case (pop_none b)
    then have "n = 0" using idle_dirty [OF assms(2)] r(8) by auto
    then show ?thesis using own [of O_idle] pop_none len by auto
  next
    case (pop_some b)
    then show ?thesis using own [of "O_dec (decrement_index k b)"] r(8) by simp
  next
    case (pop_bottom b)
    then show ?thesis using step_pop_bottom [OF assms(2) pop_bottom(3)] by (auto simp: Let_def)
  next
    case (pop_elem b x)
    then show ?thesis using own [of "O_top b x"] r(8) by (simp add: array_get_eq_Some)
  next
    case (pop_fast b x)
    then show ?thesis using step_pop_fast [OF assms(2) pop_fast(3,4)] by blast
  next
    case (pop_to_slow b x)
    then show ?thesis using own [of "O_age b x"] popping_size [OF assms(2)] r(8) by auto
  next
    case (pop_age b x a)
    then show ?thesis using own [OF _ step_pop_age [OF assms(2) pop_age(3,4)]] by simp
  next
    case (pop_win b x a)
    then show ?thesis using step_pop_win [OF assms(2,3) pop_win(3,4)] by (auto simp: Let_def)
  next
    case (pop_lose b x a)
    then show ?thesis using own [of "O_set b a"] r(8) by auto
  next
    case (pop_set b a)
    then show ?thesis using step_pop_set [OF assms(2,3) pop_set(3)] by (auto simp: Let_def)
  next
    case (steal_start i)
    then show ?thesis using thf [of "T_age (tq_age (ts_queue s))" i] r(2,3) by simp
  next
    case (steal_none i a)
    then show ?thesis using thf [of T_idle i] by simp
  next
    case (steal_some i a)
    then show ?thesis using thf [OF step_steal_bottom [OF assms(2) steal_some(3,4)]] by simp
  next
    case (steal_elem i a x)
    then show ?thesis using thf [of "T_cas a x" i] th [of i] by (simp add: array_get_eq_Some)
  next
    case (steal_win i a x)
    then show ?thesis using step_steal [OF assms(2,3) steal_win(3,4)] by (auto simp: Let_def)
  next
    case (steal_lose i a x)
    then show ?thesis using thf [of T_idle i] by simp
  qed
qed


section \<open>Runs\<close>

inductive tq_run :: "nat \<Rightarrow> 'e tq_state \<Rightarrow> 'e tq_event list \<Rightarrow> 'e tq_state \<Rightarrow> bool" for k where
  run_nil: "tq_run k s [] s"
| run_step: "tq_run k s evs s' \<Longrightarrow> tq_step k s' ev s'' \<Longrightarrow> tq_run k s (evs @ [ev]) s''"

fun pushed :: "'e tq_event \<Rightarrow> 'e list" where
  "pushed (Pushed x) = [x]"
| "pushed _ = []"

fun taken :: "'e tq_event \<Rightarrow> 'e list" where
  "taken (Popped x) = [x]"
| "taken (Stole i x) = [x]"
| "taken _ = []"

lemma initial_inv: "ring k \<Longrightarrow> length elems = 2 ^ k \<Longrightarrow> par_inv k 0 (initial_state elems) 0"
  by (simp add: par_inv_def shape_def initial_state_def new_task_queue_def end_index_def)

lemma deque_step_mset: "deque_step k q ev q' \<Longrightarrow> mset q + mset (pushed ev) = mset (taken ev) + mset q'"
  by (cases ev) auto

lemma tq_run_inv:
  assumes "tq_run k s evs s'" "par_inv k 0 s n" "length evs < 2 ^ 32"
  shows "(\<exists>n'. par_inv k (length evs) s' n')
    \<and> mset (par_contents k s) + mset (concat (map pushed evs)) = mset (concat (map taken evs)) + mset (par_contents k s')"
  using assms
proof (induction rule: tq_run.induct)
  case (run_nil s)
  then show ?case by auto
next
  case (run_step s evs s' ev s'')
  then obtain n' where n': "par_inv k (length evs) s' n'" by auto
  from tq_step_inv [OF run_step.hyps(2) this] run_step.prems(2)
  obtain n'' where n'': "par_inv k (length (evs @ [ev])) s'' n''" "deque_step k (par_contents k s') ev (par_contents k s'')" by auto
  from deque_step_mset [OF n''(2)] run_step.IH run_step.prems have
    "mset (par_contents k s) + mset (concat (map pushed (evs @ [ev]))) = mset (concat (map taken (evs @ [ev]))) + mset (par_contents k s'')"
    by (simp add: ac_simps)
  then show ?case using n''(1) by blast
qed

fun owner_rank :: "'e owner_pc \<Rightarrow> nat" where
  "owner_rank O_idle = 0"
| "owner_rank (O_bottom x b) = 1"
| "owner_rank (O_store x b) = 2"
| "owner_rank (O_push_slow x) = 3"
| "owner_rank (O_push x b) = 4"
| "owner_rank (O_set b a) = 1"
| "owner_rank (O_cas b x a) = 2"
| "owner_rank (O_age b x) = 3"
| "owner_rank (O_top b x) = 4"
| "owner_rank (O_elem b) = 5"
| "owner_rank (O_dec b) = 6"
| "owner_rank (O_pop b) = 7"

fun thief_rank :: "'e thief_pc \<Rightarrow> nat" where
  "thief_rank T_idle = 0"
| "thief_rank (T_cas a x) = 1"
| "thief_rank (T_elem a) = 2"
| "thief_rank (T_age a) = 3"

text \<open>Each step is a step of one thread, and inside an operation it lowers the rank of that thread.\<close>

lemma tq_step_ranks:
  assumes "tq_step k s ev s'"
  shows "ts_owner s' = ts_owner s \<or> ts_owner s = O_idle \<or> owner_rank (ts_owner s') < owner_rank (ts_owner s)"
    "ts_thief s' i = ts_thief s i \<or> ts_thief s i = T_idle \<or> thief_rank (ts_thief s' i) < thief_rank (ts_thief s i)"
  using assms by (cases; auto)+

lemma owner_can_step:
  assumes "par_inv k m s n" "ts_owner s \<noteq> O_idle"
  shows "\<exists>ev s'. tq_step k s ev s' \<and> owner_rank (ts_owner s') < owner_rank (ts_owner s)"
proof -
  note r = inv_ring [OF assms(1)]
  show ?thesis
  proof (cases "ts_owner s")
    case (O_push x b)
    let ?d = "dirty_size k b (age_top (tq_age (ts_queue s)))"
    consider "?d < max_elems k" | "\<not> ?d < max_elems k" "?d = 2 ^ k - 1" | "\<not> ?d < max_elems k" "?d \<noteq> 2 ^ k - 1" by blast
    then show ?thesis
      by cases (rule exI, rule exI, rule conjI, rule push_room [OF O_push] push_to_slow [OF O_push] push_full [OF O_push]; simp add: O_push)+
  next
    case (O_push_slow x)
    then show ?thesis using r(8) by simp
  next
    case (O_store x b)
    then have "array_put (tq_elems (ts_queue s)) (unat b) x = Some ((tq_elems (ts_queue s))[unat b := x])"
      using r(2,5,8) by (simp add: array_put_def)
    from push_store [OF O_store this] show ?thesis using O_store by (intro exI conjI) (assumption, simp)
  next
    case (O_bottom x b)
    show ?thesis by (rule exI, rule exI, rule conjI, rule push_bottom [OF O_bottom]) (simp add: O_bottom)
  next
    case (O_pop b)
    show ?thesis
      by (cases "dirty_size k b (age_top (tq_age (ts_queue s))) = 0")
        (rule exI, rule exI, rule conjI, rule pop_none [OF O_pop] pop_some [OF O_pop]; simp add: O_pop)+
  next
    case (O_dec b)
    show ?thesis by (rule exI, rule exI, rule conjI, rule pop_bottom [OF O_dec]) (simp add: O_dec)
  next
    case (O_elem b)
    then have "array_get (tq_elems (ts_queue s)) (unat b) = Some (tq_elems (ts_queue s) ! unat b)" using r(2,5,8) by (simp add: array_get_def)
    from pop_elem [OF O_elem this] show ?thesis using O_elem by (intro exI conjI) (assumption, simp)
  next
    case (O_top b x)
    show ?thesis
      by (cases "size_of k b (age_top (tq_age (ts_queue s))) > 0")
        (rule exI, rule exI, rule conjI, rule pop_fast [OF O_top] pop_to_slow [OF O_top]; simp add: O_top)+
  next
    case (O_age b x)
    show ?thesis by (rule exI, rule exI, rule conjI, rule pop_age [OF O_age refl]) (simp add: O_age)
  next
    case (O_cas b x a)
    show ?thesis
      by (cases "tq_age (ts_queue s) = a") (rule exI, rule exI, rule conjI, rule pop_win [OF O_cas] pop_lose [OF O_cas]; simp add: O_cas)+
  next
    case (O_set b a)
    show ?thesis by (rule exI, rule exI, rule conjI, rule pop_set [OF O_set]) (simp add: O_set)
  qed (use assms(2) in simp)
qed

lemma thief_can_step:
  assumes "par_inv k m s n" "ts_thief s i \<noteq> T_idle"
  shows "\<exists>ev s'. tq_step k s ev s' \<and> thief_rank (ts_thief s' i) < thief_rank (ts_thief s i)"
proof (cases "ts_thief s i")
  case (T_age a)
  show ?thesis
    by (cases "size_of k (tq_bottom (ts_queue s)) (age_top a) = 0")
      (rule exI, rule exI, rule conjI, rule steal_none [OF T_age] steal_some [OF T_age]; simp add: T_age)+
next
  case (T_elem a)
  have "thief_ok (ts_queue s) n (ts_thief s i)" using assms(1) by (simp add: par_inv_def)
  then have "array_get (tq_elems (ts_queue s)) (unat (age_top a)) = Some (tq_elems (ts_queue s) ! unat (age_top a))"
    by (simp add: T_elem array_get_def)
  from steal_elem [OF T_elem this] show ?thesis using T_elem by (intro exI conjI) (assumption, simp)
next
  case (T_cas a x)
  show ?thesis
    by (cases "tq_age (ts_queue s) = a") (rule exI, rule exI, rule conjI, rule steal_win [OF T_cas] steal_lose [OF T_cas]; simp add: T_cas)+
qed (use assms(2) in simp)

section \<open>A run\<close>

definition stolen_age :: age where
  "stolen_age = \<lparr>age_top = 0, age_tag = 0\<rparr>"

definition one_task :: "nat thief_pc \<Rightarrow> nat tq_state" where
  "one_task pc = \<lparr>ts_queue = \<lparr>tq_bottom = 1, tq_age = stolen_age, tq_elems = [5, 0, 0, 0]\<rparr>, ts_owner = O_idle, ts_thief = (\<lambda>_. T_idle)(0 := pc)\<rparr>"

lemma run_push: "tq_run 2 (initial_state [0, 0, 0, 0 :: nat]) [Tau, Tau, Tau, Pushed 5] (one_task T_idle)"
proof -
  let ?s = "\<lambda>pc. (initial_state [0, 0, 0, 0 :: nat])\<lparr>ts_owner := pc\<rparr>"
  let ?q = "\<lparr>tq_bottom = 0, tq_age = stolen_age, tq_elems = [5, 0, 0, 0 :: nat]\<rparr>"
  have "tq_step 2 (initial_state [0, 0, 0, 0 :: nat]) Tau (?s (O_push 5 0))"
    using push_start [of "initial_state [0, 0, 0, 0 :: nat]" 2 5] by (simp add: initial_state_def new_task_queue_def)
  moreover have "tq_step 2 (?s (O_push 5 0)) Tau (?s (O_store 5 0))"
    using push_room [of "?s (O_push 5 0)" 5 0 2] by (simp add: initial_state_def new_task_queue_def dirty_size_def max_elems_def)
  moreover have "tq_step 2 (?s (O_store 5 0)) Tau ((?s (O_bottom 5 0))\<lparr>ts_queue := ?q\<rparr>)"
    using push_store [of "?s (O_store 5 0)" 5 0 "[5, 0, 0, 0]" 2]
    by (simp add: initial_state_def new_task_queue_def array_put_def stolen_age_def)
  moreover have "tq_step 2 ((?s (O_bottom 5 0))\<lparr>ts_queue := ?q\<rparr>) (Pushed 5) (one_task T_idle)"
    using push_bottom [of "(?s (O_bottom 5 0))\<lparr>ts_queue := ?q\<rparr>" 5 0 2]
    by (simp add: initial_state_def one_task_def increment_index_def MOD_N_MASK_def fun_upd_idem)
  ultimately have "tq_run 2 (initial_state [0, 0, 0, 0 :: nat]) (((([] @ [Tau]) @ [Tau]) @ [Tau]) @ [Pushed 5]) (one_task T_idle)"
    by (intro run_step [OF run_step [OF run_step [OF run_step [OF run_nil]]]])
  then show ?thesis by simp
qed

lemma run_steal: "tq_run 2 (initial_state [0, 0, 0, 0 :: nat]) [Tau, Tau, Tau, Pushed 5, Tau, Tau, Tau] (one_task (T_cas stolen_age 5))"
proof -
  have "tq_step 2 (one_task T_idle) Tau (one_task (T_age stolen_age))"
    using steal_start [of "one_task T_idle" 0 2] by (simp add: one_task_def)
  moreover have "tq_step 2 (one_task (T_age stolen_age)) Tau (one_task (T_elem stolen_age))"
    using steal_some [of "one_task (T_age stolen_age)" 0 stolen_age 2]
    by (simp add: one_task_def size_of_def dirty_size_def MOD_N_MASK_def stolen_age_def)
  moreover have "tq_step 2 (one_task (T_elem stolen_age)) Tau (one_task (T_cas stolen_age 5))"
    using steal_elem [of "one_task (T_elem stolen_age)" 0 stolen_age 5 2] by (simp add: one_task_def array_get_def stolen_age_def)
  ultimately show ?thesis using run_step [OF run_step [OF run_step [OF run_push]]] by simp
qed

lemma step_stolen: "tq_step 2 (one_task (T_cas stolen_age 5)) (Stole 0 5)
    ((one_task T_idle)\<lparr>ts_queue := \<lparr>tq_bottom = 1, tq_age = age_increment 2 stolen_age, tq_elems = [5, 0, 0, 0]\<rparr>\<rparr>)"
  using steal_win [of "one_task (T_cas stolen_age 5)" 0 stolen_age 5 2] by (simp add: one_task_def)

section \<open>Properties\<close>

text \<open>
  C1: in every interleaving of one owner and any number of thieves the queue behaves like an
  atomic double-ended queue.  A push appends at the end, a local pop takes the last element, a
  steal takes the first; a push fails exactly on \<^verbatim>\<open>N - 2\<close> elements and a local pop exactly on none;
  every other step leaves the contents alone.  The tag has 32 bits, so runs are shorter than \<open>2\<^sup>3\<^sup>2\<close>
  steps.
\<close>

theorem task_queue_linearizable:
  assumes "ring k" "length elems = 2 ^ k" "tq_run k (initial_state elems) evs s" "length evs + 1 < 2 ^ 32" "tq_step k s ev s'"
  shows "deque_step k (par_contents k s) ev (par_contents k s')"
  using tq_run_inv [OF assms(3) initial_inv [OF assms(1,2)]] tq_step_inv [OF assms(5)] assms(4) by fastforce

theorem task_queue_linearizable_witness:
  "deque_step 2 (par_contents 2 (one_task (T_cas stolen_age 5))) (Stole 0 5)
    (par_contents 2 ((one_task T_idle)\<lparr>ts_queue := \<lparr>tq_bottom = 1, tq_age = age_increment 2 stolen_age, tq_elems = [5, 0, 0, 0]\<rparr>\<rparr>))"
  by (rule task_queue_linearizable [OF _ _ run_steal _ step_stolen]) (simp_all add: ring_def)

text \<open>
  C14: no task is lost and none is delivered twice: at any moment of any such run the tasks pushed
  so far are the tasks taken by local pops and steals together with those still in the queue.
\<close>

theorem tasks_delivered_once:
  assumes "ring k" "length elems = 2 ^ k" "tq_run k (initial_state elems) evs s" "length evs < 2 ^ 32"
  shows "mset (concat (map pushed evs)) = mset (concat (map taken evs)) + mset (par_contents k s)"
proof -
  have "par_contents k (initial_state elems) = []" using inv_contents [OF initial_inv [OF assms(1,2)]] by simp
  then show ?thesis using tq_run_inv [OF assms(3) initial_inv [OF assms(1,2)] assms(4)] by simp
qed

theorem tasks_delivered_once_witness: "par_contents 2 (one_task T_idle) = [5]"
  using tasks_delivered_once [OF _ _ run_push] by (simp add: ring_def)

text \<open>
  C15: the operations are wait-free.  In every reachable state a thread inside an operation has a
  step, no step of another thread moves it, and each of its own steps lowers its rank, which is at
  most seven; so \<^verbatim>\<open>push\<close> and \<^verbatim>\<open>pop_local\<close> end after at most seven steps of the owner and \<^verbatim>\<open>pop_global\<close>
  after at most three of the thief, whatever the other threads do.
\<close>

theorem task_queue_wait_free:
  assumes "ring k" "length elems = 2 ^ k" "tq_run k (initial_state elems) evs s" "length evs < 2 ^ 32"
  shows "(ts_owner s \<noteq> O_idle \<longrightarrow> (\<exists>ev s'. tq_step k s ev s' \<and> owner_rank (ts_owner s') < owner_rank (ts_owner s)))
    \<and> (\<forall>i. ts_thief s i \<noteq> T_idle \<longrightarrow> (\<exists>ev s'. tq_step k s ev s' \<and> thief_rank (ts_thief s' i) < thief_rank (ts_thief s i)))
    \<and> (\<forall>ev s' i. tq_step k s ev s' \<longrightarrow>
        (ts_owner s' = ts_owner s \<or> ts_owner s = O_idle \<or> owner_rank (ts_owner s') < owner_rank (ts_owner s))
        \<and> (ts_thief s' i = ts_thief s i \<or> ts_thief s i = T_idle \<or> thief_rank (ts_thief s' i) < thief_rank (ts_thief s i)))
    \<and> owner_rank (ts_owner s) \<le> 7 \<and> (\<forall>i. thief_rank (ts_thief s i) \<le> 3)"
proof -
  obtain n where n: "par_inv k (length evs) s n" using tq_run_inv [OF assms(3) initial_inv [OF assms(1,2)] assms(4)] by blast
  have "owner_rank (ts_owner s) \<le> 7" by (cases "ts_owner s") simp_all
  moreover have "thief_rank (ts_thief s i) \<le> 3" for i by (cases "ts_thief s i") simp_all
  ultimately show ?thesis using owner_can_step [OF n] thief_can_step [OF n] tq_step_ranks by blast
qed


theorem task_queue_wait_free_witness:
  "\<exists>ev s'. tq_step 2 (one_task (T_cas stolen_age 5)) ev s' \<and> thief_rank (ts_thief s' 0) < 1"
proof -
  have "\<forall>i. ts_thief (one_task (T_cas stolen_age 5)) i \<noteq> T_idle \<longrightarrow>
      (\<exists>ev s'. tq_step 2 (one_task (T_cas stolen_age 5)) ev s' \<and> thief_rank (ts_thief s' i) < thief_rank (ts_thief (one_task (T_cas stolen_age 5)) i))"
    using task_queue_wait_free [OF _ _ run_steal] by (simp add: ring_def)
  from this [rule_format, of 0] show ?thesis by (simp add: one_task_def)
qed

end
