(* ===== verification/Task_Queue_Set.thy ===== *)
theory Task_Queue_Set
  imports Task_Queue "HOL-Library.Signed_Division"
begin

unbundle bit_operations_syntax

text \<open>
  \<^verbatim>\<open>GenericTaskQueueSet\<close> of \<^verbatim>\<open>utilities/taskqueue.hpp\<close> and the random number generator of
  \<^verbatim>\<open>utilities/taskqueue.cpp\<close>: a thief that has no work picks two other queues at random and tries the
  longer one.  The loops that pick a queue run until the generator gives a suitable number; they
  are partial functions, and the period of the generator shows that they end.
\<close>

section \<open>The generator\<close>

definition randomParkAndMiller :: "jint \<Rightarrow> jint" where
  "randomParkAndMiller seed = (
     let a = 16807; m = 2147483647; q = 127773; r = 2836;
         hi = word_of_int (sint seed sdiv q) :: jint;
         lo = word_of_int (sint seed smod q) :: jint;
         test = a * lo - r * hi
     in if sint test > 0 then test else test + m)"

section \<open>The set of queues\<close>

type_synonym 'e queue_set = "'e task_queue option list"

definition new_queue_set :: "nat \<Rightarrow> 'e queue_set" where
  "new_queue_set n = replicate n None"

definition register_queue :: "'e queue_set \<Rightarrow> nat \<Rightarrow> 'e task_queue \<Rightarrow> 'e queue_set option" where
  "register_queue qs i q = array_put qs i (Some q)"

text \<open>A null queue is dereferenced: the model stops.\<close>

definition qs_queue :: "'e queue_set \<Rightarrow> nat \<Rightarrow> 'e task_queue option" where
  "qs_queue qs i = array_get qs i \<bind> id"

definition qs_peek :: "'e queue_set \<Rightarrow> bool option" where
  "qs_peek qs = do {
     r \<leftarrow> for_return 0 (length qs) (\<lambda>j _. do {
       q \<leftarrow> qs_queue qs j;
       Some (if tq_peek q then Inl True else Inr ()) }) ();
     Some (case r of Inl b \<Rightarrow> b | Inr _ \<Rightarrow> False)
   }"

text \<open>The two loops that pick a queue, with the queues to avoid.\<close>

partial_function (option) pick_queue :: "nat \<Rightarrow> nat list \<Rightarrow> nat \<Rightarrow> jint \<Rightarrow> (nat \<times> jint) option" where
  "pick_queue n avoid k seed =
     (if k \<in> set avoid
      then let seed = randomParkAndMiller seed in pick_queue n avoid (unat seed mod n) seed
      else Some (k, seed))"

definition pop_global_from :: "nat \<Rightarrow> 'e queue_set \<Rightarrow> nat \<Rightarrow> ('e option \<times> 'e queue_set) option" where
  "pop_global_from lg qs k = do {
     q \<leftarrow> qs_queue qs k;
     (r, q) \<leftarrow> pop_global lg q;
     qs \<leftarrow> array_put qs k (Some q);
     Some (r, qs)
   }"

definition steal_best_of_2 :: "nat \<Rightarrow> 'e queue_set \<Rightarrow> nat \<Rightarrow> jint \<Rightarrow> ('e option \<times> 'e queue_set \<times> jint) option" where
  "steal_best_of_2 lg qs queue_num seed = (
     let n = length qs
     in if n > 2
        then do {
          (k1, seed) \<leftarrow> pick_queue n [queue_num] queue_num seed;
          (k2, seed) \<leftarrow> pick_queue n [queue_num, k1] queue_num seed;
          q1 \<leftarrow> qs_queue qs k1;
          q2 \<leftarrow> qs_queue qs k2;
          let sz1 = tq_size lg q1;
          let sz2 = tq_size lg q2;
          (r, qs) \<leftarrow> (if sz2 > sz1 then pop_global_from lg qs k2 else pop_global_from lg qs k1);
          Some (r, qs, seed)
        }
        else if n = 2
        then do {
          let k = (queue_num + 1) mod 2;
          (r, qs) \<leftarrow> pop_global_from lg qs k;
          Some (r, qs, seed)
        }
        else Some (None, qs, seed))"

definition steal :: "nat \<Rightarrow> 'e queue_set \<Rightarrow> nat \<Rightarrow> jint \<Rightarrow> ('e option \<times> 'e queue_set \<times> jint) option" where
  "steal lg qs queue_num seed = do {
     r \<leftarrow> for_return 0 (2 * length qs) (\<lambda>i (qs, seed). do {
       (r, qs, seed) \<leftarrow> steal_best_of_2 lg qs queue_num seed;
       Some (case r of Some t \<Rightarrow> Inl (t, qs, seed) | None \<Rightarrow> Inr (qs, seed)) }) (qs, seed);
     Some (case r of Inl (t, qs, seed) \<Rightarrow> (Some t, qs, seed) | Inr (qs, seed) \<Rightarrow> (None, qs, seed))
   }"

section \<open>The period of the generator\<close>

abbreviation pm_m :: int where "pm_m \<equiv> 2147483647"

text \<open>Powers by repeated squaring, to be evaluated; the modulus is \<open>2\<^sup>3\<^sup>1 - 1\<close>.\<close>

definition reduce31 :: "int \<Rightarrow> int" where
  "reduce31 x = (let y = take_bit 31 x + drop_bit 31 x in if y \<ge> pm_m then y - pm_m else y)"

fun pow31 :: "int \<Rightarrow> num \<Rightarrow> int" where
  "pow31 b num.One = b"
| "pow31 b (num.Bit0 n) = pow31 (reduce31 (b * b)) n"
| "pow31 b (num.Bit1 n) = reduce31 (b * pow31 (reduce31 (b * b)) n)"

lemma reduce31_eq:
  assumes "0 \<le> x" "x \<le> (pm_m - 1) * (pm_m - 1)"
  shows "reduce31 x = x mod pm_m"
proof -
  define h l where "h = x div 2147483648" and "l = x mod 2147483648"
  have x: "x = h * 2147483648 + l" "0 \<le> l" "l < 2147483648" by (simp_all add: h_def l_def)
  have "x \<le> 4611686009837453316" using assms by simp
  then have h: "0 \<le> h" "h \<le> pm_m - 2" using x assms(1) by linarith+
  have "x = (l + h) + h * pm_m" using x by simp
  then have "x mod pm_m = (l + h) mod pm_m" by (metis mod_mult_self1)
  also have "\<dots> = (if l + h \<ge> pm_m then l + h - pm_m else l + h)"
  proof (cases "l + h \<ge> pm_m")
    case True
    have "(l + h) mod pm_m = (l + h - pm_m) mod pm_m" by (metis minus_mod_self2)
    also have "\<dots> = l + h - pm_m" using True x h by (intro mod_pos_pos_trivial) linarith+
    finally show ?thesis using True by simp
  next
    case False
    then show ?thesis using x h by (subst mod_pos_pos_trivial) simp_all
  qed
  finally show ?thesis
    by (simp add: reduce31_def Let_def take_bit_eq_mod drop_bit_eq_div h_def l_def)
qed

lemma reduce31_mult:
  assumes "0 \<le> b" "b < pm_m" "0 \<le> c" "c < pm_m"
  shows "reduce31 (b * c) = b * c mod pm_m"
  using assms by (intro reduce31_eq mult_nonneg_nonneg mult_mono) simp_all

lemma pow31_eq: "0 \<le> b \<Longrightarrow> b < pm_m \<Longrightarrow> pow31 b n = b ^ numeral n mod pm_m"
proof (induction b n rule: pow31.induct)
  case (2 b n)
  then show ?case using reduce31_mult [of b b]
    by (simp add: power_mod power_numeral_even Let_def power_mult_distrib del: power_numeral)
next
  case (3 b n)
  have sq: "reduce31 (b * b) = b * b mod pm_m" using 3 by (simp add: reduce31_mult)
  have r: "pow31 (reduce31 (b * b)) n = (b * b) ^ numeral n mod pm_m" using 3 by (simp add: sq power_mod)
  have "reduce31 (b * pow31 (reduce31 (b * b)) n) = b * ((b * b) ^ numeral n mod pm_m) mod pm_m"
    unfolding r using 3 by (intro reduce31_mult) simp_all
  then show ?case
    by (simp only: pow31.simps power_numeral_odd Let_def power_mult_distrib mod_mult_right_eq mult.assoc)
qed simp

lemma pow31_16807: "(16807 :: int) ^ numeral n mod pm_m = pow31 16807 n"
  by (rule pow31_eq [symmetric]) simp_all

lemma pm_order: "(16807 :: int) ^ 2147483646 mod pm_m = 1"
  unfolding pow31_16807 by code_simp

lemma pm_not_smaller:
  "(16807 :: int) ^ 1073741823 mod pm_m \<noteq> 1"
  "(16807 :: int) ^ 715827882 mod pm_m \<noteq> 1"
  "(16807 :: int) ^ 306783378 mod pm_m \<noteq> 1"
  "(16807 :: int) ^ 195225786 mod pm_m \<noteq> 1"
  "(16807 :: int) ^ 69273666 mod pm_m \<noteq> 1"
  "(16807 :: int) ^ 14221746 mod pm_m \<noteq> 1"
  "(16807 :: int) ^ 6487866 mod pm_m \<noteq> 1"
  unfolding pow31_16807 by code_simp+

text \<open>The period is \<open>2 \<cdot> 3\<^sup>2 \<cdot> 7 \<cdot> 11 \<cdot> 31 \<cdot> 151 \<cdot> 331\<close>.\<close>

definition pm_period :: nat where
  "pm_period = 2147483646"

definition pm_primes :: "nat set" where
  "pm_primes = {2, 3, 7, 11, 31, 151, 331}"

lemma no_divisor:
  assumes "list_all (\<lambda>d. int p mod d \<noteq> 0) [2..int p - 1]" "d dvd p" "0 < p"
  shows "d = 1 \<or> d = p"
proof (rule ccontr)
  assume "\<not> ?thesis"
  moreover have "0 < d" "d \<le> p" using assms(2,3) by (auto intro: dvd_imp_le Nat.gr0I)
  ultimately have "int d \<in> set [2..int p - 1]" by auto
  then have "int p mod int d \<noteq> 0" using assms(1) by (auto simp: list_all_iff)
  then show False using assms(2) by (simp flip: of_nat_mod)
qed

lemma pm_primes_prime: "p \<in> pm_primes \<Longrightarrow> d dvd p \<Longrightarrow> d = 1 \<or> d = p"
proof (rule no_divisor)
  assume "p \<in> pm_primes"
  moreover have "list_all (\<lambda>d. 2 mod d \<noteq> 0) [2..2 - 1 :: int]" by code_simp
  moreover have "list_all (\<lambda>d. 3 mod d \<noteq> 0) [2..3 - 1 :: int]" by code_simp
  moreover have "list_all (\<lambda>d. 7 mod d \<noteq> 0) [2..7 - 1 :: int]" by code_simp
  moreover have "list_all (\<lambda>d. 11 mod d \<noteq> 0) [2..11 - 1 :: int]" by code_simp
  moreover have "list_all (\<lambda>d. 31 mod d \<noteq> 0) [2..31 - 1 :: int]" by code_simp
  moreover have "list_all (\<lambda>d. 151 mod d \<noteq> 0) [2..151 - 1 :: int]" by code_simp
  moreover have "list_all (\<lambda>d. 331 mod d \<noteq> 0) [2..331 - 1 :: int]" by code_simp
  ultimately show "list_all (\<lambda>d. int p mod d \<noteq> 0) [2..int p - 1]"
    unfolding pm_primes_def by (elim insertE emptyE) (simp_all only: of_nat_numeral)
  show "0 < p" using \<open>p \<in> pm_primes\<close> by (auto simp: pm_primes_def)
qed

lemma proper_divisor:
  assumes "g dvd pm_period" "g \<noteq> pm_period"
  shows "\<exists>p\<in>pm_primes. g dvd pm_period div p"
proof -
  obtain h where h: "pm_period = g * h" using assms(1) by blast
  have "\<exists>p\<in>pm_primes. \<not> coprime h p"
  proof (rule ccontr)
    assume "\<not> ?thesis"
    then have "coprime h (2 * (3 * (3 * (7 * (11 * (31 * (151 * 331)))))))" by (simp only: coprime_mult_right_iff pm_primes_def) simp
    moreover have "pm_period = 2 * (3 * (3 * (7 * (11 * (31 * (151 * 331))))))" by (simp add: pm_period_def)
    ultimately have "coprime h pm_period" by simp
    then have "h = 1" using h by (metis coprime_common_divisor_nat dvd_refl dvd_triv_right)
    then show False using h assms(2) by simp
  qed
  then obtain p where p: "p \<in> pm_primes" "\<not> coprime h p" by blast
  then have "gcd h p \<noteq> 1" by (simp add: coprime_iff_gcd_eq_1)
  then have "gcd h p = p" using pm_primes_prime [OF p(1), of "gcd h p"] by simp
  then obtain h' where "h = p * h'" by (metis dvdE gcd_dvd1)
  moreover have "0 < p" using p(1) by (auto simp: pm_primes_def)
  ultimately have "pm_period div p = g * h'" using h by (metis mult.left_commute nonzero_mult_div_cancel_left not_less_zero)
  then show ?thesis using p(1) by (intro bexI [of _ p]) simp_all
qed

lemma pm_power_one: "(16807 :: int) ^ d mod pm_m = 1 \<Longrightarrow> d dvd e \<Longrightarrow> 16807 ^ e mod pm_m = 1"
proof (elim dvdE)
  fix c assume "(16807 :: int) ^ d mod pm_m = 1" "e = d * c"
  then show ?thesis using power_mod [of "16807 ^ d" pm_m c] by (simp only: power_mult power_one) simp
qed

lemma pm_period_one: "(16807 :: int) ^ pm_period mod pm_m = 1"
  unfolding pm_period_def by (rule pm_order)

lemma pm_quotients:
  "pm_period div 2 = 1073741823" "pm_period div 3 = 715827882" "pm_period div 7 = 306783378" "pm_period div 11 = 195225786"
  "pm_period div 31 = 69273666" "pm_period div 151 = 14221746" "pm_period div 331 = 6487866"
  by (simp_all add: pm_period_def)

lemma pm_period_least:
  assumes "0 < d" "d < pm_period"
  shows "(16807 :: int) ^ d mod pm_m \<noteq> 1"
proof
  assume one: "(16807 :: int) ^ d mod pm_m = 1"
  let ?g = "gcd d pm_period"
  obtain x y where "d * x = pm_period * y + ?g" using bezout_nat [of d pm_period] assms(1) by auto
  then have "(16807 :: int) ^ (d * x) mod pm_m = (16807 ^ (pm_period * y) mod pm_m) * 16807 ^ ?g mod pm_m"
    by (simp only: power_add mod_mult_left_eq)
  then have g: "(16807 :: int) ^ ?g mod pm_m = 1"
    using pm_power_one [OF one, of "d * x"] pm_power_one [OF pm_period_one, of "pm_period * y"] by simp
  have "?g \<le> d" using assms(1) by (intro dvd_imp_le) simp_all
  then obtain p where "p \<in> pm_primes" "?g dvd pm_period div p" using proper_divisor [of ?g] assms(2) by auto
  then have "p \<in> pm_primes" "(16807 :: int) ^ (pm_period div p) mod pm_m = 1" using pm_power_one [OF g] by blast+
  then show False unfolding pm_primes_def using pm_not_smaller by (elim insertE emptyE) (simp_all only: pm_quotients)
qed

lemma pm_unit: "(16807 :: int) ^ i mod pm_m \<in> {1..pm_m - 1}"
proof -
  have "(16807 :: int) ^ i mod pm_m \<noteq> 0"
  proof
    assume "(16807 :: int) ^ i mod pm_m = 0"
    then have "(16807 ^ i) ^ pm_period mod pm_m = (0 :: int)"
      using power_mod [of "16807 ^ i" pm_m pm_period] by (simp add: pm_period_def)
    moreover have "(16807 ^ i) ^ pm_period mod pm_m = (1 :: int)"
      using pm_power_one [OF pm_period_one, of "i * pm_period"] by (simp only: power_mult dvd_triv_right)
    ultimately show False by simp
  qed
  moreover have "0 \<le> (16807 :: int) ^ i mod pm_m" "(16807 :: int) ^ i mod pm_m < pm_m" by simp_all
  ultimately show ?thesis by (simp only: atLeastAtMost_iff) linarith
qed

lemma pm_add_period: "(16807 :: int) ^ (i + pm_period) mod pm_m = 16807 ^ i mod pm_m"
  using mod_mult_right_eq [of "16807 ^ i" "16807 ^ pm_period" pm_m] pm_period_one by (simp add: power_add)

lemma pm_inj: "inj_on (\<lambda>i. (16807 :: int) ^ i mod pm_m) {..<pm_period}"
proof (rule linorder_inj_onI)
  fix i j assume ij: "i < j" "i \<in> {..<pm_period}" "j \<in> {..<pm_period}"
  show "(16807 :: int) ^ i mod pm_m \<noteq> 16807 ^ j mod pm_m"
  proof
    assume "(16807 :: int) ^ i mod pm_m = 16807 ^ j mod pm_m"
    then have "(16807 :: int) ^ i * 16807 ^ (pm_period - i) mod pm_m = 16807 ^ j * 16807 ^ (pm_period - i) mod pm_m"
      by (rule mod_mult_cong) simp
    then have "(16807 :: int) ^ pm_period mod pm_m = 16807 ^ (j - i + pm_period) mod pm_m"
      using ij by (simp flip: power_add)
    then show False using pm_period_least [of "j - i"] pm_period_one pm_add_period [of "j - i"] ij by (simp add: less_imp_diff_less)
  qed
qed auto

lemma pm_all: "(\<lambda>i. (16807 :: int) ^ i mod pm_m) ` {..<pm_period} = {1..pm_m - 1}"
proof (rule card_subset_eq)
  show "card ((\<lambda>i. (16807 :: int) ^ i mod pm_m) ` {..<pm_period}) = card {1..pm_m - 1}"
    using card_image [OF pm_inj] by (simp add: pm_period_def)
qed (use pm_unit in auto)

lemma pm_orbit:
  assumes "s \<in> {1..pm_m - 1}" "v \<in> {1..pm_m - 1}"
  shows "\<exists>e>0. 16807 ^ e * s mod pm_m = v"
proof -
  obtain i where i: "i < pm_period" "s = 16807 ^ i mod pm_m" using assms(1) unfolding pm_all [symmetric] by auto
  obtain j where j: "v = 16807 ^ j mod pm_m" using assms(2) unfolding pm_all [symmetric] by auto
  have "16807 ^ (j + pm_period - i) * s mod pm_m = (16807 ^ (j + pm_period - i) * 16807 ^ i) mod pm_m"
    by (simp only: i(2) mod_mult_right_eq)
  also have "\<dots> = v" using i(1) j pm_add_period [of j] by (simp flip: power_add)
  finally show ?thesis using i(1) by (intro exI [of _ "j + pm_period - i"]) simp
qed

section \<open>The generator computes the next residue\<close>

definition seed_ok :: "jint \<Rightarrow> bool" where
  "seed_ok seed \<longleftrightarrow> 0 < sint seed \<and> sint seed < pm_m"

lemma sint_small: "- 2147483648 \<le> x \<Longrightarrow> x < 2147483648 \<Longrightarrow> sint (word_of_int x :: jint) = x"
  by (simp add: sint_sbintrunc' signed_take_bit_int_eq_self)

lemma next_seed:
  assumes "seed_ok seed"
  shows "sint (randomParkAndMiller seed) = 16807 * sint seed mod pm_m \<and> seed_ok (randomParkAndMiller seed)"
proof -
  define s where "s = sint seed"
  define hi lo t where "hi = s div 127773" and "lo = s mod 127773" and "t = 16807 * lo - 2836 * hi"
  have s: "0 < s" "s < pm_m" using assms by (simp_all add: seed_ok_def s_def)
  have lo: "0 \<le> lo" "lo < 127773" "s = hi * 127773 + lo" by (simp_all add: lo_def hi_def)
  have hi: "0 \<le> hi" "hi \<le> 16807" using s lo by linarith+
  have t: "- pm_m < t" "t < pm_m" using lo hi by (simp_all add: t_def)
  have eq: "16807 * s = t + hi * pm_m" using lo by (simp add: t_def)
  then have md: "16807 * s mod pm_m = t mod pm_m" by (metis mod_mult_self1)
  have "t \<noteq> 0"
  proof
    assume "t = 0"
    then have "1407677000 * (16807 * s) mod pm_m = 0" using eq by simp
    moreover have "1407677000 * (16807 * s) = s + 11017 * s * pm_m" by simp
    ultimately have "s mod pm_m = 0" by (metis mod_mult_self1)
    then show False using s by simp
  qed
  have w: "randomParkAndMiller seed = word_of_int (if 0 < t then t else t + pm_m)"
  proof -
    have "sint seed sdiv 127773 = hi" "sint seed smod 127773 = lo"
      using s by (simp_all add: s_def hi_def lo_def signed_divide_int_def signed_modulo_int_def)
    moreover have "16807 * word_of_int lo - 2836 * word_of_int hi = (word_of_int t :: jint)" by (simp add: t_def)
    ultimately show ?thesis using t by (simp add: randomParkAndMiller_def Let_def sint_small)
  qed
  have "t mod pm_m = (if 0 < t then t else t + pm_m)"
  proof (cases "0 < t")
    case False
    have "t mod pm_m = (t + pm_m) mod pm_m" by simp
    also have "\<dots> = t + pm_m" using False t \<open>t \<noteq> 0\<close> by (intro mod_pos_pos_trivial) linarith+
    finally show ?thesis using False by simp
  qed (use t in simp)
  moreover have "sint (randomParkAndMiller seed) = (if 0 < t then t else t + pm_m)" unfolding w using t by (intro sint_small) auto
  ultimately show ?thesis using md t \<open>t \<noteq> 0\<close> by (auto simp: seed_ok_def s_def)
qed

lemma iterated_seed:
  assumes "seed_ok seed"
  shows "sint ((randomParkAndMiller ^^ e) seed) = 16807 ^ e * sint seed mod pm_m \<and> seed_ok ((randomParkAndMiller ^^ e) seed)"
proof (induction e)
  case (Suc e)
  then show ?case using next_seed [of "(randomParkAndMiller ^^ e) seed"] by (simp add: mod_mult_right_eq mult.assoc)
qed (use assms in \<open>auto simp: seed_ok_def\<close>)

lemma every_seed:
  assumes "seed_ok seed" "0 < v" "v < pm_m"
  shows "\<exists>e>0. sint ((randomParkAndMiller ^^ e) seed) = v"
  using pm_orbit [of "sint seed" v] iterated_seed [OF assms(1)] assms by (auto simp: seed_ok_def)

section \<open>Picking a queue\<close>

lemma unat_seed: "seed_ok seed \<Longrightarrow> sint seed = v \<Longrightarrow> unat seed = nat v"
proof -
  assume "seed_ok seed" "sint seed = v"
  then have v: "0 \<le> v" "v < pm_m" "seed = word_of_int v" by (auto simp: seed_ok_def)
  then show "unat seed = nat v" by (simp add: unat_eq_nat_uint uint_word_of_int)
qed

lemma suitable_value:
  assumes "length avoid \<le> 2" "3 \<le> n" "n < (2 :: nat) ^ 31"
  shows "\<exists>v. 0 < v \<and> v < pm_m \<and> nat v mod n \<notin> set avoid"
proof -
  have "card (set avoid) < card {1, 2, 3 mod n}"
    using card_length [of avoid] assms(1,2) by (cases "n = 3") (auto simp: card_insert_if)
  then obtain w where "w \<in> {1, 2, 3 mod n}" "w \<notin> set avoid"
    by (metis List.finite_set card_mono leD subsetI)
  then have "\<exists>v\<in>{1, 2, 3 :: nat}. v mod n \<notin> set avoid" using assms(2) by auto
  then obtain v where "v \<in> {1, 2, 3 :: nat}" "v mod n \<notin> set avoid" by blast
  then show ?thesis by (intro exI [of _ "int v"]) auto
qed

lemma pick_queue_after:
  assumes "seed_ok seed" "unat ((randomParkAndMiller ^^ Suc e) seed) mod n \<notin> set avoid" "0 < n"
  shows "succeeds (pick_queue n avoid k seed) (\<lambda>(k', seed'). k' \<notin> set avoid \<and> (k \<in> set avoid \<longrightarrow> k' < n) \<and> seed_ok seed')"
  using assms(1,2)
proof (induction e arbitrary: k seed)
  case 0
  let ?s = "randomParkAndMiller seed"
  have "seed_ok ?s" using next_seed [OF 0(1)] by simp
  moreover have "pick_queue n avoid (unat ?s mod n) ?s = Some (unat ?s mod n, ?s)" using 0(2) by (simp add: pick_queue.simps)
  ultimately show ?case using 0 assms(3) by (simp add: pick_queue.simps [of n avoid k seed] Let_def)
next
  case (Suc e)
  let ?s = "randomParkAndMiller seed"
  have "seed_ok ?s" using next_seed [OF Suc(2)] by simp
  moreover have "unat ((randomParkAndMiller ^^ Suc e) ?s) mod n \<notin> set avoid"
    using Suc(3) by (simp only: funpow_Suc_right o_apply) simp
  ultimately have "succeeds (pick_queue n avoid (unat ?s mod n) ?s)
      (\<lambda>(k', seed'). k' \<notin> set avoid \<and> (unat ?s mod n \<in> set avoid \<longrightarrow> k' < n) \<and> seed_ok seed')" by (rule Suc(1))
  moreover have "unat ?s mod n \<notin> set avoid \<Longrightarrow> pick_queue n avoid (unat ?s mod n) ?s = Some (unat ?s mod n, ?s)"
    by (simp add: pick_queue.simps)
  ultimately show ?case using Suc(2) assms(3)
    by (cases "unat ?s mod n \<in> set avoid") (auto simp: pick_queue.simps [of n avoid k seed] Let_def elim: succeeds_weaken)
qed

lemma pick_queue_ends:
  assumes "seed_ok seed" "length avoid \<le> 2" "3 \<le> n" "n < 2 ^ 31" "k \<in> set avoid"
  shows "succeeds (pick_queue n avoid k seed) (\<lambda>(k', seed'). k' \<notin> set avoid \<and> k' < n \<and> seed_ok seed')"
proof -
  obtain v where v: "0 < v" "v < pm_m" "nat v mod n \<notin> set avoid" using suitable_value [OF assms(2-4)] by blast
  obtain e where e: "sint ((randomParkAndMiller ^^ Suc e) seed) = v" using every_seed [OF assms(1) v(1,2)] by (metis gr0_implies_Suc)
  have "unat ((randomParkAndMiller ^^ Suc e) seed) = nat v"
    using iterated_seed [OF assms(1), of "Suc e"] by (intro unat_seed e) blast
  then show ?thesis using pick_queue_after [OF assms(1), of e n avoid k] v(3) assms(3,5) by (auto elim: succeeds_weaken)
qed

section \<open>Stealing\<close>

definition queues_ok :: "nat \<Rightarrow> 'e queue_set \<Rightarrow> bool" where
  "queues_ok lg qs \<longleftrightarrow> list_all (\<lambda>q. case q of None \<Rightarrow> False | Some q \<Rightarrow> tq_wf lg q) qs"

definition qs_contents :: "nat \<Rightarrow> 'e queue_set \<Rightarrow> 'e list list" where
  "qs_contents lg qs = map (\<lambda>q. case q of None \<Rightarrow> [] | Some q \<Rightarrow> tq_contents lg q) qs"

lemma queues_okE:
  assumes "queues_ok lg qs" "k < length qs"
  obtains q where "qs ! k = Some q" "tq_wf lg q" "qs_queue qs k = Some q" "qs_contents lg qs ! k = tq_contents lg q"
proof -
  have "case qs ! k of None \<Rightarrow> False | Some q \<Rightarrow> tq_wf lg q" using assms by (simp add: queues_ok_def list_all_length)
  then obtain q where "qs ! k = Some q" "tq_wf lg q" by (auto split: option.splits)
  then show ?thesis using assms(2) by (intro that [of q]) (simp_all add: qs_queue_def array_get_def qs_contents_def)
qed

lemma queues_ok_update: "queues_ok lg qs \<Longrightarrow> tq_wf lg q \<Longrightarrow> queues_ok lg (qs[k := Some q])"
  by (simp add: queues_ok_def list_all_iff) (use set_update_subset_insert [of qs k "Some q"] in auto)

lemma tq_size_length: "tq_wf k q \<Longrightarrow> unat (tq_size k q) = length (tq_contents k q)"
  using unat_size_of [of k "tq_bottom q" "age_top (tq_age q)"] ring_last [of k]
  by (auto simp: tq_wf_def tq_size_def tq_contents_def tq_len_def tq_dirty_size_def)

text \<open>What one attempt does: it takes the oldest task of another queue, or changes nothing.\<close>

definition stolen :: "nat \<Rightarrow> 'e queue_set \<Rightarrow> nat \<Rightarrow> 'e option \<Rightarrow> 'e queue_set \<Rightarrow> bool" where
  "stolen lg qs queue_num r qs' \<longleftrightarrow> (case r of
     Some t \<Rightarrow> \<exists>k rest. k < length qs \<and> k \<noteq> queue_num \<and> qs_contents lg qs ! k = t # rest
       \<and> qs_contents lg qs' = (qs_contents lg qs)[k := rest]
   | None \<Rightarrow> qs' = qs \<and> (\<exists>ks. distinct ks \<and> length ks = min 2 (length qs - 1) \<and> set ks \<subseteq> {..<length qs} - {queue_num}
       \<and> (\<forall>k\<in>set ks. qs_contents lg qs ! k = [])))"

lemma stolen_someI:
  "k < length qs \<Longrightarrow> k \<noteq> queue_num \<Longrightarrow> qs_contents lg qs ! k = t # rest \<Longrightarrow>
   qs_contents lg qs' = (qs_contents lg qs)[k := rest] \<Longrightarrow> stolen lg qs queue_num (Some t) qs'"
  by (auto simp: stolen_def)

lemma pop_global_from_spec:
  assumes "queues_ok lg qs" "k < length qs"
  shows "succeeds (pop_global_from lg qs k) (\<lambda>(r, qs'). queues_ok lg qs' \<and> (case r of
      Some t \<Rightarrow> \<exists>rest. qs_contents lg qs ! k = t # rest \<and> qs_contents lg qs' = (qs_contents lg qs)[k := rest]
    | None \<Rightarrow> qs' = qs \<and> qs_contents lg qs ! k = []))"
proof -
  obtain q where q: "qs ! k = Some q" "tq_wf lg q" "qs_queue qs k = Some q" "qs_contents lg qs ! k = tq_contents lg q"
    using queues_okE [OF assms] .
  obtain r q' where p: "pop_global lg q = Some (r, q')" "tq_wf lg q'"
    "case r of None \<Rightarrow> tq_contents lg q = [] \<and> q' = q | Some x \<Rightarrow> tq_contents lg q = x # tq_contents lg q'"
    using pop_global_spec [OF q(2)] by (auto simp: succeeds_iff)
  have "pop_global_from lg qs k = Some (r, qs[k := Some q'])"
    using q(3) p(1) assms(2) by (simp add: pop_global_from_def array_put_def)
  moreover have "queues_ok lg (qs[k := Some q'])" by (rule queues_ok_update [OF assms(1) p(2)])
  moreover have "qs_contents lg (qs[k := Some q']) = (qs_contents lg qs)[k := tq_contents lg q']" by (simp add: qs_contents_def map_update)
  moreover have "qs[k := Some q] = qs" using q(1) by (metis list_update_id)
  ultimately show ?thesis using p(3) q(4) by (cases r) auto
qed

lemma steal_best_of_2_spec:
  assumes "queues_ok lg qs" "queue_num < length qs" "length qs < 2 ^ 31" "seed_ok seed"
  shows "succeeds (steal_best_of_2 lg qs queue_num seed) (\<lambda>(r, qs', seed').
    seed_ok seed' \<and> queues_ok lg qs' \<and> stolen lg qs queue_num r qs')"
proof -
  consider "2 < length qs" | "length qs = 2" | "length qs = 1" using assms(2) by linarith
  then show ?thesis
  proof cases
    case 1
    let ?n = "length qs"
    obtain k1 seed1 where k1: "pick_queue ?n [queue_num] queue_num seed = Some (k1, seed1)" "k1 \<noteq> queue_num" "k1 < ?n" "seed_ok seed1"
      using pick_queue_ends [OF assms(4), of "[queue_num]" ?n queue_num] 1 assms(3) by (auto simp: succeeds_iff)
    obtain k2 seed2 where k2: "pick_queue ?n [queue_num, k1] queue_num seed1 = Some (k2, seed2)" "k2 \<noteq> queue_num" "k2 \<noteq> k1" "k2 < ?n" "seed_ok seed2"
      using pick_queue_ends [OF k1(4), of "[queue_num, k1]" ?n queue_num] 1 assms(3) by (auto simp: succeeds_iff)
    obtain q1 where q1: "tq_wf lg q1" "qs_queue qs k1 = Some q1" "qs_contents lg qs ! k1 = tq_contents lg q1" using queues_okE [OF assms(1) k1(3)] .
    obtain q2 where q2: "tq_wf lg q2" "qs_queue qs k2 = Some q2" "qs_contents lg qs ! k2 = tq_contents lg q2" using queues_okE [OF assms(1) k2(4)] .
    have sz: "tq_size lg q2 > tq_size lg q1 \<longleftrightarrow> length (qs_contents lg qs ! k1) < length (qs_contents lg qs ! k2)"
      using q1 q2 by (simp add: word_less_unat tq_size_length)
    have "min 2 (?n - 1) = 2" using 1 by simp
    then have two: "qs_contents lg qs ! k1 = [] \<Longrightarrow> qs_contents lg qs ! k2 = [] \<Longrightarrow> stolen lg qs queue_num None qs"
      using k1 k2 by (auto simp: stolen_def intro!: exI [of _ "[k1, k2]"])
    have "succeeds (if tq_size lg q2 > tq_size lg q1 then pop_global_from lg qs k2 else pop_global_from lg qs k1)
        (\<lambda>(r, qs'). queues_ok lg qs' \<and> stolen lg qs queue_num r qs')"
    proof (cases "tq_size lg q2 > tq_size lg q1")
      case True
      then have "succeeds (pop_global_from lg qs k2) (\<lambda>(r, qs'). queues_ok lg qs' \<and> stolen lg qs queue_num r qs')"
        using sz k2 by (intro succeeds_weaken [OF pop_global_from_spec [OF assms(1) k2(4)]]) (auto simp: stolen_def split: option.splits)
      then show ?thesis using True by simp
    next
      case False
      then have "qs_contents lg qs ! k1 = [] \<Longrightarrow> qs_contents lg qs ! k2 = []" using sz by auto
      then have "succeeds (pop_global_from lg qs k1) (\<lambda>(r, qs'). queues_ok lg qs' \<and> stolen lg qs queue_num r qs')"
        using two k1 by (intro succeeds_weaken [OF pop_global_from_spec [OF assms(1) k1(3)]]) (auto simp: stolen_def split: option.splits)
      then show ?thesis using False by simp
    qed
    then show ?thesis using 1 k1(1) k2(1) q1(2) q2(2) k2(5)
      by (auto simp: steal_best_of_2_def Let_def vcg elim!: succeeds_weaken split: if_splits)
  next
    case 2
    define k where "k = (queue_num + 1) mod 2"
    have k: "k \<noteq> queue_num" "k < length qs" using assms(2) 2 by (auto simp: k_def mod_if)
    have "qs_contents lg qs ! k = [] \<Longrightarrow> stolen lg qs queue_num None qs"
      using k 2 by (auto simp: stolen_def intro!: exI [of _ "[k]"])
    then have "succeeds (pop_global_from lg qs k) (\<lambda>(r, qs'). queues_ok lg qs' \<and> stolen lg qs queue_num r qs')"
      by (intro succeeds_weaken [OF pop_global_from_spec [OF assms(1) k(2)]]) (auto intro: stolen_someI [OF k(2,1)] split: option.splits)
    then show ?thesis using 2 assms(4) by (auto simp: steal_best_of_2_def k_def Let_def vcg elim!: succeeds_weaken)
  next
    case 3
    then show ?thesis using assms by (simp add: steal_best_of_2_def stolen_def)
  qed
qed

lemma steal_finds:
  assumes "queues_ok lg qs" "queue_num < length qs" "length qs < 2 ^ 31" "seed_ok seed"
  shows "succeeds (steal lg qs queue_num seed) (\<lambda>(r, qs', seed').
    seed_ok seed' \<and> queues_ok lg qs' \<and> stolen lg qs queue_num r qs')"
proof -
  have "succeeds (for_return 0 (2 * length qs) (\<lambda>i (qs, seed). do {
       (r, qs, seed) \<leftarrow> steal_best_of_2 lg qs queue_num seed;
       Some (case r of Some t \<Rightarrow> Inl (t, qs, seed) | None \<Rightarrow> Inr (qs, seed)) }) (qs, seed))
     (\<lambda>x. case x of Inl (t, qs', seed') \<Rightarrow> seed_ok seed' \<and> queues_ok lg qs' \<and> stolen lg qs queue_num (Some t) qs'
        | Inr (qs', seed') \<Rightarrow> seed_ok seed' \<and> qs' = qs \<and> (0 < 2 * length qs \<longrightarrow> stolen lg qs queue_num None qs))"
  proof (rule for_return_rule [where I = "\<lambda>i (qs', seed'). seed_ok seed' \<and> qs' = qs \<and> (0 < i \<longrightarrow> stolen lg qs queue_num None qs)"
        and Q = "\<lambda>(t, qs', seed'). seed_ok seed' \<and> queues_ok lg qs' \<and> stolen lg qs queue_num (Some t) qs'"])
    fix i :: nat and s :: "'a queue_set \<times> jint"
    assume "case s of (qs', seed') \<Rightarrow> seed_ok seed' \<and> qs' = qs \<and> (0 < i \<longrightarrow> stolen lg qs queue_num None qs)"
    then obtain sd where s: "s = (qs, sd)" "seed_ok sd" by (cases s) auto
    have none: "stolen lg qs queue_num None qs' \<longleftrightarrow> qs' = qs \<and> stolen lg qs queue_num None qs" for qs' by (auto simp: stolen_def)
    show "succeeds ((\<lambda>(qs, seed). do {
          (r, qs, seed) \<leftarrow> steal_best_of_2 lg qs queue_num seed;
          Some (case r of Some t \<Rightarrow> Inl (t, qs, seed) | None \<Rightarrow> Inr (qs, seed)) }) s)
        (\<lambda>x. case x of Inl (t, qs', seed') \<Rightarrow> seed_ok seed' \<and> queues_ok lg qs' \<and> stolen lg qs queue_num (Some t) qs'
          | Inr (qs', seed') \<Rightarrow> seed_ok seed' \<and> qs' = qs \<and> (0 < Suc i \<longrightarrow> stolen lg qs queue_num None qs))"
      unfolding s(1) using steal_best_of_2_spec [OF assms(1-3) s(2)]
      by (auto simp: vcg elim!: succeeds_weaken split: option.splits dest: none [THEN iffD1])
  qed (use assms(4) in auto)
  then show ?thesis using assms(1,2) by (auto simp: steal_def vcg elim!: succeeds_weaken split: sum.splits)
qed

lemma qs_peek_spec:
  assumes "queues_ok lg qs"
  shows "qs_peek qs = Some (\<exists>k<length qs. qs_contents lg qs ! k \<noteq> [])"
proof -
  have peek: "tq_peek q \<longleftrightarrow> tq_contents lg q \<noteq> []" if "tq_wf lg q" for q :: "'a task_queue"
  proof -
    have "tq_len lg q = 0 \<Longrightarrow> tq_bottom q = age_top (tq_age q)" using that by (simp add: tq_wf_def word_less_unat)
    moreover have "tq_bottom q = age_top (tq_age q) \<Longrightarrow> tq_len lg q = 0" by (simp add: tq_len_def tq_dirty_size_def dirty_size_def)
    ultimately have "tq_peek q \<longleftrightarrow> tq_len lg q \<noteq> 0" by (auto simp: tq_peek_def)
    then show ?thesis by (simp add: tq_contents_def flip: length_0_conv)
  qed
  have "succeeds (for_return 0 (length qs) (\<lambda>j _. do {
       q \<leftarrow> qs_queue qs j;
       Some (if tq_peek q then Inl True else Inr ()) }) ())
     (\<lambda>x. case x of Inl b \<Rightarrow> b \<and> (\<exists>k<length qs. qs_contents lg qs ! k \<noteq> []) | Inr _ \<Rightarrow> \<forall>k<length qs. qs_contents lg qs ! k = [])"
  proof (rule for_return_rule [where I = "\<lambda>i _. \<forall>k<i. qs_contents lg qs ! k = []"])
    fix j :: nat and u :: unit assume j: "j < length qs" "\<forall>k<j. qs_contents lg qs ! k = []"
    obtain q where "qs ! j = Some q" "tq_wf lg q" "qs_queue qs j = Some q" "qs_contents lg qs ! j = tq_contents lg q"
      using queues_okE [OF assms j(1)] .
    then show "succeeds (do { q \<leftarrow> qs_queue qs j; Some (if tq_peek q then Inl True else Inr ()) })
        (\<lambda>x. case x of Inl b \<Rightarrow> b \<and> (\<exists>k<length qs. qs_contents lg qs ! k \<noteq> []) | Inr _ \<Rightarrow> \<forall>k<Suc j. qs_contents lg qs ! k = [])"
      using peek [of q] j by (cases "tq_contents lg q = []") (auto simp: less_Suc_eq)
  qed simp_all
  then show ?thesis by (elim succeedsE) (auto simp: qs_peek_def split: sum.splits)
qed

section \<open>Properties\<close>

text \<open>
  C27: the generator never overflows its 32-bit ints.  From a seed between 1 and \<open>m - 1\<close> it gives
  \<open>16807 \<cdot> seed mod m\<close>, again between 1 and \<open>m - 1\<close>, and calling it again and again gives every one of
  these values: its period is \<open>m - 1 = 2\<^sup>3\<^sup>1 - 2\<close>.
\<close>

theorem random_full_period:
  assumes "seed_ok seed"
  shows "sint (randomParkAndMiller seed) = 16807 * sint seed mod 2147483647 \<and> seed_ok (randomParkAndMiller seed)
    \<and> (\<forall>v. 0 < v \<and> v < 2147483647 \<longrightarrow> (\<exists>e>0. sint ((randomParkAndMiller ^^ e) seed) = v))"
  using next_seed [OF assms] every_seed [OF assms] by blast

theorem random_full_period_witness:
  "seed_ok 1 \<and> sint (randomParkAndMiller 1) = 16807 \<and> (\<exists>e>0. sint ((randomParkAndMiller ^^ e) 1) = 2147483646)"
proof -
  have s: "seed_ok 1" by (simp add: seed_ok_def)
  show ?thesis using random_full_period [OF s] s by simp
qed

text \<open>
  C6: stealing ends, although the loops that pick a queue have no bound: the generator reaches every value,
  so it reaches one that names another queue.  The thief then gets the oldest task of some other
  queue, which loses it, and no other queue changes.  When it gets none, no queue changes and two
  other queues (the only other one, when there are two queues) were empty.  \<^verbatim>\<open>peek\<close> tells whether
  some queue has a task.
\<close>

theorem steal_spec:
  assumes "queues_ok lg qs" "queue_num < length qs" "length qs < 2 ^ 31" "seed_ok seed"
  shows "(\<exists>r qs' seed'. steal lg qs queue_num seed = Some (r, qs', seed') \<and> seed_ok seed' \<and> queues_ok lg qs' \<and> (case r of
      Some t \<Rightarrow> \<exists>k rest. k < length qs \<and> k \<noteq> queue_num \<and> qs_contents lg qs ! k = t # rest
        \<and> qs_contents lg qs' = (qs_contents lg qs)[k := rest]
    | None \<Rightarrow> qs' = qs \<and> (\<exists>ks. distinct ks \<and> length ks = min 2 (length qs - 1) \<and> set ks \<subseteq> {..<length qs} - {queue_num}
        \<and> (\<forall>k\<in>set ks. qs_contents lg qs ! k = []))))
    \<and> qs_peek qs = Some (\<exists>k<length qs. qs_contents lg qs ! k \<noteq> [])"
  using steal_finds [OF assms] qs_peek_spec [OF assms(1)] by (auto simp: succeeds_iff stolen_def)

text \<open>Three queues, with no task, two tasks and one task; the owner of the empty one steals.\<close>

definition example_queues :: "nat queue_set" where
  "example_queues =
    [Some \<lparr>tq_bottom = 0, tq_age = \<lparr>age_top = 0, age_tag = 0\<rparr>, tq_elems = [0, 0, 0, 0]\<rparr>,
     Some \<lparr>tq_bottom = 1, tq_age = \<lparr>age_top = 3, age_tag = 5\<rparr>, tq_elems = [8, 0, 0, 7]\<rparr>,
     Some \<lparr>tq_bottom = 2, tq_age = \<lparr>age_top = 1, age_tag = 0\<rparr>, tq_elems = [0, 9, 0, 0]\<rparr>]"

theorem steal_spec_witness:
  "\<exists>t qs' seed'. steal 2 example_queues 0 1 = Some (Some t, qs', seed') \<and> seed_ok seed' \<and> queues_ok 2 qs' \<and> t \<in> {7, 9}"
proof -
  let ?q0 = "\<lparr>tq_bottom = 0, tq_age = \<lparr>age_top = 0, age_tag = 0\<rparr>, tq_elems = [0, 0, 0, 0 :: nat]\<rparr>"
  let ?q1 = "\<lparr>tq_bottom = 1, tq_age = \<lparr>age_top = 3, age_tag = 5\<rparr>, tq_elems = [8, 0, 0, 7 :: nat]\<rparr>"
  let ?q2 = "\<lparr>tq_bottom = 2, tq_age = \<lparr>age_top = 1, age_tag = 0\<rparr>, tq_elems = [0, 9, 0, 0 :: nat]\<rparr>"
  have "tq_wf 2 ?q0 \<and> tq_len 2 ?q0 = 0" "tq_wf 2 ?q1 \<and> tq_len 2 ?q1 = 2" "tq_wf 2 ?q2 \<and> tq_len 2 ?q2 = 1"
    by (rule tq_wfI; simp add: ring_def)+
  then have c: "queues_ok 2 example_queues" "qs_contents 2 example_queues = [[], [7, 8], [9]]"
    by (simp_all add: example_queues_def queues_ok_def qs_contents_def tq_contents_def ring_contents_def upt_rec)
  have l: "length example_queues = 3" by (simp add: example_queues_def)
  have h: "0 < length example_queues" "length example_queues < 2 ^ 31" "seed_ok 1" by (simp_all add: l seed_ok_def)
  obtain r qs' seed' where r: "steal 2 example_queues 0 1 = Some (r, qs', seed')" "seed_ok seed'" "queues_ok 2 qs'"
    "case r of Some t \<Rightarrow> \<exists>k rest. k < length example_queues \<and> k \<noteq> 0 \<and> qs_contents 2 example_queues ! k = t # rest
        \<and> qs_contents 2 qs' = (qs_contents 2 example_queues)[k := rest]
    | None \<Rightarrow> qs' = example_queues \<and> (\<exists>ks. distinct ks \<and> length ks = min 2 (length example_queues - 1)
        \<and> set ks \<subseteq> {..<length example_queues} - {0} \<and> (\<forall>k\<in>set ks. qs_contents 2 example_queues ! k = []))"
    using steal_spec [OF c(1) h] by blast
  have other: "k = 1 \<or> k = 2" if "k < 3" "k \<noteq> (0 :: nat)" for k using that by auto
  show ?thesis
  proof (cases r)
    case None
    then obtain ks where ks: "length ks = 2" "set ks \<subseteq> {..<3} - {0}" "\<forall>k\<in>set ks. qs_contents 2 example_queues ! k = []"
      using r(4) by (auto simp: l)
    then obtain k where "k < 3" "k \<noteq> 0" "qs_contents 2 example_queues ! k = []" by (cases ks) auto
    then show ?thesis using other [of k] c(2) by auto
  next
    case (Some t)
    then obtain k rest where "k < 3" "k \<noteq> 0" "qs_contents 2 example_queues ! k = t # rest" using r(4) by (auto simp: l)
    then show ?thesis using r Some other [of k] c(2) by auto
  qed
qed

end
