(* ===== verification/Task_Terminator.thy ===== *)
theory Task_Terminator
  imports Task_Queue
begin

unbundle bit_operations_syntax

text \<open>
  \<^verbatim>\<open>ParallelTaskTerminator\<close> of \<^verbatim>\<open>utilities/taskqueue.cpp\<close>: the protocol by which the threads of a
  work-stealing phase find out that no work is left.  The shared counter and the place where each
  thread stands in \<^verbatim>\<open>offer_termination\<close> are a step relation, one access of shared memory per step.
  What the threads do outside is the use the header describes: a thread offers termination when it
  has no task and its own queue is empty, only the owner adds to a queue, and new tasks come from
  running a task.  The spinning, yielding and sleeping between two looks at the counter is computed
  by \<open>back_off\<close> from the local counters, at their widths.
\<close>

section \<open>Spinning, yielding and sleeping\<close>

record spin_flags =
  WorkStealingHardSpins :: "64 word"
  WorkStealingSpinToYieldRatio :: "64 word"
  WorkStealingYieldsBeforeSleep :: "64 word"

record spin =
  yield_count :: uint
  hard_spin_count :: uint
  hard_spin_limit :: uint

datatype wait_action = Yield | Hard_spin uint | Sleep

definition hard_spin_start :: "spin_flags \<Rightarrow> uint" where
  "hard_spin_start fl =
     (if WorkStealingSpinToYieldRatio fl > 0
      then max (ucast (drop_bit (unat (WorkStealingSpinToYieldRatio fl)) (WorkStealingHardSpins fl))) 1
      else ucast (WorkStealingHardSpins fl))"

definition initial_spin :: "spin_flags \<Rightarrow> spin" where
  "initial_spin fl = \<lparr>yield_count = 0, hard_spin_count = 0, hard_spin_limit = hard_spin_start fl\<rparr>"

definition back_off :: "spin_flags \<Rightarrow> spin \<Rightarrow> wait_action \<times> spin" where
  "back_off fl sp =
     (if ucast (yield_count sp) \<le> WorkStealingYieldsBeforeSleep fl
      then let sp = sp\<lparr>yield_count := yield_count sp + 1\<rparr>
           in if ucast (hard_spin_count sp) > WorkStealingSpinToYieldRatio fl
              then (Yield, sp\<lparr>hard_spin_count := 0, hard_spin_limit := hard_spin_start fl\<rparr>)
              else let limit = min (2 * hard_spin_limit sp) (ucast (WorkStealingHardSpins fl))
                   in (Hard_spin limit, sp\<lparr>hard_spin_limit := limit, hard_spin_count := hard_spin_count sp + 1\<rparr>)
      else (Sleep, sp\<lparr>yield_count := 0\<rparr>))"

section \<open>The protocol\<close>

record task_terminator =
  tt_n_threads :: int
  tt_offered_termination :: int

definition new_terminator :: "int \<Rightarrow> task_terminator" where
  "new_terminator n_threads = \<lparr>tt_n_threads = n_threads, tt_offered_termination = 0\<rparr>"

definition reset_for_reuse :: "task_terminator \<Rightarrow> task_terminator" where
  "reset_for_reuse tt = (if tt_offered_termination tt \<noteq> 0 then tt\<lparr>tt_offered_termination := 0\<rparr> else tt)"

definition reset_for_reuse_n :: "task_terminator \<Rightarrow> int \<Rightarrow> task_terminator" where
  "reset_for_reuse_n tt n_threads = (reset_for_reuse tt)\<lparr>tt_n_threads := n_threads\<rparr>"

text \<open>
  Where a thread stands: outside, about to look at the counter, about to look into a queue, about
  to take its offer back, or gone.
\<close>

datatype term_pc =
    Outside
  | Check spin
  | Peek spin nat
  | Withdraw
  | Returned_true

text \<open>
  Beside the terminator the state has the number of tasks in each thread's queue and whether a
  thread has a task in hand.
\<close>

record term_state =
  terminator :: task_terminator
  thread_pc :: "nat \<Rightarrow> term_pc"
  queue_tasks :: "nat \<Rightarrow> nat"
  busy :: "nat \<Rightarrow> bool"

definition n_threads :: "term_state \<Rightarrow> nat" where
  "n_threads s = nat (tt_n_threads (terminator s))"

definition move :: "term_state \<Rightarrow> nat \<Rightarrow> term_pc \<Rightarrow> term_state" where
  "move s i pc = s\<lparr>thread_pc := (thread_pc s)(i := pc)\<rparr>"

definition count_offer :: "int \<Rightarrow> term_state \<Rightarrow> term_state" where
  "count_offer d s = s\<lparr>terminator := (terminator s)\<lparr>tt_offered_termination := tt_offered_termination (terminator s) + d\<rparr>\<rparr>"

text \<open>
  One step of the thread \<open>i\<close>.  With \<open>exits\<close> the call has a \<^verbatim>\<open>TerminatorTerminator\<close>, which may ask to
  leave whenever it is consulted.
\<close>

inductive tt_step :: "spin_flags \<Rightarrow> bool \<Rightarrow> nat \<Rightarrow> term_state \<Rightarrow> term_state \<Rightarrow> bool" for fl exits where
  offer: "i < n_threads s \<Longrightarrow> thread_pc s i = Outside \<Longrightarrow> \<not> busy s i \<Longrightarrow> queue_tasks s i = 0 \<Longrightarrow>
    tt_step fl exits i s (count_offer 1 (move s i (Check (initial_spin fl))))"
| all_offered: "i < n_threads s \<Longrightarrow> thread_pc s i = Check sp \<Longrightarrow> tt_offered_termination (terminator s) = tt_n_threads (terminator s) \<Longrightarrow>
    tt_step fl exits i s (move s i Returned_true)"
| not_all: "i < n_threads s \<Longrightarrow> thread_pc s i = Check sp \<Longrightarrow> tt_offered_termination (terminator s) \<noteq> tt_n_threads (terminator s) \<Longrightarrow>
    tt_step fl exits i s (move s i (Peek (snd (back_off fl sp)) 0))"
| peek_work: "i < n_threads s \<Longrightarrow> thread_pc s i = Peek sp j \<Longrightarrow> j < n_threads s \<Longrightarrow> queue_tasks s j \<noteq> 0 \<Longrightarrow>
    tt_step fl exits i s (move s i Withdraw)"
| peek_next: "i < n_threads s \<Longrightarrow> thread_pc s i = Peek sp j \<Longrightarrow> j < n_threads s \<Longrightarrow> queue_tasks s j = 0 \<Longrightarrow>
    tt_step fl exits i s (move s i (Peek sp (Suc j)))"
| peek_exit: "i < n_threads s \<Longrightarrow> thread_pc s i = Peek sp j \<Longrightarrow> \<not> j < n_threads s \<Longrightarrow> exits \<Longrightarrow>
    tt_step fl exits i s (move s i Withdraw)"
| peek_none: "i < n_threads s \<Longrightarrow> thread_pc s i = Peek sp j \<Longrightarrow> \<not> j < n_threads s \<Longrightarrow>
    tt_step fl exits i s (move s i (Check sp))"
| withdraw: "i < n_threads s \<Longrightarrow> thread_pc s i = Withdraw \<Longrightarrow> tt_step fl exits i s (count_offer (- 1) (move s i Outside))"
| take_task: "i < n_threads s \<Longrightarrow> thread_pc s i = Outside \<Longrightarrow> \<not> busy s i \<Longrightarrow> k < n_threads s \<Longrightarrow> queue_tasks s k = Suc t \<Longrightarrow>
    tt_step fl exits i s (s\<lparr>queue_tasks := (queue_tasks s)(k := t), busy := (busy s)(i := True)\<rparr>)"
| spawn_task: "i < n_threads s \<Longrightarrow> busy s i \<Longrightarrow>
    tt_step fl exits i s (s\<lparr>queue_tasks := (queue_tasks s)(i := Suc (queue_tasks s i))\<rparr>)"
| end_task: "i < n_threads s \<Longrightarrow> busy s i \<Longrightarrow> tt_step fl exits i s (s\<lparr>busy := (busy s)(i := False)\<rparr>)"

inductive tt_run :: "spin_flags \<Rightarrow> bool \<Rightarrow> term_state \<Rightarrow> nat list \<Rightarrow> term_state \<Rightarrow> bool" for fl exits where
  run_nil: "tt_run fl exits s [] s"
| run_snoc: "tt_run fl exits s tr s' \<Longrightarrow> tt_step fl exits i s' s'' \<Longrightarrow> tt_run fl exits s (tr @ [i]) s''"

definition start_state :: "nat \<Rightarrow> (nat \<Rightarrow> nat) \<Rightarrow> term_state" where
  "start_state n tasks = \<lparr>terminator = new_terminator (int n), thread_pc = (\<lambda>_. Outside), queue_tasks = tasks, busy = (\<lambda>_. False)\<rparr>"

lemmas step_defs = move_def count_offer_def n_threads_def

section \<open>The invariant\<close>

definition inside :: "term_state \<Rightarrow> nat set" where
  "inside s = {i \<in> {..<n_threads s}. thread_pc s i \<noteq> Outside}"

definition no_work :: "term_state \<Rightarrow> bool" where
  "no_work s \<longleftrightarrow> (\<forall>i<n_threads s. \<not> busy s i \<and> queue_tasks s i = 0)"

definition tt_inv :: "term_state \<Rightarrow> bool" where
  "tt_inv s \<longleftrightarrow> tt_n_threads (terminator s) = int (n_threads s) \<and> tt_offered_termination (terminator s) = int (card (inside s))
     \<and> (\<forall>i\<in>inside s. \<not> busy s i \<and> queue_tasks s i = 0)
     \<and> ((\<exists>i<n_threads s. thread_pc s i = Returned_true) \<longrightarrow> no_work s)"

lemma move_simps [simp]:
  "n_threads (move s i pc) = n_threads s" "terminator (move s i pc) = terminator s" "queue_tasks (move s i pc) = queue_tasks s"
  "busy (move s i pc) = busy s" "thread_pc (move s i pc) = (thread_pc s)(i := pc)" "no_work (move s i pc) = no_work s"
  "n_threads (count_offer d s) = n_threads s" "thread_pc (count_offer d s) = thread_pc s" "queue_tasks (count_offer d s) = queue_tasks s"
  "busy (count_offer d s) = busy s" "inside (count_offer d s) = inside s" "no_work (count_offer d s) = no_work s"
  "tt_n_threads (terminator (count_offer d s)) = tt_n_threads (terminator s)"
  "tt_offered_termination (terminator (count_offer d s)) = tt_offered_termination (terminator s) + d"
  "n_threads (s\<lparr>queue_tasks := q, busy := b\<rparr>) = n_threads s" "n_threads (s\<lparr>queue_tasks := q\<rparr>) = n_threads s"
  "n_threads (s\<lparr>busy := b\<rparr>) = n_threads s"
  by (simp_all add: step_defs no_work_def inside_def)

lemma inside_move:
  "i < n_threads s \<Longrightarrow> inside (move s i pc) = (if pc = Outside then inside s - {i} else insert i (inside s))"
  by (auto simp: inside_def)

lemma inside_finite [simp]: "finite (inside s)"
  by (simp add: inside_def)

lemma all_inside:
  assumes "tt_inv s" "tt_offered_termination (terminator s) = tt_n_threads (terminator s)"
  shows "inside s = {..<n_threads s}"
  using assms by (intro card_subset_eq) (auto simp: tt_inv_def inside_def)

lemma inv_moved:
  assumes "tt_inv s" "i \<in> inside s" "pc \<noteq> Outside" "pc = Returned_true \<Longrightarrow> no_work s"
  shows "tt_inv (move s i pc)"
proof -
  have "i < n_threads s" using assms(2) by (simp add: inside_def)
  then have "inside (move s i pc) = inside s" using assms(2,3) by (auto simp: inside_move)
  then show ?thesis using assms by (auto simp: tt_inv_def)
qed

lemma tt_step_inv: "tt_step fl exits i s s' \<Longrightarrow> tt_inv s \<Longrightarrow> tt_inv s'"
proof (induction rule: tt_step.induct)
  case (offer i s)
  have "i \<notin> inside s" using offer by (simp add: inside_def)
  then show ?case using offer by (auto simp: tt_inv_def inside_move)
next
  case (all_offered i s sp)
  then have "inside s = {..<n_threads s}" by (intro all_inside)
  then show ?case using all_offered by (intro inv_moved) (auto simp: tt_inv_def no_work_def)
next
  case (withdraw i s)
  have i: "i \<in> inside s" using withdraw by (simp add: inside_def)
  then have "int (card (inside s - {i})) = int (card (inside s)) - 1"
    using card_Suc_Diff1 [OF inside_finite i] by linarith
  then show ?case using withdraw by (auto simp: tt_inv_def inside_move)
next
  case (take_task i s k t)
  then have "\<not> no_work s" by (auto simp: no_work_def)
  then show ?case using take_task by (auto simp: tt_inv_def inside_def)
next
  case (spawn_task i s)
  then have "\<not> no_work s" "i \<notin> inside s" by (auto simp: no_work_def tt_inv_def)
  then show ?case using spawn_task by (auto simp: tt_inv_def inside_def)
next
  case (end_task i s)
  then have "\<not> no_work s" "i \<notin> inside s" by (auto simp: no_work_def tt_inv_def)
  then show ?case using end_task by (auto simp: tt_inv_def inside_def)
qed (auto simp: inside_def intro!: inv_moved)

lemma start_inv: "tt_inv (start_state n tasks)"
  by (simp add: tt_inv_def start_state_def new_terminator_def n_threads_def inside_def)

lemma tt_run_inv: "tt_run fl exits s tr s' \<Longrightarrow> tt_inv s \<Longrightarrow> tt_inv s'"
  by (induction rule: tt_run.induct) (auto intro: tt_step_inv)

lemma tt_step_threads: "tt_step fl exits i s s' \<Longrightarrow> n_threads s' = n_threads s \<and> i < n_threads s"
  by (induction rule: tt_step.induct) auto

lemma tt_run_threads: "tt_run fl exits s tr s' \<Longrightarrow> n_threads s' = n_threads s"
  by (induction rule: tt_run.induct) (auto dest: tt_step_threads)

lemma no_work_stays: "tt_step fl exits i s s' \<Longrightarrow> no_work s \<Longrightarrow> no_work s'"
  by (induction rule: tt_step.induct) (auto simp: no_work_def)

section \<open>Progress\<close>

text \<open>A round is a stretch of a run in which every thread that has not returned makes a step.\<close>

definition round_of :: "spin_flags \<Rightarrow> term_state \<Rightarrow> term_state \<Rightarrow> bool" where
  "round_of fl s s' \<longleftrightarrow> (\<exists>tr. tt_run fl False s tr s' \<and> (\<forall>i<n_threads s. i \<in> set tr \<or> thread_pc s' i = Returned_true))"

inductive rounds :: "spin_flags \<Rightarrow> nat \<Rightarrow> term_state \<Rightarrow> term_state \<Rightarrow> bool" for fl where
  rounds_0: "rounds fl 0 s s"
| rounds_Suc: "round_of fl s s' \<Longrightarrow> rounds fl r s' s'' \<Longrightarrow> rounds fl (Suc r) s s''"

inductive_cases rounds_SucE: "rounds fl (Suc r) s s''"

lemma can_step:
  assumes "i < n_threads s" "thread_pc s i \<noteq> Returned_true"
  shows "\<exists>s'. tt_step fl exits i s s'"
proof (cases "thread_pc s i")
  case Outside
  then show ?thesis
  proof (cases "busy s i")
    case False
    then show ?thesis using Outside assms tt_step.offer [of i s] tt_step.take_task [of i s i]
      by (cases "queue_tasks s i") blast+
  qed (use assms tt_step.end_task in blast)
next
  case (Check sp)
  then show ?thesis using assms tt_step.all_offered [of i s sp] tt_step.not_all [of i s sp] by blast
next
  case (Peek sp j)
  then show ?thesis using assms tt_step.peek_work [of i s sp j] tt_step.peek_next [of i s sp j] tt_step.peek_none [of i s sp j] by blast
next
  case Withdraw
  then show ?thesis using assms tt_step.withdraw by blast
qed (use assms in simp)

definition quiet :: "term_state \<Rightarrow> bool" where
  "quiet s \<longleftrightarrow> tt_inv s \<and> no_work s"

lemma quiet_step: "quiet s \<Longrightarrow> tt_step fl exits i s s' \<Longrightarrow> quiet s'"
  unfolding quiet_def using tt_step_inv no_work_stays by blast

lemma quiet_pc:
  assumes "tt_step fl False i s s'" "quiet s" "k < n_threads s"
  shows "(thread_pc s' k = Withdraw \<longrightarrow> thread_pc s k = Withdraw \<and> k \<noteq> i)
    \<and> (thread_pc s' k = Outside \<longrightarrow> (thread_pc s k = Outside \<and> k \<noteq> i) \<or> thread_pc s k = Withdraw)"
  using assms by (induction rule: tt_step.induct) (auto simp: quiet_def no_work_def)

fun term_rank :: "nat \<Rightarrow> term_pc \<Rightarrow> nat" where
  "term_rank n (Check sp) = 1"
| "term_rank n (Peek sp j) = n - j + 2"
| "term_rank n _ = 0"

definition all_in :: "term_state \<Rightarrow> bool" where
  "all_in s \<longleftrightarrow> quiet s \<and> (\<forall>i<n_threads s. thread_pc s i \<noteq> Withdraw \<and> thread_pc s i \<noteq> Outside)"

lemma all_in_step: "all_in s \<Longrightarrow> tt_step fl False i s s' \<Longrightarrow> all_in s'"
  unfolding all_in_def using quiet_step quiet_pc tt_step_threads by (metis (no_types, lifting))

lemma all_in_rank:
  assumes "tt_step fl False i s s'" "all_in s" "k < n_threads s"
  shows "term_rank (n_threads s) (thread_pc s' k) \<le> term_rank (n_threads s) (thread_pc s k)
    \<and> (k = i \<longrightarrow> term_rank (n_threads s) (thread_pc s' k) < term_rank (n_threads s) (thread_pc s k))"
proof -
  have "inside s = {..<n_threads s}" using assms(2) by (auto simp: all_in_def inside_def)
  then have "tt_offered_termination (terminator s) = tt_n_threads (terminator s)"
    using assms(2) by (simp add: all_in_def quiet_def tt_inv_def)
  with assms show ?thesis by (induction rule: tt_step.induct) (auto simp: all_in_def quiet_def no_work_def)
qed

lemma run_quiet: "tt_run fl False s tr s' \<Longrightarrow> quiet s \<Longrightarrow> quiet s'"
  by (induction rule: tt_run.induct) (auto intro: quiet_step)

lemma run_no_withdraw:
  assumes "tt_run fl False s tr s'" "quiet s" "k < n_threads s" "k \<in> set tr \<or> thread_pc s k \<noteq> Withdraw"
  shows "thread_pc s' k \<noteq> Withdraw"
  using assms
proof (induction rule: tt_run.induct)
  case (run_snoc s tr s' i s'')
  then have "quiet s'" "n_threads s' = n_threads s" using run_quiet tt_run_threads by blast+
  then show ?case using run_snoc quiet_pc [OF run_snoc(2)] by auto
qed simp

lemma run_no_outside:
  assumes "tt_run fl False s tr s'" "quiet s" "\<forall>i<n_threads s. thread_pc s i \<noteq> Withdraw" "k < n_threads s"
    "k \<in> set tr \<or> thread_pc s k \<noteq> Outside"
  shows "thread_pc s' k \<noteq> Outside"
  using assms
proof (induction rule: tt_run.induct)
  case (run_snoc s tr s' i s'')
  then have "quiet s'" "n_threads s' = n_threads s" "thread_pc s' k \<noteq> Withdraw"
    using run_quiet tt_run_threads run_no_withdraw by blast+
  then show ?case using run_snoc quiet_pc [OF run_snoc(2), of k] by auto
qed simp

lemma run_rank:
  assumes "tt_run fl False s tr s'" "all_in s" "k < n_threads s"
  shows "all_in s' \<and> term_rank (n_threads s) (thread_pc s' k) \<le> term_rank (n_threads s) (thread_pc s k)
    \<and> (k \<in> set tr \<longrightarrow> term_rank (n_threads s) (thread_pc s' k) < term_rank (n_threads s) (thread_pc s k))"
  using assms
proof (induction rule: tt_run.induct)
  case (run_snoc s tr s' i s'')
  then have "all_in s'" "n_threads s' = n_threads s" using tt_run_threads by blast+
  then show ?case using run_snoc all_in_rank [OF run_snoc(2), of k] all_in_step by fastforce
qed simp

lemma round_threads: "round_of fl s s' \<Longrightarrow> n_threads s' = n_threads s"
  by (auto simp: round_of_def dest: tt_run_threads)

lemma rounds_rank:
  assumes "rounds fl r s s'" "all_in s" "k < n_threads s"
  shows "term_rank (n_threads s) (thread_pc s' k) \<le> term_rank (n_threads s) (thread_pc s k) - r \<and> all_in s' \<and> n_threads s' = n_threads s"
  using assms
proof (induction rule: rounds.induct)
  case (rounds_Suc s s' r s'')
  then obtain tr where r: "tt_run fl False s tr s'" "k \<in> set tr \<or> thread_pc s' k = Returned_true" by (auto simp: round_of_def)
  have "all_in s'" "n_threads s' = n_threads s" using run_rank [OF r(1)] rounds_Suc(4,5) tt_run_threads [OF r(1)] by blast+
  moreover have "term_rank (n_threads s) (thread_pc s' k) \<le> term_rank (n_threads s) (thread_pc s k) - 1"
    using run_rank [OF r(1) rounds_Suc(4,5)] r(2) by auto
  ultimately show ?case using rounds_Suc by fastforce
qed simp

lemma rounds_return:
  assumes "quiet s" "rounds fl (n_threads s + 4) s s'" "k < n_threads s"
  shows "thread_pc s' k = Returned_true"
proof -
  have "n_threads s + 4 = Suc (Suc (n_threads s + 2))" by simp
  then obtain s1 s2 where r: "round_of fl s s1" "round_of fl s1 s2" "rounds fl (n_threads s + 2) s2 s'"
    using assms(2) by (metis rounds_SucE)
  have n: "n_threads s1 = n_threads s" "n_threads s2 = n_threads s" using r(1,2) round_threads by simp_all
  have q: "quiet s1" "quiet s2" using assms(1) r(1,2) run_quiet by (auto simp: round_of_def)
  have w: "thread_pc s1 i \<noteq> Withdraw" if "i < n_threads s" for i
    using r(1) run_no_withdraw [OF _ assms(1) that] that by (auto simp: round_of_def)
  have "all_in s2" unfolding all_in_def
  proof (intro conjI allI impI)
    fix i assume i: "i < n_threads s2"
    obtain tr where tr: "tt_run fl False s1 tr s2" "i \<in> set tr \<or> thread_pc s2 i = Returned_true"
      using r(2) i n by (auto simp: round_of_def)
    show "thread_pc s2 i \<noteq> Withdraw" by (rule run_no_withdraw [OF tr(1) q(1)]) (use i n w in auto)
    show "thread_pc s2 i \<noteq> Outside"
      using tr(2) run_no_outside [OF tr(1) q(1), of i] i n w by auto
  qed (rule q)
  moreover have "term_rank (n_threads s) (thread_pc s2 k) \<le> n_threads s + 2" by (cases "thread_pc s2 k") simp_all
  ultimately have "term_rank (n_threads s) (thread_pc s' k) = 0" "all_in s'" "n_threads s' = n_threads s"
    using rounds_rank [OF r(3), of k] assms(3) n by auto
  then show ?thesis using assms(3) by (cases "thread_pc s' k") (auto simp: all_in_def)
qed

section \<open>The pattern of waiting\<close>

definition spin_after :: "spin_flags \<Rightarrow> nat \<Rightarrow> spin" where
  "spin_after fl i = ((\<lambda>sp. snd (back_off fl sp)) ^^ i) (initial_spin fl)"

definition flags_ok :: "spin_flags \<Rightarrow> bool" where
  "flags_ok fl \<longleftrightarrow> unat (WorkStealingHardSpins fl) < 2 ^ 31 \<and> unat (WorkStealingSpinToYieldRatio fl) < 64
     \<and> unat (WorkStealingYieldsBeforeSleep fl) < 2 ^ 32 - 1"

text \<open>The number of the first \<open>i\<close> turns that are not sleeps, when every \<open>y + 2\<close> turns have one.\<close>

definition awake_turns :: "nat \<Rightarrow> nat \<Rightarrow> nat" where
  "awake_turns y i = i - i div (y + 2)"

lemma awake_Suc: "awake_turns y (Suc i) = (if i mod (y + 2) = y + 1 then awake_turns y i else Suc (awake_turns y i))"
proof -
  have "i div (y + 2) \<le> i" by (rule div_le_dividend)
  then show ?thesis by (auto simp: awake_turns_def div_Suc mod_Suc Suc_diff_le)
qed

lemma word_inc: "unat (w :: uint) + 1 < 2 ^ 32 \<Longrightarrow> unat (w + 1) = unat w + 1"
  by (simp add: unat_word_ariths)

lemma unat_wider: "unat (ucast (w :: uint) :: 64 word) = unat w"
  using unat_bound [of w] by (simp add: ucast_of_unat unat_of_nat_small del: of_nat_unat)

lemma unat_narrower: "unat (w :: 64 word) < 2 ^ 32 \<Longrightarrow> unat (ucast w :: uint) = unat w"
  by (simp add: ucast_of_unat unat_of_nat_small del: of_nat_unat)

definition spin_at :: "spin_flags \<Rightarrow> nat \<Rightarrow> spin \<Rightarrow> bool" where
  "spin_at fl i sp \<longleftrightarrow> (let y = unat (WorkStealingYieldsBeforeSleep fl); r = unat (WorkStealingSpinToYieldRatio fl);
       c = awake_turns y i mod (r + 2); st = unat (hard_spin_start fl)
     in unat (yield_count sp) = i mod (y + 2) \<and> unat (hard_spin_count sp) = c
       \<and> unat (hard_spin_limit sp) = (if c = 0 then st else min (st * 2 ^ c) (unat (WorkStealingHardSpins fl))))"

lemma start_at: "spin_at fl 0 (initial_spin fl)"
  by (simp add: spin_at_def initial_spin_def awake_turns_def)

lemma double_limit:
  assumes "flags_ok fl" "spin_at fl i sp"
  shows "unat (min (2 * hard_spin_limit sp) (ucast (WorkStealingHardSpins fl))) =
    min (unat (hard_spin_start fl) * 2 ^ Suc (unat (hard_spin_count sp))) (unat (WorkStealingHardSpins fl))"
proof -
  let ?h = "unat (WorkStealingHardSpins fl)" and ?st = "unat (hard_spin_start fl)" and ?l = "hard_spin_limit sp"
  have h: "?h < 2 ^ 31" "unat (ucast (WorkStealingHardSpins fl) :: uint) = ?h"
    using assms(1) by (simp_all add: flags_ok_def unat_narrower)
  have "?st \<le> max ?h 1"
  proof -
    have "unat (ucast (drop_bit d (WorkStealingHardSpins fl)) :: uint) \<le> ?h" for d
    proof -
      have "unat (drop_bit d (WorkStealingHardSpins fl)) \<le> ?h" by (simp add: unat_drop_bit_eq) (simp add: drop_bit_eq_div div_le_dividend)
      then show ?thesis using h(1) by (subst unat_narrower) simp_all
    qed
    from this [of "unat (WorkStealingSpinToYieldRatio fl)"] show ?thesis
      using h(2) by (auto simp: hard_spin_start_def max_def word_le_nat_alt)
  qed
  then have "unat ?l \<le> max ?h 1" using assms(2) by (auto simp: spin_at_def Let_def split: if_splits)
  then have "2 * unat ?l < 2 ^ 32" using h(1) by auto
  then have l: "unat (2 * ?l) = 2 * unat ?l" by (simp add: unat_word_ariths)
  have "unat (min (2 * ?l) (ucast (WorkStealingHardSpins fl))) = min (2 * unat ?l) ?h"
    using h(2) l by (simp add: min_def word_le_nat_alt)
  also have "\<dots> = min (?st * 2 ^ Suc (unat (hard_spin_count sp))) ?h"
    using assms(2) by (auto simp: spin_at_def Let_def min_def)
  finally show ?thesis .
qed

lemma back_off_step:
  fixes fl i
  defines "y \<equiv> unat (WorkStealingYieldsBeforeSleep fl)" and "r \<equiv> unat (WorkStealingSpinToYieldRatio fl)"
  defines "c \<equiv> awake_turns y i mod (r + 2)"
  assumes "flags_ok fl" "spin_at fl i sp"
  shows "spin_at fl (Suc i) (snd (back_off fl sp)) \<and> fst (back_off fl sp) =
    (if i mod (y + 2) = y + 1 then Sleep else if c = r + 1 then Yield
     else Hard_spin (of_nat (min (unat (hard_spin_start fl) * 2 ^ Suc c) (unat (WorkStealingHardSpins fl)))))"
proof -
  have b: "y < 2 ^ 32 - 1" "r < 64" using assms(4) by (simp_all add: flags_ok_def y_def r_def)
  have yc: "unat (yield_count sp) = i mod (y + 2)" and hc: "unat (hard_spin_count sp) = c"
    using assms(5) by (simp_all add: spin_at_def Let_def c_def y_def r_def)
  have ylt: "i mod (y + 2) < y + 2" and clt: "c < r + 2" by (simp_all add: c_def)
  have awake: "ucast (yield_count sp) \<le> WorkStealingYieldsBeforeSleep fl \<longleftrightarrow> i mod (y + 2) \<noteq> y + 1"
    using ylt unfolding word_le_nat_alt unat_wider yc y_def [symmetric] by linarith
  have spins: "ucast (hard_spin_count sp) > WorkStealingSpinToYieldRatio fl \<longleftrightarrow> c = r + 1"
    using clt unfolding word_less_nat_alt unat_wider hc r_def [symmetric] by linarith
  have "i mod (y + 2) \<noteq> y + 1 \<Longrightarrow> i mod (y + 2) \<le> y" using ylt by linarith
  then have y1: "i mod (y + 2) \<noteq> y + 1 \<Longrightarrow> unat (yield_count sp + 1) = Suc i mod (y + 2)"
    using b(1) yc word_inc [of "yield_count sp"] by (simp add: mod_Suc)
  have c1: "c \<noteq> r + 1 \<Longrightarrow> unat (hard_spin_count sp + 1) = Suc c" using clt b(2) hc word_inc [of "hard_spin_count sp"] by simp
  have cs: "i mod (y + 2) \<noteq> y + 1 \<Longrightarrow> awake_turns y (Suc i) mod (r + 2) = (if c = r + 1 then 0 else Suc c)"
    by (simp add: awake_Suc mod_Suc c_def)
  note lim = double_limit [OF assms(4,5), unfolded hc]
  consider "i mod (y + 2) = y + 1" | "i mod (y + 2) \<noteq> y + 1" "c = r + 1" | "i mod (y + 2) \<noteq> y + 1" "c \<noteq> r + 1" by blast
  then show ?thesis
  proof cases
    case 1
    then have "Suc i mod (y + 2) = 0" by (simp add: mod_Suc)
    moreover have "awake_turns y (Suc i) = awake_turns y i" using 1 by (simp add: awake_Suc)
    ultimately show ?thesis using 1 awake assms(5) by (simp add: back_off_def spin_at_def Let_def flip: y_def r_def)
  next
    case 2
    then show ?thesis using awake spins y1 cs by (simp add: back_off_def spin_at_def Let_def flip: y_def r_def)
  next
    case 3
    have "fst (back_off fl sp) = Hard_spin (min (2 * hard_spin_limit sp) (ucast (WorkStealingHardSpins fl)))"
      using 3 awake spins by (simp add: back_off_def Let_def)
    moreover have "spin_at fl (Suc i) (snd (back_off fl sp))"
      using 3 awake spins y1 c1 cs lim by (simp add: back_off_def spin_at_def Let_def flip: y_def r_def)
    moreover have "of_nat (min (unat (hard_spin_start fl) * 2 ^ Suc c) (unat (WorkStealingHardSpins fl)))
        = min (2 * hard_spin_limit sp) (ucast (WorkStealingHardSpins fl))" unfolding lim [symmetric] by simp
    ultimately show ?thesis using 3 by simp
  qed
qed

lemma spin_after_at: "flags_ok fl \<Longrightarrow> spin_at fl i (spin_after fl i)"
  by (induction i) (simp_all add: spin_after_def start_at back_off_step)

section \<open>Properties\<close>

definition default_flags :: spin_flags where
  "default_flags = \<lparr>WorkStealingHardSpins = 4096, WorkStealingSpinToYieldRatio = 10, WorkStealingYieldsBeforeSleep = 5000\<rparr>"

text \<open>A run of one thread, and a run of two in which one withdraws after the other has returned.\<close>

lemma run_one_step: "tt_step fl exits i s s' \<Longrightarrow> tt_run fl exits s [i] s'"
  using tt_run.run_snoc [OF tt_run.run_nil] by fastforce

definition alone :: "int \<Rightarrow> term_pc \<Rightarrow> term_state" where
  "alone offers pc = \<lparr>terminator = \<lparr>tt_n_threads = 1, tt_offered_termination = offers\<rparr>, thread_pc = (\<lambda>_. Outside)(0 := pc),
     queue_tasks = (\<lambda>_. 0), busy = (\<lambda>_. False)\<rparr>"

lemma start_alone: "start_state 1 (\<lambda>_. 0) = alone 0 Outside"
  by (auto simp: start_state_def alone_def new_terminator_def)

lemma alone_steps:
  "tt_step fl exits 0 (alone 0 Outside) (alone 1 (Check (initial_spin fl)))"
  "tt_step fl exits 0 (alone 1 (Check sp)) (alone 1 Returned_true)"
  using tt_step.offer [of 0 "alone 0 Outside" fl exits] tt_step.all_offered [of 0 "alone 1 (Check sp)" sp fl exits]
  by (simp_all add: alone_def step_defs)

lemma alone_returns: "tt_run fl exits (start_state 1 (\<lambda>_. 0)) [0, 0] (alone 1 Returned_true)"
  unfolding start_alone using tt_run.run_snoc [OF run_one_step [OF alone_steps(1)] alone_steps(2)] by simp

text \<open>
  C7: the counter is the number of threads inside \<^verbatim>\<open>offer_termination\<close> (those that returned true
  counted as inside), never more than the number of threads.  Once one thread has returned true,
  no thread has a task and every queue is empty, in that state and in every later one.  When all
  have returned true, \<^verbatim>\<open>reset_for_reuse\<close> gives a new terminator.
\<close>

theorem termination_detected:
  assumes "tt_run fl exits (start_state n tasks) tr s"
  shows "tt_offered_termination (terminator s) = int (card {i \<in> {..<n}. thread_pc s i \<noteq> Outside})
    \<and> tt_offered_termination (terminator s) \<le> int n
    \<and> ((\<exists>i<n. thread_pc s i = Returned_true) \<longrightarrow> (\<forall>k<n. \<not> busy s k \<and> queue_tasks s k = 0))
    \<and> ((\<forall>i<n. thread_pc s i = Returned_true) \<longrightarrow> reset_for_reuse (terminator s) = new_terminator (int n))"
proof -
  have inv: "tt_inv s" by (rule tt_run_inv [OF assms start_inv])
  have n: "n_threads s = n" using tt_run_threads [OF assms] by (simp add: n_threads_def start_state_def new_terminator_def)
  have "card (inside s) \<le> card {..<n}" by (rule card_mono) (auto simp: inside_def n)
  moreover have "reset_for_reuse (terminator s) = new_terminator (int n)"
    using inv n by (simp add: tt_inv_def reset_for_reuse_def new_terminator_def)
  ultimately show ?thesis using inv n by (simp add: tt_inv_def inside_def no_work_def)
qed

theorem termination_detected_witness:
  "\<exists>tr s. tt_run default_flags False (start_state 1 (\<lambda>_. 0)) tr s \<and> thread_pc s 0 = Returned_true
    \<and> reset_for_reuse (terminator s) = new_terminator 1"
  using termination_detected [OF alone_returns [of default_flags False]] alone_returns [of default_flags False] by (force simp: alone_def)

text \<open>
  C16: when no work is left every thread returns true.  No thread is ever stuck, and from any
  reachable state without tasks, if no \<^verbatim>\<open>TerminatorTerminator\<close> is given, all \<open>n\<close> threads have returned
  true after at most \<open>n + 4\<close> rounds in which each thread that has not returned makes at least one step.
\<close>

theorem termination_reached:
  assumes "tt_run fl False (start_state n tasks) tr s" "\<forall>k<n. \<not> busy s k \<and> queue_tasks s k = 0"
  shows "(\<forall>i<n. thread_pc s i = Returned_true \<or> (\<exists>s'. tt_step fl False i s s'))
    \<and> (\<forall>s'. rounds fl (n + 4) s s' \<longrightarrow> (\<forall>i<n. thread_pc s' i = Returned_true))"
proof -
  have n: "n_threads s = n" using tt_run_threads [OF assms(1)] by (simp add: n_threads_def start_state_def new_terminator_def)
  have "quiet s" using tt_run_inv [OF assms(1) start_inv] assms(2) n by (simp add: quiet_def no_work_def)
  then show ?thesis using rounds_return n can_step by blast
qed

theorem termination_reached_witness:
  "\<exists>s'. rounds default_flags 5 (start_state 1 (\<lambda>_. 0)) s' \<and> thread_pc s' 0 = Returned_true"
proof -
  let ?s = "alone 1 Returned_true"
  have "n_threads ?s = 1" "thread_pc ?s 0 = Returned_true" by (simp_all add: alone_def n_threads_def)
  then have idle: "round_of default_flags ?s ?s" unfolding round_of_def by (intro exI [of _ "[]"]) (simp add: tt_run.run_nil)
  have first: "round_of default_flags (start_state 1 (\<lambda>_. 0)) ?s"
    unfolding round_of_def using alone_returns [of default_flags False] by (intro exI [of _ "[0, 0]"]) (simp add: start_state_def n_threads_def new_terminator_def)
  have "rounds default_flags (Suc (Suc (Suc (Suc (Suc 0))))) (start_state 1 (\<lambda>_. 0)) ?s"
    by (intro rounds_Suc [OF first] rounds_Suc [OF idle] rounds_0)
  then have r: "rounds default_flags (1 + 4) (start_state 1 (\<lambda>_. 0)) ?s" by (simp add: eval_nat_numeral)
  show ?thesis using termination_reached [OF tt_run.run_nil [of default_flags False "start_state 1 (\<lambda>_. 0)"]] r
    by (intro exI [of _ ?s]) (simp add: start_state_def)
qed

text \<open>
  C39: the header says that a call that returns true means all threads are terminated; but a thread
  that has seen a task in a queue, which another thread then takes and finishes, may still withdraw
  its offer and return false after others have returned true.
\<close>

theorem true_before_false:
  "\<exists>tr s s'. tt_run fl False (start_state 2 ((\<lambda>_. 0)(0 := 1))) tr s \<and> thread_pc s 0 = Returned_true
    \<and> tt_step fl False 1 s s' \<and> thread_pc s 1 = Withdraw \<and> thread_pc s' 1 = Outside"
proof -
  define st where "st offers p0 p1 t b = \<lparr>terminator = \<lparr>tt_n_threads = 2, tt_offered_termination = offers\<rparr>,
    thread_pc = (\<lambda>_. Outside)(0 := p0, 1 := p1), queue_tasks = (\<lambda>_. 0 :: nat)(0 := t), busy = (\<lambda>_. False)(0 := b)\<rparr>" for offers p0 p1 t b
  let ?c = "Check (initial_spin fl)" and ?p = "Peek (snd (back_off fl (initial_spin fl))) 0"
  have s0: "start_state 2 ((\<lambda>_. 0)(0 := 1)) = st 0 Outside Outside 1 False"
    by (auto simp: start_state_def st_def new_terminator_def)
  have s1: "tt_step fl False 1 (st 0 Outside Outside 1 False) (st 1 Outside ?c 1 False)"
    using tt_step.offer [of 1 "st 0 Outside Outside 1 False" fl False] by (simp add: st_def step_defs)
  have s2: "tt_step fl False 1 (st 1 Outside ?c 1 False) (st 1 Outside ?p 1 False)"
    using tt_step.not_all [of 1 "st 1 Outside ?c 1 False" "initial_spin fl" fl False] by (simp add: st_def step_defs)
  have s3: "tt_step fl False 1 (st 1 Outside ?p 1 False) (st 1 Outside Withdraw 1 False)"
    using tt_step.peek_work [of 1 "st 1 Outside ?p 1 False" "snd (back_off fl (initial_spin fl))" 0 fl False] by (simp add: st_def step_defs)
  have s4: "tt_step fl False 0 (st 1 Outside Withdraw 1 False) (st 1 Outside Withdraw 0 True)"
    using tt_step.take_task [of 0 "st 1 Outside Withdraw 1 False" 0 0 fl False] by (simp add: st_def step_defs)
  have s5: "tt_step fl False 0 (st 1 Outside Withdraw 0 True) (st 1 Outside Withdraw 0 False)"
    using tt_step.end_task [of 0 "st 1 Outside Withdraw 0 True" fl False] by (simp add: st_def step_defs)
  have s6: "tt_step fl False 0 (st 1 Outside Withdraw 0 False) (st 2 ?c Withdraw 0 False)"
    using tt_step.offer [of 0 "st 1 Outside Withdraw 0 False" fl False] by (simp add: st_def step_defs fun_upd_twist)
  have s7: "tt_step fl False 0 (st 2 ?c Withdraw 0 False) (st 2 Returned_true Withdraw 0 False)"
    using tt_step.all_offered [of 0 "st 2 ?c Withdraw 0 False" "initial_spin fl" fl False] by (simp add: st_def step_defs fun_upd_twist)
  have s8: "tt_step fl False 1 (st 2 Returned_true Withdraw 0 False) (st 1 Returned_true Outside 0 False)"
    using tt_step.withdraw [of 1 "st 2 Returned_true Withdraw 0 False" fl False] by (simp add: st_def step_defs)
  have "tt_run fl False (st 0 Outside Outside 1 False) (((((([1] @ [1]) @ [1]) @ [0]) @ [0]) @ [0]) @ [0]) (st 2 Returned_true Withdraw 0 False)"
    by (rule tt_run.run_snoc [OF _ s7] tt_run.run_snoc [OF _ s6] tt_run.run_snoc [OF _ s5] tt_run.run_snoc [OF _ s4]
        tt_run.run_snoc [OF _ s3] tt_run.run_snoc [OF _ s2] run_one_step [OF s1])+
  moreover have "thread_pc (st 2 Returned_true Withdraw 0 False) 0 = Returned_true" "thread_pc (st 2 Returned_true Withdraw 0 False) 1 = Withdraw"
    "thread_pc (st 1 Returned_true Outside 0 False) 1 = Outside" by (simp_all add: st_def)
  ultimately show ?thesis unfolding s0 using s8 by blast
qed

text \<open>
  Between two looks at the counter a waiting thread sleeps in every \<open>y + 2\<close>nd turn, where \<open>y\<close> is
  \<^verbatim>\<open>WorkStealingYieldsBeforeSleep\<close>; of the other turns every \<open>r + 2\<close>nd is a yield, where \<open>r\<close> is
  \<^verbatim>\<open>WorkStealingSpinToYieldRatio\<close>; and the turns between two yields spin, each twice as long as the one
  before, up to \<^verbatim>\<open>WorkStealingHardSpins\<close>.  The 32-bit counters do not overflow while the flags are in
  these bounds (the defaults are 5000, 10 and 4096).
\<close>

lemma waiting_pattern:
  assumes "flags_ok fl"
  shows "fst (back_off fl (spin_after fl i)) = (
    let y = unat (WorkStealingYieldsBeforeSleep fl); r = unat (WorkStealingSpinToYieldRatio fl);
        c = (i - i div (y + 2)) mod (r + 2)
    in if i mod (y + 2) = y + 1 then Sleep else if c = r + 1 then Yield
       else Hard_spin (of_nat (min (unat (hard_spin_start fl) * 2 ^ Suc c) (unat (WorkStealingHardSpins fl)))))"
  using back_off_step [OF assms spin_after_at [OF assms], of i] by (simp only: Let_def awake_turns_def)

lemma waiting_pattern_example:
  "fst (back_off default_flags (spin_after default_flags 0)) = Hard_spin 8
    \<and> fst (back_off default_flags (spin_after default_flags 11)) = Yield
    \<and> fst (back_off default_flags (spin_after default_flags 5001)) = Sleep"
proof -
  have ok: "flags_ok default_flags" by (simp add: flags_ok_def default_flags_def)
  have st: "hard_spin_start default_flags = 4" by (simp add: hard_spin_start_def default_flags_def drop_bit_eq_div)
  show ?thesis
    using waiting_pattern [OF ok, of 0] waiting_pattern [OF ok, of 11] waiting_pattern [OF ok, of 5001]
    by (simp add: st Let_def) (simp add: default_flags_def)
qed

end
