(* ===== verification/Segmented_Stack.thy ===== *)
theory Segmented_Stack
  imports Global_Definitions
begin

unbundle bit_operations_syntax

text \<open>
  \<^verbatim>\<open>utilities/stack.hpp\<close> and \<^verbatim>\<open>utilities/stack.inline.hpp\<close>: a stack of linked segments with a cache of
  recently emptied ones, and its iterator.  Segments live in a heap that maps addresses to blocks;
  address 0 is \<^verbatim>\<open>NULL\<close>, and reading a block that is not there (freed, or \<^verbatim>\<open>NULL\<close>) stops the model.
  The block that the C heap would hand out, an unused address with arbitrary contents, is an
  argument of the operations that may allocate.
\<close>

section \<open>Sizes\<close>

definition adjust_max_size :: "uintptr \<Rightarrow> uintptr \<Rightarrow> uintptr" where
  "adjust_max_size max_size seg_size = (
     let limit = - 1 - (seg_size - 1);
         max_size = (if max_size = 0 \<or> max_size > limit then limit else max_size)
     in (max_size + seg_size - 1) div seg_size * seg_size)"

definition default_segment_size :: "uintptr \<Rightarrow> uintptr" where
  "default_segment_size elem_sz = (4096 - 2 * 8) div elem_sz"

definition adjust_segment_size :: "uintptr \<Rightarrow> uintptr \<Rightarrow> uintptr" where
  "adjust_segment_size elem_sz seg_size =
     (if elem_sz < 8 then align_size_up (seg_size * elem_sz) 8 div elem_sz else seg_size)"

definition link_offset :: "uintptr \<Rightarrow> uintptr \<Rightarrow> uintptr" where
  "link_offset elem_sz seg_size = align_size_up (seg_size * elem_sz) 8"

definition segment_bytes :: "uintptr \<Rightarrow> uintptr \<Rightarrow> uintptr" where
  "segment_bytes elem_sz seg_size = link_offset elem_sz seg_size + 8"

section \<open>The stack\<close>

record 'e segment =
  seg_elems :: "'e list"
  seg_link :: nat

type_synonym 'e seg_heap = "nat \<Rightarrow> 'e segment option"

record stack =
  stk_seg_size :: nat
  stk_max_size :: nat
  stk_max_cache_size :: nat
  stk_cur_seg_size :: nat
  stk_full_seg_size :: nat
  stk_cache_size :: nat
  stk_cur_seg :: nat
  stk_cache :: nat

definition get_link :: "'e seg_heap \<Rightarrow> nat \<Rightarrow> nat option" where
  "get_link h seg = map_option seg_link (h seg)"

definition set_link :: "'e seg_heap \<Rightarrow> nat \<Rightarrow> nat \<Rightarrow> 'e seg_heap option" where
  "set_link h new_seg old_seg = do { g \<leftarrow> h new_seg; Some (h(new_seg \<mapsto> g\<lparr>seg_link := old_seg\<rparr>)) }"

definition free_block :: "'e seg_heap \<Rightarrow> nat \<Rightarrow> 'e seg_heap option" where
  "free_block h a = do { _ \<leftarrow> h a; Some (h(a := None)) }"

definition stk_reset :: "bool \<Rightarrow> stack \<Rightarrow> stack" where
  "stk_reset reset_cache s = (
     let s = s\<lparr>stk_cur_seg_size := stk_seg_size s, stk_full_seg_size := 0, stk_cur_seg := 0\<rparr>
     in if reset_cache then s\<lparr>stk_cache_size := 0, stk_cache := 0\<rparr> else s)"

definition new_stack :: "uintptr \<Rightarrow> uintptr \<Rightarrow> nat \<Rightarrow> uintptr \<Rightarrow> stack" where
  "new_stack elem_sz segment_size max_cache_size max_size = (
     let seg_size = adjust_segment_size elem_sz segment_size
     in stk_reset True \<lparr>stk_seg_size = unat seg_size, stk_max_size = unat (adjust_max_size max_size seg_size),
          stk_max_cache_size = max_cache_size, stk_cur_seg_size = 0, stk_full_seg_size = 0, stk_cache_size = 0,
          stk_cur_seg = 0, stk_cache = 0\<rparr>)"

definition stk_is_empty :: "stack \<Rightarrow> bool" where
  "stk_is_empty s \<longleftrightarrow> stk_cur_seg s = 0"

definition stk_is_full :: "stack \<Rightarrow> bool" where
  "stk_is_full s \<longleftrightarrow> stk_full_seg_size s \<ge> stk_max_size s"

definition stk_size :: "stack \<Rightarrow> nat" where
  "stk_size s = (if stk_is_empty s then 0 else stk_full_seg_size s + stk_cur_seg_size s)"

definition push_segment :: "nat \<times> 'e segment \<Rightarrow> 'e seg_heap \<times> stack \<Rightarrow> ('e seg_heap \<times> stack) option" where
  "push_segment block st = (case st of (h, s) \<Rightarrow> do {
     (next, h, s) \<leftarrow>
       (if stk_cache_size s > 0
        then do {
          link \<leftarrow> get_link h (stk_cache s);
          Some (stk_cache s, h, s\<lparr>stk_cache := link, stk_cache_size := stk_cache_size s - 1\<rparr>)
        }
        else Some (fst block, h(fst block \<mapsto> snd block), s));
     let at_empty_transition = stk_is_empty s;
     h \<leftarrow> set_link h next (stk_cur_seg s);
     Some (h, s\<lparr>stk_cur_seg := next, stk_cur_seg_size := 0,
       stk_full_seg_size := stk_full_seg_size s + (if at_empty_transition then 0 else stk_seg_size s)\<rparr>)
   })"

definition pop_segment :: "'e seg_heap \<times> stack \<Rightarrow> ('e seg_heap \<times> stack) option" where
  "pop_segment st = (case st of (h, s) \<Rightarrow> do {
     prev \<leftarrow> get_link h (stk_cur_seg s);
     (h, s) \<leftarrow>
       (if stk_cache_size s < stk_max_cache_size s
        then do {
          h \<leftarrow> set_link h (stk_cur_seg s) (stk_cache s);
          Some (h, s\<lparr>stk_cache := stk_cur_seg s, stk_cache_size := stk_cache_size s + 1\<rparr>)
        }
        else do { h \<leftarrow> free_block h (stk_cur_seg s); Some (h, s) });
     let at_empty_transition = (prev = 0);
     Some (h, s\<lparr>stk_cur_seg := prev, stk_cur_seg_size := stk_seg_size s,
       stk_full_seg_size := stk_full_seg_size s - (if at_empty_transition then 0 else stk_seg_size s)\<rparr>)
   })"

definition stk_push :: "nat \<times> 'e segment \<Rightarrow> 'e \<Rightarrow> 'e seg_heap \<times> stack \<Rightarrow> ('e seg_heap \<times> stack) option" where
  "stk_push block item st = do {
     (h, s) \<leftarrow> (if stk_cur_seg_size (snd st) = stk_seg_size (snd st) then push_segment block st else Some st);
     g \<leftarrow> h (stk_cur_seg s);
     es \<leftarrow> array_put (seg_elems g) (stk_cur_seg_size s) item;
     Some (h(stk_cur_seg s \<mapsto> g\<lparr>seg_elems := es\<rparr>), s\<lparr>stk_cur_seg_size := stk_cur_seg_size s + 1\<rparr>)
   }"

definition stk_pop :: "'e seg_heap \<times> stack \<Rightarrow> ('e \<times> 'e seg_heap \<times> stack) option" where
  "stk_pop st = (case st of (h, s) \<Rightarrow> do {
     g \<leftarrow> h (stk_cur_seg s);
     let c = stk_cur_seg_size s - 1;
     tmp \<leftarrow> array_get (seg_elems g) c;
     if stk_cur_seg_size s = 1
     then do { st \<leftarrow> pop_segment (h, s\<lparr>stk_cur_seg_size := c\<rparr>); Some (tmp, st) }
     else Some (tmp, h, s\<lparr>stk_cur_seg_size := c\<rparr>)
   })"

partial_function (option) free_segments :: "'e seg_heap \<Rightarrow> nat \<Rightarrow> 'e seg_heap option" where
  "free_segments h seg =
     (if seg \<noteq> 0
      then do {
        prev \<leftarrow> get_link h seg;
        h \<leftarrow> free_block h seg;
        free_segments h prev
      }
      else Some h)"

definition stk_clear :: "bool \<Rightarrow> 'e seg_heap \<times> stack \<Rightarrow> ('e seg_heap \<times> stack) option" where
  "stk_clear clear_cache st = (case st of (h, s) \<Rightarrow> do {
     h \<leftarrow> free_segments h (stk_cur_seg s);
     h \<leftarrow> (if clear_cache then free_segments h (stk_cache s) else Some h);
     Some (h, stk_reset clear_cache s)
   })"

section \<open>The iterator\<close>

record stack_iterator =
  it_cur_seg_size :: nat
  it_cur_seg :: nat
  it_full_seg_size :: uintptr

definition it_sync :: "stack \<Rightarrow> stack_iterator" where
  "it_sync s = \<lparr>it_cur_seg_size = stk_cur_seg_size s, it_cur_seg = stk_cur_seg s, it_full_seg_size = of_nat (stk_full_seg_size s)\<rparr>"

definition it_is_empty :: "stack_iterator \<Rightarrow> bool" where
  "it_is_empty it \<longleftrightarrow> it_cur_seg it = 0"

text \<open>An element's address is its segment and its index there.\<close>

definition next_addr :: "'e seg_heap \<Rightarrow> stack \<Rightarrow> stack_iterator \<Rightarrow> ((nat \<times> nat) \<times> stack_iterator) option" where
  "next_addr h s it =
     (if it_cur_seg_size it = 1
      then do {
        link \<leftarrow> get_link h (it_cur_seg it);
        Some ((it_cur_seg it, 0), it\<lparr>it_cur_seg := link, it_cur_seg_size := stk_seg_size s,
          it_full_seg_size := it_full_seg_size it - of_nat (stk_seg_size s)\<rparr>)
      }
      else Some ((it_cur_seg it, it_cur_seg_size it - 1), it\<lparr>it_cur_seg_size := it_cur_seg_size it - 1\<rparr>))"

definition it_next :: "'e seg_heap \<Rightarrow> stack \<Rightarrow> stack_iterator \<Rightarrow> ('e \<times> stack_iterator) option" where
  "it_next h s it = do {
     ((seg, i), it) \<leftarrow> next_addr h s it;
     g \<leftarrow> h seg;
     e \<leftarrow> array_get (seg_elems g) i;
     Some (e, it)
   }"

section \<open>The elements of a stack\<close>

fun linked :: "'e seg_heap \<Rightarrow> nat \<Rightarrow> nat list \<Rightarrow> bool" where
  "linked h a [] \<longleftrightarrow> a = 0"
| "linked h a (x # xs) \<longleftrightarrow> a = x \<and> x \<noteq> 0 \<and> (case h x of None \<Rightarrow> False | Some g \<Rightarrow> linked h (seg_link g) xs)"

definition elems_at :: "'e seg_heap \<Rightarrow> nat \<Rightarrow> 'e list" where
  "elems_at h x = (case h x of None \<Rightarrow> [] | Some g \<Rightarrow> seg_elems g)"

fun seg_contents :: "'e seg_heap \<Rightarrow> nat \<Rightarrow> nat list \<Rightarrow> 'e list" where
  "seg_contents h c [] = []"
| "seg_contents h c (x # xs) = rev (take c (elems_at h x)) @ concat (map (\<lambda>y. rev (elems_at h y)) xs)"

text \<open>
  The segments in use and those of the cache, each in the order of its links: disjoint lists of
  live blocks of the right length.
\<close>

definition stack_rep :: "'e seg_heap \<Rightarrow> stack \<Rightarrow> nat list \<Rightarrow> nat list \<Rightarrow> bool" where
  "stack_rep h s segs cs \<longleftrightarrow> 0 < stk_seg_size s \<and> linked h (stk_cur_seg s) segs \<and> linked h (stk_cache s) cs
     \<and> distinct (segs @ cs) \<and> (\<forall>x\<in>set segs \<union> set cs. length (elems_at h x) = stk_seg_size s)
     \<and> stk_cache_size s = length cs \<and> length cs \<le> stk_max_cache_size s
     \<and> (if segs = [] then stk_cur_seg_size s = stk_seg_size s \<and> stk_full_seg_size s = 0
        else 0 < stk_cur_seg_size s \<and> stk_cur_seg_size s \<le> stk_seg_size s \<and> stk_full_seg_size s = stk_seg_size s * (length segs - 1))"

definition stack_elems :: "'e seg_heap \<Rightarrow> stack \<Rightarrow> nat list \<Rightarrow> 'e list" where
  "stack_elems h s segs = seg_contents h (stk_cur_seg_size s) segs"

text \<open>Only the stack's own blocks change, those it drops are freed and no block is lost.\<close>

definition owns :: "'e seg_heap \<Rightarrow> nat set \<Rightarrow> 'e seg_heap \<Rightarrow> nat set \<Rightarrow> bool" where
  "owns h blocks h' blocks' \<longleftrightarrow> dom h' = (dom h - blocks) \<union> blocks' \<and> (\<forall>x. x \<notin> blocks \<union> blocks' \<longrightarrow> h' x = h x)"

lemma linked_upd [simp]: "x \<notin> set xs \<Longrightarrow> linked (h(x := v)) a xs = linked h a xs"
  by (induction xs arbitrary: a) (auto split: option.splits)

lemma linked_live: "linked h a xs \<Longrightarrow> set xs \<subseteq> dom h \<and> 0 \<notin> set xs"
  by (induction xs arbitrary: a) (auto split: option.splits)

lemma elems_at_upd [simp]: "elems_at (h(x := v)) y = (if y = x then (case v of None \<Rightarrow> [] | Some g \<Rightarrow> seg_elems g) else elems_at h y)"
  by (simp add: elems_at_def)

lemma concat_map_upd: "x \<notin> set xs \<Longrightarrow> concat (map (\<lambda>y. rev (elems_at (h(x := v)) y)) xs) = concat (map (\<lambda>y. rev (elems_at h y)) xs)"
  by (induction xs) auto

lemma linked_same_link: "h x = Some g \<Longrightarrow> seg_link g' = seg_link g \<Longrightarrow> linked (h(x \<mapsto> g')) a xs = linked h a xs"
  by (induction xs arbitrary: a) (auto split: option.splits)

lemma linked_empty: "linked h a xs \<Longrightarrow> a = 0 \<longleftrightarrow> xs = []"
  by (cases xs) auto

lemma linked_Cons: "linked h a (x # xs) \<longleftrightarrow> a = x \<and> x \<noteq> 0 \<and> (\<exists>g. h x = Some g \<and> linked h (seg_link g) xs)"
  by (auto split: option.splits)

lemma push_segment_spec:
  assumes rep: "stack_rep h s segs cs" and full: "stk_cur_seg_size s = stk_seg_size s"
    and fresh: "a \<noteq> 0" "h a = None" "length (seg_elems g) = stk_seg_size s"
  obtains h' s' x cs' where "push_segment (a, g) (h, s) = Some (h', s')"
    "stk_seg_size s' = stk_seg_size s" "stk_max_size s' = stk_max_size s" "stk_max_cache_size s' = stk_max_cache_size s"
    "stk_cur_seg s' = x" "stk_cur_seg_size s' = 0" "stk_full_seg_size s' = stk_seg_size s * length segs"
    "linked h' x (x # segs)" "linked h' (stk_cache s') cs'" "distinct (x # segs @ cs')"
    "\<forall>y\<in>insert x (set segs \<union> set cs'). length (elems_at h' y) = stk_seg_size s"
    "stk_cache_size s' = length cs'" "length cs' \<le> stk_max_cache_size s"
    "\<forall>y\<in>set segs. elems_at h' y = elems_at h y" "owns h (set segs \<union> set cs) h' (insert x (set segs \<union> set cs'))"
proof -
  have l: "linked h (stk_cur_seg s) segs" "linked h (stk_cache s) cs" and d: "distinct (segs @ cs)"
    and n: "\<forall>x\<in>set segs \<union> set cs. length (elems_at h x) = stk_seg_size s" and c: "stk_cache_size s = length cs" "length cs \<le> stk_max_cache_size s"
    using rep by (simp_all add: stack_rep_def)
  have live: "set segs \<subseteq> dom h" "set cs \<subseteq> dom h" using linked_live l by blast+
  have e: "stk_is_empty s \<longleftrightarrow> segs = []" using linked_empty [OF l(1)] by (simp add: stk_is_empty_def)
  have f: "stk_full_seg_size s + (if segs = [] then 0 else stk_seg_size s) = stk_seg_size s * length segs"
    using rep by (cases segs) (simp_all add: stack_rep_def)
  show thesis
  proof (cases cs)
    case Nil
    have a: "a \<notin> set segs" using live fresh(2) by auto
    let ?h = "h(a \<mapsto> g\<lparr>seg_link := stk_cur_seg s\<rparr>)"
    let ?s = "s\<lparr>stk_cur_seg := a, stk_cur_seg_size := 0,
      stk_full_seg_size := stk_full_seg_size s + (if segs = [] then 0 else stk_seg_size s)\<rparr>"
    show thesis
    proof (rule that [of ?h ?s a "[]"])
      show "push_segment (a, g) (h, s) = Some (?h, ?s)" using c Nil e by (simp add: push_segment_def set_link_def Let_def)
      show "owns h (set segs \<union> set cs) ?h (insert a (set segs \<union> set []))" using live Nil by (auto simp: owns_def)
    qed (use a l d n c f fresh Nil in \<open>auto simp: linked_Cons simp del: linked.simps(2)\<close>)
  next
    case (Cons x cs')
    then obtain gx where gx: "h x = Some gx" "linked h (seg_link gx) cs'" "stk_cache s = x" "x \<noteq> 0" using l(2) by (auto split: option.splits)
    let ?h = "h(x \<mapsto> gx\<lparr>seg_link := stk_cur_seg s\<rparr>)"
    let ?s = "s\<lparr>stk_cache := seg_link gx, stk_cache_size := length cs', stk_cur_seg := x, stk_cur_seg_size := 0,
      stk_full_seg_size := stk_full_seg_size s + (if segs = [] then 0 else stk_seg_size s)\<rparr>"
    have x: "x \<notin> set segs" "x \<notin> set cs'" using d Cons by auto
    have "length (seg_elems gx) = stk_seg_size s" using n gx(1) Cons by (simp add: elems_at_def)
    show thesis
    proof (rule that [of ?h ?s x cs'])
      show "push_segment (a, g) (h, s) = Some (?h, ?s)"
        using c Cons e gx by (simp add: push_segment_def set_link_def get_link_def Let_def stk_is_empty_def)
      show "owns h (set segs \<union> set cs) ?h (insert x (set segs \<union> set cs'))" using live Cons gx(1) by (auto simp: owns_def)
    qed (use x l d n c f Cons gx \<open>length (seg_elems gx) = _\<close> in \<open>auto simp: linked_Cons simp del: linked.simps(2)\<close>)
  qed
qed

lemma stk_push_spec:
  assumes rep: "stack_rep h s segs cs" and fresh: "a \<noteq> 0" "h a = None" "length (seg_elems g) = stk_seg_size s"
  shows "\<exists>h' s' segs' cs'. stk_push (a, g) item (h, s) = Some (h', s') \<and> stack_rep h' s' segs' cs'
    \<and> stack_elems h' s' segs' = item # stack_elems h s segs \<and> stk_max_size s' = stk_max_size s
    \<and> stk_seg_size s' = stk_seg_size s \<and> owns h (set segs \<union> set cs) h' (set segs' \<union> set cs')"
proof (cases "stk_cur_seg_size s = stk_seg_size s")
  case True
  obtain h1 s1 x cs' where p: "push_segment (a, g) (h, s) = Some (h1, s1)"
    "stk_seg_size s1 = stk_seg_size s" "stk_max_size s1 = stk_max_size s" "stk_max_cache_size s1 = stk_max_cache_size s"
    "stk_cur_seg s1 = x" "stk_cur_seg_size s1 = 0" "stk_full_seg_size s1 = stk_seg_size s * length segs"
    "linked h1 x (x # segs)" "linked h1 (stk_cache s1) cs'" "distinct (x # segs @ cs')"
    "\<forall>y\<in>insert x (set segs \<union> set cs'). length (elems_at h1 y) = stk_seg_size s"
    "stk_cache_size s1 = length cs'" "length cs' \<le> stk_max_cache_size s"
    "\<forall>y\<in>set segs. elems_at h1 y = elems_at h y" "owns h (set segs \<union> set cs) h1 (insert x (set segs \<union> set cs'))"
    by (rule push_segment_spec [OF rep True fresh])
  have pos: "0 < stk_seg_size s" using rep by (simp add: stack_rep_def)
  obtain gx where gx: "h1 x = Some gx" using p(8) by (auto split: option.splits)
  have len: "length (seg_elems gx) = stk_seg_size s" using p(11) gx by (simp add: elems_at_def)
  let ?h = "h1(x \<mapsto> gx\<lparr>seg_elems := (seg_elems gx)[0 := item]\<rparr>)" and ?s = "s1\<lparr>stk_cur_seg_size := 1\<rparr>"
  have "seg_elems gx \<noteq> []" using len pos by auto
  then have "stk_push (a, g) item (h, s) = Some (?h, ?s)" using True p(1,5,6) gx by (simp add: stk_push_def array_put_def)
  moreover have "stack_rep ?h ?s (x # segs) cs'"
    using p pos len gx linked_same_link [of h1 x gx "gx\<lparr>seg_elems := (seg_elems gx)[0 := item]\<rparr>"] by (auto simp: stack_rep_def simp del: linked.simps)
  moreover have "stack_elems ?h ?s (x # segs) = item # stack_elems h s segs"
  proof -
    have "take 1 ((seg_elems gx)[0 := item]) = [item]" using len pos by (cases "seg_elems gx") auto
    moreover have "concat (map (\<lambda>y. rev (elems_at ?h y)) segs) = concat (map (\<lambda>y. rev (elems_at h y)) segs)"
      using p(10,14) by (intro arg_cong [of _ _ concat] map_cong) auto
    moreover have "seg_contents h (stk_seg_size s) segs = concat (map (\<lambda>y. rev (elems_at h y)) segs)"
      using rep by (cases segs) (auto simp: stack_rep_def)
    ultimately show ?thesis using True by (simp add: stack_elems_def)
  qed
  moreover have "owns h (set segs \<union> set cs) ?h (set (x # segs) \<union> set cs')" using p(15) gx by (auto simp: owns_def)
  ultimately show ?thesis using p(2,3) by (intro exI conjI) (assumption | simp)+
next
  case False
  then obtain x xs where segs: "segs = x # xs" and lt: "stk_cur_seg_size s < stk_seg_size s"
    using rep by (cases segs) (auto simp: stack_rep_def)
  then obtain gx where gx: "h x = Some gx" "stk_cur_seg s = x" using rep by (auto simp: stack_rep_def split: option.splits)
  have len: "length (seg_elems gx) = stk_seg_size s" and x: "x \<notin> set xs" using rep segs gx by (auto simp: stack_rep_def elems_at_def)
  let ?g = "gx\<lparr>seg_elems := (seg_elems gx)[stk_cur_seg_size s := item]\<rparr>"
  let ?h = "h(x \<mapsto> ?g)" and ?s = "s\<lparr>stk_cur_seg_size := stk_cur_seg_size s + 1\<rparr>"
  have "stk_push (a, g) item (h, s) = Some (?h, ?s)" using False gx len lt by (simp add: stk_push_def array_put_def)
  moreover have "stack_rep ?h ?s segs cs"
    using rep segs lt len gx linked_same_link [of h x gx ?g] by (auto simp: stack_rep_def simp del: linked.simps)
  moreover have "stack_elems ?h ?s segs = item # stack_elems h s segs"
    using segs gx x lt len concat_map_upd [OF x, of h "Some ?g"]
    by (simp add: stack_elems_def take_Suc_conv_app_nth elems_at_def [of h x])
  moreover have "owns h (set segs \<union> set cs) ?h (set segs \<union> set cs)" using gx segs rep linked_live by (fastforce simp: owns_def stack_rep_def)
  ultimately show ?thesis by (intro exI conjI) (assumption | simp)+
qed

lemma stk_pop_spec:
  assumes rep: "stack_rep h s segs cs" and ne: "\<not> stk_is_empty s"
  shows "\<exists>e h' s' segs' cs'. stk_pop (h, s) = Some (e, h', s') \<and> stack_rep h' s' segs' cs'
    \<and> stack_elems h s segs = e # stack_elems h' s' segs' \<and> stk_max_size s' = stk_max_size s
    \<and> stk_seg_size s' = stk_seg_size s \<and> owns h (set segs \<union> set cs) h' (set segs' \<union> set cs')"
proof -
  have l: "linked h (stk_cur_seg s) segs" "linked h (stk_cache s) cs" using rep by (simp_all add: stack_rep_def)
  obtain x xs where segs: "segs = x # xs" using ne linked_empty [OF l(1)] by (cases segs) (auto simp: stk_is_empty_def)
  then obtain g where g: "h x = Some g" "stk_cur_seg s = x" "linked h (seg_link g) xs" "x \<noteq> 0" using l(1) by (auto split: option.splits)
  have len: "length (seg_elems g) = stk_seg_size s" and d: "x \<notin> set xs" "x \<notin> set cs"
    and c: "0 < stk_cur_seg_size s" "stk_cur_seg_size s \<le> stk_seg_size s" and xs: "\<forall>y\<in>set xs. length (elems_at h y) = stk_seg_size s"
    using rep segs g by (auto simp: stack_rep_def elems_at_def)
  have live: "set xs \<subseteq> dom h" "set cs \<subseteq> dom h" using linked_live g(3) l(2) by blast+
  have get: "array_get (seg_elems g) (stk_cur_seg_size s - 1) = Some (seg_elems g ! (stk_cur_seg_size s - 1))"
    using len c by (simp add: array_get_def)
  show ?thesis
  proof (cases "stk_cur_seg_size s = 1")
    case False
    let ?s = "s\<lparr>stk_cur_seg_size := stk_cur_seg_size s - 1\<rparr>"
    have "stk_pop (h, s) = Some (seg_elems g ! (stk_cur_seg_size s - 1), h, ?s)" using False g get by (simp add: stk_pop_def Let_def)
    moreover have "stack_rep h ?s segs cs" using rep segs c False by (auto simp: stack_rep_def)
    moreover have "stack_elems h s segs = seg_elems g ! (stk_cur_seg_size s - 1) # stack_elems h ?s segs"
    proof -
      obtain m where m: "stk_cur_seg_size s = Suc m" using c(1) by (cases "stk_cur_seg_size s") auto
      then show ?thesis using segs g len c by (simp add: stack_elems_def elems_at_def [of h x] take_Suc_conv_app_nth)
    qed
    moreover have "owns h (set segs \<union> set cs) h (set segs \<union> set cs)" using live segs g(1) by (auto simp: owns_def)
    ultimately show ?thesis by (intro exI conjI) (assumption | simp)+
  next
    case True
    define h' cs' where "h' = (if length cs < stk_max_cache_size s then h(x \<mapsto> g\<lparr>seg_link := stk_cache s\<rparr>) else h(x := None))"
      and "cs' = (if length cs < stk_max_cache_size s then x # cs else cs)"
    let ?s = "s\<lparr>stk_cache := (if length cs < stk_max_cache_size s then x else stk_cache s), stk_cache_size := length cs',
      stk_cur_seg := seg_link g, stk_cur_seg_size := stk_seg_size s,
      stk_full_seg_size := stk_full_seg_size s - (if seg_link g = 0 then 0 else stk_seg_size s)\<rparr>"
    have e: "seg_link g = 0 \<longleftrightarrow> xs = []" using linked_empty [OF g(3)] .
    have cl: "stk_cache_size s = length cs" "length cs \<le> stk_max_cache_size s" using rep by (simp_all add: stack_rep_def)
    have "pop_segment (h, s\<lparr>stk_cur_seg_size := 0\<rparr>) = Some (h', ?s)"
      using g(1,2) cl by (simp add: pop_segment_def get_link_def set_link_def free_block_def Let_def h'_def cs'_def)
    then have "stk_pop (h, s) = Some (seg_elems g ! 0, h', ?s)" using True g get by (simp add: stk_pop_def Let_def)
    moreover have "stack_rep h' ?s xs cs'"
      using rep segs g d xs len cl e l(2)
      by (cases xs) (auto simp: stack_rep_def h'_def cs'_def elems_at_def linked_Cons algebra_simps simp del: linked.simps(2))
    moreover have "stack_elems h s segs = seg_elems g ! 0 # stack_elems h' ?s xs"
    proof -
      have "take 1 (seg_elems g) = [seg_elems g ! 0]" using len c by (cases "seg_elems g") auto
      moreover have "elems_at h' y = elems_at h y" if "y \<in> set xs" for y using that d by (auto simp: h'_def)
      then have "concat (map (\<lambda>y. rev (elems_at h' y)) xs) = concat (map (\<lambda>y. rev (elems_at h y)) xs)" by (simp cong: map_cong)
      moreover have "seg_contents h' (stk_seg_size s) xs = concat (map (\<lambda>y. rev (elems_at h' y)) xs)"
        using xs d by (cases xs) (auto simp: h'_def)
      ultimately show ?thesis using True segs g by (simp add: stack_elems_def elems_at_def [of h x])
    qed
    moreover have "owns h (set segs \<union> set cs) h' (set xs \<union> set cs')" using live segs g(1) d by (auto simp: owns_def h'_def cs'_def)
    ultimately show ?thesis by (intro exI conjI) (assumption | simp)+
  qed
qed

lemma free_segments_spec:
  assumes "linked h a xs" "distinct xs"
  shows "free_segments h a = Some (\<lambda>y. if y \<in> set xs then None else h y)"
  using assms
proof (induction xs arbitrary: h a)
  case Nil
  then show ?case by (simp add: free_segments.simps)
next
  case (Cons x xs)
  then obtain g where g: "a = x" "x \<noteq> 0" "h x = Some g" "linked h (seg_link g) xs" by (auto split: option.splits)
  have lk: "linked (h(x := None)) (seg_link g) xs" using g Cons.prems by simp
  have "free_segments (h(x := None)) (seg_link g) = Some (\<lambda>y. if y \<in> set xs then None else (h(x := None)) y)"
    by (rule Cons.IH [OF lk]) (use Cons.prems in simp)
  then have "free_segments h a = Some (\<lambda>y. if y \<in> set xs then None else (h(x := None)) y)"
    using g by (simp add: free_segments.simps [of h x] get_link_def free_block_def)
  also have "(\<lambda>y. if y \<in> set xs then None else (h(x := None)) y) = (\<lambda>y. if y \<in> set (x # xs) then None else h y)" by auto
  finally show ?case .
qed

lemma linked_cong: "(\<And>x. x \<in> set xs \<Longrightarrow> h' x = h x) \<Longrightarrow> linked h' a xs = linked h a xs"
  by (induction xs arbitrary: a) (auto split: option.splits)

lemma stk_clear_spec:
  assumes rep: "stack_rep h s segs cs"
  shows "\<exists>h' s' cs'. stk_clear clear_cache (h, s) = Some (h', s') \<and> stack_rep h' s' [] cs' \<and> stk_is_empty s'
    \<and> (clear_cache \<longrightarrow> cs' = []) \<and> owns h (set segs \<union> set cs) h' (set cs')"
proof -
  have l: "linked h (stk_cur_seg s) segs" "linked h (stk_cache s) cs" and d: "distinct (segs @ cs)"
    using rep by (simp_all add: stack_rep_def)
  let ?h1 = "\<lambda>y. if y \<in> set segs then None else h y" and ?h2 = "\<lambda>y. if y \<in> set cs then None else if y \<in> set segs then None else h y"
  have f1: "free_segments h (stk_cur_seg s) = Some ?h1" using l(1) d by (intro free_segments_spec) simp_all
  have c1: "linked ?h1 (stk_cache s) cs" using l(2) d by (subst linked_cong [of cs ?h1 h]) auto
  have f2: "free_segments ?h1 (stk_cache s) = Some ?h2" using c1 d by (subst free_segments_spec) simp_all
  have live: "set segs \<subseteq> dom h" "set cs \<subseteq> dom h" using linked_live l by blast+
  show ?thesis
  proof (cases clear_cache)
    case True
    have "stk_clear clear_cache (h, s) = Some (?h2, stk_reset True s)" using True f1 f2 by (simp add: stk_clear_def)
    moreover have "stack_rep ?h2 (stk_reset True s) [] []" using rep by (simp add: stack_rep_def stk_reset_def Let_def)
    moreover have "owns h (set segs \<union> set cs) ?h2 (set [])" by (auto simp: owns_def split: if_splits)
    ultimately show ?thesis by (intro exI conjI) (assumption | simp add: stk_is_empty_def stk_reset_def Let_def)+
  next
    case False
    have "stk_clear clear_cache (h, s) = Some (?h1, stk_reset False s)" using False f1 by (simp add: stk_clear_def)
    moreover have "stack_rep ?h1 (stk_reset False s) [] cs"
      using rep c1 d by (auto simp: stack_rep_def stk_reset_def Let_def elems_at_def)
    moreover have "owns h (set segs \<union> set cs) ?h1 (set cs)" using live d by (auto simp: owns_def split: if_splits)
    ultimately show ?thesis using False by (intro exI conjI) (assumption | simp add: stk_is_empty_def stk_reset_def Let_def)+
  qed
qed

section \<open>Iteration\<close>

text \<open>The elements an iterator still has to visit.\<close>

definition it_rep :: "'e seg_heap \<Rightarrow> stack \<Rightarrow> stack_iterator \<Rightarrow> nat list \<Rightarrow> bool" where
  "it_rep h s it segs \<longleftrightarrow> linked h (it_cur_seg it) segs \<and> (\<forall>x\<in>set segs. length (elems_at h x) = stk_seg_size s)
     \<and> 0 < it_cur_seg_size it \<and> it_cur_seg_size it \<le> stk_seg_size s"

lemma it_sync_rep: "stack_rep h s segs cs \<Longrightarrow> it_rep h s (it_sync s) segs \<and> seg_contents h (it_cur_seg_size (it_sync s)) segs = stack_elems h s segs"
  by (auto simp: it_rep_def stack_rep_def it_sync_def stack_elems_def split: if_splits)

lemma it_next_spec:
  assumes "it_rep h s it segs"
  shows "if it_is_empty it then seg_contents h (it_cur_seg_size it) segs = []
    else \<exists>e it' segs'. it_next h s it = Some (e, it') \<and> it_rep h s it' segs'
      \<and> seg_contents h (it_cur_seg_size it) segs = e # seg_contents h (it_cur_seg_size it') segs'"
proof (cases segs)
  case Nil
  then show ?thesis using assms by (simp add: it_rep_def it_is_empty_def)
next
  case (Cons x xs)
  then obtain g where g: "h x = Some g" "it_cur_seg it = x" "linked h (seg_link g) xs" "x \<noteq> 0"
    using assms by (auto simp: it_rep_def split: option.splits)
  have len: "length (seg_elems g) = stk_seg_size s" and xs: "\<forall>y\<in>set xs. length (elems_at h y) = stk_seg_size s"
    and c: "0 < it_cur_seg_size it" "it_cur_seg_size it \<le> stk_seg_size s"
    using assms Cons g by (auto simp: it_rep_def elems_at_def)
  have ne: "\<not> it_is_empty it" using g by (simp add: it_is_empty_def)
  show ?thesis
  proof (cases "it_cur_seg_size it = 1")
    case True
    let ?it = "it\<lparr>it_cur_seg := seg_link g, it_cur_seg_size := stk_seg_size s, it_full_seg_size := it_full_seg_size it - of_nat (stk_seg_size s)\<rparr>"
    have "it_next h s it = Some (seg_elems g ! 0, ?it)" using True g len c by (simp add: it_next_def next_addr_def get_link_def array_get_def)
    moreover have "it_rep h s ?it xs" using g xs c by (simp add: it_rep_def)
    moreover have "seg_contents h (it_cur_seg_size it) segs = seg_elems g ! 0 # seg_contents h (stk_seg_size s) xs"
    proof -
      have "take 1 (seg_elems g) = [seg_elems g ! 0]" using len c by (cases "seg_elems g") auto
      then show ?thesis using Cons True g xs by (cases xs) (auto simp: elems_at_def [of h x])
    qed
    ultimately show ?thesis using ne by auto
  next
    case False
    then obtain m where m: "it_cur_seg_size it = Suc m" "0 < m" using c(1) by (cases "it_cur_seg_size it") auto
    let ?it = "it\<lparr>it_cur_seg_size := m\<rparr>"
    have "it_next h s it = Some (seg_elems g ! m, ?it)" using m g len c by (simp add: it_next_def next_addr_def array_get_def)
    moreover have "it_rep h s ?it segs" using assms m by (simp add: it_rep_def)
    moreover have "seg_contents h (it_cur_seg_size it) segs = seg_elems g ! m # seg_contents h m segs"
      using Cons m g len c by (simp add: elems_at_def [of h x] take_Suc_conv_app_nth)
    ultimately show ?thesis using ne by auto
  qed
qed

section \<open>Last in, first out\<close>

primrec pops :: "('s \<Rightarrow> ('e \<times> 's) option) \<Rightarrow> nat \<Rightarrow> 's \<Rightarrow> ('e list \<times> 's) option" where
  "pops pop 0 s = Some ([], s)"
| "pops pop (Suc n) s = do { (x, s) \<leftarrow> pop s; (xs, s) \<leftarrow> pops pop n s; Some (x # xs, s) }"

text \<open>What gives its elements one by one, and a stack of any kind.\<close>

locale drain =
  fixes rep :: "'s \<Rightarrow> 'e list \<Rightarrow> bool" and pop :: "'s \<Rightarrow> ('e \<times> 's) option" and is_empty :: "'s \<Rightarrow> bool"
  assumes pop_law: "rep s (x # xs) \<Longrightarrow> \<exists>s'. pop s = Some (x, s') \<and> rep s' xs"
    and empty_law: "rep s xs \<Longrightarrow> is_empty s \<longleftrightarrow> xs = []"
begin

lemma pops_all: "rep s xs \<Longrightarrow> \<exists>s'. pops pop (length xs) s = Some (xs, s') \<and> is_empty s'"
proof (induction xs arbitrary: s)
  case Nil
  then show ?case using empty_law by simp
next
  case (Cons x xs)
  then obtain s1 where s1: "pop s = Some (x, s1)" "rep s1 xs" using pop_law by blast
  then obtain s2 where "pops pop (length xs) s1 = Some (xs, s2)" "is_empty s2" using Cons.IH by blast
  then show ?case using s1 by simp
qed

end

locale lifo = drain +
  fixes push :: "'b \<Rightarrow> 'e \<Rightarrow> 's \<Rightarrow> 's option" and fits :: "'b \<Rightarrow> 's \<Rightarrow> bool"
  assumes push_law: "rep s xs \<Longrightarrow> fits b s \<Longrightarrow> \<exists>s'. push b x s = Some s' \<and> rep s' (x # xs)"
begin

lemma push_then_drain:
  assumes "rep s xs" "fits b s"
  shows "\<exists>s' s''. push b x s = Some s' \<and> pops pop (Suc (length xs)) s' = Some (x # xs, s'') \<and> is_empty s''"
  using push_law [OF assms, of x] pops_all [of _ "x # xs"] by fastforce

end

definition stack_holds :: "'e seg_heap \<times> stack \<Rightarrow> 'e list \<Rightarrow> bool" where
  "stack_holds st xs \<longleftrightarrow> (case st of (h, s) \<Rightarrow> \<exists>segs cs. stack_rep h s segs cs \<and> xs = stack_elems h s segs)"

definition block_fits :: "nat \<times> 'e segment \<Rightarrow> 'e seg_heap \<times> stack \<Rightarrow> bool" where
  "block_fits b st \<longleftrightarrow> fst b \<noteq> 0 \<and> fst st (fst b) = None \<and> length (seg_elems (snd b)) = stk_seg_size (snd st)"

lemma rep_empty:
  assumes "stack_rep h s segs cs"
  shows "stk_is_empty s \<longleftrightarrow> stack_elems h s segs = []"
proof (cases segs)
  case (Cons x xs)
  then have "elems_at h x \<noteq> []" "0 < stk_cur_seg_size s" using assms by (auto simp: stack_rep_def)
  then show ?thesis using Cons assms by (auto simp: stack_elems_def stk_is_empty_def stack_rep_def)
qed (use assms in \<open>simp add: stack_elems_def stk_is_empty_def stack_rep_def\<close>)

lemma rep_size:
  assumes "stack_rep h s segs cs"
  shows "stk_size s = length (stack_elems h s segs)"
proof (cases segs)
  case (Cons x xs)
  have "sum_list (map (\<lambda>y. length (rev (elems_at h y))) xs) = stk_seg_size s * length xs"
    using assms Cons by (auto simp: stack_rep_def sum_list_triv intro: trans [OF arg_cong [of _ _ sum_list, OF map_cong [OF refl]]])
  then show ?thesis using assms Cons
    by (auto simp: stk_size_def stk_is_empty_def stack_elems_def stack_rep_def length_concat comp_def)
qed (use assms in \<open>simp add: stk_size_def stack_elems_def stk_is_empty_def stack_rep_def\<close>)

interpretation seg_stack: lifo stack_holds stk_pop "\<lambda>st. stk_is_empty (snd st)" stk_push block_fits
proof
  fix st :: "'a seg_heap \<times> stack" and x xs
  assume "stack_holds st (x # xs)"
  then obtain h s segs cs where r: "st = (h, s)" "stack_rep h s segs cs" "stack_elems h s segs = x # xs"
    by (auto simp: stack_holds_def)
  then have "\<not> stk_is_empty s" using rep_empty by fastforce
  from stk_pop_spec [OF r(2) this] show "\<exists>s'. stk_pop st = Some (x, s') \<and> stack_holds s' xs"
    using r by (auto simp: stack_holds_def)
next
  fix st :: "'a seg_heap \<times> stack" and xs
  assume "stack_holds st xs"
  then obtain h s segs cs where "st = (h, s)" "stack_rep h s segs cs" "xs = stack_elems h s segs" by (auto simp: stack_holds_def)
  then show "stk_is_empty (snd st) \<longleftrightarrow> xs = []" using rep_empty [of h s segs cs] by simp
next
  fix st :: "'a seg_heap \<times> stack" and xs b x
  assume a: "stack_holds st xs" "block_fits b st"
  then obtain h s segs cs where r: "st = (h, s)" "stack_rep h s segs cs" "xs = stack_elems h s segs" by (auto simp: stack_holds_def)
  from stk_push_spec [OF r(2), of "fst b" "snd b" x] show "\<exists>s'. stk_push b x st = Some s' \<and> stack_holds s' (x # xs)"
    using a(2) r by (fastforce simp: stack_holds_def block_fits_def)
qed

interpretation seg_iterator: drain "\<lambda>it xs. \<exists>segs. it_rep h s it segs \<and> xs = seg_contents h (it_cur_seg_size it) segs"
    "it_next h s" it_is_empty for h :: "'e seg_heap" and s
proof
  fix it and x :: 'e and xs
  assume "\<exists>segs. it_rep h s it segs \<and> x # xs = seg_contents h (it_cur_seg_size it) segs"
  then obtain segs where r: "it_rep h s it segs" "seg_contents h (it_cur_seg_size it) segs = x # xs" by auto
  from it_next_spec [OF r(1)] show "\<exists>it'. it_next h s it = Some (x, it') \<and> (\<exists>segs. it_rep h s it' segs \<and> xs = seg_contents h (it_cur_seg_size it') segs)"
    using r(2) by (auto split: if_splits)
next
  fix it and xs :: "'e list"
  assume "\<exists>segs. it_rep h s it segs \<and> xs = seg_contents h (it_cur_seg_size it) segs"
  then obtain segs where r: "it_rep h s it segs" "seg_contents h (it_cur_seg_size it) segs = xs" by auto
  from it_next_spec [OF r(1)] show "it_is_empty it \<longleftrightarrow> xs = []" using r(2) by (auto split: if_splits)
qed

section \<open>Properties\<close>

lemma new_stack_rep:
  assumes "0 < unat (adjust_segment_size elem_sz segment_size)"
  shows "stack_rep h (new_stack elem_sz segment_size max_cache max_size) [] []"
  using assms by (simp add: stack_rep_def new_stack_def stk_reset_def Let_def)

lemma unat_lt64: "unat (w :: uintptr) < 2 ^ 64"
  using unat_bound [of w] by simp

lemma unat_align8:
  fixes x :: uintptr
  assumes "unat x < 2 ^ 63"
  shows "unat (align_size_up x 8) = (unat x + 7) div 8 * 8"
proof -
  have u: "uint w = int (unat w)" for w :: uintptr by simp
  have "y + (2 ^ 3 - 1) < 2 ^ 64" if "y < 2 ^ 63" for y :: int using that by simp
  moreover have "uint x < 2 ^ 63" unfolding u using assms by (metis of_nat_less_iff of_nat_numeral of_nat_power)
  ultimately have "uint x + (2 ^ 3 - 1) < 2 ^ 64" by blast
  then have "uint (align_size_up x (2 ^ 3)) = round_to (uint x) (2 ^ 3)" by (intro uint_align_size_up) simp_all
  then have "int (unat (align_size_up x (2 ^ 3))) = (int (unat x) + (2 ^ 3 - 1)) div 2 ^ 3 * 2 ^ 3" unfolding round_to_int u .
  moreover have "(2 :: uintptr) ^ 3 = 8" "(2 :: int) ^ 3 = 8" by simp_all
  ultimately have "int (unat (align_size_up x 8)) = (int (unat x) + (8 - 1)) div 8 * 8" by (simp only:)
  also have "\<dots> = int ((unat x + 7) div 8 * 8)" by (simp add: zdiv_int)
  finally have "int (unat (align_size_up x 8)) = int ((unat x + 7) div 8 * 8)" .
  then show ?thesis by (simp only: of_nat_eq_iff)
qed

lemma unat_mult_small: "unat a * unat b < 2 ^ 64 \<Longrightarrow> unat (a * b :: uintptr) = unat a * unat b"
  by (simp add: unat_word_ariths)

lemma adjust_max_size_eq:
  assumes "0 < seg_size"
  shows "unat (adjust_max_size max_size seg_size) =
    (if unat max_size = 0 \<or> unat max_size > 2 ^ 64 - unat seg_size then (2 ^ 64 - 1) div unat seg_size * unat seg_size
     else (unat max_size + unat seg_size - 1) div unat seg_size * unat seg_size)"
proof -
  let ?n = "unat seg_size" and ?m = "unat max_size"
  have n: "0 < ?n" "?n < 2 ^ 64" using assms unat_bound [of seg_size] by (simp_all add: word_less_nat_alt)
  have r: "unat (w div seg_size * seg_size) = unat w div ?n * ?n" for w
  proof -
    have "unat w div ?n * ?n \<le> unat w" by simp
    then have "unat w div ?n * ?n < 2 ^ 64" using unat_lt64 [of w] by linarith
    then show ?thesis using unat_mult_small [of "w div seg_size" seg_size] by (simp add: unat_div)
  qed
  have "- 1 - (seg_size - 1) = of_nat (2 ^ 64 - ?n)" using n by (simp add: of_nat_diff less_imp_le)
  moreover have "2 ^ 64 - ?n < 2 ^ LENGTH(64)" using n by simp
  ultimately have lim: "unat (- 1 - (seg_size - 1)) = 2 ^ 64 - ?n" using unat_of_nat_small by metis
  have big: "max_size > - 1 - (seg_size - 1) \<longleftrightarrow> ?m > 2 ^ 64 - ?n" unfolding word_less_nat_alt lim ..
  have zero: "max_size = 0 \<longleftrightarrow> ?m = 0" by (simp add: unat_eq_zero)
  show ?thesis
  proof (cases "?m = 0 \<or> ?m > 2 ^ 64 - ?n")
    case True
    then have "adjust_max_size max_size seg_size = - 1 div seg_size * seg_size"
      unfolding adjust_max_size_def Let_def big zero by simp
    moreover have "unat (- 1 :: uintptr) = 2 ^ 64 - 1" by (simp add: unsigned_minus_1_eq_mask mask_eq_exp_minus_1)
    ultimately show ?thesis using True r [of "- 1"] by simp
  next
    case False
    then have "adjust_max_size max_size seg_size = (max_size + seg_size - 1) div seg_size * seg_size"
      unfolding adjust_max_size_def Let_def big zero by simp
    moreover have "unat (max_size + seg_size - 1) = ?m + ?n - 1"
    proof -
      have "max_size + seg_size - 1 = of_nat (?m + ?n - 1)" using n by (simp add: of_nat_diff)
      moreover have "?m + ?n - 1 < 2 ^ 64" using False n by linarith
      then have "?m + ?n - 1 < 2 ^ LENGTH(64)" by simp
      ultimately show ?thesis using unat_of_nat_small by metis
    qed
    ultimately show ?thesis using False r [of "max_size + seg_size - 1"] by simp
  qed
qed

lemma segment_layout:
  assumes "unat elem_sz * unat segment_size < 2 ^ 62" "elem_sz \<in> {1, 2, 4} \<or> 8 dvd unat elem_sz \<and> elem_sz \<noteq> 0"
  shows "unat segment_size \<le> unat (adjust_segment_size elem_sz segment_size)
    \<and> unat (link_offset elem_sz (adjust_segment_size elem_sz segment_size)) = unat (adjust_segment_size elem_sz segment_size) * unat elem_sz
    \<and> 8 dvd unat (adjust_segment_size elem_sz segment_size) * unat elem_sz"
proof -
  let ?S = "unat segment_size" and ?E = "unat elem_sz"
  have x: "unat (segment_size * elem_sz) = ?S * ?E" using assms(1) by (subst unat_mult_small) (simp_all add: mult.commute)
  consider (small) "elem_sz \<in> {1, 2, 4}" | (large) "8 dvd ?E" "elem_sz \<noteq> 0" using assms(2) by blast
  then show ?thesis
  proof cases
    case small
    let ?R = "(?S * ?E + 7) div 8 * 8"
    have R: "?S * ?E \<le> ?R" "?R < ?S * ?E + 8" by linarith+
    have E: "?E dvd 8" "0 < ?E" "?E \<le> 8" "elem_sz < 8" using small by auto
    then have "?E dvd ?R" by (intro dvd_mult)
    moreover have "unat (adjust_segment_size elem_sz segment_size) = ?R div ?E"
      using E(4) x assms(1) by (simp add: adjust_segment_size_def unat_div unat_align8 mult.commute)
    ultimately have nE: "unat (adjust_segment_size elem_sz segment_size) * ?E = ?R" by simp
    then have "?S * ?E \<le> unat (adjust_segment_size elem_sz segment_size) * ?E" using R by simp
    then have "?S \<le> unat (adjust_segment_size elem_sz segment_size)" using E(2) by simp
    moreover have "unat (adjust_segment_size elem_sz segment_size * elem_sz) = ?R"
      using nE R assms(1) by (subst unat_mult_small) (simp_all add: mult.commute)
    moreover have "?R < 2 ^ 63" using R(2) assms(1) by (simp add: mult.commute)
    ultimately show ?thesis using nE by (simp add: link_offset_def unat_align8)
  next
    case large
    then have "\<not> elem_sz < 8" by (auto simp: word_less_nat_alt unat_eq_zero dest: dvd_imp_le)
    moreover obtain c where "?S * ?E = 8 * c" using large(1) by (meson dvdE dvd_mult)
    ultimately show ?thesis using x assms(1) by (simp add: adjust_segment_size_def link_offset_def unat_align8 mult.commute)
  qed
qed

text \<open>
  C8: the linked segments represent a stack.  A push, with any block the C heap may hand out, adds one
  element on top; a pop of a stack that is not empty takes the top element; clearing leaves no
  element; \<^verbatim>\<open>is_empty\<close> and \<^verbatim>\<open>size\<close> tell about the elements.  No operation reads a block that was freed
  or changes a block that is not its own, and no block is lost: those no longer in use are in the
  cache or freed.
\<close>

theorem stack_refines:
  assumes "stack_rep h s segs cs" "block_fits (a, g) (h, s)"
  shows "(\<exists>h' s' segs' cs'. stk_push (a, g) item (h, s) = Some (h', s') \<and> stack_rep h' s' segs' cs'
      \<and> stack_elems h' s' segs' = item # stack_elems h s segs \<and> owns h (set segs \<union> set cs) h' (set segs' \<union> set cs'))
    \<and> (if stk_is_empty s then stack_elems h s segs = []
       else \<exists>e h' s' segs' cs'. stk_pop (h, s) = Some (e, h', s') \<and> stack_rep h' s' segs' cs'
         \<and> stack_elems h s segs = e # stack_elems h' s' segs' \<and> owns h (set segs \<union> set cs) h' (set segs' \<union> set cs'))
    \<and> (\<exists>h' s' cs'. stk_clear clear_cache (h, s) = Some (h', s') \<and> stack_rep h' s' [] cs' \<and> stk_is_empty s'
         \<and> (clear_cache \<longrightarrow> cs' = []) \<and> owns h (set segs \<union> set cs) h' (set cs'))
    \<and> stk_size s = length (stack_elems h s segs)"
proof (intro conjI)
  have b: "a \<noteq> 0" "h a = None" "length (seg_elems g) = stk_seg_size s" using assms(2) by (simp_all add: block_fits_def)
  show "\<exists>h' s' segs' cs'. stk_push (a, g) item (h, s) = Some (h', s') \<and> stack_rep h' s' segs' cs'
      \<and> stack_elems h' s' segs' = item # stack_elems h s segs \<and> owns h (set segs \<union> set cs) h' (set segs' \<union> set cs')"
    using stk_push_spec [OF assms(1) b, of item] by blast
  show "if stk_is_empty s then stack_elems h s segs = []
       else \<exists>e h' s' segs' cs'. stk_pop (h, s) = Some (e, h', s') \<and> stack_rep h' s' segs' cs'
         \<and> stack_elems h s segs = e # stack_elems h' s' segs' \<and> owns h (set segs \<union> set cs) h' (set segs' \<union> set cs')"
    using rep_empty [OF assms(1)] stk_pop_spec [OF assms(1)] by (cases "stk_is_empty s") (simp, simp, blast)
qed (fact stk_clear_spec [OF assms(1)] rep_size [OF assms(1)])+

text \<open>A stack with two segments of two slots, three elements and one cached segment.\<close>

definition example_heap :: "nat seg_heap" where
  "example_heap = Map.empty(1 \<mapsto> \<lparr>seg_elems = [10, 11], seg_link = 0\<rparr>, 2 \<mapsto> \<lparr>seg_elems = [12, 0], seg_link = 1\<rparr>,
     3 \<mapsto> \<lparr>seg_elems = [0, 0], seg_link = 0\<rparr>)"

definition example_stack :: stack where
  "example_stack = \<lparr>stk_seg_size = 2, stk_max_size = 4, stk_max_cache_size = 1, stk_cur_seg_size = 1, stk_full_seg_size = 2,
     stk_cache_size = 1, stk_cur_seg = 2, stk_cache = 3\<rparr>"

lemma example_rep: "stack_rep example_heap example_stack [2, 1] [3] \<and> stack_elems example_heap example_stack [2, 1] = [12, 11, 10]"
  by (simp add: stack_rep_def stack_elems_def example_heap_def example_stack_def elems_at_def)

theorem stack_refines_witness:
  "\<exists>h' s' segs' cs'. stk_push (4, \<lparr>seg_elems = [0, 0], seg_link = 0\<rparr>) 13 (example_heap, example_stack) = Some (h', s')
    \<and> stack_rep h' s' segs' cs' \<and> stack_elems h' s' segs' = [13, 12, 11, 10]"
proof -
  have "block_fits (4, \<lparr>seg_elems = [0, 0], seg_link = 0\<rparr>) (example_heap, example_stack)"
    by (simp add: block_fits_def example_heap_def example_stack_def)
  from stack_refines [OF example_rep [THEN conjunct1] this, of 13 True] show ?thesis using example_rep by auto
qed

text \<open>
  C33: popping until the stack is empty gives its elements, the last pushed first, after exactly \<^verbatim>\<open>size()\<close>
  pops; an iterator synchronised with the stack gives the same elements in the same order and is
  then empty; and an element pushed on top comes out first.
\<close>

theorem stack_drains:
  assumes "stack_rep h s segs cs"
  shows "(\<exists>st'. pops stk_pop (stk_size s) (h, s) = Some (stack_elems h s segs, st') \<and> stk_is_empty (snd st'))
    \<and> (\<exists>it'. pops (it_next h s) (stk_size s) (it_sync s) = Some (stack_elems h s segs, it') \<and> it_is_empty it')
    \<and> (\<forall>b x. block_fits b (h, s) \<longrightarrow> (\<exists>st' st''. stk_push b x (h, s) = Some st'
        \<and> pops stk_pop (Suc (stk_size s)) st' = Some (x # stack_elems h s segs, st'') \<and> stk_is_empty (snd st'')))"
proof -
  have "stack_holds (h, s) (stack_elems h s segs)" using assms by (auto simp: stack_holds_def)
  moreover have "\<exists>segs'. it_rep h s (it_sync s) segs' \<and> stack_elems h s segs = seg_contents h (it_cur_seg_size (it_sync s)) segs'"
    using it_sync_rep [OF assms] by auto
  ultimately show ?thesis unfolding rep_size [OF assms]
    by (intro conjI allI impI seg_stack.pops_all seg_iterator.pops_all seg_stack.push_then_drain)
qed

theorem stack_drains_witness:
  "\<exists>st' it'. pops stk_pop 3 (example_heap, example_stack) = Some ([12, 11, 10], st')
    \<and> pops (it_next example_heap example_stack) 3 (it_sync example_stack) = Some ([12, 11, 10], it')"
proof -
  have "stk_size example_stack = 3" by (simp add: stk_size_def stk_is_empty_def example_stack_def)
  then show ?thesis using stack_drains [OF example_rep [THEN conjunct1]] example_rep by auto
qed

text \<open>
  C29: \<^verbatim>\<open>is_full\<close> compares the elements of the filled segments below the current one with the maximum, so it
  answers true only when the stack holds more elements than its maximum.  The header says to use
  it instead of \<^verbatim>\<open>size() == max_size()\<close>; at that size it answers false, and a push that checks it goes
  beyond the maximum.
\<close>

theorem stack_is_full:
  assumes "stack_rep h s segs cs" "stk_max_size s = m * stk_seg_size s" "0 < m"
  shows "stk_is_full s \<longleftrightarrow> stk_size s > stk_max_size s"
proof (cases segs)
  case Nil
  then show ?thesis using assms by (simp add: stk_is_full_def stk_size_def stack_rep_def stk_is_empty_def)
next
  case (Cons x xs)
  then have f: "stk_full_seg_size s = length xs * stk_seg_size s" "0 < stk_cur_seg_size s" "stk_cur_seg_size s \<le> stk_seg_size s" "\<not> stk_is_empty s"
    using assms(1) by (auto simp: stack_rep_def stk_is_empty_def)
  have sz: "stk_size s = length xs * stk_seg_size s + stk_cur_seg_size s" using f by (simp add: stk_size_def)
  show ?thesis
  proof (cases "m \<le> length xs")
    case True
    then have "m * stk_seg_size s \<le> length xs * stk_seg_size s" by (rule mult_le_mono1)
    then show ?thesis unfolding stk_is_full_def f(1) sz assms(2) using f(2) by linarith
  next
    case False
    then have "Suc (length xs) * stk_seg_size s \<le> m * stk_seg_size s" by (intro mult_le_mono1) simp
    then have "length xs * stk_seg_size s + stk_seg_size s \<le> m * stk_seg_size s" by simp
    then show ?thesis unfolding stk_is_full_def f(1) sz assms(2) using f(2,3) by linarith
  qed
qed

theorem stack_is_full_witness:
  "\<not> stk_is_full (example_stack\<lparr>stk_cur_seg_size := 2\<rparr>) \<and> stk_size (example_stack\<lparr>stk_cur_seg_size := 2\<rparr>) = stk_max_size (example_stack\<lparr>stk_cur_seg_size := 2\<rparr>)"
proof -
  let ?s = "example_stack\<lparr>stk_cur_seg_size := 2\<rparr>"
  have "stack_rep example_heap ?s [2, 1] [3]" "stk_max_size ?s = 2 * stk_seg_size ?s"
    by (simp_all add: stack_rep_def example_heap_def example_stack_def elems_at_def)
  from stack_is_full [OF this] show ?thesis by (simp add: stk_size_def stk_is_empty_def example_stack_def)
qed

text \<open>
  The arithmetic of sizes does not overflow.  The maximum is rounded up to the next multiple of the
  segment size; 0 and values too large to be rounded give the largest multiple that fits in 64
  bits.  When elements are smaller than a pointer the segment size is rounded up so that the link
  follows the last element at an aligned offset.
\<close>

lemma stack_sizes:
  assumes "0 < seg_size" "unat elem_sz * unat segment_size < 2 ^ 62" "elem_sz \<in> {1, 2, 4} \<or> 8 dvd unat elem_sz \<and> elem_sz \<noteq> 0"
  shows "unat (adjust_max_size max_size seg_size) =
      (let n = unat seg_size; m = unat max_size
       in if m = 0 \<or> m > 2 ^ 64 - n then (2 ^ 64 - 1) div n * n else (m + n - 1) div n * n)
    \<and> (let n = unat (adjust_segment_size elem_sz segment_size)
       in unat segment_size \<le> n \<and> unat (link_offset elem_sz (adjust_segment_size elem_sz segment_size)) = n * unat elem_sz
         \<and> 8 dvd n * unat elem_sz)"
proof
  show "unat (adjust_max_size max_size seg_size) = (let n = unat seg_size; m = unat max_size
       in if m = 0 \<or> m > 2 ^ 64 - n then (2 ^ 64 - 1) div n * n else (m + n - 1) div n * n)"
    unfolding Let_def by (rule adjust_max_size_eq [OF assms(1)])
  show "let n = unat (adjust_segment_size elem_sz segment_size)
       in unat segment_size \<le> n \<and> unat (link_offset elem_sz (adjust_segment_size elem_sz segment_size)) = n * unat elem_sz
         \<and> 8 dvd n * unat elem_sz"
    unfolding Let_def by (rule segment_layout [OF assms(2,3)])
qed

lemma stack_sizes_example:
  "unat (adjust_max_size 10 4) = 12 \<and> unat (adjust_max_size 0 16) = 2 ^ 64 - 16
    \<and> unat (link_offset 2 (adjust_segment_size 2 5)) = 16"
proof -
  have "(0 :: uintptr) < 4" "(0 :: uintptr) < 16" "unat (2 :: uintptr) * unat (5 :: uintptr) < 2 ^ 62"
    "(2 :: uintptr) \<in> {1, 2, 4} \<or> 8 dvd unat (2 :: uintptr) \<and> (2 :: uintptr) \<noteq> 0" by simp_all
  note f = stack_sizes [OF this(1,3,4), of 10] stack_sizes [OF this(2,3,4), of 0]
  have "unat (adjust_segment_size 2 5) = 8" by code_simp
  then show ?thesis using f by (simp add: Let_def)
qed

end
