(* ===== verification/Mark_Word.thy ===== *)
theory Mark_Word
  imports Global_Definitions
begin

unbundle bit_operations_syntax

text \<open>
  \<^verbatim>\<open>oops/markOop.hpp\<close> and \<^verbatim>\<open>oops/markOop.inline.hpp\<close>: the header word of an object.  A mark is one 64-bit word
  that holds, depending on its lowest bits, the identity hash and the age of an unlocked object, a
  biased lock's thread and epoch, a pointer to a stack lock or to a monitor, a forwarding pointer
  of the collector, or the size of a free chunk of CMS.  The flag \<^verbatim>\<open>UseBiasedLocking\<close> and the prototype
  header of a class are arguments.
\<close>

section \<open>Layout\<close>

type_synonym mark = uintptr

definition age_bits :: nat where "age_bits = 4"
definition lock_bits :: nat where "lock_bits = 2"
definition biased_lock_bits :: nat where "biased_lock_bits = 1"
definition max_hash_bits :: nat where "max_hash_bits = BitsPerWord - age_bits - lock_bits - biased_lock_bits"
definition hash_bits :: nat where "hash_bits = (if max_hash_bits > 31 then 31 else max_hash_bits)"
definition cms_bits :: nat where "cms_bits = 1"
definition epoch_bits :: nat where "epoch_bits = 2"

definition lock_shift :: nat where "lock_shift = 0"
definition biased_lock_shift :: nat where "biased_lock_shift = lock_bits"
definition age_shift :: nat where "age_shift = lock_bits + biased_lock_bits"
definition cms_shift :: nat where "cms_shift = age_shift + age_bits"
definition hash_shift :: nat where "hash_shift = cms_shift + cms_bits"
definition epoch_shift :: nat where "epoch_shift = hash_shift"
definition size_shift :: nat where "size_shift = cms_shift + cms_bits"
definition size_bits :: nat where "size_bits = 35"

definition lock_mask_in_place :: mark where "lock_mask_in_place = push_bit lock_shift (right_n_bits lock_bits)"
definition biased_lock_mask_in_place :: mark where
  "biased_lock_mask_in_place = push_bit lock_shift (right_n_bits (lock_bits + biased_lock_bits))"
definition age_mask :: mark where "age_mask = right_n_bits age_bits"
definition age_mask_in_place :: mark where "age_mask_in_place = push_bit age_shift age_mask"
definition epoch_mask :: mark where "epoch_mask = right_n_bits epoch_bits"
definition epoch_mask_in_place :: mark where "epoch_mask_in_place = push_bit epoch_shift epoch_mask"
definition cms_mask :: mark where "cms_mask = right_n_bits cms_bits"
definition cms_mask_in_place :: mark where "cms_mask_in_place = push_bit cms_shift cms_mask"
definition hash_mask :: mark where "hash_mask = right_n_bits hash_bits"
definition hash_mask_in_place :: mark where "hash_mask_in_place = push_bit hash_shift hash_mask"
definition size_mask :: mark where "size_mask = right_n_bits size_bits"
definition size_mask_in_place :: mark where "size_mask_in_place = push_bit size_shift size_mask"
definition biased_lock_alignment :: mark where "biased_lock_alignment = push_bit (epoch_shift + epoch_bits) 2"

definition locked_value :: mark where "locked_value = 0"
definition unlocked_value :: mark where "unlocked_value = 1"
definition mark_monitor_value :: mark where "mark_monitor_value = 2"
definition marked_value :: mark where "marked_value = 3"
definition biased_lock_pattern :: mark where "biased_lock_pattern = 5"
definition no_hash :: mark where "no_hash = 0"
definition max_age :: mark where "max_age = age_mask"

section \<open>Biased locks\<close>

definition has_bias_pattern :: "mark \<Rightarrow> bool" where
  "has_bias_pattern m \<longleftrightarrow> mask_bits m biased_lock_mask_in_place = biased_lock_pattern"

definition biased_locker :: "mark \<Rightarrow> uintptr" where
  "biased_locker m = mask_bits m (NOT (biased_lock_mask_in_place OR age_mask_in_place OR epoch_mask_in_place))"

definition is_biased_anonymously :: "mark \<Rightarrow> bool" where
  "is_biased_anonymously m \<longleftrightarrow> has_bias_pattern m \<and> biased_locker m = 0"

definition bias_epoch :: "mark \<Rightarrow> uintptr" where
  "bias_epoch m = drop_bit epoch_shift (mask_bits m epoch_mask_in_place)"

definition set_bias_epoch :: "mark \<Rightarrow> uintptr \<Rightarrow> mark" where
  "set_bias_epoch m epoch = mask_bits m (NOT epoch_mask_in_place) OR push_bit epoch_shift epoch"

definition incr_bias_epoch :: "mark \<Rightarrow> mark" where
  "incr_bias_epoch m = set_bias_epoch m ((1 + bias_epoch m) AND epoch_mask)"

definition biased_locking_prototype :: mark where
  "biased_locking_prototype = biased_lock_pattern"

section \<open>Lock states\<close>

definition is_locked :: "mark \<Rightarrow> bool" where
  "is_locked m \<longleftrightarrow> mask_bits m lock_mask_in_place \<noteq> unlocked_value"

definition is_unlocked :: "mark \<Rightarrow> bool" where
  "is_unlocked m \<longleftrightarrow> mask_bits m biased_lock_mask_in_place = unlocked_value"

definition is_marked :: "mark \<Rightarrow> bool" where
  "is_marked m \<longleftrightarrow> mask_bits m lock_mask_in_place = marked_value"

definition is_neutral :: "mark \<Rightarrow> bool" where
  "is_neutral m \<longleftrightarrow> mask_bits m biased_lock_mask_in_place = unlocked_value"

definition is_being_inflated :: "mark \<Rightarrow> bool" where
  "is_being_inflated m \<longleftrightarrow> m = 0"

definition INFLATING :: mark where
  "INFLATING = 0"

definition set_unlocked :: "mark \<Rightarrow> mark" where
  "set_unlocked m = m OR unlocked_value"

definition has_locker :: "mark \<Rightarrow> bool" where
  "has_locker m \<longleftrightarrow> m AND lock_mask_in_place = locked_value"

definition locker :: "mark \<Rightarrow> uintptr" where
  "locker m = m"

definition has_monitor :: "mark \<Rightarrow> bool" where
  "has_monitor m \<longleftrightarrow> m AND mark_monitor_value \<noteq> 0"

definition monitor :: "mark \<Rightarrow> uintptr" where
  "monitor m = m XOR mark_monitor_value"

definition has_displaced_mark_helper :: "mark \<Rightarrow> bool" where
  "has_displaced_mark_helper m \<longleftrightarrow> m AND unlocked_value = 0"

text \<open>Memory is a function from addresses to marks.\<close>

definition displaced_mark_helper :: "(uintptr \<Rightarrow> mark) \<Rightarrow> mark \<Rightarrow> mark" where
  "displaced_mark_helper mem m = mem (m AND NOT mark_monitor_value)"

definition set_displaced_mark_helper :: "(uintptr \<Rightarrow> mark) \<Rightarrow> mark \<Rightarrow> mark \<Rightarrow> (uintptr \<Rightarrow> mark)" where
  "set_displaced_mark_helper mem m d = mem(m AND NOT mark_monitor_value := d)"

definition copy_set_hash :: "mark \<Rightarrow> uintptr \<Rightarrow> mark" where
  "copy_set_hash m h = (m AND NOT hash_mask_in_place) OR push_bit hash_shift (h AND hash_mask)"

definition unused_mark :: mark where
  "unused_mark = marked_value"

definition encode_lock :: "uintptr \<Rightarrow> mark" where
  "encode_lock lock = lock"

definition encode_monitor :: "uintptr \<Rightarrow> mark" where
  "encode_monitor mon = mon OR mark_monitor_value"

definition encode_bias :: "uintptr \<Rightarrow> uintptr \<Rightarrow> uintptr \<Rightarrow> mark" where
  "encode_bias thread a epoch = thread OR push_bit epoch_shift epoch OR push_bit age_shift a OR biased_lock_pattern"

definition clear_lock_bits :: "mark \<Rightarrow> mark" where
  "clear_lock_bits m = m AND NOT lock_mask_in_place"

definition set_marked :: "mark \<Rightarrow> mark" where
  "set_marked m = (m AND NOT lock_mask_in_place) OR marked_value"

definition set_unmarked :: "mark \<Rightarrow> mark" where
  "set_unmarked m = (m AND NOT lock_mask_in_place) OR unlocked_value"

section \<open>Age, hash and size\<close>

definition mark_age :: "mark \<Rightarrow> uintptr" where
  "mark_age m = mask_bits (drop_bit age_shift m) age_mask"

definition set_age :: "mark \<Rightarrow> uintptr \<Rightarrow> mark" where
  "set_age m v = (m AND NOT age_mask_in_place) OR push_bit age_shift (v AND age_mask)"

definition incr_age :: "mark \<Rightarrow> mark" where
  "incr_age m = (if mark_age m = max_age then m else set_age m (mark_age m + 1))"

definition mark_hash :: "mark \<Rightarrow> uintptr" where
  "mark_hash m = mask_bits (drop_bit hash_shift m) hash_mask"

definition has_no_hash :: "mark \<Rightarrow> bool" where
  "has_no_hash m \<longleftrightarrow> mark_hash m = no_hash"

definition prototype :: mark where
  "prototype = push_bit hash_shift no_hash OR unlocked_value"

definition encode_pointer_as_mark :: "uintptr \<Rightarrow> mark" where
  "encode_pointer_as_mark p = set_marked p"

definition decode_pointer :: "bool \<Rightarrow> mark \<Rightarrow> uintptr" where
  "decode_pointer UseBiasedLocking m = (if UseBiasedLocking \<and> has_bias_pattern m then 0 else clear_lock_bits m)"

definition cms_free_chunk_pattern :: mark where
  "cms_free_chunk_pattern = 1"

definition cms_free_prototype :: mark where
  "cms_free_prototype = (prototype AND NOT cms_mask_in_place) OR push_bit cms_shift (cms_free_chunk_pattern AND cms_mask)"

definition cms_encoding :: "mark \<Rightarrow> uintptr" where
  "cms_encoding m = mask_bits (drop_bit cms_shift m) cms_mask"

definition is_cms_free_chunk :: "mark \<Rightarrow> bool" where
  "is_cms_free_chunk m \<longleftrightarrow> is_neutral m \<and> cms_encoding m AND cms_free_chunk_pattern = cms_free_chunk_pattern"

definition get_size :: "mark \<Rightarrow> uintptr" where
  "get_size m = drop_bit size_shift m"

definition set_size_and_free :: "uintptr \<Rightarrow> mark" where
  "set_size_and_free sz = (cms_free_prototype AND NOT size_mask_in_place) OR push_bit size_shift (sz AND size_mask)"

section \<open>Marks a collection must save\<close>

definition must_be_preserved_with_bias :: "mark \<Rightarrow> mark \<Rightarrow> bool" where
  "must_be_preserved_with_bias prototype_header m =
     (if has_bias_pattern m then False
      else if has_bias_pattern prototype_header then True
      else \<not> is_unlocked m \<or> \<not> has_no_hash m)"

definition must_be_preserved :: "bool \<Rightarrow> mark \<Rightarrow> mark \<Rightarrow> bool" where
  "must_be_preserved UseBiasedLocking prototype_header m =
     (if \<not> UseBiasedLocking then \<not> is_unlocked m \<or> \<not> has_no_hash m
      else must_be_preserved_with_bias prototype_header m)"

definition must_be_preserved_with_bias_for_promotion_failure :: "mark \<Rightarrow> mark \<Rightarrow> bool" where
  "must_be_preserved_with_bias_for_promotion_failure prototype_header m =
     (if has_bias_pattern m \<or> has_bias_pattern prototype_header then True
      else \<not> is_unlocked m \<or> \<not> has_no_hash m)"

definition must_be_preserved_for_promotion_failure :: "bool \<Rightarrow> mark \<Rightarrow> mark \<Rightarrow> bool" where
  "must_be_preserved_for_promotion_failure UseBiasedLocking prototype_header m =
     (if \<not> UseBiasedLocking then \<not> is_unlocked m \<or> \<not> has_no_hash m
      else must_be_preserved_with_bias_for_promotion_failure prototype_header m)"

definition must_be_preserved_with_bias_for_cms_scavenge :: "mark \<Rightarrow> mark \<Rightarrow> bool" where
  "must_be_preserved_with_bias_for_cms_scavenge klass_prototype_header m =
     (if has_bias_pattern m \<or> has_bias_pattern klass_prototype_header then True
      else \<not> is_unlocked m \<or> \<not> has_no_hash m)"

definition must_be_preserved_for_cms_scavenge :: "bool \<Rightarrow> mark \<Rightarrow> mark \<Rightarrow> bool" where
  "must_be_preserved_for_cms_scavenge UseBiasedLocking klass_prototype_header m =
     (if \<not> UseBiasedLocking then \<not> is_unlocked m \<or> \<not> has_no_hash m
      else must_be_preserved_with_bias_for_cms_scavenge klass_prototype_header m)"

section \<open>The bits of the layout\<close>

lemmas layout_defs = age_bits_def lock_bits_def biased_lock_bits_def max_hash_bits_def hash_bits_def cms_bits_def epoch_bits_def
  lock_shift_def biased_lock_shift_def age_shift_def cms_shift_def hash_shift_def epoch_shift_def size_shift_def size_bits_def
  BitsPerWord_def

lemmas mask_defs = lock_mask_in_place_def biased_lock_mask_in_place_def age_mask_def age_mask_in_place_def epoch_mask_def
  epoch_mask_in_place_def cms_mask_def cms_mask_in_place_def hash_mask_def hash_mask_in_place_def size_mask_def size_mask_in_place_def

named_theorems mark_bit \<open>which bits of a word are set\<close>

lemma bit_masks [mark_bit]:
  "bit lock_mask_in_place k \<longleftrightarrow> k < 2" "bit biased_lock_mask_in_place k \<longleftrightarrow> k < 3"
  "bit age_mask k \<longleftrightarrow> k < 4" "bit age_mask_in_place k \<longleftrightarrow> 3 \<le> k \<and> k < 7"
  "bit epoch_mask k \<longleftrightarrow> k < 2" "bit epoch_mask_in_place k \<longleftrightarrow> 8 \<le> k \<and> k < 10"
  "bit cms_mask k \<longleftrightarrow> k < 1" "bit cms_mask_in_place k \<longleftrightarrow> k = 7"
  "bit hash_mask k \<longleftrightarrow> k < 31" "bit hash_mask_in_place k \<longleftrightarrow> 8 \<le> k \<and> k < 39"
  "bit size_mask k \<longleftrightarrow> k < 35" "bit size_mask_in_place k \<longleftrightarrow> 8 \<le> k \<and> k < 43"
  by (auto simp: mask_defs layout_defs bit_simps bit_right_n_bits)

lemma bit_values [mark_bit]:
  "bit (1 :: mark) k \<longleftrightarrow> k = 0" "bit (2 :: mark) k \<longleftrightarrow> k = 1" "bit (3 :: mark) k \<longleftrightarrow> k = 0 \<or> k = 1" "bit (5 :: mark) k \<longleftrightarrow> k = 0 \<or> k = 2"
proof -
  have two: "(2 :: mark) = push_bit 1 1" and three: "(3 :: mark) = 1 OR push_bit 1 1" and five: "(5 :: mark) = 1 OR push_bit 2 1" by simp_all
  show "bit (1 :: mark) k \<longleftrightarrow> k = 0" by (simp add: bit_simps)
  show "bit (2 :: mark) k \<longleftrightarrow> k = 1" unfolding two bit_push_bit_iff bit_1_iff by auto
  show "bit (3 :: mark) k \<longleftrightarrow> k = 0 \<or> k = 1" unfolding three bit_or_iff bit_push_bit_iff bit_1_iff by auto
  show "bit (5 :: mark) k \<longleftrightarrow> k = 0 \<or> k = 2" unfolding five bit_or_iff bit_push_bit_iff bit_1_iff by auto
qed

lemmas value_defs [mark_bit] = locked_value_def unlocked_value_def mark_monitor_value_def marked_value_def biased_lock_pattern_def no_hash_def
  cms_free_chunk_pattern_def

lemmas bit_ops [mark_bit] = bit_and_iff bit_or_iff bit_xor_iff bit_not_iff bit_push_bit_iff bit_drop_bit_eq

lemma mark_eq: "(x :: mark) = y \<longleftrightarrow> (\<forall>n. bit x n = bit y n)"
  by (auto intro: bit_eqI)

lemma bit_lt: "bit (m :: mark) n \<Longrightarrow> n < 64"
  using bit_imp_le_length [of m n] by simp

text \<open>The lowest three bits decide the state.\<close>

lemma low_bits:
  "mask_bits m biased_lock_mask_in_place = v \<longleftrightarrow> (\<forall>k<3. bit m k = bit v k) \<and> (\<forall>k\<ge>3. \<not> bit v k)"
  "mask_bits m lock_mask_in_place = v \<longleftrightarrow> (\<forall>k<2. bit m k = bit v k) \<and> (\<forall>k\<ge>2. \<not> bit v k)"
  unfolding mark_eq mask_bits_def bit_and_iff bit_masks by (metis not_le)+

lemma less_3: "(\<forall>k<(3 :: nat). P k) \<longleftrightarrow> P 0 \<and> P 1 \<and> P 2" "(\<forall>k<(2 :: nat). P k) \<longleftrightarrow> P 0 \<and> P 1"
  by (auto simp: less_Suc_eq numeral_3_eq_3 numeral_2_eq_2)

lemma state_bits:
  "has_bias_pattern m \<longleftrightarrow> bit m 0 \<and> \<not> bit m 1 \<and> bit m 2"
  "is_neutral m \<longleftrightarrow> bit m 0 \<and> \<not> bit m 1 \<and> \<not> bit m 2"
  "is_unlocked m \<longleftrightarrow> bit m 0 \<and> \<not> bit m 1 \<and> \<not> bit m 2"
  "is_marked m \<longleftrightarrow> bit m 0 \<and> bit m 1"
  "is_locked m \<longleftrightarrow> \<not> (bit m 0 \<and> \<not> bit m 1)"
  unfolding has_bias_pattern_def is_neutral_def is_unlocked_def is_marked_def is_locked_def low_bits less_3 value_defs bit_values by auto

lemma monitor_bits:
  "has_locker m \<longleftrightarrow> \<not> bit m 0 \<and> \<not> bit m 1" "has_monitor m \<longleftrightarrow> bit m 1" "has_displaced_mark_helper m \<longleftrightarrow> \<not> bit m 0"
  unfolding has_locker_def has_monitor_def has_displaced_mark_helper_def mark_eq value_defs bit_and_iff bit_masks bit_values bit_0_eq
  by (auto simp: less_2_cases_iff intro!: Nat.gr0I)

lemmas mark_states = state_bits monitor_bits

section \<open>Fields\<close>

lemma set_age_fields:
  "mark_age (set_age m v) = v AND age_mask" "set_age m v AND NOT age_mask_in_place = m AND NOT age_mask_in_place"
  unfolding mark_eq mark_age_def set_age_def mask_bits_def bit_ops bit_masks age_shift_def lock_bits_def biased_lock_bits_def
  by (auto dest: bit_lt)

lemma copy_set_hash_fields:
  "mark_hash (copy_set_hash m h) = h AND hash_mask" "copy_set_hash m h AND NOT hash_mask_in_place = m AND NOT hash_mask_in_place"
  unfolding mark_eq mark_hash_def copy_set_hash_def mask_bits_def bit_ops bit_masks layout_defs
  by (auto dest: bit_lt)

lemma bias_epoch_eq: "bias_epoch m = drop_bit epoch_shift m AND epoch_mask"
  unfolding mark_eq bias_epoch_def mask_bits_def bit_ops bit_masks layout_defs by auto

lemma set_bias_epoch_fields:
  "bias_epoch (set_bias_epoch m (e AND epoch_mask)) = e AND epoch_mask"
  "set_bias_epoch m (e AND epoch_mask) AND NOT epoch_mask_in_place = m AND NOT epoch_mask_in_place"
  unfolding mark_eq bias_epoch_eq set_bias_epoch_def mask_bits_def bit_ops bit_masks layout_defs by (auto dest: bit_lt)

lemma age_mask_value: "age_mask = 15" and epoch_mask_value: "epoch_mask = 3"
  by (simp_all add: age_mask_def epoch_mask_def layout_defs right_n_bits_mask mask_eq_exp_minus_1)

lemma unat_and_15: "unat (w AND 15 :: mark) = unat w mod 16" and unat_and_3: "unat (w AND 3 :: mark) = unat w mod 4"
proof -
  have "w AND mask 4 = take_bit 4 w" "w AND mask 2 = take_bit 2 w" by (simp_all add: take_bit_eq_mask)
  moreover have "mask 4 = (15 :: mark)" "mask 2 = (3 :: mark)" by (simp_all add: mask_eq_exp_minus_1)
  ultimately show "unat (w AND 15) = unat w mod 16" "unat (w AND 3) = unat w mod 4"
    by (simp_all add: unat_mod take_bit_eq_mod)
qed

lemma incr_age_fields:
  "unat (mark_age (incr_age m)) = min (unat (mark_age m) + 1) 15" "incr_age m AND NOT age_mask_in_place = m AND NOT age_mask_in_place"
proof -
  have a: "unat (mark_age m) < 16" by (simp add: mark_age_def mask_bits_def age_mask_value unat_and_15)
  show "unat (mark_age (incr_age m)) = min (unat (mark_age m) + 1) 15"
  proof (cases "mark_age m = max_age")
    case True
    then show ?thesis by (simp add: incr_age_def max_age_def age_mask_value)
  next
    case False
    then have "unat (mark_age m) \<noteq> 15" by (simp add: max_age_def age_mask_value word_unat_eq_iff)
    then have "unat (mark_age m + 1) = unat (mark_age m) + 1" using a by (simp add: unat_word_ariths)
    then show ?thesis using False a \<open>unat (mark_age m) \<noteq> 15\<close> by (simp add: incr_age_def set_age_fields age_mask_value unat_and_15)
  qed
  show "incr_age m AND NOT age_mask_in_place = m AND NOT age_mask_in_place" by (simp add: incr_age_def set_age_fields)
qed

lemma incr_bias_epoch_fields:
  "unat (bias_epoch (incr_bias_epoch m)) = (unat (bias_epoch m) + 1) mod 4"
  "incr_bias_epoch m AND NOT epoch_mask_in_place = m AND NOT epoch_mask_in_place"
proof -
  have "unat (bias_epoch m) < 4" by (simp add: bias_epoch_eq epoch_mask_value unat_and_3)
  then have "unat (1 + bias_epoch m) = unat (bias_epoch m) + 1" by (simp add: unat_word_ariths)
  then show "unat (bias_epoch (incr_bias_epoch m)) = (unat (bias_epoch m) + 1) mod 4"
    unfolding incr_bias_epoch_def set_bias_epoch_fields by (simp add: epoch_mask_value unat_and_3)
  show "incr_bias_epoch m AND NOT epoch_mask_in_place = m AND NOT epoch_mask_in_place"
    unfolding incr_bias_epoch_def by (rule set_bias_epoch_fields)
qed

section \<open>Encoding\<close>

text \<open>A pointer that is a multiple of \<open>2\<^sup>a\<close>.\<close>

definition aligned :: "nat \<Rightarrow> uintptr \<Rightarrow> bool" where
  "aligned a p \<longleftrightarrow> (\<forall>k<a. \<not> bit p k)"

lemma aligned_low: "aligned 2 p \<Longrightarrow> \<not> bit p 0 \<and> \<not> bit p 1"
  by (simp add: aligned_def less_3)

lemma encode_lock_state: "aligned 2 p \<Longrightarrow> has_locker (encode_lock p) \<and> locker (encode_lock p) = p"
  using aligned_low by (simp add: mark_states encode_lock_def locker_def)

lemma encode_monitor_state:
  assumes "aligned 2 p"
  shows "has_monitor (encode_monitor p) \<and> \<not> is_marked (encode_monitor p) \<and> monitor (encode_monitor p) = p"
proof -
  have "monitor (encode_monitor p) = p"
    using aligned_low [OF assms] unfolding mark_eq monitor_def encode_monitor_def mark_monitor_value_def bit_ops bit_values by auto
  then show ?thesis
    using aligned_low [OF assms] unfolding mark_states encode_monitor_def mark_monitor_value_def bit_ops bit_values by simp
qed

lemma encode_bias_state:
  assumes "aligned 10 thread" "a AND NOT age_mask = 0" "e AND NOT epoch_mask = 0"
  shows "has_bias_pattern (encode_bias thread a e) \<and> biased_locker (encode_bias thread a e) = thread
    \<and> mark_age (encode_bias thread a e) = a \<and> bias_epoch (encode_bias thread a e) = e"
proof -
  have t: "bit thread k \<Longrightarrow> 10 \<le> k" for k using assms(1) by (auto simp: aligned_def not_less)
  have a: "bit a k \<Longrightarrow> k < 4" for k using assms(2) bit_lt [of a k] unfolding mark_eq bit_ops bit_masks by auto
  have e: "bit e k \<Longrightarrow> k < 2" for k using assms(3) bit_lt [of e k] unfolding mark_eq bit_ops bit_masks by auto
  show ?thesis
    unfolding mark_states mark_eq biased_locker_def mark_age_def bias_epoch_eq encode_bias_def mask_bits_def value_defs
      bit_ops bit_masks bit_values layout_defs
    by (fastforce dest: t a e bit_lt)
qed

lemma encode_pointer_state:
  assumes "aligned 2 p"
  shows "is_marked (encode_pointer_as_mark p) \<and> decode_pointer ubl (encode_pointer_as_mark p) = p"
proof -
  have m: "is_marked (encode_pointer_as_mark p)" "\<not> has_bias_pattern (encode_pointer_as_mark p)"
    unfolding mark_states encode_pointer_as_mark_def set_marked_def value_defs bit_ops bit_masks bit_values by simp_all
  have "clear_lock_bits (encode_pointer_as_mark p) = p"
    using aligned_low [OF assms]
    unfolding mark_eq clear_lock_bits_def encode_pointer_as_mark_def set_marked_def value_defs bit_ops bit_masks bit_values
    by (auto simp: less_2_cases_iff dest: bit_lt intro!: Nat.gr0I)
  then show ?thesis using m by (simp add: decode_pointer_def)
qed

lemma free_chunk_state:
  assumes "sz AND NOT size_mask = 0"
  shows "is_cms_free_chunk (set_size_and_free sz) \<and> get_size (set_size_and_free sz) = sz"
proof -
  have z: "bit sz k \<Longrightarrow> k < 35" for k using assms bit_lt [of sz k] unfolding mark_eq bit_ops bit_masks by auto
  have p: "bit prototype k \<longleftrightarrow> k = 0" for k
    unfolding prototype_def value_defs bit_ops bit_values by simp
  have c: "bit cms_free_prototype k \<longleftrightarrow> k = 0 \<or> k = 7" for k
    unfolding cms_free_prototype_def bit_ops bit_masks p value_defs bit_values layout_defs by auto
  show ?thesis
    unfolding is_cms_free_chunk_def mark_states mark_eq get_size_def set_size_and_free_def cms_encoding_def mask_bits_def bit_ops bit_masks
      bit_values value_defs layout_defs c by (auto dest: z)
qed

lemma neutral_is_prototype:
  "is_unlocked m \<and> has_no_hash m \<longrightarrow>
    m AND (biased_lock_mask_in_place OR hash_mask_in_place) = prototype AND (biased_lock_mask_in_place OR hash_mask_in_place)"
proof
  assume m: "is_unlocked m \<and> has_no_hash m"
  have h: "\<not> bit m k" if "8 \<le> k" "k < 39" for k
  proof -
    have "\<not> bit (mark_hash m) (k - 8)" using m by (simp add: has_no_hash_def no_hash_def)
    moreover have "k - 8 < 31" using that by linarith
    ultimately show ?thesis using that by (simp add: mark_hash_def mask_bits_def bit_ops bit_masks layout_defs)
  qed
  have l: "bit m k \<longleftrightarrow> k = 0" if "k < 3" for k
    using m that unfolding mark_states by (auto simp: less_Suc_eq numeral_3_eq_3 numeral_2_eq_2)
  have p: "bit prototype k \<longleftrightarrow> k = 0" for k unfolding prototype_def value_defs bit_ops bit_values by simp
  show "m AND (biased_lock_mask_in_place OR hash_mask_in_place) = prototype AND (biased_lock_mask_in_place OR hash_mask_in_place)"
    unfolding mark_eq bit_ops bit_masks p
  proof
    fix n show "(bit m n \<and> (n < 3 \<or> 8 \<le> n \<and> n < 39)) = (n = 0 \<and> (n < 3 \<or> 8 \<le> n \<and> n < 39))"
      using h [of n] l [of n] by (cases "n < 3"; cases "8 \<le> n \<and> n < 39") simp_all
  qed
qed

section \<open>Properties\<close>

text \<open>
  C31: the age, the hash and the epoch of a bias are read back as they were written, and writing one of them
  changes no bit outside of its field.  The age stops at 15, the epoch counts modulo 4; an epoch that is
  written has to fit in its two bits, which the source asserts.
\<close>

theorem mark_fields:
  "mark_age (set_age m v) = v AND age_mask \<and> set_age m v AND NOT age_mask_in_place = m AND NOT age_mask_in_place
   \<and> unat (mark_age (incr_age m)) = min (unat (mark_age m) + 1) 15 \<and> incr_age m AND NOT age_mask_in_place = m AND NOT age_mask_in_place
   \<and> mark_hash (copy_set_hash m h) = h AND hash_mask \<and> copy_set_hash m h AND NOT hash_mask_in_place = m AND NOT hash_mask_in_place
   \<and> bias_epoch (set_bias_epoch m (e AND epoch_mask)) = e AND epoch_mask
   \<and> set_bias_epoch m (e AND epoch_mask) AND NOT epoch_mask_in_place = m AND NOT epoch_mask_in_place
   \<and> unat (bias_epoch (incr_bias_epoch m)) = (unat (bias_epoch m) + 1) mod 4
   \<and> incr_bias_epoch m AND NOT epoch_mask_in_place = m AND NOT epoch_mask_in_place"
  by (intro conjI set_age_fields incr_age_fields copy_set_hash_fields set_bias_epoch_fields incr_bias_epoch_fields)

text \<open>
  C19: a mark is a tagged union: every word is in exactly one of the states neutral, biased, stack-locked,
  inflated, marked.  A stack lock, a monitor, a forwarding pointer (all word-aligned), a biased
  thread with age and epoch, and the size of a free chunk are encoded in the state meant for them
  and decoded to what was encoded; a thread pointer has to be a multiple of 1024.
\<close>

theorem mark_states_type:
  assumes "aligned 2 p" "aligned 10 thread" "a AND NOT age_mask = 0" "e AND NOT epoch_mask = 0" "sz AND NOT size_mask = 0"
  shows "length (filter (\<lambda>b. b) [is_neutral m, has_bias_pattern m, has_locker m, has_monitor m \<and> \<not> is_marked m, is_marked m]) = 1
    \<and> has_locker (encode_lock p) \<and> locker (encode_lock p) = p
    \<and> has_monitor (encode_monitor p) \<and> \<not> is_marked (encode_monitor p) \<and> monitor (encode_monitor p) = p
    \<and> is_marked (encode_pointer_as_mark p) \<and> decode_pointer ubl (encode_pointer_as_mark p) = p
    \<and> has_bias_pattern (encode_bias thread a e) \<and> biased_locker (encode_bias thread a e) = thread
    \<and> mark_age (encode_bias thread a e) = a \<and> bias_epoch (encode_bias thread a e) = e
    \<and> is_cms_free_chunk (set_size_and_free sz) \<and> get_size (set_size_and_free sz) = sz"
proof -
  have "length (filter (\<lambda>b. b) [is_neutral m, has_bias_pattern m, has_locker m, has_monitor m \<and> \<not> is_marked m, is_marked m]) = 1"
    unfolding mark_states by (cases "bit m 0"; cases "bit m 1"; cases "bit m 2") simp_all
  then show ?thesis
    using encode_lock_state [OF assms(1)] encode_monitor_state [OF assms(1)] encode_pointer_state [OF assms(1), of ubl]
      encode_bias_state [OF assms(2-4)] free_chunk_state [OF assms(5)] by blast
qed

theorem mark_states_type_witness:
  "has_bias_pattern (encode_bias 1024 3 2) \<and> biased_locker (encode_bias 1024 3 2) = 1024 \<and> monitor (encode_monitor 1024) = 1024
    \<and> get_size (set_size_and_free 7) = 7"
proof -
  have "aligned 2 1024" "aligned 10 1024"
  proof -
    have "(1024 :: uintptr) = push_bit 10 1" by simp
    then have "\<not> bit (1024 :: uintptr) k" if "k < 10" for k using that by (simp only: bit_push_bit_iff) simp
    then show "aligned 2 1024" "aligned 10 1024" by (simp_all add: aligned_def)
  qed
  moreover have "(3 :: mark) AND NOT age_mask = 0" "(2 :: mark) AND NOT epoch_mask = 0" "(7 :: mark) AND NOT size_mask = 0"
    by (simp_all add: age_mask_value epoch_mask_value size_mask_def size_bits_def right_n_bits_mask mask_eq_exp_minus_1)
  ultimately show ?thesis using mark_states_type [of 1024 1024 3 2 7] by blast
qed

text \<open>
  C30: a collection may forget a mark that need not be preserved.  Without biased locking such a mark is
  unlocked and has no hash, so it agrees with the prototype in the lock bits, the bias bit and the
  hash; with biased locking the same holds when neither the mark nor its class is biased, and every
  mark of a biased class that is not biased itself is preserved.  The tests for a promotion failure
  and for a CMS scavenge agree and keep more: every mark the plain test keeps, and all biased ones.
\<close>

theorem mark_preserved:
  "(\<not> must_be_preserved ubl proto m \<longrightarrow> (ubl \<and> has_bias_pattern m)
      \<or> m AND (biased_lock_mask_in_place OR hash_mask_in_place) = prototype AND (biased_lock_mask_in_place OR hash_mask_in_place))
   \<and> (ubl \<and> has_bias_pattern proto \<and> \<not> has_bias_pattern m \<longrightarrow> must_be_preserved ubl proto m)
   \<and> must_be_preserved_for_cms_scavenge ubl proto m = must_be_preserved_for_promotion_failure ubl proto m
   \<and> must_be_preserved_for_promotion_failure ubl proto m = (must_be_preserved ubl proto m \<or> ubl \<and> has_bias_pattern m)"
  unfolding must_be_preserved_def must_be_preserved_with_bias_def must_be_preserved_for_cms_scavenge_def
    must_be_preserved_with_bias_for_cms_scavenge_def must_be_preserved_for_promotion_failure_def
    must_be_preserved_with_bias_for_promotion_failure_def
  using neutral_is_prototype [of m] by (cases ubl; cases "has_bias_pattern m"; cases "has_bias_pattern proto") simp_all

theorem mark_preserved_witness:
  "\<not> must_be_preserved False prototype (set_age prototype 3)
    \<and> set_age prototype 3 AND (biased_lock_mask_in_place OR hash_mask_in_place) = prototype AND (biased_lock_mask_in_place OR hash_mask_in_place)"
proof -
  have "\<not> must_be_preserved False prototype (set_age prototype 3)" by code_simp
  then show ?thesis using mark_preserved [of False prototype "set_age prototype 3"] by blast
qed

end
