(* ===== verification/Object_Lookup.thy ===== *)
theory Object_Lookup
  imports Oop_Recorder Growable_Array
begin

text \<open>
  \<^verbatim>\<open>ObjectLookup\<close> of \<^verbatim>\<open>code/oopRecorder.cpp\<close>: the deduplication of recorded oops.  Entries are kept in a
  growable array sorted by the address of their objects, descending, and found by binary search; a
  collection moves objects, so the array is sorted again when the number of collections has changed.
  What a handle refers to does not change, where the object is does: \<open>obj\<close> gives the object of a
  handle, a \<open>world\<close> the address of each object and the number of collections so far.  The local
  handle that \<^verbatim>\<open>JNIHandles::make_local\<close> would create is an argument.  The sorting operations of
  \<^verbatim>\<open>GrowableArray\<close> are here as well.
\<close>

section \<open>Sorting a growable array\<close>

text \<open>The order that \<^verbatim>\<open>qsort\<close> produces; elements that compare as equal keep their order.\<close>

fun insert_by :: "('a \<Rightarrow> 'a \<Rightarrow> int) \<Rightarrow> 'a \<Rightarrow> 'a list \<Rightarrow> 'a list" where
  "insert_by compare x [] = [x]"
| "insert_by compare x (y # ys) = (if compare x y \<le> 0 then x # y # ys else y # insert_by compare x ys)"

definition qsort :: "('a \<Rightarrow> 'a \<Rightarrow> int) \<Rightarrow> 'a list \<Rightarrow> 'a list" where
  "qsort compare xs = foldr (insert_by compare) xs []"

definition ga_sort :: "('a \<Rightarrow> 'a \<Rightarrow> int) \<Rightarrow> 'a growable_array \<Rightarrow> 'a growable_array" where
  "ga_sort compare ga = ga\<lparr>ga_data := qsort compare (take (ga_len ga) (ga_data ga)) @ drop (ga_len ga) (ga_data ga)\<rparr>"

text \<open>The blocks of \<open>stride\<close> elements are compared by their first elements.\<close>

definition ga_sort_stride :: "('a \<Rightarrow> 'a \<Rightarrow> int) \<Rightarrow> nat \<Rightarrow> 'a growable_array \<Rightarrow> 'a growable_array option" where
  "ga_sort_stride compare stride ga =
     (if stride = 0 then None
      else let n = ga_len ga div stride;
               blocks = map (\<lambda>i. take stride (drop (i * stride) (ga_data ga))) [0..<n]
           in Some (ga\<lparr>ga_data := concat (qsort (\<lambda>a b. compare (hd a) (hd b)) blocks) @ drop (n * stride) (ga_data ga)\<rparr>))"

definition clear_and_deallocate :: "'a growable_array \<Rightarrow> 'a growable_array" where
  "clear_and_deallocate ga = ga\<lparr>ga_len := 0, ga_data := []\<rparr>"

lemma insert_by_mset [simp]: "mset (insert_by compare x xs) = add_mset x (mset xs)"
  by (induction xs) auto

lemma qsort_mset [simp]: "mset (qsort compare xs) = mset xs"
  by (induction xs) (simp_all add: qsort_def)

lemma insert_by_sorted:
  assumes "\<And>a b. compare a b \<le> 0 \<or> compare b a \<le> 0" "\<And>a b c. compare a b \<le> 0 \<Longrightarrow> compare b c \<le> 0 \<Longrightarrow> compare a c \<le> 0"
  shows "sorted_wrt (\<lambda>a b. compare a b \<le> 0) xs \<Longrightarrow> sorted_wrt (\<lambda>a b. compare a b \<le> 0) (insert_by compare x xs)"
proof (induction xs)
  case (Cons y ys)
  have "set (insert_by compare x ys) = insert x (set ys)" by (metis insert_by_mset set_mset_add_mset_insert set_mset_mset)
  then show ?case using Cons assms by (auto intro: assms(2))
qed simp

lemma qsort_sorted:
  assumes "\<And>a b. compare a b \<le> 0 \<or> compare b a \<le> 0" "\<And>a b c. compare a b \<le> 0 \<Longrightarrow> compare b c \<le> 0 \<Longrightarrow> compare a c \<le> 0"
  shows "sorted_wrt (\<lambda>a b. compare a b \<le> 0) (qsort compare xs)"
proof (induction xs)
  case (Cons x xs)
  then show ?case using insert_by_sorted [of compare "qsort compare xs" x, OF assms] by (simp add: qsort_def)
qed (simp add: qsort_def)

lemma ga_sort_holds: "ga_wf ga \<Longrightarrow> holds ga (qsort compare (ga_contents ga)) (ga_sort compare ga)"
proof -
  assume wf: "ga_wf ga"
  have "length (qsort compare (ga_contents ga)) = ga_len ga" using wf by (metis length_contents qsort_mset size_mset)
  then show ?thesis using wf by (simp add: holds_def ga_wf_def ga_sort_def ga_contents_def)
qed

section \<open>The lookup table\<close>

record object_entry =
  oe_value :: handle
  oe_index :: nat

record object_lookup =
  ol_values :: "object_entry growable_array"
  ol_gc_count :: juint

record 'o world =
  w_address :: "'o \<Rightarrow> uintptr"
  w_total_collections :: nat

definition resolve :: "(handle \<Rightarrow> 'o) \<Rightarrow> 'o world \<Rightarrow> handle \<Rightarrow> uintptr" where
  "resolve obj w h = w_address w (obj h)"

definition oop_value :: "(handle \<Rightarrow> 'o) \<Rightarrow> 'o world \<Rightarrow> object_entry \<Rightarrow> uintptr" where
  "oop_value obj w e = resolve obj w (oe_value e)"

definition blank_entry :: object_entry where
  "blank_entry = \<lparr>oe_value = 0, oe_index = 0\<rparr>"

definition new_object_lookup :: "'o world \<Rightarrow> object_lookup" where
  "new_object_lookup w = \<lparr>ol_values = new_growable_array blank_entry 4 False, ol_gc_count = of_nat (w_total_collections w)\<rparr>"

definition sort_by_address :: "uintptr \<Rightarrow> uintptr \<Rightarrow> int" where
  "sort_by_address a b = (if b > a then 1 else if a > b then - 1 else 0)"

definition sort_entries_by_address :: "(handle \<Rightarrow> 'o) \<Rightarrow> 'o world \<Rightarrow> object_entry \<Rightarrow> object_entry \<Rightarrow> int" where
  "sort_entries_by_address obj w a b = sort_by_address (oop_value obj w a) (oop_value obj w b)"

definition sort_oop_by_address :: "(handle \<Rightarrow> 'o) \<Rightarrow> 'o world \<Rightarrow> uintptr \<Rightarrow> object_entry \<Rightarrow> int" where
  "sort_oop_by_address obj w a b = sort_by_address a (oop_value obj w b)"

definition maybe_resort :: "(handle \<Rightarrow> 'o) \<Rightarrow> 'o world \<Rightarrow> object_lookup \<Rightarrow> object_lookup" where
  "maybe_resort obj w ol =
     (if ol_gc_count ol \<noteq> of_nat (w_total_collections w)
      then ol\<lparr>ol_gc_count := of_nat (w_total_collections w), ol_values := ga_sort (sort_entries_by_address obj w) (ol_values ol)\<rparr>
      else ol)"

definition ol_find_index ::
    "handle \<Rightarrow> (handle \<Rightarrow> 'o) \<Rightarrow> 'o world \<Rightarrow> handle \<Rightarrow> object_lookup \<Rightarrow> oop_recorder \<Rightarrow> handle \<Rightarrow> (nat \<times> object_lookup \<times> oop_recorder) option" where
  "ol_find_index non_oop obj w local ol r handle =
     (if handle = 0 then Some (0, ol, r)
      else do {
        let object = resolve obj w handle;
        let ol = maybe_resort obj w ol;
        (found, location) \<leftarrow> find_binary (sort_oop_by_address obj w) (ol_values ol) object;
        if \<not> found
        then do {
          (index, r) \<leftarrow> or_allocate_oop_index non_oop r local;
          values \<leftarrow> insert_binary blank_entry (ol_values ol) location \<lparr>oe_value = local, oe_index = index\<rparr>;
          Some (index, ol\<lparr>ol_values := values\<rparr>, r)
        }
        else do {
          e \<leftarrow> ga_at (ol_values ol) location;
          Some (oe_index e, ol, r)
        }
      })"

text \<open>\<^verbatim>\<open>OopRecorder::find_index\<close>, with or without a lookup table.\<close>

definition recorder_find_index ::
    "handle \<Rightarrow> (handle \<Rightarrow> 'o) \<Rightarrow> 'o world \<Rightarrow> handle \<Rightarrow> object_lookup option \<Rightarrow> oop_recorder \<Rightarrow> handle
     \<Rightarrow> (nat \<times> object_lookup option \<times> oop_recorder) option" where
  "recorder_find_index non_oop obj w local lookup r h = (case lookup of
     Some ol \<Rightarrow> do { (i, ol, r) \<leftarrow> ol_find_index non_oop obj w local ol r h; Some (i, Some ol, r) }
   | None \<Rightarrow> do { (i, r) \<leftarrow> or_find_oop_index non_oop r h; Some (i, None, r) })"

section \<open>The invariant\<close>

abbreviation (input) descending :: "(handle \<Rightarrow> 'o) \<Rightarrow> 'o world \<Rightarrow> object_entry list \<Rightarrow> bool" where
  "descending obj w es \<equiv> sorted_wrt (\<lambda>a b. oop_value obj w a > oop_value obj w b) es"

definition lookup_ok :: "handle \<Rightarrow> (handle \<Rightarrow> 'o) \<Rightarrow> 'o world \<Rightarrow> object_lookup \<Rightarrow> oop_recorder \<Rightarrow> bool" where
  "lookup_ok non_oop obj w ol r \<longleftrightarrow> ga_wf (ol_values ol) \<and> \<not> ga_on_C_heap (ol_values ol) \<and> vr_inv non_oop (or_oops r)
     \<and> (let es = ga_contents (ol_values ol)
        in distinct (map (\<lambda>e. obj (oe_value e)) es) \<and> distinct (map oe_index es)
          \<and> (\<forall>e\<in>set es. 0 < oe_index e \<and> vr_at (or_oops r) (oe_index e) = Some (oe_value e))
          \<and> (\<exists>c\<le>w_total_collections w. ol_gc_count ol = of_nat c \<and> (c = w_total_collections w \<longrightarrow> descending obj w es)))"

definition bindings :: "(handle \<Rightarrow> 'o) \<Rightarrow> object_lookup \<Rightarrow> ('o \<times> nat) set" where
  "bindings obj ol = (\<lambda>e. (obj (oe_value e), oe_index e)) ` set (ga_contents (ol_values ol))"

lemma by_address: "sort_by_address a b > 0 \<longleftrightarrow> b > a" "sort_by_address a b < 0 \<longleftrightarrow> a > b" "sort_by_address a b = 0 \<longleftrightarrow> a = b"
  "sort_by_address a b \<le> 0 \<longleftrightarrow> b \<le> a" "sort_by_address a b \<ge> 0 \<longleftrightarrow> a \<le> b"
  by (auto simp: sort_by_address_def)

lemma descending_bisected: "descending obj w es \<Longrightarrow> bisected (sort_oop_by_address obj w) key es"
  unfolding bisected_def sort_oop_by_address_def by_address sorted_wrt_iff_nth_less by (blast intro: order.strict_trans1 order.strict_trans2 less_le_trans le_less_trans)

lemma distinct_descending:
  assumes "sorted_wrt (\<lambda>a b. oop_value obj w b \<le> oop_value obj w a) es" "distinct (map (\<lambda>e. obj (oe_value e)) es)" "inj (w_address w)"
  shows "descending obj w es"
  unfolding sorted_wrt_iff_nth_less
proof (intro allI impI)
  fix i j assume ij: "i < j" "j < length es"
  then have "obj (oe_value (es ! i)) \<noteq> obj (oe_value (es ! j))" using assms(2) by (auto simp: distinct_conv_nth)
  then have "oop_value obj w (es ! i) \<noteq> oop_value obj w (es ! j)" using assms(3) by (auto simp: oop_value_def resolve_def dest: injD)
  then show "oop_value obj w (es ! j) < oop_value obj w (es ! i)" using assms(1) ij by (fastforce simp: sorted_wrt_iff_nth_less)
qed

lemma resort_ok:
  assumes ok: "lookup_ok non_oop obj w ol r" and tc: "w_total_collections w < 2 ^ 32" "inj (w_address w)"
  defines "ol' \<equiv> maybe_resort obj w ol"
  shows "lookup_ok non_oop obj w ol' r" "descending obj w (ga_contents (ol_values ol'))" "bindings obj ol' = bindings obj ol"
    "ga_len (ol_values ol') = ga_len (ol_values ol)" "ol_gc_count ol' = of_nat (w_total_collections w)"
proof -
  let ?es = "ga_contents (ol_values ol)"
  have wf: "ga_wf (ol_values ol)" "\<not> ga_on_C_heap (ol_values ol)" and d: "distinct (map (\<lambda>e. obj (oe_value e)) ?es)" "distinct (map oe_index ?es)"
    and at: "\<forall>e\<in>set ?es. 0 < oe_index e \<and> vr_at (or_oops r) (oe_index e) = Some (oe_value e)"
    and inv: "vr_inv non_oop (or_oops r)" using ok by (simp_all add: lookup_ok_def Let_def)
  obtain c where c: "c \<le> w_total_collections w" "ol_gc_count ol = of_nat c" "c = w_total_collections w \<Longrightarrow> descending obj w ?es"
    using ok by (auto simp: lookup_ok_def Let_def)
  have "lookup_ok non_oop obj w ol' r \<and> descending obj w (ga_contents (ol_values ol')) \<and> bindings obj ol' = bindings obj ol
    \<and> ga_len (ol_values ol') = ga_len (ol_values ol) \<and> ol_gc_count ol' = of_nat (w_total_collections w)"
  proof (cases "ol_gc_count ol = of_nat (w_total_collections w)")
    case True
    have "c < 2 ^ LENGTH(32)" "w_total_collections w < 2 ^ LENGTH(32)" using c(1) tc(1) by simp_all
    then have "c = w_total_collections w" using True c(2) unat_of_nat_small [where 'a = 32] by metis
    then show ?thesis using True ok c(3) by (simp add: ol'_def maybe_resort_def)
  next
    case False
    let ?cmp = "sort_entries_by_address obj w" and ?qs = "qsort (sort_entries_by_address obj w) ?es"
    have v: "ol_values ol' = ga_sort ?cmp (ol_values ol)" and g: "ol_gc_count ol' = of_nat (w_total_collections w)"
      using False by (simp_all add: ol'_def maybe_resort_def)
    have h: "ga_wf (ol_values ol')" "ga_contents (ol_values ol') = ?qs" "\<not> ga_on_C_heap (ol_values ol')"
      using ga_sort_holds [OF wf(1), of ?cmp] wf(2) by (simp_all add: v holds_def)
    have m: "mset ?qs = mset ?es" by simp
    then have st: "set ?qs = set ?es" by (metis set_mset_mset)
    have dq: "distinct (map (\<lambda>e. obj (oe_value e)) ?qs)" "distinct (map oe_index ?qs)"
      using d m by (metis mset_map mset_eq_imp_distinct_iff)+
    have "sorted_wrt (\<lambda>a b. ?cmp a b \<le> 0) ?qs" by (rule qsort_sorted) (auto simp: sort_entries_by_address_def by_address)
    then have "descending obj w ?qs"
      using distinct_descending [OF _ dq(1) tc(2)] by (simp add: sort_entries_by_address_def by_address)
    moreover have "ga_len (ol_values ol') = ga_len (ol_values ol)" by (simp add: v ga_sort_def)
    ultimately show ?thesis using h dq at inv g st by (auto simp: lookup_ok_def Let_def bindings_def)
  qed
  then show "lookup_ok non_oop obj w ol' r" "descending obj w (ga_contents (ol_values ol'))" "bindings obj ol' = bindings obj ol"
    "ga_len (ol_values ol') = ga_len (ol_values ol)" "ol_gc_count ol' = of_nat (w_total_collections w)" by blast+
qed

lemma insert_descending:
  assumes "descending obj w es" "place_of (sort_oop_by_address obj w) (oop_value obj w e) es False k"
  shows "descending obj w (take k es @ e # drop k es)" "\<forall>x\<in>set es. oop_value obj w x \<noteq> oop_value obj w e"
proof -
  have lo: "\<forall>i<k. i < length es \<longrightarrow> oop_value obj w (es ! i) > oop_value obj w e"
    and hi: "\<forall>i. k \<le> i \<longrightarrow> i < length es \<longrightarrow> oop_value obj w (es ! i) < oop_value obj w e" and k: "k \<le> length es"
    using assms(2) unfolding place_of_def sort_oop_by_address_def by_address by (auto simp: le_less)
  have t: "\<forall>x\<in>set (take k es). oop_value obj w x > oop_value obj w e" using lo by (auto simp: in_set_conv_nth)
  have d: "\<forall>x\<in>set (drop k es). oop_value obj w x < oop_value obj w e" using hi by (auto simp: in_set_conv_nth)
  have "sorted_wrt (\<lambda>a b. oop_value obj w a > oop_value obj w b) (take k es @ drop k es)" using assms(1) by simp
  then show "descending obj w (take k es @ e # drop k es)" using t d by (auto simp only: sorted_wrt_append sorted_wrt.simps set_simps)
  show "\<forall>x\<in>set es. oop_value obj w x \<noteq> oop_value obj w e"
    using t d by (metis (no_types, lifting) Un_iff append_take_drop_id order_less_irrefl set_append)
qed

lemma later_world:
  assumes "lookup_ok non_oop obj w ol r" "w_total_collections w \<le> w_total_collections w'"
    "w_total_collections w = w_total_collections w' \<longrightarrow> w_address w' = w_address w"
  shows "lookup_ok non_oop obj w' ol r"
proof -
  have "oop_value obj w' = oop_value obj w" if "w_total_collections w = w_total_collections w'"
    using assms(3) that by (simp add: oop_value_def resolve_def fun_eq_iff)
  moreover obtain c where "c \<le> w_total_collections w" "ol_gc_count ol = of_nat c"
    "c = w_total_collections w \<longrightarrow> descending obj w (ga_contents (ol_values ol))"
    using assms(1) by (auto simp: lookup_ok_def Let_def)
  ultimately have "\<exists>c\<le>w_total_collections w'. ol_gc_count ol = of_nat c
      \<and> (c = w_total_collections w' \<longrightarrow> descending obj w' (ga_contents (ol_values ol)))"
    using assms(2) by (intro exI [of _ c]) auto
  then show ?thesis using assms(1) by (simp add: lookup_ok_def Let_def)
qed

lemma lookup_ok_insert:
  fixes obj w ol
  defines "es \<equiv> ga_contents (ol_values ol)"
  assumes ok: "lookup_ok non_oop obj w ol r" "ol_gc_count ol = of_nat (w_total_collections w)" "descending obj w es"
    and place: "place_of (sort_oop_by_address obj w) (oop_value obj w e) es False k"
    and r': "vr_inv non_oop (or_oops r')" "vr_table (or_oops r') = vr_table (or_oops r) @ [oe_value e]" "oe_index e = Suc (length (vr_table (or_oops r)))"
    and vs: "holds (ol_values ol) (take k es @ e # drop k es) vs"
  shows "lookup_ok non_oop obj w (ol\<lparr>ol_values := vs\<rparr>) r'"
    "bindings obj (ol\<lparr>ol_values := vs\<rparr>) = insert (obj (oe_value e), oe_index e) (bindings obj ol)"
    "ga_len vs = Suc (ga_len (ol_values ol))"
proof -
  have wf: "ga_wf (ol_values ol)" "\<not> ga_on_C_heap (ol_values ol)"
    and d: "distinct (map (\<lambda>e. obj (oe_value e)) es)" "distinct (map oe_index es)"
    and at: "\<forall>e\<in>set es. 0 < oe_index e \<and> vr_at (or_oops r) (oe_index e) = Some (oe_value e)"
    using ok(1) by (simp_all add: lookup_ok_def Let_def es_def)
  have ins: "descending obj w (take k es @ e # drop k es)" "\<forall>x\<in>set es. oop_value obj w x \<noteq> oop_value obj w e"
    by (rule insert_descending [OF ok(3) place])+
  have bound: "oe_index x < oe_index e" "vr_at (or_oops r') (oe_index x) = Some (oe_value x)" if x: "x \<in> set es" for x
  proof -
    obtain m where m: "oe_index x = Suc m" using at x by (metis gr0_implies_Suc)
    then have "array_get (vr_table (or_oops r)) m = Some (oe_value x)" using at x by (metis vr_at_table)
    then show "oe_index x < oe_index e" "vr_at (or_oops r') (oe_index x) = Some (oe_value x)"
      using m r'(2,3) by (auto simp: vr_at_table mem_simps nth_append)
  qed
  have set': "set (take k es @ e # drop k es) = insert e (set es)" by (metis append_take_drop_id list.set(2) set_append Un_insert_right)
  have m': "mset (take k es @ e # drop k es) = mset (e # es)" by simp (metis append_take_drop_id mset_append)
  have "oe_index e \<notin> oe_index ` set es" using bound(1) by (metis imageE order_less_irrefl)
  moreover have "obj (oe_value e) \<notin> (\<lambda>e. obj (oe_value e)) ` set es"
    using ins(2) unfolding oop_value_def resolve_def by (metis (mono_tags, lifting) imageE)
  ultimately have "distinct (map (\<lambda>e. obj (oe_value e)) (e # es))" "distinct (map oe_index (e # es))" using d by simp_all
  then have d': "distinct (map (\<lambda>e. obj (oe_value e)) (take k es @ e # drop k es))" "distinct (map oe_index (take k es @ e # drop k es))"
    using m' by (metis mset_map mset_eq_imp_distinct_iff)+
  have c: "ga_wf vs" "ga_contents vs = take k es @ e # drop k es" "\<not> ga_on_C_heap vs" using vs wf(2) by (simp_all add: holds_def)
  have "vr_at (or_oops r') (oe_index e) = Some (oe_value e)" using r'(2,3) by (simp add: vr_at_table mem_simps)
  then show "lookup_ok non_oop obj w (ol\<lparr>ol_values := vs\<rparr>) r'"
    using c r' d' ins(1) set' bound(2) at ok(2) unfolding lookup_ok_def Let_def by auto
  show "bindings obj (ol\<lparr>ol_values := vs\<rparr>) = insert (obj (oe_value e), oe_index e) (bindings obj ol)"
    using c(2) set' by (simp add: bindings_def es_def)
  have "k \<le> length es" using place by (simp add: place_of_def)
  then show "ga_len vs = Suc (ga_len (ol_values ol))"
    using length_contents [OF c(1)] length_contents [OF wf(1)] c(2) by (simp add: es_def)
qed

lemma find_step:
  assumes ok: "lookup_ok non_oop obj w ol r" and w: "w_total_collections w < 2 ^ 32" "inj (w_address w)"
    and local: "h \<noteq> 0 \<longrightarrow> obj local = obj h" and len: "ga_len (ol_values ol) < 2 ^ 30"
  shows "succeeds (ol_find_index non_oop obj w local ol r h) (\<lambda>(i, ol', r'). lookup_ok non_oop obj w ol' r'
    \<and> bindings obj ol \<subseteq> bindings obj ol' \<and> (h = 0 \<longrightarrow> i = 0) \<and> (h \<noteq> 0 \<longrightarrow> (obj h, i) \<in> bindings obj ol')
    \<and> ga_len (ol_values ol') \<le> Suc (ga_len (ol_values ol)))"
proof (cases "h = 0")
  case True
  then show ?thesis using ok by (simp add: ol_find_index_def)
next
  case False
  define ol1 where "ol1 = maybe_resort obj w ol"
  note res = resort_ok [OF ok w, folded ol1_def]
  let ?es = "ga_contents (ol_values ol1)" and ?key = "resolve obj w h"
  have wf: "ga_wf (ol_values ol1)" "\<not> ga_on_C_heap (ol_values ol1)" and inv: "vr_inv non_oop (or_oops r)"
    using res(1) by (simp_all add: lookup_ok_def Let_def)
  have le: "ga_len (ol_values ol1) \<le> 2 ^ 30" "ga_len (ol_values ol1) < 2 ^ 30" using res(4) len by simp_all
  obtain fd k where f: "find_binary (sort_oop_by_address obj w) (ol_values ol1) ?key = Some (fd, k)"
    "place_of (sort_oop_by_address obj w) ?key ?es fd k"
    using find_binary_place [OF wf(1) le(1) descending_bisected [OF res(2), of ?key]] by (auto simp: succeeds_iff)
  show ?thesis
  proof (cases fd)
    case True
    then have k: "k < length ?es" "oop_value obj w (?es ! k) = ?key"
      using f(2) unfolding place_of_def sort_oop_by_address_def by_address by auto
    then have "obj (oe_value (?es ! k)) = obj h" using w(2) by (auto simp: oop_value_def resolve_def dest: injD)
    moreover have "?es ! k \<in> set ?es" using k(1) by simp
    ultimately have "(obj h, oe_index (?es ! k)) \<in> bindings obj ol1" unfolding bindings_def by force
    moreover have "ga_at (ol_values ol1) k = Some (?es ! k)" using contents_nth [OF wf(1)] k(1) wf(1) by (simp add: ga_at_def)
    ultimately show ?thesis using False True f(1) res by (simp add: ol_find_index_def flip: ol1_def)
  next
    case notfound: False
    obtain i r1 where a: "or_allocate_oop_index non_oop r local = Some (i, r1)" "vr_inv non_oop (or_oops r1)"
      "vr_table (or_oops r1) = vr_table (or_oops r) @ [local]" "i = Suc (length (vr_table (or_oops r)))"
      using allocate_index_step [OF inv, of local] by (auto simp: succeeds_iff or_allocate_oop_index_def)
    define e where "e = \<lparr>oe_value = local, oe_index = i\<rparr>"
    have place: "place_of (sort_oop_by_address obj w) (oop_value obj w e) ?es False k"
      using f(2) notfound local False by (simp add: e_def oop_value_def resolve_def)
    have kl: "k \<le> ga_len (ol_values ol1)" using f(2) wf(1) by (simp add: place_of_def)
    obtain vs where v: "insert_binary blank_entry (ol_values ol1) k e = Some vs" "holds (ol_values ol1) (take k ?es @ e # drop k ?es) vs"
      using insert_binary_inserts [OF wf(1) le(2) kl, of blank_entry e] wf(2) by (auto simp: succeeds_iff)
    note ins = lookup_ok_insert [OF res(1,5,2) place a(2) _ _ v(2)]
    have "lookup_ok non_oop obj w (ol1\<lparr>ol_values := vs\<rparr>) r1" "ga_len vs = Suc (ga_len (ol_values ol1))"
      "bindings obj (ol1\<lparr>ol_values := vs\<rparr>) = insert (obj h, i) (bindings obj ol1)"
      using ins a(3,4) local False by (simp_all add: e_def)
    then show ?thesis using False notfound f(1) a(1) v(1) res(3,4) by (simp add: ol_find_index_def e_def flip: ol1_def) auto
  qed
qed

section \<open>Sequences of lookups\<close>

text \<open>A call in a world, with the local handle it would create.\<close>

type_synonym 'o lookup_call = "'o world \<times> handle \<times> handle"

primrec run_lookups :: "handle \<Rightarrow> (handle \<Rightarrow> 'o) \<Rightarrow> 'o lookup_call list \<Rightarrow> object_lookup option \<times> oop_recorder
    \<Rightarrow> (nat list \<times> object_lookup option \<times> oop_recorder) option" where
  "run_lookups non_oop obj [] st = Some ([], st)"
| "run_lookups non_oop obj (call # calls) st = (case call of (w, local, h) \<Rightarrow> do {
     (i, st) \<leftarrow> recorder_find_index non_oop obj w local (fst st) (snd st) h;
     (is, st) \<leftarrow> run_lookups non_oop obj calls st;
     Some (i # is, st)
   })"

fun calls_ok :: "(handle \<Rightarrow> 'o) \<Rightarrow> 'o world \<Rightarrow> 'o lookup_call list \<Rightarrow> bool" where
  "calls_ok obj w0 [] \<longleftrightarrow> True"
| "calls_ok obj w0 ((w, local, h) # calls) \<longleftrightarrow> w_total_collections w0 \<le> w_total_collections w
     \<and> (w_total_collections w0 = w_total_collections w \<longrightarrow> w_address w = w_address w0)
     \<and> w_total_collections w < 2 ^ 32 \<and> inj (w_address w) \<and> (h \<noteq> 0 \<longrightarrow> obj local = obj h) \<and> calls_ok obj w calls"

lemma run_lookups_spec:
  assumes "lookup_ok non_oop obj w0 ol r" "calls_ok obj w0 calls" "ga_len (ol_values ol) + length calls < 2 ^ 30"
  shows "\<exists>is w ol' r'. run_lookups non_oop obj calls (Some ol, r) = Some (is, Some ol', r') \<and> length is = length calls
    \<and> lookup_ok non_oop obj w ol' r' \<and> bindings obj ol \<subseteq> bindings obj ol'
    \<and> (\<forall>k<length calls. case calls ! k of (w, local, h) \<Rightarrow> if h = 0 then is ! k = 0 else (obj h, is ! k) \<in> bindings obj ol')"
  using assms
proof (induction calls arbitrary: w0 ol r)
  case Nil
  then show ?case by auto
next
  case (Cons call calls)
  obtain w local h where call: "call = (w, local, h)" by (cases call)
  have ok: "lookup_ok non_oop obj w ol r" using later_world [OF Cons.prems(1)] Cons.prems(2) call by simp
  obtain i ol1 r1 where s: "ol_find_index non_oop obj w local ol r h = Some (i, ol1, r1)" "lookup_ok non_oop obj w ol1 r1"
    "bindings obj ol \<subseteq> bindings obj ol1" "h = 0 \<longrightarrow> i = 0" "h \<noteq> 0 \<longrightarrow> (obj h, i) \<in> bindings obj ol1"
    "ga_len (ol_values ol1) \<le> Suc (ga_len (ol_values ol))"
    using find_step [OF ok, of h local] Cons.prems call by (auto simp: succeeds_iff)
  have "calls_ok obj w calls" "ga_len (ol_values ol1) + length calls < 2 ^ 30" using Cons.prems(2,3) s(6) call by simp_all
  from Cons.IH [OF s(2) this] obtain js w' ol2 r2 where t: "run_lookups non_oop obj calls (Some ol1, r1) = Some (js, Some ol2, r2)"
    "length js = length calls" "lookup_ok non_oop obj w' ol2 r2" "bindings obj ol1 \<subseteq> bindings obj ol2"
    "\<forall>k<length calls. case calls ! k of (w, local, h) \<Rightarrow> if h = 0 then js ! k = 0 else (obj h, js ! k) \<in> bindings obj ol2"
    by blast
  have "run_lookups non_oop obj (call # calls) (Some ol, r) = Some (i # js, Some ol2, r2)"
    using s(1) t(1) call by (simp add: recorder_find_index_def)
  moreover have "\<forall>k<length (call # calls). case (call # calls) ! k of (w, local, h) \<Rightarrow>
      if h = 0 then (i # js) ! k = 0 else (obj h, (i # js) ! k) \<in> bindings obj ol2"
    using s(4,5) t(4,5) call by (auto simp: less_Suc_eq_0_disj nth_Cons')
  ultimately show ?case using t s(3) by (intro exI [of _ "i # js"] exI [of _ w'] exI [of _ ol2] exI [of _ r2]) auto
qed

lemma bindings_one_to_one:
  assumes "lookup_ok non_oop obj w ol r" "(a, i) \<in> bindings obj ol" "(b, j) \<in> bindings obj ol"
  shows "i = j \<longleftrightarrow> a = b"
proof -
  let ?es = "ga_contents (ol_values ol)"
  have "inj_on (\<lambda>e. obj (oe_value e)) (set ?es)" "inj_on oe_index (set ?es)"
    using assms(1) by (simp_all add: lookup_ok_def Let_def distinct_map)
  then show ?thesis using assms(2,3) by (auto simp: bindings_def dest: inj_onD)
qed

lemma binding_recorded:
  assumes "lookup_ok non_oop obj w ol r" "(a, i) \<in> bindings obj ol"
  shows "\<exists>x. or_oop_at r i = Some x \<and> obj x = a"
  using assms by (auto simp: bindings_def lookup_ok_def Let_def or_oop_at_def)

section \<open>Properties\<close>

lemma new_lookup_ok: "lookup_ok non_oop obj w (new_object_lookup w) (new_oop_recorder arena)"
  by (auto simp: lookup_ok_def new_object_lookup_def new_oop_recorder_def new_growable_array_def ga_wf_def ga_contents_def new_value_recorder_inv)

text \<open>
  C26: a recorder with deduplication gives two handles the same index exactly when they refer to the
  same object, over any sequence of lookups and whatever collections move the objects between
  them; null has the index 0, and the oop recorded at an index refers to the object that was
  looked up.  Collections are counted in 32 bits, so there are fewer than \<open>2\<^sup>3\<^sup>2\<close> of them.
\<close>

theorem object_lookup_dedup:
  assumes "calls_ok obj w0 calls" "length calls < 2 ^ 30"
  shows "\<exists>is lookup r. run_lookups non_oop obj calls (Some (new_object_lookup w0), new_oop_recorder arena) = Some (is, lookup, r)
    \<and> length is = length calls
    \<and> (\<forall>k<length calls. case calls ! k of (w, local, h) \<Rightarrow>
        if h = 0 then is ! k = 0 else \<exists>x. or_oop_at r (is ! k) = Some x \<and> obj x = obj h)
    \<and> (\<forall>k<length calls. \<forall>k'<length calls. case (calls ! k, calls ! k') of ((_, _, h), (_, _, h')) \<Rightarrow>
        h \<noteq> 0 \<longrightarrow> h' \<noteq> 0 \<longrightarrow> (is ! k = is ! k') = (obj h = obj h'))"
proof -
  have "ga_len (ol_values (new_object_lookup w0)) = 0" by (simp add: new_object_lookup_def new_growable_array_def)
  then obtain js w ol r where t: "run_lookups non_oop obj calls (Some (new_object_lookup w0), new_oop_recorder arena) = Some (js, Some ol, r)"
    "length js = length calls" "lookup_ok non_oop obj w ol r"
    "\<forall>k<length calls. case calls ! k of (w, local, h) \<Rightarrow> if h = 0 then js ! k = 0 else (obj h, js ! k) \<in> bindings obj ol"
    using run_lookups_spec [OF new_lookup_ok [of non_oop obj w0 arena] assms(1)] assms(2) by auto
  have b: "h \<noteq> 0 \<Longrightarrow> (obj h, js ! k) \<in> bindings obj ol" "h = 0 \<Longrightarrow> js ! k = 0"
    if "k < length calls" "calls ! k = (w', local, h)" for k w' local h
    using t(4) that by (auto split: if_splits)
  show ?thesis
  proof (intro exI conjI)
    show "\<forall>k<length calls. case calls ! k of (w, local, h) \<Rightarrow> if h = 0 then js ! k = 0 else \<exists>x. or_oop_at r (js ! k) = Some x \<and> obj x = obj h"
      using b binding_recorded [OF t(3)] by (auto split: prod.splits)
    show "\<forall>k<length calls. \<forall>k'<length calls. case (calls ! k, calls ! k') of ((_, _, h), (_, _, h')) \<Rightarrow>
        h \<noteq> 0 \<longrightarrow> h' \<noteq> 0 \<longrightarrow> (js ! k = js ! k') = (obj h = obj h')"
      using b(1) bindings_one_to_one [OF t(3)] by (auto split: prod.splits)
  qed (fact t)+
qed

text \<open>Two handles of one object and one of another; between the calls a collection swaps the addresses.\<close>

theorem object_lookup_dedup_witness:
  "\<exists>is lookup r. run_lookups 0xffff (\<lambda>h. h = 0x30)
     [(\<lparr>w_address = (\<lambda>o'. if o' then 0x1000 else 0x2000), w_total_collections = 0\<rparr>, 0x11, 0x10),
      (\<lparr>w_address = (\<lambda>o'. if o' then 0x1000 else 0x2000), w_total_collections = 0\<rparr>, 0x30, 0x30),
      (\<lparr>w_address = (\<lambda>o'. if o' then 0x2000 else 0x1000), w_total_collections = 1\<rparr>, 0x21, 0x20)]
     (Some (new_object_lookup \<lparr>w_address = (\<lambda>o'. if o' then 0x1000 else 0x2000), w_total_collections = 0\<rparr>), new_oop_recorder True)
     = Some (is, lookup, r) \<and> is ! 0 = is ! 2 \<and> is ! 0 \<noteq> is ! 1"
proof -
  let ?w = "\<lparr>w_address = (\<lambda>o'. if o' then 0x1000 else 0x2000), w_total_collections = 0\<rparr> :: bool world"
  let ?calls = "[(?w, 0x11, 0x10), (?w, 0x30, 0x30), (\<lparr>w_address = (\<lambda>o'. if o' then 0x2000 else 0x1000), w_total_collections = 1\<rparr>, 0x21, 0x20)]
    :: bool lookup_call list"
  have "inj (\<lambda>o'. if o' then 0x1000 else 0x2000 :: uintptr)" "inj (\<lambda>o'. if o' then 0x2000 else 0x1000 :: uintptr)" by (auto simp: inj_def)
  then have ok: "calls_ok (\<lambda>h. h = 0x30) ?w ?calls" by simp
  from object_lookup_dedup [OF ok, of "0xffff" True]
  obtain js lookup r where t: "run_lookups 0xffff (\<lambda>h. h = 0x30) ?calls (Some (new_object_lookup ?w), new_oop_recorder True) = Some (js, lookup, r)"
    "\<forall>k<length ?calls. \<forall>k'<length ?calls. case (?calls ! k, ?calls ! k') of ((_, _, h), (_, _, h')) \<Rightarrow>
        h \<noteq> 0 \<longrightarrow> h' \<noteq> 0 \<longrightarrow> (js ! k = js ! k') = ((h = 0x30) = (h' = 0x30))" by auto
  have "js ! 0 = js ! 2" "js ! 0 \<noteq> js ! 1" using t(2) [rule_format, of 0 2] t(2) [rule_format, of 0 1] by simp_all
  then show ?thesis using t(1) by blast
qed

end
