(* ===== verification/Spec2Isabelle.thy ===== *)
theory Spec2Isabelle
  imports Bit_Map_Heap Quick_Sort Utf8 Bit_Map_Par Bit_Map_Sets Bit_Map_Scan Bit_Map_2D Compressed_Stream Oop_Recorder Debug_Info Growable_Array Pc_Desc Debug_Info_Rec Recorder_Table Scope_Desc Task_Queue Task_Queue_Par Task_Queue_Set Task_Terminator Segmented_Stack Mark_Word Object_Lookup
begin

text \<open>
  \<^bold>\<open>What this library is.\<close>

  A verification library for the C++ sources of the HotSpot virtual machine of this repository (\<^verbatim>\<open>src/src/share/vm\<close>,
  to which the file names below are relative).  It models the parts that carry compiled debug information
  from a compiler to a stack walker, the parts that a parallel collection is built from, and the containers
  both use.  Every modelled function is a HOL function of the same or a similar name that computes what the
  C++ function computes; the theorems are about these functions.

  The platform is linux-amd64 in the product build: pointers and \<^verbatim>\<open>size_t\<close> have 64 bits, \<^verbatim>\<open>assert\<close> is compiled
  out, \<^verbatim>\<open>guarantee\<close> and \<^verbatim>\<open>ShouldNotReachHere\<close> stop the VM.  Machine integers whose overflow matters are words of
  their width or have the reduction written out; other lengths and indexes are natural numbers.  A C++
  array is a list, or a block of a heap where freeing and sharing matter.  An access outside of an array, a read of a freed
  block and a stop of the VM are \<open>None\<close>, so a theorem that an operation \<open>succeeds\<close> also says that it is memory safe.

  \<^bold>\<open>How the parts work together.\<close>

  A compiler describes each safepoint of a method to a \<^verbatim>\<open>DebugInformationRecorder\<close>.  The recorder writes scope
  values, monitors and object graphs to a \<^verbatim>\<open>CompressedWriteStream\<close>, numbers oops and metadata in an \<^verbatim>\<open>OopRecorder\<close>
  and keeps a table of \<^verbatim>\<open>PcDesc\<close>s; it shares pieces that repeat.  The data are copied to an \<^verbatim>\<open>nmethod\<close>, where a
  stack walker finds the \<^verbatim>\<open>PcDesc\<close> of a pc and decodes a \<^verbatim>\<open>ScopeDesc\<close> from it.  \<open>Scope_Desc\<close> composes the two sides.

  The threads of a parallel collection take tasks from their own \<^verbatim>\<open>GenericTaskQueue\<close> and steal from others through a
  \<^verbatim>\<open>GenericTaskQueueSet\<close>; a \<^verbatim>\<open>ParallelTaskTerminator\<close> tells them when no work is left.  They mark objects in a \<^verbatim>\<open>BitMap\<close>
  and in header words, and keep displaced headers in a \<^verbatim>\<open>Stack\<close>.  \<^verbatim>\<open>QuickSort\<close> orders the method tables of classes;
  the UTF-8 functions are behind the symbols and strings of the VM.

  \<^bold>\<open>Theories.\<close>

  \<^item> \<open>Hs_Prelude\<close>: machine types, checked arrays, the option monad with \<open>succeeds\<close>, loops and their rules.
  \<^item> \<open>Global_Definitions\<close>: \<^verbatim>\<open>utilities/globalDefinitions.hpp\<close> - masks, powers of two, alignment, \<^verbatim>\<open>log2_intptr\<close>, halves of
    a \<^verbatim>\<open>jlong\<close>.  The comment on \<^verbatim>\<open>log2_intptr\<close> of negative numbers is for 32 bits.
  \<^item> \<open>Bit_Map\<close>, \<open>Bit_Map_Heap\<close>, \<open>Bit_Map_Par\<close>, \<open>Bit_Map_Sets\<close>, \<open>Bit_Map_Scan\<close>, \<open>Bit_Map_2D\<close>: \<^verbatim>\<open>utilities/bitMap.hpp\<close>,
    \<^verbatim>\<open>bitMap.inline.hpp\<close>, \<^verbatim>\<open>bitMap.cpp\<close>.  A bitmap stands for the set of its bits.  Range updates, the word-wise set operations,
    the searches and \<^verbatim>\<open>iterate\<close> do on this set what they say; threads that race in \<^verbatim>\<open>par_set_bit\<close> have one winner in every
    interleaving.  \<open>Bit_Map_Heap\<close> has \<^verbatim>\<open>resize\<close> with the pointer of the bitmap and its \<^verbatim>\<open>ArrayAllocator\<close>
    (\<^verbatim>\<open>memory/allocation.inline.hpp\<close>): it refines the resize of the words, except where the allocator frees the array in use.
  \<^item> \<open>Compressed_Stream\<close>: \<^verbatim>\<open>code/compressedStream.cpp\<close> - every kind of value is read back as it was written, and \<^verbatim>\<open>write_int\<close> follows
    the UNSIGNED5 grammar.
  \<^item> \<open>Oop_Recorder\<close>, \<open>Object_Lookup\<close>: \<^verbatim>\<open>code/oopRecorder.cpp\<close> - the index cache never changes what is found; deduplication by
    address survives collections that move objects.
  \<^item> \<open>Growable_Array\<close>: \<^verbatim>\<open>utilities/growableArray.hpp\<close> - the array refines the list of its elements; binary search and sorted
    insertion.
  \<^item> \<open>Debug_Info\<close>: \<^verbatim>\<open>code/location.hpp\<close>, \<^verbatim>\<open>code/debugInfo.cpp\<close> - cyclic object graphs are written in finitely many steps and read back.
  \<^item> \<open>Debug_Info_Rec\<close>, \<open>Recorder_Table\<close>: \<^verbatim>\<open>code/debugInfoRec.cpp\<close> - the recorder with both ways of sharing pieces, and the invariant of
    the \<^verbatim>\<open>PcDesc\<close> table over every sequence of calls; the merging of descriptors in \<^verbatim>\<open>end_scopes\<close> keeps the lookups.
  \<^item> \<open>Pc_Desc\<close>: \<^verbatim>\<open>code/pcDesc.hpp\<close> and \<^verbatim>\<open>find_pc_desc\<close> of \<^verbatim>\<open>code/nmethod.cpp\<close> - cache, coarse steps and fine steps find the descriptor of a pc.
  \<^item> \<open>Scope_Desc\<close>: \<^verbatim>\<open>code/scopeDesc.cpp\<close> and the copies in \<^verbatim>\<open>code/nmethod.cpp\<close> - what was recorded is what is decoded.
  \<^item> \<open>Task_Queue\<close>, \<open>Task_Queue_Par\<close>, \<open>Task_Queue_Set\<close>, \<open>Task_Terminator\<close>: \<^verbatim>\<open>utilities/taskqueue.hpp\<close> and \<^verbatim>\<open>taskqueue.cpp\<close>.  The queue by one
    thread with its overflow stack; every interleaving of the owner and the thieves, where each operation takes effect at one
    step, no task is lost or delivered twice and every operation ends; the random choice of a victim, whose loops end because
    the generator has full period; the termination protocol as a step relation with safety and liveness.
  \<^item> \<open>Segmented_Stack\<close>: \<^verbatim>\<open>utilities/stack.inline.hpp\<close> - the linked segments refine a stack and lose no block.
  \<^item> \<open>Mark_Word\<close>: \<^verbatim>\<open>oops/markOop.hpp\<close> - the header word as a tagged union, its fields, and the marks a collection has to preserve.
  \<^item> \<open>Quick_Sort\<close>: \<^verbatim>\<open>utilities/quickSort.hpp\<close> - the sort ends, stays inside the array, sorts, and the idempotent version keeps a
    sorted array.
  \<^item> \<open>Utf8\<close>: \<^verbatim>\<open>utilities/utf8.cpp\<close> - modified UTF-8 is read back as written, supplementary characters are decoded, the quoted text is
    safe on any zero-terminated bytes; \<^verbatim>\<open>from_quoted_ascii\<close> does not return.

  State is a \<^verbatim>\<open>record\<close> with the fields of the class, a pointer that matters for aliasing is an address.  A function that
  changes its object returns the new one.  Concurrent code is a step relation with one access to shared memory per step, in the
  order of the source; the fences of the source are there to give this order.

  \<^bold>\<open>Interfaces.\<close>

  Where a part relies on another or several operations share a contract, the contract is a locale, interpreted on the functions
  of the model: \<open>range_writer\<close> and \<open>word_wise\<close> for the loops over words of a bitmap, \<open>bit_store\<close> for two-dimensional bitmaps, \<open>codec\<close>
  with \<open>recoded_codec\<close> and \<open>paired_codec\<close> for the values of a stream, \<open>index_table\<close> for the recorders, \<open>comparator\<close> for sorted arrays,
  \<open>drain\<close> and \<open>lifo\<close> for the stack and its iterator.

  Code outside of the sources is an argument: the content and address of new memory (\<open>fresh\<close>, \<open>place\<close>), the order of a comparison,
  where a collection moves objects, what \<^verbatim>\<open>qsort\<close> of the C library promises.

  \<^bold>\<open>Bounds.\<close>

  Growable arrays have less than \<open>2 ^ 30\<close> elements, so that doubling the capacity stays inside an \<^verbatim>\<open>int\<close>.  The tag of a task queue
  has 32 bits and distinguishes the states of a run of less than \<open>2 ^ 32\<close> steps; the ring has \<open>2 ^ k\<close> slots for every \<open>k\<close> that the index type
  allows, the source uses 17.  Sizes of bitmaps stay 63 below \<open>2 ^ 64\<close>.  Recorded lists have less than \<open>2 ^ 31\<close> elements.
  Sizes of streams, of the descriptor table and of strings are natural numbers where the source has \<^verbatim>\<open>int\<close>; an overflow
  would need a buffer of a gigabyte.  The loops of \<^verbatim>\<open>from_quoted_ascii\<close> run on fuel, because they do not end; all other loops
  are total functions, or partial functions with a theorem that they return.

  \<^bold>\<open>Not modelled.\<close>

  The collectors themselves, the interpreter, the compilers, the runtime, the class files and the code cache depend on the layout of
  every object of the heap, on machine code, on threads and frames of the machine, or on the operating system.  In the files that
  are modelled, printing, verification, statistics and code of the debug build are left out.  The weak memory of processors without
  the fences, the 32-bit layouts and the other platforms are left out as well.
\<close>

end
